(* ===== verification/Prelude.thy ===== *)
theory Prelude
  imports Main "HOL-Library.Word"
begin

text \<open>
  Shared vocabulary of the development: machine-integer synonyms (\<^verbatim>\<open>inc/types.h\<close>,
  \<^verbatim>\<open>stdint.h\<close>), the outcome monad in which every kernel routine is written, its weakest
  precondition, and the byte-level layout of C structures inside a disk block.

  A kernel routine is a function from the state to an \<open>outcome\<close>: it returns a value and the
  new state, or it faults. Faults keep the ways apart in which C code does not return:
  \<^item> \<open>Panic m\<close>: \<^verbatim>\<open>panic(m)\<close>, which prints and never returns;
  \<^item> \<open>Spin\<close>: a spin lock is held by another processor and the routine busy-waits;
  \<^item> \<open>Block\<close>: the routine sleeps on an event that the running process itself cannot produce;
  \<^item> \<open>Undef m\<close>: undefined behaviour of C (null dereference, out-of-range array access,
    a value used that was never assigned).
\<close>

unbundle bit_operations_syntax

named_theorems wp_simps \<open>weakest-precondition equations of the monad's combinators\<close>
named_theorems layout_simps \<open>lengths and offsets of byte layouts\<close>

type_synonym u8 = "8 word"
type_synonym u16 = "16 word"
type_synonym u32 = "32 word"
type_synonym u64 = "64 word"


section \<open>Outcomes and the kernel monad\<close>

datatype fault = Panic string | Spin | Block | Undef string

datatype ('s, 'a) outcome = Ok 'a 's | Fault fault

type_synonym ('s, 'a) kop = "'s \<Rightarrow> ('s, 'a) outcome"

definition kret :: "'a \<Rightarrow> ('s, 'a) kop" where
  "kret a = (\<lambda>s. Ok a s)"

definition kbind :: "('s, 'a) kop \<Rightarrow> ('a \<Rightarrow> ('s, 'b) kop) \<Rightarrow> ('s, 'b) kop" where
  "kbind m f = (\<lambda>s. case m s of Ok a s' \<Rightarrow> f a s' | Fault e \<Rightarrow> Fault e)"

definition kthen :: "('s, unit) kop \<Rightarrow> ('s, 'b) kop \<Rightarrow> ('s, 'b) kop" where
  "kthen m n = kbind m (\<lambda>_. n)"

definition kfault :: "fault \<Rightarrow> ('s, 'a) kop" where
  "kfault e = (\<lambda>s. Fault e)"

definition kget :: "('s \<Rightarrow> 'a) \<Rightarrow> ('s, 'a) kop" where
  "kget f = (\<lambda>s. Ok (f s) s)"

definition kmod :: "('s \<Rightarrow> 's) \<Rightarrow> ('s, unit) kop" where
  "kmod f = (\<lambda>s. Ok () (f s))"

definition kwhen :: "bool \<Rightarrow> ('s, unit) kop \<Rightarrow> ('s, unit) kop" where
  "kwhen b m = (if b then m else kret ())"

text \<open>\<^verbatim>\<open>panic(m)\<close> of \<^verbatim>\<open>kern/console.c\<close>: prints the message and loops.\<close>

abbreviation panic :: "string \<Rightarrow> ('s, 'a) kop" where
  "panic m \<equiv> kfault (Panic m)"

text \<open>A routine on a part of the state (a lock, a list heap), run on the whole state.\<close>

definition zoom :: "('s \<Rightarrow> 't) \<Rightarrow> ('t \<Rightarrow> 's \<Rightarrow> 's) \<Rightarrow> ('t, 'a) kop \<Rightarrow> ('s, 'a) kop" where
  "zoom g p m = (\<lambda>s. case m (g s) of Ok a t \<Rightarrow> Ok a (p t s) | Fault e \<Rightarrow> Fault e)"

text \<open>Element \<open>i\<close> of an array of the state; an index outside the array is undefined behaviour.\<close>

definition kidx :: "('s \<Rightarrow> 'x list) \<Rightarrow> nat \<Rightarrow> ('s, 'x) kop" where
  "kidx g i = (\<lambda>s. if i < length (g s) then Ok (g s ! i) s else Fault (Undef ''array index''))"

definition kupd :: "('s \<Rightarrow> 'x list) \<Rightarrow> ('x list \<Rightarrow> 's \<Rightarrow> 's) \<Rightarrow> nat \<Rightarrow> ('x \<Rightarrow> 'x)
    \<Rightarrow> ('s, unit) kop" where
  "kupd g p i f = (\<lambda>s. if i < length (g s) then Ok () (p ((g s)[i := f (g s ! i)]) s)
     else Fault (Undef ''array index''))"

lemma kidx_run [simp]: "i < length (g s) \<Longrightarrow> kidx g i s = Ok (g s ! i) s"
  by (simp add: kidx_def)

lemma kupd_run [simp]:
  "i < length (g s) \<Longrightarrow> kupd g p i f s = Ok () (p ((g s)[i := f (g s ! i)]) s)"
  by (simp add: kupd_def)

text \<open>The loops \<^verbatim>\<open>for (x in xs) body(x)\<close>, and \<open>n\<close> repetitions collecting the results.\<close>

primrec kfor :: "'x list \<Rightarrow> ('x \<Rightarrow> ('s, unit) kop) \<Rightarrow> ('s, unit) kop" where
  "kfor [] f = kret ()"
| "kfor (x # xs) f = kthen (f x) (kfor xs f)"

primrec krepeat :: "nat \<Rightarrow> ('s, 'a) kop \<Rightarrow> ('s, 'a list) kop" where
  "krepeat 0 m = kret []"
| "krepeat (Suc n) m = kbind m (\<lambda>a. kbind (krepeat n m) (\<lambda>as. kret (a # as)))"

lemma kbind_cong [fundef_cong]:
  "m s = m' s \<Longrightarrow> (\<And>a s'. m' s = Ok a s' \<Longrightarrow> f a s' = f' a s') \<Longrightarrow> s = t
    \<Longrightarrow> kbind m f s = kbind m' f' t"
  by (auto simp: kbind_def split: outcome.split)

lemma kthen_cong [fundef_cong]:
  "m s = m' s \<Longrightarrow> (\<And>s'. m' s = Ok () s' \<Longrightarrow> n s' = n' s') \<Longrightarrow> s = t
    \<Longrightarrow> kthen m n s = kthen m' n' t"
  by (auto simp: kthen_def kbind_def split: outcome.split)

lemma kbind_assoc: "kbind (kbind m f) g = kbind m (\<lambda>a. kbind (f a) g)"
  by (rule ext) (simp add: kbind_def split: outcome.split)

lemma kthen_assoc: "kthen (kthen m n) p = kthen m (kthen n p)"
  by (simp add: kthen_def kbind_assoc)

lemma kfor_append: "kfor (xs @ ys) f = kthen (kfor xs f) (kfor ys f)"
  by (induction xs) (simp_all add: kthen_def kbind_def kret_def kthen_assoc[unfolded kthen_def kbind_def])

lemma kbind_kret [simp]: "kbind m kret = m"
  by (rule ext) (simp add: kbind_def kret_def split: outcome.split)

lemmas kop_defs = kret_def kbind_def kthen_def kfault_def kget_def kmod_def kwhen_def zoom_def

text \<open>Running a routine on a known outcome; these evaluate straight-line code.\<close>

lemma kret_run [simp]: "kret a s = Ok a s"
  by (simp add: kret_def)

lemma kfault_run [simp]: "kfault e s = Fault e"
  by (simp add: kfault_def)

lemma kget_run [simp]: "kget f s = Ok (f s) s"
  by (simp add: kget_def)

lemma kmod_run [simp]: "kmod f s = Ok () (f s)"
  by (simp add: kmod_def)

lemma kbind_Ok [simp]: "m s = Ok a s' \<Longrightarrow> kbind m f s = f a s'"
  by (simp add: kbind_def)

lemma kbind_Fault [simp]: "m s = Fault e \<Longrightarrow> kbind m f s = Fault e"
  by (simp add: kbind_def)

lemma kthen_Ok [simp]: "m s = Ok () s' \<Longrightarrow> kthen m n s = n s'"
  by (simp add: kthen_def)

lemma kthen_Fault [simp]: "m s = Fault e \<Longrightarrow> kthen m n s = Fault e"
  by (simp add: kthen_def)

lemma kwhen_True [simp]: "kwhen True m = m"
  by (simp add: kwhen_def)

lemma kwhen_False [simp]: "kwhen False m = kret ()"
  by (simp add: kwhen_def)

lemma zoom_Ok [simp]: "m (g s) = Ok a t \<Longrightarrow> zoom g p m s = Ok a (p t s)"
  by (simp add: zoom_def)

lemma zoom_Fault [simp]: "m (g s) = Fault e \<Longrightarrow> zoom g p m s = Fault e"
  by (simp add: zoom_def)

lemma kbind_eq_Ok:
  "kbind m f s = Ok b s'' \<longleftrightarrow> (\<exists>a s'. m s = Ok a s' \<and> f a s' = Ok b s'')"
  by (auto simp: kbind_def split: outcome.splits)

lemma kthen_eq_Ok: "kthen m n s = Ok b s'' \<longleftrightarrow> (\<exists>s'. m s = Ok () s' \<and> n s' = Ok b s'')"
  by (auto simp: kthen_def kbind_eq_Ok)

lemma zoom_eq_Ok: "zoom g p m s = Ok a s' \<longleftrightarrow> (\<exists>t. m (g s) = Ok a t \<and> s' = p t s)"
  by (auto simp: zoom_def split: outcome.splits)

lemma kfault_eq_Ok [simp]: "kfault e s \<noteq> Ok a s'"
  by simp

lemma kget_eq_Ok: "kget f s = Ok a s' \<longleftrightarrow> a = f s \<and> s' = s"
  by auto

lemma kmod_eq_Ok: "kmod f s = Ok u s' \<longleftrightarrow> s' = f s"
  by auto

lemma kwhen_eq_Ok: "kwhen b m s = Ok u s' \<longleftrightarrow> (if b then m s = Ok () s' else s' = s)"
  by (auto simp: kwhen_def)

lemmas run_Ok = kbind_eq_Ok kthen_eq_Ok zoom_eq_Ok kget_eq_Ok kmod_eq_Ok kwhen_eq_Ok


section \<open>Weakest preconditions\<close>

text \<open>
  \<open>kwp m E Q s\<close>: the routine \<open>m\<close> started in \<open>s\<close> returns with \<open>Q\<close>, or it faults in
  a way that \<open>E\<close> admits. With \<open>E = (\<lambda>_. False)\<close> this is total correctness.
\<close>

definition kwp :: "('s, 'a) kop \<Rightarrow> (fault \<Rightarrow> bool) \<Rightarrow> ('a \<Rightarrow> 's \<Rightarrow> bool) \<Rightarrow> 's \<Rightarrow> bool" where
  "kwp m E Q s = (case m s of Ok a s' \<Rightarrow> Q a s' | Fault e \<Rightarrow> E e)"

abbreviation kok :: "('s, 'a) kop \<Rightarrow> ('a \<Rightarrow> 's \<Rightarrow> bool) \<Rightarrow> 's \<Rightarrow> bool" where
  "kok m Q s \<equiv> kwp m (\<lambda>_. False) Q s"

lemma kwp_kret [wp_simps]: "kwp (kret a) E Q s = Q a s"
  by (simp add: kwp_def)

lemma kwp_Ok_const [wp_simps]: "kwp (Ok a) E Q s = Q a s"
  by (simp add: kwp_def)

lemma kwp_Fault_const [wp_simps]: "kwp (\<lambda>s. Fault e) E Q s = E e"
  by (simp add: kwp_def)

lemma kwp_kbind [wp_simps]: "kwp (kbind m f) E Q s = kwp m E (\<lambda>a. kwp (f a) E Q) s"
  by (simp add: kwp_def kbind_def split: outcome.split)

lemma kwp_kthen [wp_simps]: "kwp (kthen m n) E Q s = kwp m E (\<lambda>_. kwp n E Q) s"
  by (simp add: kthen_def kwp_kbind)

lemma kwp_kfault [wp_simps]: "kwp (kfault e) E Q s = E e"
  by (simp add: kwp_def)

lemma kwp_kget [wp_simps]: "kwp (kget f) E Q s = Q (f s) s"
  by (simp add: kwp_def)

lemma kwp_kmod [wp_simps]: "kwp (kmod f) E Q s = Q () (f s)"
  by (simp add: kwp_def)

lemma kwp_kwhen [wp_simps]: "kwp (kwhen b m) E Q s = (if b then kwp m E Q s else Q () s)"
  by (simp add: kwhen_def kwp_kret)

lemma kwp_if [wp_simps]:
  "kwp (if b then m else n) E Q s = (if b then kwp m E Q s else kwp n E Q s)"
  by simp

lemma kwp_zoom [wp_simps]:
  "kwp (zoom g p m) E Q s = kwp m E (\<lambda>a t. Q a (p t s)) (g s)"
  by (simp add: kwp_def zoom_def split: outcome.split)

lemma kwp_kidx [wp_simps]: "i < length (g s) \<Longrightarrow> kwp (kidx g i) E Q s = Q (g s ! i) s"
  by (simp add: kwp_def)

lemma kwp_kupd [wp_simps]:
  "i < length (g s) \<Longrightarrow> kwp (kupd g p i f) E Q s = Q () (p ((g s)[i := f (g s ! i)]) s)"
  by (simp add: kwp_def)

lemma kwp_mono:
  "kwp m E Q s \<Longrightarrow> (\<And>a s'. Q a s' \<Longrightarrow> Q' a s') \<Longrightarrow> (\<And>e. E e \<Longrightarrow> E' e) \<Longrightarrow> kwp m E' Q' s"
  by (auto simp: kwp_def split: outcome.splits)

lemma kwp_conseq: "kwp m E Q s \<Longrightarrow> (\<And>a s'. Q a s' \<Longrightarrow> Q' a s') \<Longrightarrow> kwp m E Q' s"
  by (auto simp: kwp_def split: outcome.splits)

lemma kok_E: "kok m Q s \<Longrightarrow> (\<And>a s'. Q a s' \<Longrightarrow> Q' a s') \<Longrightarrow> kwp m E Q' s"
  by (auto simp: kwp_def split: outcome.splits)

lemma kwp_Ok: "m s = Ok a s' \<Longrightarrow> kwp m E Q s = Q a s'"
  by (simp add: kwp_def)

lemma kwp_OkD: "kwp m E Q s \<Longrightarrow> m s = Ok a s' \<Longrightarrow> Q a s'"
  by (simp add: kwp_def)

lemma kwp_total_Ok:
  assumes "kwp m (\<lambda>_. False) Q s"
  obtains a s' where "m s = Ok a s'" "Q a s'"
  using assms by (auto simp: kwp_def split: outcome.splits)

lemma kwp_conj: "kwp m E Q s \<Longrightarrow> kwp m E Q' s \<Longrightarrow> kwp m E (\<lambda>a s'. Q a s' \<and> Q' a s') s"
  by (auto simp: kwp_def split: outcome.splits)


section \<open>Words\<close>

lemma u32_of_nat_eq:
  "a < 2 ^ 32 \<Longrightarrow> b < 2 ^ 32 \<Longrightarrow> (of_nat a :: u32) = of_nat b \<longleftrightarrow> a = b"
  by (simp add: word_of_nat_eq_iff take_bit_nat_eq_self)

lemma unat_of_nat_u32: "a < 2 ^ 32 \<Longrightarrow> unat (of_nat a :: u32) = a"
  by (simp add: unat_of_nat)


lemma lt_bits: "unat (a :: u64) < 2 ^ k \<longleftrightarrow> (\<forall>n\<ge>k. \<not> bit a n)"
proof -
  have "unat a < 2 ^ k \<longleftrightarrow> unat (take_bit k a) = unat a" by (simp add: unsigned_take_bit_eq take_bit_nat_eq_self_iff)
  also have "\<dots> \<longleftrightarrow> take_bit k a = a" by (simp add: word_unat_eq_iff)
  also have "\<dots> \<longleftrightarrow> (\<forall>n\<ge>k. \<not> bit a n)"
  proof
    assume "take_bit k a = a"
    then show "\<forall>n\<ge>k. \<not> bit a n" by (metis bit_take_bit_iff linorder_not_less)
  next
    assume h: "\<forall>n\<ge>k. \<not> bit a n"
    show "take_bit k a = a" by (rule bit_word_eqI) (use h in \<open>auto simp: bit_take_bit_iff not_less\<close>, metis h linorder_not_less)
  qed
  finally show ?thesis .
qed


section \<open>Bytes of a block\<close>

text \<open>
  C reads and writes structures through a cast of the block's byte array. \<open>slice\<close> and
  \<open>splice\<close> are the two accesses; \<open>le16\<close> and \<open>le32\<close> are the little-endian encodings of
  the AArch64 target.
\<close>

definition slice :: "'a list \<Rightarrow> nat \<Rightarrow> nat \<Rightarrow> 'a list" where
  "slice d off n = take n (drop off d)"

definition splice :: "'a list \<Rightarrow> nat \<Rightarrow> 'a list \<Rightarrow> 'a list" where
  "splice d off bs = take off d @ bs @ drop (off + length bs) d"

lemma length_slice [simp]: "length (slice d off n) = min n (length d - off)"
  by (simp add: slice_def min.commute)

lemma length_splice [simp]: "off + length bs \<le> length d \<Longrightarrow> length (splice d off bs) = length d"
  by (simp add: splice_def)

lemma nth_slice: "i < n \<Longrightarrow> off + i < length d \<Longrightarrow> slice d off n ! i = d ! (off + i)"
  by (simp add: slice_def)

lemma nth_splice:
  "off + length bs \<le> length d \<Longrightarrow> i < length d \<Longrightarrow>
    splice d off bs ! i = (if off \<le> i \<and> i < off + length bs then bs ! (i - off) else d ! i)"
  by (auto simp: splice_def nth_append)

lemma slice_splice_same:
  "off + length bs \<le> length d \<Longrightarrow> n = length bs \<Longrightarrow> slice (splice d off bs) off n = bs"
  by (simp add: slice_def splice_def)

lemma slice_splice_other:
  assumes "off + length bs \<le> length d" "o2 + n \<le> length d" "o2 + n \<le> off \<or> off + length bs \<le> o2"
  shows "slice (splice d off bs) o2 n = slice d o2 n"
  using assms by (auto intro!: nth_equalityI simp: nth_slice nth_splice)

lemma splice_splice_same:
  "off + length bs \<le> length d \<Longrightarrow> length cs = length bs \<Longrightarrow>
    splice (splice d off bs) off cs = splice d off cs"
  by (intro nth_equalityI) (auto simp: nth_splice)

lemma splice_slice_id: "off + n \<le> length d \<Longrightarrow> splice d off (slice d off n) = d"
  by (intro nth_equalityI) (auto simp: nth_splice nth_slice)

definition le16 :: "u16 \<Rightarrow> u8 list" where
  "le16 x = [ucast x, ucast (drop_bit 8 x)]"

definition unle16 :: "u8 list \<Rightarrow> u16" where
  "unle16 b = ucast (b ! 0) OR push_bit 8 (ucast (b ! 1))"

definition le32 :: "u32 \<Rightarrow> u8 list" where
  "le32 x = [ucast x, ucast (drop_bit 8 x), ucast (drop_bit 16 x), ucast (drop_bit 24 x)]"

definition unle32 :: "u8 list \<Rightarrow> u32" where
  "unle32 b = ucast (b ! 0) OR push_bit 8 (ucast (b ! 1))
     OR push_bit 16 (ucast (b ! 2)) OR push_bit 24 (ucast (b ! 3))"

lemma length_le16 [simp, layout_simps]: "length (le16 x) = 2"
  by (simp add: le16_def)

lemma length_le32 [simp, layout_simps]: "length (le32 x) = 4"
  by (simp add: le32_def)

lemma unle16_le16 [simp]: "unle16 (le16 x) = x"
  by (rule bit_word_eqI) (auto simp: le16_def unle16_def bit_simps)

lemma unle32_le32 [simp]: "unle32 (le32 x) = x"
proof (rule bit_word_eqI)
  fix n assume "n < LENGTH(32)"
  then have "n < 8 \<or> 8 \<le> n \<and> n < 16 \<or> 16 \<le> n \<and> n < 24 \<or> 24 \<le> n \<and> n < 32" by auto
  then show "bit (unle32 (le32 x)) n = bit x n"
    by (auto simp: le32_def unle32_def bit_simps)
qed

end
