(* ===== verification/Linked_List.thy ===== *)
theory Linked_List
  imports Prelude
begin

text \<open>
  The intrusive circular doubly linked list of \<^verbatim>\<open>kern/list.c\<close> and \<^verbatim>\<open>inc/list.h\<close>.
  A heap maps a node address to its \<^verbatim>\<open>struct list_head\<close>; a pointer is an \<open>option\<close>, with
  \<open>None\<close> for \<^verbatim>\<open>NULL\<close>, and following \<open>None\<close> is undefined behaviour. The predicate
  \<open>dlist h q xs\<close> says that the nodes \<open>xs\<close> hang off the head \<open>q\<close> in that order. The
  locale \<open>deque\<close> is the interface the buffer cache, the disk request queue and the
  scheduler rely on; \<open>lh\<close> interprets it on the C routines.
\<close>

section \<open>The C routines\<close>

record 'a list_head =
  lnext :: "'a option"
  lprev :: "'a option"

type_synonym 'a lheap = "'a \<Rightarrow> 'a list_head"

definition deref :: "'a option \<Rightarrow> ('s, 'a) kop" where
  "deref p = (case p of None \<Rightarrow> kfault (Undef ''null pointer'') | Some a \<Rightarrow> kret a)"

definition get_next :: "'a \<Rightarrow> ('a lheap, 'a option) kop" where
  "get_next a = kget (\<lambda>h. lnext (h a))"

definition get_prev :: "'a \<Rightarrow> ('a lheap, 'a option) kop" where
  "get_prev a = kget (\<lambda>h. lprev (h a))"

definition set_next :: "'a \<Rightarrow> 'a option \<Rightarrow> ('a lheap, unit) kop" where
  "set_next a v = kmod (\<lambda>h. h(a := (h a)\<lparr>lnext := v\<rparr>))"

definition set_prev :: "'a \<Rightarrow> 'a option \<Rightarrow> ('a lheap, unit) kop" where
  "set_prev a v = kmod (\<lambda>h. h(a := (h a)\<lparr>lprev := v\<rparr>))"

definition list_push_front :: "'a \<Rightarrow> 'a \<Rightarrow> ('a lheap, unit) kop" where
  "list_push_front que ptr =
     kbind (get_next que) (\<lambda>n.
     if n = Some que then
       kthen (set_next que (Some ptr))
       (kthen (set_prev que (Some ptr))
       (kthen (set_next ptr (Some que))
       (set_prev ptr (Some que))))
     else
       kthen (set_next ptr n)
       (kthen (set_prev ptr (Some que))
       (kbind (get_next que) (\<lambda>qn.
        kbind (deref qn) (\<lambda>a.
        kthen (set_prev a (Some ptr))
        (set_next que (Some ptr)))))))"

definition list_push_back :: "'a \<Rightarrow> 'a \<Rightarrow> ('a lheap, unit) kop" where
  "list_push_back que ptr =
     kbind (get_next que) (\<lambda>n.
     if n = Some que then
       kthen (set_next que (Some ptr))
       (kthen (set_prev que (Some ptr))
       (kthen (set_next ptr (Some que))
       (set_prev ptr (Some que))))
     else
       kbind (get_prev que) (\<lambda>p.
       kthen (set_prev ptr p)
       (kthen (set_next ptr (Some que))
       (kbind (get_prev que) (\<lambda>qp.
        kbind (deref qp) (\<lambda>a.
        kthen (set_next a (Some ptr))
        (set_prev que (Some ptr))))))))"

definition list_pop_front :: "'a \<Rightarrow> ('a lheap, 'a option) kop" where
  "list_pop_front que =
     kbind (get_next que) (\<lambda>ptr.
     kbind (deref ptr) (\<lambda>a.
     kbind (get_next a) (\<lambda>n.
     kthen (set_next que n)
     (kbind (get_next que) (\<lambda>qn.
      kbind (deref qn) (\<lambda>b.
      kthen (set_prev b (Some que))
      (kret ptr)))))))"

definition list_pop_back :: "'a \<Rightarrow> ('a lheap, 'a option) kop" where
  "list_pop_back que =
     kbind (get_prev que) (\<lambda>ptr.
     kbind (deref ptr) (\<lambda>a.
     kbind (get_prev a) (\<lambda>p.
     kthen (set_prev que p)
     (kbind (get_prev que) (\<lambda>qp.
      kbind (deref qp) (\<lambda>b.
      kthen (set_next b (Some que))
      (kret ptr)))))))"

definition list_front :: "'a \<Rightarrow> ('a lheap, 'a option) kop" where
  "list_front que = get_next que"

definition list_back :: "'a \<Rightarrow> ('a lheap, 'a option) kop" where
  "list_back que = get_prev que"

definition list_empty :: "'a \<Rightarrow> ('a lheap, bool) kop" where
  "list_empty que = kbind (get_next que) (\<lambda>n. kret (n = Some que))"

definition list_init :: "'a \<Rightarrow> ('a lheap, unit) kop" where
  "list_init que = kthen (set_prev que (Some que)) (set_next que (Some que))"

definition list_delete :: "'a \<Rightarrow> ('a lheap, unit) kop" where
  "list_delete que =
     kbind (get_prev que) (\<lambda>p.
     kbind (get_next que) (\<lambda>n.
     kbind (deref p) (\<lambda>a.
     kthen (set_next a n)
     (kbind (get_next que) (\<lambda>n2.
      kbind (get_prev que) (\<lambda>p2.
      kbind (deref n2) (\<lambda>b.
      kthen (set_prev b p2)
      (kthen (set_prev que None)
      (set_next que None)))))))))"

text \<open>
  The traversal loops \<^verbatim>\<open>for (it = q->next; it != q; it = it->next)\<close> that the clients run
  to find a node, with fuel: a chain that never meets the head again loops for ever.
\<close>

fun list_find_next :: "nat \<Rightarrow> ('a \<Rightarrow> bool) \<Rightarrow> 'a \<Rightarrow> 'a option \<Rightarrow> ('a lheap, 'a option) kop" where
  "list_find_next 0 P q it h = Fault Spin"
| "list_find_next (Suc k) P q it h =
     (case it of None \<Rightarrow> Fault (Undef ''null pointer'')
      | Some a \<Rightarrow> if a = q then Ok None h
                  else if P a then Ok (Some a) h
                  else list_find_next k P q (lnext (h a)) h)"

fun list_find_prev :: "nat \<Rightarrow> ('a \<Rightarrow> bool) \<Rightarrow> 'a \<Rightarrow> 'a option \<Rightarrow> ('a lheap, 'a option) kop" where
  "list_find_prev 0 P q it h = Fault Spin"
| "list_find_prev (Suc k) P q it h =
     (case it of None \<Rightarrow> Fault (Undef ''null pointer'')
      | Some a \<Rightarrow> if a = q then Ok None h
                  else if P a then Ok (Some a) h
                  else list_find_prev k P q (lprev (h a)) h)"

lemmas list_op_defs = deref_def get_next_def get_prev_def set_next_def set_prev_def


section \<open>Abstraction\<close>

fun dseg :: "'a lheap \<Rightarrow> 'a \<Rightarrow> 'a list \<Rightarrow> 'a \<Rightarrow> bool" where
  "dseg h a [] b = (lnext (h a) = Some b \<and> lprev (h b) = Some a)"
| "dseg h a (x # xs) b = (lnext (h a) = Some x \<and> lprev (h x) = Some a \<and> dseg h x xs b)"

definition dlist :: "'a lheap \<Rightarrow> 'a \<Rightarrow> 'a list \<Rightarrow> bool" where
  "dlist h q xs = (distinct (q # xs) \<and> dseg h q xs q)"

lemma dseg_append: "dseg h a (xs @ y # ys) b \<longleftrightarrow> dseg h a xs y \<and> dseg h y ys b"
  by (induction xs arbitrary: a) auto

lemma dseg_first: "dseg h a xs b \<Longrightarrow> lnext (h a) = Some (hd (xs @ [b]))"
  by (cases xs) auto

lemma dseg_last: "dseg h a xs b \<Longrightarrow> lprev (h b) = Some (last (a # xs))"
  by (induction xs arbitrary: a) auto

lemma dseg_frame:
  assumes "dseg h a xs b" "lnext (h' a) = lnext (h a)" "lprev (h' b) = lprev (h b)"
    "\<And>x. x \<in> set xs \<Longrightarrow> h' x = h x"
  shows "dseg h' a xs b"
  using assms by (induction xs arbitrary: a) auto

lemma dlist_frame: "dlist h q xs \<Longrightarrow> (\<And>a. a \<in> set (q # xs) \<Longrightarrow> h' a = h a) \<Longrightarrow> dlist h' q xs"
  by (auto simp: dlist_def intro: dseg_frame)

lemma dlist_next: "dlist h q xs \<Longrightarrow> lnext (h q) = Some (hd (xs @ [q]))"
  by (auto simp: dlist_def dest: dseg_first)

lemma dlist_prev: "dlist h q xs \<Longrightarrow> lprev (h q) = Some (last (q # xs))"
  unfolding dlist_def by (drule conjunct2, drule dseg_last)

lemma dlist_distinct: "dlist h q xs \<Longrightarrow> distinct (q # xs)"
  by (simp add: dlist_def)

lemma dlist_unique: "dlist h q xs \<Longrightarrow> dlist h q ys \<Longrightarrow> xs = ys"
proof -
  have "dseg h a xs q \<Longrightarrow> dseg h a ys q \<Longrightarrow> q \<notin> set xs \<Longrightarrow> q \<notin> set ys \<Longrightarrow> xs = ys" for a
    by (induction xs arbitrary: a ys; case_tac ys) auto
  then show "dlist h q xs \<Longrightarrow> dlist h q ys \<Longrightarrow> xs = ys" by (auto simp: dlist_def)
qed

text \<open>The four link writes of an insertion between two neighbours, and of a removal.\<close>

lemma dlist_insert:
  assumes "dlist h q (as @ bs)" "p \<notin> set (q # as @ bs)"
    and l: "l = last (q # as)" and r: "r = hd (bs @ [q])"
    and p: "lnext (h' p) = Some r" "lprev (h' p) = Some l"
    and ln: "lnext (h' l) = Some p" and rp: "lprev (h' r) = Some p"
    and lp: "l \<noteq> r \<Longrightarrow> lprev (h' l) = lprev (h l)" and rn: "l \<noteq> r \<Longrightarrow> lnext (h' r) = lnext (h r)"
    and other: "\<And>a. a \<notin> {p, l, r} \<Longrightarrow> h' a = h a"
  shows "dlist h' q (as @ p # bs)"
proof -
  have d: "distinct (q # as @ bs)" "dseg h q (as @ bs) q" using assms(1) by (auto simp: dlist_def)
  have left: "dseg h' q as p"
  proof (cases as rule: rev_cases)
    case Nil then show ?thesis using ln p l by simp
  next
    case (snoc cs c)
    have lc: "l = c" using l snoc by simp
    then have s1: "dseg h q cs l" using d(2) snoc by (simp add: dseg_append)
    have nr: "l \<noteq> r" using d(1) lc r snoc by (cases bs) auto
    have rn': "r = q \<or> r \<in> set bs" using r by (cases bs) auto
    have "dseg h' q cs l"
    proof (rule dseg_frame[OF s1])
      show "lnext (h' q) = lnext (h q)"
      proof (cases "q = r")
        case True then show ?thesis using rn nr by simp
      next
        case False then show ?thesis using other[of q] assms(2) d(1) lc snoc by auto
      qed
      show "lprev (h' l) = lprev (h l)" using lp nr by simp
      show "\<And>x. x \<in> set cs \<Longrightarrow> h' x = h x"
        using other rn' assms(2) d(1) lc snoc by fastforce
    qed
    then show ?thesis using ln p lc snoc by (simp add: dseg_append)
  qed
  have right: "dseg h' p bs q"
  proof (cases bs)
    case Nil then show ?thesis using rp p r by simp
  next
    case (Cons c cs)
    have rc: "r = c" using r Cons by simp
    then have s1: "dseg h r cs q" using d(2) Cons by (simp add: dseg_append)
    have nr: "l \<noteq> r" using d(1) rc l Cons by (cases as rule: rev_cases) auto
    have ln': "l = q \<or> l \<in> set as" using l by (cases as rule: rev_cases) auto
    have "dseg h' r cs q"
    proof (rule dseg_frame[OF s1])
      show "lnext (h' r) = lnext (h r)" using rn nr by simp
      show "lprev (h' q) = lprev (h q)"
      proof (cases "q = l")
        case True then show ?thesis using lp nr by simp
      next
        case False then show ?thesis using other[of q] assms(2) d(1) rc Cons by auto
      qed
      show "\<And>x. x \<in> set cs \<Longrightarrow> h' x = h x"
        using other ln' assms(2) d(1) rc Cons by fastforce
    qed
    then show ?thesis using rp p rc Cons by simp
  qed
  show ?thesis using left right d(1) assms(2) by (auto simp: dlist_def dseg_append)
qed

lemma dlist_remove:
  assumes "dlist h q (as @ x # bs)" and l: "l = last (q # as)" and r: "r = hd (bs @ [q])"
    and ln: "lnext (h' l) = Some r" and rp: "lprev (h' r) = Some l"
    and lp: "l \<noteq> r \<Longrightarrow> lprev (h' l) = lprev (h l)" and rn: "l \<noteq> r \<Longrightarrow> lnext (h' r) = lnext (h r)"
    and other: "\<And>a. a \<notin> {x, l, r} \<Longrightarrow> h' a = h a"
  shows "dlist h' q (as @ bs)"
proof -
  have d: "distinct (q # as @ x # bs)" "dseg h q as x" "dseg h x bs q"
    using assms(1) by (auto simp: dlist_def dseg_append)
  have ln': "l = q \<or> l \<in> set as" using l by (cases as rule: rev_cases) auto
  have rn': "r = q \<or> r \<in> set bs" using r by (cases bs) auto
  show ?thesis
  proof (cases bs)
    case Nil
    have rq: "r = q" using r Nil by simp
    show ?thesis
    proof (cases as rule: rev_cases)
      case Nil2: Nil
      then show ?thesis using ln rp l rq Nil by (simp add: dlist_def)
    next
      case (snoc cs c)
      have lc: "l = c" using l snoc by simp
      have nr: "l \<noteq> r" using d(1) lc rq snoc by auto
      have "dseg h q cs l" using d(2) lc snoc by (simp add: dseg_append)
      then have "dseg h' q cs l"
      proof (rule dseg_frame)
        show "lnext (h' q) = lnext (h q)" using rn nr rq by simp
        show "lprev (h' l) = lprev (h l)" using lp nr by simp
        show "\<And>y. y \<in> set cs \<Longrightarrow> h' y = h y"
          using other d(1) lc rq snoc by fastforce
      qed
      then show ?thesis using ln rp lc rq Nil snoc d(1) by (auto simp: dlist_def dseg_append)
    qed
  next
    case (Cons c cs)
    have rc: "r = c" using r Cons by simp
    have nr: "l \<noteq> r" using d(1) rc ln' Cons by auto
    have sr: "dseg h r cs q" using d(3) rc Cons by simp
    have right: "dseg h' r cs q"
    proof (rule dseg_frame[OF sr])
      show "lnext (h' r) = lnext (h r)" using rn nr by simp
      show "lprev (h' q) = lprev (h q)"
      proof (cases "q = l")
        case True then show ?thesis using lp nr by simp
      next
        case False then show ?thesis using other[of q] d(1) rc Cons by auto
      qed
      show "\<And>y. y \<in> set cs \<Longrightarrow> h' y = h y"
        using other ln' d(1) rc Cons by fastforce
    qed
    show ?thesis
    proof (cases as rule: rev_cases)
      case Nil
      then show ?thesis using right ln rp l rc Cons d(1) by (auto simp: dlist_def)
    next
      case (snoc es e)
      have le: "l = e" using l snoc by simp
      have "dseg h q es l" using d(2) le snoc by (simp add: dseg_append)
      then have "dseg h' q es l"
      proof (rule dseg_frame)
        show "lnext (h' q) = lnext (h q)" using other[of q] d(1) le rc Cons snoc by auto
        show "lprev (h' l) = lprev (h l)" using lp nr by simp
        show "\<And>y. y \<in> set es \<Longrightarrow> h' y = h y"
          using other d(1) le rc Cons snoc by fastforce
      qed
      then show ?thesis using right ln rp le rc Cons snoc d(1)
        by (auto simp: dlist_def dseg_append)
    qed
  qed
qed


section \<open>What each routine does to the list\<close>

abbreviation frame_off :: "'a set \<Rightarrow> 'a lheap \<Rightarrow> 'a lheap \<Rightarrow> bool" where
  "frame_off A h h' \<equiv> \<forall>a. a \<notin> A \<longrightarrow> h' a = h a"

lemma list_init_dlist: "kok (list_init q) (\<lambda>_ h'. dlist h' q [] \<and> frame_off {q} h h') h"
  by (simp add: list_init_def list_op_defs wp_simps dlist_def)

lemma list_empty_dlist:
  "dlist h q xs \<Longrightarrow> kok (list_empty q) (\<lambda>b h'. b = (xs = []) \<and> h' = h) h"
  by (cases xs) (auto simp: list_empty_def list_op_defs wp_simps dlist_def)

lemma list_front_dlist:
  "dlist h q xs \<Longrightarrow> kok (list_front q) (\<lambda>p h'. p = Some (hd (xs @ [q])) \<and> h' = h) h"
  by (simp add: list_front_def list_op_defs wp_simps dlist_next)

lemma list_back_dlist:
  "dlist h q xs \<Longrightarrow> kok (list_back q) (\<lambda>p h'. p = Some (last (q # xs)) \<and> h' = h) h"
  by (simp add: list_back_def list_op_defs wp_simps dlist_prev)

lemma list_push_front_dlist:
  assumes d: "dlist h q xs" and p: "p \<notin> set (q # xs)"
  shows "kok (list_push_front q p)
    (\<lambda>_ h'. dlist h' q (p # xs) \<and> frame_off (set (q # p # xs)) h h') h"
proof (cases xs)
  case Nil
  then show ?thesis using assms
    by (auto simp: list_push_front_def list_op_defs wp_simps dlist_def)
next
  case (Cons x ys)
  have x: "lnext (h q) = Some x" "x \<noteq> q" "p \<noteq> q" "x \<noteq> p" using d p Cons by (auto simp: dlist_def)
  let ?h = "h(p := \<lparr>lnext = Some x, lprev = Some q\<rparr>, x := (h x)\<lparr>lprev := Some p\<rparr>,
              q := (h q)\<lparr>lnext := Some p\<rparr>)"
  have "dlist ?h q ([] @ p # xs)"
    by (rule dlist_insert[of h q "[]" xs p q x ?h]) (use d p x Cons in auto)
  moreover have "list_push_front q p h = Ok () ?h"
    using x by (simp add: list_push_front_def list_op_defs kop_defs fun_upd_twist fun_eq_iff)
  ultimately show ?thesis using Cons by (auto simp: kwp_def)
qed

lemma list_push_back_dlist:
  assumes d: "dlist h q xs" and p: "p \<notin> set (q # xs)"
  shows "kok (list_push_back q p)
    (\<lambda>_ h'. dlist h' q (xs @ [p]) \<and> frame_off (set (q # p # xs)) h h') h"
proof (cases xs rule: rev_cases)
  case Nil
  then show ?thesis using assms
    by (auto simp: list_push_back_def list_op_defs wp_simps dlist_def)
next
  case (snoc ys x)
  have x: "lprev (h q) = Some x" "x \<noteq> q" "p \<noteq> q" "x \<noteq> p"
    using dlist_prev[OF d] d p snoc by (auto simp: dlist_def)
  have ne: "lnext (h q) \<noteq> Some q"
    using dlist_next[OF d] d snoc by (cases ys) (auto simp: dlist_def)
  let ?h = "h(p := \<lparr>lnext = Some q, lprev = Some x\<rparr>, x := (h x)\<lparr>lnext := Some p\<rparr>,
              q := (h q)\<lparr>lprev := Some p\<rparr>)"
  have "dlist ?h q (xs @ p # [])"
    by (rule dlist_insert[of h q xs "[]" p x q ?h]) (use d p x snoc in auto)
  moreover have "list_push_back q p h = Ok () ?h"
    using x ne by (simp add: list_push_back_def list_op_defs kop_defs fun_upd_twist fun_eq_iff)
  ultimately show ?thesis using snoc by (auto simp: kwp_def)
qed

lemma list_delete_dlist:
  assumes d: "dlist h q (as @ x # bs)"
  shows "kok (list_delete x)
    (\<lambda>_ h'. dlist h' q (as @ bs) \<and> h' x = \<lparr>lnext = None, lprev = None\<rparr>
       \<and> frame_off (set (q # as @ x # bs)) h h') h"
proof -
  define l where "l = last (q # as)"
  define r where "r = hd (bs @ [q])"
  have dd: "distinct (q # as @ x # bs)" "dseg h q as x" "dseg h x bs q"
    using d by (auto simp: dlist_def dseg_append)
  have l: "l \<in> set (q # as)" unfolding l_def by (rule last_in_set) simp
  have r: "r \<in> set (q # bs)" unfolding r_def by (cases bs) auto
  have xl: "lprev (h x) = Some l" using dd(2) unfolding l_def by (rule dseg_last)
  have xr: "lnext (h x) = Some r" using dd(3) unfolding r_def by (rule dseg_first)
  have ne: "x \<noteq> l" "x \<noteq> r" using dd(1) l r by auto
  let ?h1 = "h(l := (h l)\<lparr>lnext := Some r\<rparr>)"
  let ?h = "(?h1(r := (?h1 r)\<lparr>lprev := Some l\<rparr>))(x := \<lparr>lnext = None, lprev = None\<rparr>)"
  have run: "list_delete x h = Ok () ?h"
    using xl xr ne by (simp add: list_delete_def list_op_defs kop_defs fun_eq_iff)
  have "dlist ?h q (as @ bs)"
    by (rule dlist_remove[OF d l_def r_def]) (use ne in auto)
  then show ?thesis using run l r by (auto simp: kwp_def)
qed

lemma list_pop_front_dlist:
  assumes d: "dlist h q (x # xs)"
  shows "kok (list_pop_front q)
    (\<lambda>p h'. p = Some x \<and> dlist h' q xs \<and> frame_off (set (q # xs)) h h') h"
proof -
  define r where "r = hd (xs @ [q])"
  have dd: "distinct (q # x # xs)" "dseg h x xs q" "lnext (h q) = Some x"
    using d by (auto simp: dlist_def)
  have r: "r \<in> set (q # xs)" unfolding r_def by (cases xs) auto
  have xr: "lnext (h x) = Some r" using dd(2) unfolding r_def by (rule dseg_first)
  let ?h1 = "h(q := (h q)\<lparr>lnext := Some r\<rparr>)"
  let ?h = "?h1(r := (?h1 r)\<lparr>lprev := Some q\<rparr>)"
  have run: "list_pop_front q h = Ok (Some x) ?h"
    using xr dd(1,3) by (simp add: list_pop_front_def list_op_defs kop_defs fun_eq_iff)
  have "dlist ?h q ([] @ xs)"
    by (rule dlist_remove[of h q "[]" x xs q r]) (use d r_def dd r in auto)
  then show ?thesis using run r by (auto simp: kwp_def)
qed

lemma list_pop_back_dlist:
  assumes d: "dlist h q (xs @ [x])"
  shows "kok (list_pop_back q)
    (\<lambda>p h'. p = Some x \<and> dlist h' q xs \<and> frame_off (set (q # xs)) h h') h"
proof -
  define l where "l = last (q # xs)"
  have dd: "distinct (q # xs @ [x])" "dseg h q xs x" "lprev (h q) = Some x"
    using d by (auto simp: dlist_def dseg_append)
  have l: "l \<in> set (q # xs)" unfolding l_def by (rule last_in_set) simp
  have xl: "lprev (h x) = Some l" using dd(2) unfolding l_def by (rule dseg_last)
  let ?h1 = "h(q := (h q)\<lparr>lprev := Some l\<rparr>)"
  let ?h = "?h1(l := (?h1 l)\<lparr>lnext := Some q\<rparr>)"
  have run: "list_pop_back q h = Ok (Some x) ?h"
    using xl dd(1,3) by (simp add: list_pop_back_def list_op_defs kop_defs fun_eq_iff)
  have "dlist ?h q (xs @ [])"
    by (rule dlist_remove[of h q xs x "[]" l q]) (use d l_def dd l in auto)
  then show ?thesis using run l by (auto simp: kwp_def)
qed

lemma list_find_next_dseg:
  "dseg h a xs q \<Longrightarrow> q \<notin> set xs \<Longrightarrow> length xs < k \<Longrightarrow>
    list_find_next k P q (lnext (h a)) h = Ok (List.find P xs) h"
proof (induction xs arbitrary: a k)
  case Nil then show ?case by (cases k) auto
next
  case (Cons x xs) then show ?case by (cases k) auto
qed

lemma list_find_prev_dseg:
  "dseg h q xs a \<Longrightarrow> q \<notin> set xs \<Longrightarrow> length xs < k \<Longrightarrow>
    list_find_prev k P q (lprev (h a)) h = Ok (List.find P (rev xs)) h"
proof (induction xs arbitrary: a k rule: rev_induct)
  case Nil then show ?case by (cases k) auto
next
  case (snoc x xs) then show ?case by (cases k) (auto simp: dseg_append)
qed

lemma list_find_next_dlist:
  "dlist h q xs \<Longrightarrow> length xs < k \<Longrightarrow>
    list_find_next k P q (lnext (h q)) h = Ok (List.find P xs) h"
  by (auto simp: dlist_def intro: list_find_next_dseg)

lemma list_find_prev_dlist:
  "dlist h q xs \<Longrightarrow> length xs < k \<Longrightarrow>
    list_find_prev k P q (lprev (h q)) h = Ok (List.find P (rev xs)) h"
  by (auto simp: dlist_def intro: list_find_prev_dseg)


section \<open>The interface its clients use\<close>

text \<open>
  \<open>rep h q xs\<close>: the list headed by \<open>q\<close> in heap \<open>h\<close> holds \<open>xs\<close>. Each law gives the new
  contents and the nodes that may have changed, so that lists with other nodes are kept.
\<close>

locale deque =
  fixes rep :: "('a \<Rightarrow> 'n) \<Rightarrow> 'a \<Rightarrow> 'a list \<Rightarrow> bool"
    and init :: "'a \<Rightarrow> ('a \<Rightarrow> 'n, unit) kop"
    and empty :: "'a \<Rightarrow> ('a \<Rightarrow> 'n, bool) kop"
    and front :: "'a \<Rightarrow> ('a \<Rightarrow> 'n, 'a option) kop"
    and push_front :: "'a \<Rightarrow> 'a \<Rightarrow> ('a \<Rightarrow> 'n, unit) kop"
    and push_back :: "'a \<Rightarrow> 'a \<Rightarrow> ('a \<Rightarrow> 'n, unit) kop"
    and pop_front :: "'a \<Rightarrow> ('a \<Rightarrow> 'n, 'a option) kop"
    and delete :: "'a \<Rightarrow> ('a \<Rightarrow> 'n, unit) kop"
  assumes rep_distinct: "rep h q xs \<Longrightarrow> distinct (q # xs)"
    and rep_frame: "rep h q xs \<Longrightarrow> (\<And>a. a \<in> set (q # xs) \<Longrightarrow> h' a = h a) \<Longrightarrow> rep h' q xs"
    and init_ok: "kok (init q) (\<lambda>_ h'. rep h' q [] \<and> (\<forall>a. a \<notin> {q} \<longrightarrow> h' a = h a)) h"
    and empty_ok: "rep h q xs \<Longrightarrow> kok (empty q) (\<lambda>b h'. b = (xs = []) \<and> h' = h) h"
    and front_ok: "rep h q xs \<Longrightarrow> kok (front q) (\<lambda>p h'. p = Some (hd (xs @ [q])) \<and> h' = h) h"
    and push_front_ok: "rep h q xs \<Longrightarrow> p \<notin> set (q # xs) \<Longrightarrow> kok (push_front q p)
      (\<lambda>_ h'. rep h' q (p # xs) \<and> (\<forall>a. a \<notin> set (q # p # xs) \<longrightarrow> h' a = h a)) h"
    and push_back_ok: "rep h q xs \<Longrightarrow> p \<notin> set (q # xs) \<Longrightarrow> kok (push_back q p)
      (\<lambda>_ h'. rep h' q (xs @ [p]) \<and> (\<forall>a. a \<notin> set (q # p # xs) \<longrightarrow> h' a = h a)) h"
    and pop_front_ok: "rep h q (x # xs) \<Longrightarrow> kok (pop_front q)
      (\<lambda>p h'. p = Some x \<and> rep h' q xs \<and> (\<forall>a. a \<notin> set (q # xs) \<longrightarrow> h' a = h a)) h"
    and delete_ok: "rep h q (as @ x # bs) \<Longrightarrow> kok (delete x)
      (\<lambda>_ h'. rep h' q (as @ bs) \<and> (\<forall>a. a \<notin> set (q # as @ x # bs) \<longrightarrow> h' a = h a)) h"
begin

text \<open>Deleting a node and pushing it again in front moves it to the front.\<close>

lemma move_to_front:
  assumes "rep h q (as @ x # bs)"
  shows "kok (kthen (delete x) (push_front q x))
    (\<lambda>_ h'. rep h' q (x # as @ bs) \<and> (\<forall>a. a \<notin> set (q # as @ x # bs) \<longrightarrow> h' a = h a)) h"
proof -
  have x: "x \<notin> set (q # as @ bs)" using rep_distinct[OF assms] by auto
  show ?thesis unfolding kwp_kthen
  proof (rule kwp_conseq[OF delete_ok[OF assms]], elim conjE)
    fix h1 assume 1: "rep h1 q (as @ bs)" "\<forall>a. a \<notin> set (q # as @ x # bs) \<longrightarrow> h1 a = h a"
    show "kok (push_front q x)
      (\<lambda>_ h'. rep h' q (x # as @ bs) \<and> (\<forall>a. a \<notin> set (q # as @ x # bs) \<longrightarrow> h' a = h a)) h1"
      by (rule kwp_conseq[OF push_front_ok[OF 1(1) x]]) (use 1(2) in auto)
  qed
qed

text \<open>Pushing a sequence of fresh nodes at the back appends it.\<close>

lemma push_back_all:
  "rep h q xs \<Longrightarrow> distinct ys \<Longrightarrow> set ys \<inter> set (q # xs) = {} \<Longrightarrow>
    kok (kfor ys (push_back q)) (\<lambda>_ h'. rep h' q (xs @ ys)) h"
proof (induction ys arbitrary: h xs)
  case Nil then show ?case by (simp add: wp_simps)
next
  case (Cons y ys)
  have "kok (push_back q y) (\<lambda>_ h'. rep h' q (xs @ [y])) h"
    by (rule kwp_conseq[OF push_back_ok]) (use Cons.prems in auto)
  then show ?case unfolding kfor.simps kwp_kthen
    by (rule kwp_conseq) (use Cons.IH[of _ "xs @ [y]"] Cons.prems in auto)
qed

lemma pop_front_all:
  "rep h q xs \<Longrightarrow> kok (krepeat (length xs) (pop_front q)) (\<lambda>r h'. r = map Some xs \<and> rep h' q []) h"
proof (induction xs arbitrary: h)
  case Nil then show ?case by (simp add: wp_simps)
next
  case (Cons x xs)
  show ?case unfolding list.size krepeat.simps kwp_kbind add_0_right add_Suc_right
    by (rule kwp_conseq[OF pop_front_ok[OF Cons.prems]], elim conjE, rule kwp_conseq[OF Cons.IH])
      (auto simp: wp_simps)
qed

text \<open>First in, first out.\<close>

lemma fifo:
  assumes "rep h q []" "distinct (q # ys)"
  shows "kok (kthen (kfor ys (push_back q)) (krepeat (length ys) (pop_front q)))
    (\<lambda>r h'. r = map Some ys \<and> rep h' q []) h"
  unfolding kwp_kthen
  by (rule kwp_conseq[OF push_back_all[OF assms(1)]])
    (use assms(2) pop_front_all in auto)

text \<open>Taking the front node and queueing it again at the back rotates the queue.\<close>

lemma rotate:
  assumes "rep h q (x # xs)"
  shows "kok (kthen (delete x) (push_back q x))
    (\<lambda>_ h'. rep h' q (xs @ [x]) \<and> (\<forall>a. a \<notin> set (q # x # xs) \<longrightarrow> h' a = h a)) h"
proof -
  have x: "x \<notin> set (q # xs)" using rep_distinct[OF assms] by auto
  have "rep h q ([] @ x # xs)" using assms by simp
  from delete_ok[OF this] show ?thesis unfolding kwp_kthen
    by (rule kwp_conseq, elim conjE, intro kwp_conseq[OF push_back_ok]) (use x in auto)
qed

text \<open>A list that shares no node with the one changed is kept.\<close>

lemma rep_other:
  "rep h q ys \<Longrightarrow> (\<forall>a. a \<notin> A \<longrightarrow> h' a = h a) \<Longrightarrow> A \<inter> set (q # ys) = {} \<Longrightarrow> rep h' q ys"
  by (erule rep_frame) blast

end

interpretation lh: deque dlist list_init list_empty list_front list_push_front list_push_back
  list_pop_front list_delete
proof unfold_locales
  show "kok (list_delete x) (\<lambda>_ h'. dlist h' q (as @ bs) \<and>
      (\<forall>a. a \<notin> set (q # as @ x # bs) \<longrightarrow> h' a = h a)) h"
    if "dlist h q (as @ x # bs)" for h q as bs and x :: 'a
    by (rule kwp_conseq[OF list_delete_dlist[OF that]]) simp
qed (rule dlist_distinct dlist_frame list_init_dlist list_empty_dlist list_front_dlist
       list_push_front_dlist list_push_back_dlist list_pop_front_dlist; assumption)+

end
