(* ===== verification/CString.thy ===== *)
theory CString
  imports Prelude
begin

text \<open>
  The string and memory routines of \<^verbatim>\<open>inc/string.h\<close> on a byte-addressed memory. A pointer
  that is only read is the view \<open>nat \<Rightarrow> u8\<close> of the bytes from it on; a pointer that is written
  is an address in a memory. Loops that end at a terminating zero are partial functions, \<open>None\<close>
  when there is no terminator; the lemmas show that they return when there is one.
\<close>

type_synonym mem = "nat \<Rightarrow> u8"

definition at :: "mem \<Rightarrow> nat \<Rightarrow> nat \<Rightarrow> u8" where
  "at m p = (\<lambda>i. m (p + i))"

definition adv :: "(nat \<Rightarrow> u8) \<Rightarrow> nat \<Rightarrow> u8" where
  "adv p = (\<lambda>i. p (Suc i))"

lemma at_0 [simp]: "at m p 0 = m p"
  by (simp add: at_def)

lemma adv_at [simp]: "adv (at m p) = at m (Suc p)"
  by (simp add: at_def adv_def)

lemma adv_nth: "adv p i = p (Suc i)"
  by (simp add: adv_def)


section \<open>Reading a string\<close>

partial_function (option) strlen :: "(nat \<Rightarrow> u8) \<Rightarrow> nat option" where
  "strlen s = (if s 0 = 0 then Some 0 else Option.bind (strlen (adv s)) (\<lambda>n. Some (Suc n)))"

fun strnlen :: "(nat \<Rightarrow> u8) \<Rightarrow> nat \<Rightarrow> nat" where
  "strnlen s 0 = 0"
| "strnlen s (Suc n) = (if s 0 \<noteq> 0 then Suc (strnlen (adv s) n) else 0)"

partial_function (option) strcmp :: "(nat \<Rightarrow> u8) \<Rightarrow> (nat \<Rightarrow> u8) \<Rightarrow> int option" where
  "strcmp p q = (if p 0 \<noteq> 0 \<and> p 0 = q 0 then strcmp (adv p) (adv q)
     else Some (uint (p 0) - uint (q 0)))"

fun strncmp :: "(nat \<Rightarrow> u8) \<Rightarrow> (nat \<Rightarrow> u8) \<Rightarrow> nat \<Rightarrow> int" where
  "strncmp p q 0 = 0"
| "strncmp p q (Suc n) = (if p 0 \<noteq> 0 \<and> p 0 = q 0 then strncmp (adv p) (adv q) n
     else uint (p 0) - uint (q 0))"

text \<open>The result is the offset of the occurrence; \<open>Some None\<close> is the null pointer.\<close>

partial_function (option) strchr :: "(nat \<Rightarrow> u8) \<Rightarrow> u8 \<Rightarrow> nat option option" where
  "strchr s c = (if s 0 = 0 then Some None else if s 0 = c then Some (Some 0)
     else Option.bind (strchr (adv s) c) (\<lambda>r. Some (map_option Suc r)))"

partial_function (option) strfind :: "(nat \<Rightarrow> u8) \<Rightarrow> u8 \<Rightarrow> nat option" where
  "strfind s c = (if s 0 = 0 then Some 0 else if s 0 = c then Some 0
     else Option.bind (strfind (adv s) c) (\<lambda>r. Some (Suc r)))"

fun memcmp :: "(nat \<Rightarrow> u8) \<Rightarrow> (nat \<Rightarrow> u8) \<Rightarrow> nat \<Rightarrow> int" where
  "memcmp p q 0 = 0"
| "memcmp p q (Suc n) = (if p 0 \<noteq> q 0 then uint (p 0) - uint (q 0) else memcmp (adv p) (adv q) n)"

fun memfind :: "(nat \<Rightarrow> u8) \<Rightarrow> u8 \<Rightarrow> nat \<Rightarrow> nat" where
  "memfind p c 0 = 0"
| "memfind p c (Suc n) = (if p 0 = c then 0 else Suc (memfind (adv p) c n))"


section \<open>Writing\<close>

text \<open>Both directions of \<^verbatim>\<open>memmove\<close>: forwards, and backwards when the target overlaps the end
  of the source.\<close>

fun copy_up :: "mem \<Rightarrow> nat \<Rightarrow> nat \<Rightarrow> nat \<Rightarrow> mem" where
  "copy_up m d s 0 = m"
| "copy_up m d s (Suc n) = copy_up (m(d := m s)) (Suc d) (Suc s) n"

fun copy_down :: "mem \<Rightarrow> nat \<Rightarrow> nat \<Rightarrow> nat \<Rightarrow> mem" where
  "copy_down m d s 0 = m"
| "copy_down m d s (Suc n) = copy_down (m(d + n := m (s + n))) d s n"

definition memmove :: "mem \<Rightarrow> nat \<Rightarrow> nat \<Rightarrow> nat \<Rightarrow> mem" where
  "memmove m d s n = (if s < d \<and> s + n > d then copy_down m d s n else copy_up m d s n)"

definition memcpy :: "mem \<Rightarrow> nat \<Rightarrow> nat \<Rightarrow> nat \<Rightarrow> mem" where
  "memcpy m d s n = memmove m d s n"

text \<open>The count is kept in an \<^verbatim>\<open>int\<close>.\<close>

fun fill :: "mem \<Rightarrow> nat \<Rightarrow> u8 \<Rightarrow> nat \<Rightarrow> mem" where
  "fill m p c 0 = m"
| "fill m p c (Suc n) = fill (m(p := c)) (Suc p) c n"

definition memset :: "mem \<Rightarrow> nat \<Rightarrow> u8 \<Rightarrow> u64 \<Rightarrow> mem" where
  "memset m p c n = fill m p c (nat (sint (ucast n :: u32)))"

partial_function (option) strcpy :: "mem \<Rightarrow> nat \<Rightarrow> nat \<Rightarrow> mem option" where
  "strcpy m d s = (let m' = m(d := m s) in if m s = 0 then Some m' else strcpy m' (Suc d) (Suc s))"

definition strcat :: "mem \<Rightarrow> nat \<Rightarrow> nat \<Rightarrow> mem option" where
  "strcat m d s = Option.bind (strlen (at m d)) (\<lambda>n. strcpy m (d + n) s)"

fun strncpy :: "mem \<Rightarrow> nat \<Rightarrow> nat \<Rightarrow> nat \<Rightarrow> mem" where
  "strncpy m d s 0 = m"
| "strncpy m d s (Suc n) = (let m' = m(d := m s) in
     strncpy m' (Suc d) (if m' s \<noteq> 0 then Suc s else s) n)"

text \<open>The bytes that \<^verbatim>\<open>strncpy\<close> stores.\<close>

fun strncpy_bytes :: "(nat \<Rightarrow> u8) \<Rightarrow> nat \<Rightarrow> u8 list" where
  "strncpy_bytes s 0 = []"
| "strncpy_bytes s (Suc n) = s 0 # strncpy_bytes (if s 0 \<noteq> 0 then adv s else s) n"

text \<open>\<^verbatim>\<open>strlcpy\<close>: the memory, and the number of bytes before the terminator it wrote.\<close>

fun strl_loop :: "mem \<Rightarrow> nat \<Rightarrow> nat \<Rightarrow> nat \<Rightarrow> nat \<Rightarrow> mem \<times> nat" where
  "strl_loop m d s 0 k = (m(d := 0), k)"
| "strl_loop m d s (Suc n) k =
     (if m s \<noteq> 0 then strl_loop (m(d := m s)) (Suc d) (Suc s) n (Suc k) else (m(d := 0), k))"

definition strlcpy :: "mem \<Rightarrow> nat \<Rightarrow> nat \<Rightarrow> nat \<Rightarrow> mem \<times> nat" where
  "strlcpy m d s n0 = (case n0 of 0 \<Rightarrow> (m, 0) | Suc n \<Rightarrow> strl_loop m d s n 0)"


section \<open>Numbers\<close>

definition digit :: "u8 \<Rightarrow> nat option" where
  "digit c = (if 48 \<le> c \<and> c \<le> 57 then Some (unat c - 48)
     else if 97 \<le> c \<and> c \<le> 122 then Some (unat c - 97 + 10)
     else if 65 \<le> c \<and> c \<le> 90 then Some (unat c - 65 + 10) else None)"

partial_function (option) strtol_digits :: "(nat \<Rightarrow> u8) \<Rightarrow> nat \<Rightarrow> int \<Rightarrow> nat \<Rightarrow> (int \<times> nat) option" where
  "strtol_digits s base val pos = (case digit (s 0) of
     None \<Rightarrow> Some (val, pos)
   | Some dig \<Rightarrow> if dig \<ge> base then Some (val, pos)
       else strtol_digits (adv s) base (val * int base + int dig) (Suc pos))"

partial_function (option) skip_blank :: "(nat \<Rightarrow> u8) \<Rightarrow> nat \<Rightarrow> nat option" where
  "skip_blank s pos = (if s pos = 32 \<or> s pos = 9 then skip_blank s (Suc pos) else Some pos)"

text \<open>\<^verbatim>\<open>strtol\<close>: the value and the offset that \<^verbatim>\<open>endptr\<close> receives; the value does not wrap.\<close>

definition strtol :: "(nat \<Rightarrow> u8) \<Rightarrow> nat \<Rightarrow> (int \<times> nat) option" where
  "strtol s base =
     Option.bind (skip_blank s 0) (\<lambda>p.
     let neg = (s p = 45);
         p = (if s p = 43 \<or> s p = 45 then Suc p else p);
         (p, b) = (if (base = 0 \<or> base = 16) \<and> s p = 48 \<and> s (Suc p) = 120 then (p + 2, 16)
                   else if base = 0 \<and> s p = 48 then (Suc p, 8)
                   else if base = 0 then (p, 10) else (p, base))
     in Option.bind (strtol_digits (at s p) b 0 p) (\<lambda>(v, q). Some (if neg then - v else v, q)))"


section \<open>Correctness\<close>

lemma copy_up_other: "a < d \<or> d + n \<le> a \<Longrightarrow> copy_up m d s n a = m a"
  by (induction m d s n rule: copy_up.induct) auto

lemma copy_up_nth: "\<not> (s < d \<and> d < s + n) \<Longrightarrow> i < n \<Longrightarrow> copy_up m d s n (d + i) = m (s + i)"
proof (induction n arbitrary: m d s i)
  case (Suc n)
  show ?case
  proof (cases i)
    case 0
    then show ?thesis by (simp add: copy_up_other)
  next
    case i: (Suc j)
    have ov: "\<not> (Suc s < Suc d \<and> Suc d < Suc s + n)" "j < n" "s + i \<noteq> d" using Suc.prems i by auto
    have "copy_up m d s (Suc n) (d + i) = (m(d := m s)) (Suc s + j)"
      using Suc.IH[OF ov(1,2)] i by simp
    also have "\<dots> = m (s + i)" using ov(3) i by simp
    finally show ?thesis .
  qed
qed simp

lemma copy_down_other: "a < d \<or> d + n \<le> a \<Longrightarrow> copy_down m d s n a = m a"
  by (induction m d s n rule: copy_down.induct) auto

lemma copy_down_nth: "s < d \<Longrightarrow> i < n \<Longrightarrow> copy_down m d s n (d + i) = m (s + i)"
proof (induction n arbitrary: m i)
  case (Suc n)
  show ?case
  proof (cases "i = n")
    case True
    then show ?thesis by (simp add: copy_down_other)
  next
    case False
    then have "copy_down m d s (Suc n) (d + i) = (m(d + n := m (s + n))) (s + i)"
      using Suc by (simp only: copy_down.simps)
    then show ?thesis using Suc.prems False by simp
  qed
qed simp

text \<open>The moved range is the old source range, whatever the overlap.\<close>

definition moved :: "mem \<Rightarrow> nat \<Rightarrow> nat \<Rightarrow> nat \<Rightarrow> mem" where
  "moved m d s n = (\<lambda>a. if d \<le> a \<and> a < d + n then m (s + (a - d)) else m a)"

lemma memmove_moved: "memmove m d s n = moved m d s n"
proof
  fix a
  show "memmove m d s n a = moved m d s n a"
  proof (cases "d \<le> a \<and> a < d + n")
    case True
    then obtain i where "a = d + i" "i < n" by (metis add_less_cancel_left le_iff_add)
    then show ?thesis
      using copy_up_nth[of s d n i m] copy_down_nth[of s d i n m] by (auto simp: memmove_def moved_def)
  next
    case False
    then show ?thesis using copy_up_other copy_down_other by (auto simp: memmove_def moved_def)
  qed
qed

lemma fill_eq: "fill m p c n a = (if p \<le> a \<and> a < p + n then c else m a)"
  by (induction n arbitrary: m p) auto

text \<open>The count of \<^verbatim>\<open>memset\<close> is cut to 32 bits and read as a signed number.\<close>

lemma memset_small: "unat n < 2 ^ 31 \<Longrightarrow> memset m p c n = (\<lambda>a. if p \<le> a \<and> a < p + unat n then c else m a)"
proof -
  assume n: "unat n < 2 ^ 31"
  have "sint (ucast n :: u32) = int (unat n)"
  proof -
    have "uint n < 2 ^ 31" using n by transfer (simp add: nat_less_iff)
    moreover have "0 \<le> uint n" by simp
    ultimately have "signed_take_bit 31 (uint n) = uint n"
      by (intro signed_take_bit_int_eq_self) linarith+
    then show ?thesis by (simp add: signed_ucast_eq)
  qed
  then show ?thesis by (simp add: memset_def fill_eq fun_eq_iff)
qed

text \<open>The string at a pointer, cut after \<open>n\<close> bytes.\<close>

definition cstr :: "nat \<Rightarrow> (nat \<Rightarrow> u8) \<Rightarrow> u8 list" where
  "cstr n p = takeWhile (\<lambda>c. c \<noteq> 0) (map p [0..<n])"

lemma cstr_0 [simp]: "cstr 0 p = []"
  by (simp add: cstr_def)

lemma cstr_Suc [simp]: "cstr (Suc n) p = (if p 0 = 0 then [] else p 0 # cstr n (adv p))"
  unfolding cstr_def upt_conv_Cons[OF zero_less_Suc]
  by (simp add: map_Suc_upt[symmetric] o_def adv_def del: upt_Suc)

lemma strnlen_cstr: "strnlen s n = length (cstr n s)"
  by (induction s n rule: strnlen.induct) simp_all

lemma strncmp_cstr: "strncmp p q n = 0 \<longleftrightarrow> cstr n p = cstr n q"
  by (induction p q n rule: strncmp.induct) (auto simp: word_uint_eq_iff)

lemma memcmp_eq: "memcmp p q n = 0 \<longleftrightarrow> (\<forall>i<n. p i = q i)"
proof (induction p q n rule: memcmp.induct)
  case (2 p q n)
  then show ?case by (auto simp: less_Suc_eq_0_disj adv_def word_uint_eq_iff)
qed simp

lemma memfind_first:
  "memfind p c n \<le> n \<and> (\<forall>i<memfind p c n. p i \<noteq> c) \<and> (memfind p c n < n \<longrightarrow> p (memfind p c n) = c)"
  by (induction p c n rule: memfind.induct) (auto simp: less_Suc_eq_0_disj adv_def)

text \<open>With a terminator at \<open>n\<close> the unbounded loops return.\<close>

definition terminated :: "(nat \<Rightarrow> u8) \<Rightarrow> nat \<Rightarrow> bool" where
  "terminated s n \<longleftrightarrow> s n = 0 \<and> (\<forall>i<n. s i \<noteq> 0)"

lemma terminated_Suc: "terminated s (Suc n) \<longleftrightarrow> s 0 \<noteq> 0 \<and> terminated (adv s) n"
  by (auto simp: terminated_def less_Suc_eq_0_disj adv_def)

lemma terminated_0: "terminated s 0 \<longleftrightarrow> s 0 = 0"
  by (simp add: terminated_def)

lemma strlen_returns: "terminated s n \<Longrightarrow> strlen s = Some n"
proof (induction n arbitrary: s)
  case 0
  then show ?case by (subst strlen.simps) (simp add: terminated_0)
next
  case (Suc n)
  then show ?case by (subst strlen.simps) (simp add: terminated_Suc)
qed

lemma strchr_returns: "terminated s n \<Longrightarrow> c \<noteq> 0 \<Longrightarrow>
  strchr s c = Some (if \<exists>i<n. s i = c then Some (LEAST i. s i = c) else None)"
proof (induction n arbitrary: s)
  case 0
  then show ?case by (subst strchr.simps) (simp add: terminated_0)
next
  case (Suc n)
  then have IH: "strchr (adv s) c = Some (if \<exists>i<n. adv s i = c then Some (LEAST i. adv s i = c) else None)"
    by (simp add: terminated_Suc)
  have nz: "s 0 \<noteq> 0" using Suc.prems by (simp add: terminated_Suc)
  show ?case
  proof (cases "s 0 = c")
    case True
    then have "(LEAST i. s i = c) = 0" by (simp add: Least_eq_0)
    then show ?thesis using True nz by (subst strchr.simps) auto
  next
    case False
    have "(LEAST i. s i = c) = Suc (LEAST i. s (Suc i) = c)" if ex: "\<exists>i<n. s (Suc i) = c"
    proof -
      obtain i where "s (Suc i) = c" using ex by blast
      then show ?thesis by (rule Least_Suc) (rule False)
    qed
    moreover have "(\<exists>i<Suc n. s i = c) \<longleftrightarrow> (\<exists>i<n. s (Suc i) = c)"
      using False by (metis Suc_less_eq less_Suc_eq_0_disj)
    ultimately show ?thesis using False nz IH
      by (subst strchr.simps) (simp add: adv_nth)
  qed
qed

lemma strcmp_returns:
  "terminated p n \<Longrightarrow> \<exists>r. strcmp p q = Some r \<and> (r = 0 \<longleftrightarrow> (\<forall>i\<le>n. p i = q i))"
proof (induction n arbitrary: p q)
  case 0
  then show ?case by (subst strcmp.simps) (auto simp: terminated_0 word_uint_eq_iff)
next
  case (Suc n)
  then obtain r where r: "strcmp (adv p) (adv q) = Some r" "r = 0 \<longleftrightarrow> (\<forall>i\<le>n. adv p i = adv q i)"
    by (meson terminated_Suc)
  have e: "(\<forall>i\<le>Suc n. p i = q i) \<longleftrightarrow> p 0 = q 0 \<and> (\<forall>i\<le>n. adv p i = adv q i)"
    by (auto simp: less_Suc_eq_0_disj less_Suc_eq_le[symmetric] adv_def)
  show ?case using Suc.prems r unfolding e
    by (subst strcmp.simps) (auto simp: terminated_Suc word_uint_eq_iff)
qed

text \<open>\<^verbatim>\<open>strncpy\<close> stores the string, padded with zeros to the full size.\<close>

lemma strncpy_bytes_zero: "s 0 = 0 \<Longrightarrow> strncpy_bytes s n = replicate n 0"
  by (induction n) simp_all

lemma strncpy_bytes_pad: "strncpy_bytes s n = cstr n s @ replicate (n - length (cstr n s)) 0"
proof (induction n arbitrary: s)
  case (Suc n)
  show ?case
  proof (cases "s 0 = 0")
    case True
    then show ?thesis using strncpy_bytes_zero[of s "Suc n"] by simp
  next
    case False
    then show ?thesis using Suc[of "adv s"] by simp
  qed
qed simp

lemma length_strncpy_bytes [simp]: "length (strncpy_bytes s n) = n"
  by (induction s n rule: strncpy_bytes.induct) simp_all

lemma strncpy_other: "a < d \<or> d + n \<le> a \<Longrightarrow> strncpy m d s n a = m a"
  by (induction n arbitrary: m d s) (auto simp: Let_def)

lemma strncpy_bytes_cong: "(\<And>i. i < n \<Longrightarrow> s i = t i) \<Longrightarrow> strncpy_bytes s n = strncpy_bytes t n"
proof (induction n arbitrary: s t)
  case (Suc n)
  have "strncpy_bytes (adv s) n = strncpy_bytes (adv t) n"
    by (rule Suc.IH) (use Suc.prems in \<open>simp add: adv_nth\<close>)
  moreover have "strncpy_bytes s n = strncpy_bytes t n" by (rule Suc.IH) (use Suc.prems in simp)
  ultimately show ?case using Suc.prems[of 0] by simp
qed simp

lemma strncpy_nth:
  assumes "s + n \<le> d \<or> d + n \<le> s"
  shows "i < n \<Longrightarrow> strncpy m d s n (d + i) = strncpy_bytes (at m s) n ! i"
  using assms
proof (induction n arbitrary: m d s i)
  case (Suc n)
  let ?m = "m(d := m s)" let ?s = "if m s \<noteq> 0 then Suc s else s"
  have ms: "?m s = m s" using Suc.prems by auto
  have e: "strncpy m d s (Suc n) = strncpy ?m (Suc d) ?s n" using ms by (simp add: Let_def)
  have b: "strncpy_bytes (at ?m ?s) n = strncpy_bytes (if m s \<noteq> 0 then adv (at m s) else at m s) n"
    by (rule strncpy_bytes_cong) (use Suc.prems in \<open>auto simp: at_def adv_nth\<close>)
  show ?case
  proof (cases i)
    case 0
    then show ?thesis unfolding e by (simp add: strncpy_other)
  next
    case (Suc j)
    then have "strncpy ?m (Suc d) ?s n (Suc d + j) = strncpy_bytes (at ?m ?s) n ! j"
      using Suc.prems \<open>i = Suc j\<close> by (intro Suc.IH) (auto simp del: fun_upd_apply)
    then show ?thesis unfolding e using Suc b by (simp del: adv_at)
  qed
qed simp

end
