(* ===== verification/Locks.thy ===== *)
theory Locks
  imports Prelude
begin

text \<open>
  Spin locks (\<^verbatim>\<open>kern/spinlock.c\<close>) and sleep locks (\<^verbatim>\<open>kern/sleeplock.c\<close>), twice: as routines
  of one processor on the lock's memory, which the storage components call, and, for the spin
  lock, as an interleaving of the atomic steps of several processors, for mutual exclusion.
  Panic messages are written without their trailing newline.
\<close>

section \<open>Spin locks\<close>

record spinlock =
  spin_locked :: bool
  spin_name :: string
  spin_cpu :: "nat option"

text \<open>\<open>c\<close> is the number of the executing processor, \<^verbatim>\<open>thiscpu\<close>.\<close>

definition holding :: "nat \<Rightarrow> spinlock \<Rightarrow> bool" where
  "holding c lk = (spin_locked lk \<and> spin_cpu lk = Some c)"

definition initlock :: "string \<Rightarrow> (spinlock, unit) kop" where
  "initlock nm = kmod (\<lambda>lk. lk\<lparr>spin_name := nm, spin_locked := False, spin_cpu := None\<rparr>)"

text \<open>
  \<^verbatim>\<open>acquire\<close> by one processor while no other takes a step: a lock that is held elsewhere makes
  the loop of \<^verbatim>\<open>__atomic_test_and_set\<close> spin.
\<close>

definition acquire :: "nat \<Rightarrow> (spinlock, unit) kop" where
  "acquire c =
     kbind (kget (holding c)) (\<lambda>h.
     if h then panic ''acquire: spinlock already held''
     else kbind (kget spin_locked) (\<lambda>l.
       if l then kfault Spin
       else kthen (kmod (\<lambda>lk. lk\<lparr>spin_locked := True\<rparr>))
            (kmod (\<lambda>lk. lk\<lparr>spin_cpu := Some c\<rparr>))))"

definition release :: "nat \<Rightarrow> (spinlock, unit) kop" where
  "release c =
     kbind (kget (holding c)) (\<lambda>h.
     if \<not> h then panic ''release: not locked''
     else kthen (kmod (\<lambda>lk. lk\<lparr>spin_cpu := None\<rparr>))
          (kmod (\<lambda>lk. lk\<lparr>spin_locked := False\<rparr>)))"

definition spin_free :: "spinlock \<Rightarrow> bool" where
  "spin_free lk = (\<not> spin_locked lk \<and> spin_cpu lk = None)"

definition spin_held :: "nat \<Rightarrow> spinlock \<Rightarrow> spinlock" where
  "spin_held c lk = lk\<lparr>spin_locked := True, spin_cpu := Some c\<rparr>"

lemma acquire_free [simp]: "spin_free lk \<Longrightarrow> acquire c lk = Ok () (spin_held c lk)"
  by (simp add: acquire_def holding_def spin_free_def spin_held_def kop_defs)

lemma release_held [simp]: "spin_free lk \<Longrightarrow> release c (spin_held c lk) = Ok () lk"
  by (simp add: release_def holding_def spin_free_def spin_held_def kop_defs)

lemma acquire_twice: "spin_free lk \<Longrightarrow> acquire c (spin_held c lk) = Fault (Panic ''acquire: spinlock already held'')"
  by (simp add: acquire_def holding_def spin_held_def kop_defs)

lemma acquire_other: "c \<noteq> d \<Longrightarrow> acquire c (spin_held d lk) = Fault Spin"
  by (simp add: acquire_def holding_def spin_held_def kop_defs)

lemma initlock_free: "initlock nm lk = Ok () lk' \<Longrightarrow> spin_free lk'"
  by (auto simp: initlock_def kop_defs spin_free_def)


section \<open>Sleep locks\<close>

text \<open>
  The ghost field counts the \<^verbatim>\<open>wakeup(lk)\<close> calls made on the lock's channel; their effect on
  the process table is in the process component. \<open>c\<close> and \<open>pid\<close> are \<^verbatim>\<open>thiscpu\<close> and
  \<^verbatim>\<open>thisproc()->pid\<close>.
\<close>

record sleeplock =
  slp_locked :: bool
  slp_lk :: spinlock
  slp_pid :: u32
  slp_wakeups :: nat

definition on_slp_lk :: "(spinlock, 'a) kop \<Rightarrow> (sleeplock, 'a) kop" where
  "on_slp_lk m = zoom slp_lk (\<lambda>x l. l\<lparr>slp_lk := x\<rparr>) m"

definition initsleeplock :: "string \<Rightarrow> (sleeplock, unit) kop" where
  "initsleeplock nm =
     kthen (on_slp_lk (initlock nm))
     (kthen (kmod (\<lambda>l. l\<lparr>slp_locked := False\<rparr>))
     (kmod (\<lambda>l. l\<lparr>slp_pid := 0\<rparr>)))"

text \<open>
  The loop \<^verbatim>\<open>while (lk->locked) sleep(lk, &lk->lk)\<close> waits for the process that holds the lock;
  a run of the caller alone blocks there.
\<close>

definition acquiresleep :: "nat \<Rightarrow> u32 \<Rightarrow> (sleeplock, unit) kop" where
  "acquiresleep c pid =
     kthen (on_slp_lk (acquire c))
     (kbind (kget slp_locked) (\<lambda>l.
      if l then kfault Block
      else kthen (kmod (\<lambda>l. l\<lparr>slp_locked := True\<rparr>))
           (kthen (kmod (\<lambda>l. l\<lparr>slp_pid := pid\<rparr>))
           (on_slp_lk (release c)))))"

definition releasesleep :: "nat \<Rightarrow> (sleeplock, unit) kop" where
  "releasesleep c =
     kthen (on_slp_lk (acquire c))
     (kthen (kmod (\<lambda>l. l\<lparr>slp_locked := False\<rparr>))
     (kthen (kmod (\<lambda>l. l\<lparr>slp_pid := 0\<rparr>))
     (kthen (kmod (\<lambda>l. l\<lparr>slp_wakeups := Suc (slp_wakeups l)\<rparr>))
     (on_slp_lk (release c)))))"

definition holdingsleep :: "nat \<Rightarrow> u32 \<Rightarrow> (sleeplock, bool) kop" where
  "holdingsleep c pid =
     kthen (on_slp_lk (acquire c))
     (kbind (kget (\<lambda>l. slp_locked l \<and> slp_pid l = pid)) (\<lambda>r.
      kthen (on_slp_lk (release c)) (kret r)))"

text \<open>The guard of the sleep lock is free between calls.\<close>

definition slp_idle :: "sleeplock \<Rightarrow> bool" where
  "slp_idle l = spin_free (slp_lk l)"

lemma acquiresleep_free:
  "slp_idle l \<Longrightarrow> \<not> slp_locked l \<Longrightarrow>
    acquiresleep c pid l = Ok () (l\<lparr>slp_locked := True, slp_pid := pid\<rparr>)"
  by (simp add: acquiresleep_def on_slp_lk_def slp_idle_def kop_defs)

lemma acquiresleep_busy: "slp_idle l \<Longrightarrow> slp_locked l \<Longrightarrow> acquiresleep c pid l = Fault Block"
  by (simp add: acquiresleep_def on_slp_lk_def slp_idle_def kop_defs)

lemma releasesleep_run:
  "slp_idle l \<Longrightarrow> releasesleep c l =
    Ok () (l\<lparr>slp_locked := False, slp_pid := 0, slp_wakeups := Suc (slp_wakeups l)\<rparr>)"
  by (simp add: releasesleep_def on_slp_lk_def slp_idle_def kop_defs)

lemma holdingsleep_run:
  "slp_idle l \<Longrightarrow> holdingsleep c pid l = Ok (slp_locked l \<and> slp_pid l = pid) l"
  by (simp add: holdingsleep_def on_slp_lk_def slp_idle_def kop_defs)

lemma slp_idle_update [simp]:
  "slp_idle (l\<lparr>slp_locked := a\<rparr>) = slp_idle l" "slp_idle (l\<lparr>slp_pid := p\<rparr>) = slp_idle l"
  "slp_idle (l\<lparr>slp_wakeups := n\<rparr>) = slp_idle l"
  by (simp_all add: slp_idle_def)


section \<open>Several processors on one spin lock\<close>

text \<open>
  The position of a processor in \<^verbatim>\<open>acquire\<close> and \<^verbatim>\<open>release\<close>: outside, in the test-and-set loop,
  past it with \<^verbatim>\<open>lk->cpu\<close> not yet written, in the critical section, and past
  \<^verbatim>\<open>lk->cpu = NULL\<close> with the lock not yet cleared.
\<close>

datatype spin_pc = Out | Trying | Won | Inside | Leaving

record spin_sys =
  sys_lock :: spinlock
  sys_pc :: "nat \<Rightarrow> spin_pc"

inductive spin_step :: "spin_sys \<Rightarrow> spin_sys \<Rightarrow> bool" where
  enter: "sys_pc s c = Out \<Longrightarrow> \<not> holding c (sys_lock s) \<Longrightarrow>
    spin_step s (s\<lparr>sys_pc := (sys_pc s)(c := Trying)\<rparr>)"
| test_and_set: "sys_pc s c = Trying \<Longrightarrow>
    spin_step s (s\<lparr>sys_lock := (sys_lock s)\<lparr>spin_locked := True\<rparr>,
      sys_pc := (sys_pc s)(c := if spin_locked (sys_lock s) then Trying else Won)\<rparr>)"
| record_owner: "sys_pc s c = Won \<Longrightarrow>
    spin_step s (s\<lparr>sys_lock := (sys_lock s)\<lparr>spin_cpu := Some c\<rparr>, sys_pc := (sys_pc s)(c := Inside)\<rparr>)"
| forget_owner: "sys_pc s c = Inside \<Longrightarrow> holding c (sys_lock s) \<Longrightarrow>
    spin_step s (s\<lparr>sys_lock := (sys_lock s)\<lparr>spin_cpu := None\<rparr>, sys_pc := (sys_pc s)(c := Leaving)\<rparr>)"
| clear: "sys_pc s c = Leaving \<Longrightarrow>
    spin_step s (s\<lparr>sys_lock := (sys_lock s)\<lparr>spin_locked := False\<rparr>, sys_pc := (sys_pc s)(c := Out)\<rparr>)"

definition spin_start :: "string \<Rightarrow> spin_sys" where
  "spin_start nm = \<lparr>sys_lock = \<lparr>spin_locked = False, spin_name = nm, spin_cpu = None\<rparr>,
     sys_pc = (\<lambda>_. Out)\<rparr>"

inductive spin_reach :: "string \<Rightarrow> spin_sys \<Rightarrow> bool" for nm where
  start: "spin_reach nm (spin_start nm)"
| step: "spin_reach nm s \<Longrightarrow> spin_step s t \<Longrightarrow> spin_reach nm t"

definition owns :: "spin_pc \<Rightarrow> bool" where
  "owns p = (p = Won \<or> p = Inside \<or> p = Leaving)"

text \<open>Who owns the lock determines the lock's fields.\<close>

definition spin_owner :: "spin_sys \<Rightarrow> nat option \<Rightarrow> bool" where
  "spin_owner s ow \<longleftrightarrow>
     (\<forall>c. owns (sys_pc s c) \<longleftrightarrow> ow = Some c) \<and>
     (spin_locked (sys_lock s) \<longleftrightarrow> ow \<noteq> None) \<and>
     spin_cpu (sys_lock s) =
       (case ow of None \<Rightarrow> None | Some c \<Rightarrow> if sys_pc s c = Inside then Some c else None)"

definition spin_inv :: "spin_sys \<Rightarrow> bool" where
  "spin_inv s \<longleftrightarrow> (\<exists>ow. spin_owner s ow)"

lemma owns_simps [simp]: "\<not> owns Out" "\<not> owns Trying" "owns Won" "owns Inside" "owns Leaving"
  by (simp_all add: owns_def)

lemma spin_inv_start: "spin_inv (spin_start nm)"
  by (auto simp: spin_inv_def spin_owner_def spin_start_def)

lemma spin_inv_step: "spin_step s t \<Longrightarrow> spin_inv s \<Longrightarrow> spin_inv t"
proof (induction rule: spin_step.induct)
  case (enter s c)
  then obtain ow where ow: "spin_owner s ow" by (auto simp: spin_inv_def)
  then have "ow \<noteq> Some c" using enter(1) unfolding spin_owner_def by (metis owns_simps(1))
  then show ?case using ow by (auto simp: spin_inv_def spin_owner_def intro!: exI[of _ ow] split: option.splits)
next
  case (test_and_set s c)
  then obtain ow where ow: "spin_owner s ow" by (auto simp: spin_inv_def)
  then have "ow \<noteq> Some c" using test_and_set(1) unfolding spin_owner_def by (metis owns_simps(2))
  show ?case
  proof (cases ow)
    case None
    then show ?thesis using ow test_and_set(1) unfolding spin_inv_def
      by (intro exI[of _ "Some c"]) (simp add: spin_owner_def)
  next
    case (Some d)
    then show ?thesis using ow test_and_set(1) \<open>ow \<noteq> Some c\<close> unfolding spin_inv_def
      by (intro exI[of _ "Some d"]) (simp add: spin_owner_def)
  qed
next
  case (record_owner s c)
  then obtain ow where ow: "spin_owner s ow" by (auto simp: spin_inv_def)
  then have "ow = Some c" using record_owner(1) unfolding spin_owner_def by (metis owns_simps(3))
  then have "spin_owner s (Some c)" using ow by simp
  then show ?case using record_owner by (auto simp: spin_inv_def spin_owner_def intro!: exI[of _ "Some c"])
next
  case (forget_owner s c)
  then obtain ow where ow: "spin_owner s ow" by (auto simp: spin_inv_def)
  then have "ow = Some c" using forget_owner(1) unfolding spin_owner_def by (metis owns_simps(4))
  then have "spin_owner s (Some c)" using ow by simp
  then show ?case using forget_owner by (auto simp: spin_inv_def spin_owner_def intro!: exI[of _ "Some c"])
next
  case (clear s c)
  then obtain ow where ow: "spin_owner s ow" by (auto simp: spin_inv_def)
  then have "ow = Some c" using clear(1) unfolding spin_owner_def by (metis owns_simps(5))
  then have "spin_owner s (Some c)" using ow by simp
  then show ?case using clear by (auto simp: spin_inv_def spin_owner_def intro!: exI[of _ None])
qed

lemma spin_reach_inv: "spin_reach nm s \<Longrightarrow> spin_inv s"
  by (induction rule: spin_reach.induct) (auto intro: spin_inv_start spin_inv_step)

end
