(* ===== verification/Kalloc.thy ===== *)
theory Kalloc
  imports Locks "HOL-Library.Multiset"
begin

text \<open>
  Physical pages: the allocator of \<^verbatim>\<open>kern/kalloc.c\<close> and the memory it hands out. Memory is a map
  from the kernel virtual addresses of 8-byte words to their contents; a \<^verbatim>\<open>struct run\<close> is the
  first word of a free page. The interface the users of pages rely on is the locale
  \<open>page_pool\<close>.
\<close>

section \<open>State and operations\<close>

definition PGSIZE :: u64 where "PGSIZE = 4096"
definition PHYSTOP :: u64 where "PHYSTOP = 0x3F000000"
definition KERNBASE :: u64 where "KERNBASE = 0xFFFF000000000000"

definition V2P :: "u64 \<Rightarrow> u64" where "V2P a = a - KERNBASE"
definition P2V :: "u64 \<Rightarrow> u64" where "P2V a = a + KERNBASE"

definition ROUNDDOWN :: "u64 \<Rightarrow> u64 \<Rightarrow> u64" where "ROUNDDOWN a n = a - a mod n"
definition ROUNDUP :: "u64 \<Rightarrow> u64 \<Rightarrow> u64" where "ROUNDUP a n = ROUNDDOWN (a + n - 1) n"

text \<open>\<open>kend\<close> is the linker's symbol \<^verbatim>\<open>end\<close>, \<open>km_cpu\<close> the number of the executing processor.\<close>

record mem_state =
  km_cpu :: nat
  kend :: u64
  km_free :: u64
  kmeminitcnt :: u32
  kmemcslock :: spinlock
  kmeminitlock :: spinlock
  mem :: "u64 \<Rightarrow> u64"

definition on_kmem :: "(nat \<Rightarrow> (spinlock, 'a) kop) \<Rightarrow> ('z mem_state_scheme, 'a) kop" where
  "on_kmem m = kbind (kget km_cpu) (\<lambda>c. zoom kmemcslock (\<lambda>x s. s\<lparr>kmemcslock := x\<rparr>) (m c))"

definition on_kinit :: "(nat \<Rightarrow> (spinlock, 'a) kop) \<Rightarrow> ('z mem_state_scheme, 'a) kop" where
  "on_kinit m = kbind (kget km_cpu) (\<lambda>c. zoom kmeminitlock (\<lambda>x s. s\<lparr>kmeminitlock := x\<rparr>) (m c))"

definition load64 :: "u64 \<Rightarrow> ('z mem_state_scheme, u64) kop" where
  "load64 a = kget (\<lambda>s. mem s a)"

definition store64 :: "u64 \<Rightarrow> u64 \<Rightarrow> ('z mem_state_scheme, unit) kop" where
  "store64 a v = kmod (\<lambda>s. s\<lparr>mem := (mem s)(a := v)\<rparr>)"

definition kfree :: "u64 \<Rightarrow> ('z mem_state_scheme, unit) kop" where
  "kfree v =
     kbind (kget kend) (\<lambda>e.
     if v mod PGSIZE \<noteq> 0 \<or> v < e \<or> V2P v \<ge> PHYSTOP then panic ''kfree''
     else
       kthen (on_kmem acquire)
       (kbind (kget km_free) (\<lambda>fl.
        kthen (store64 v fl)
        (kthen (kmod (\<lambda>s. s\<lparr>km_free := v\<rparr>))
        (on_kmem release)))))"

text \<open>
  The loop of \<^verbatim>\<open>free_range\<close>; the fuel is the number of pages of the range and one turn for the
  final test.
\<close>

fun free_range_loop :: "nat \<Rightarrow> u64 \<Rightarrow> u64 \<Rightarrow> ('z mem_state_scheme, unit) kop" where
  "free_range_loop 0 p vend s = Fault Spin"
| "free_range_loop (Suc fuel) p vend s =
     (if p + PGSIZE \<le> vend then kthen (kfree p) (free_range_loop fuel (p + PGSIZE) vend) s
      else Ok () s)"

definition free_range :: "u64 \<Rightarrow> u64 \<Rightarrow> ('z mem_state_scheme, unit) kop" where
  "free_range vstart vend =
     (let p = ROUNDUP vstart PGSIZE in free_range_loop (Suc (unat (vend - p) div unat PGSIZE)) p vend)"

definition alloc_init :: "('z mem_state_scheme, unit) kop" where
  "alloc_init =
     kthen (on_kinit acquire)
     (kbind (kget kmeminitcnt) (\<lambda>c.
      if c \<noteq> 0 then on_kinit release
      else
        kthen (kmod (\<lambda>s. s\<lparr>kmeminitcnt := 1\<rparr>))
        (kbind (kget kend) (\<lambda>e.
         kthen (free_range e (P2V PHYSTOP))
         (on_kinit release)))))"

text \<open>The early return of \<^verbatim>\<open>kalloc\<close> does not release the lock.\<close>

definition kalloc :: "('z mem_state_scheme, u64) kop" where
  "kalloc =
     kthen (on_kmem acquire)
     (kbind (kget km_free) (\<lambda>r.
      if r = 0 then kret 0
      else
        kbind (load64 r) (\<lambda>n.
        kthen (kmod (\<lambda>s. s\<lparr>km_free := n\<rparr>))
        (kthen (on_kmem release)
        (kret r)))))"

fun check_runs :: "nat \<Rightarrow> u64 \<Rightarrow> ('z mem_state_scheme, unit) kop" where
  "check_runs 0 p s = Fault Spin"
| "check_runs (Suc fuel) p s =
     (if p = 0 then Ok () s
      else if kend s < p then check_runs fuel (mem s p) s
      else Fault (Panic ''assertion failed''))"

definition check_free_list :: "('z mem_state_scheme, unit) kop" where
  "check_free_list =
     kthen (on_kmem acquire)
     (kbind (kget km_free) (\<lambda>p.
      if p = 0 then panic ''kmem.free_list is a null pointer!''
      else
        kthen (check_runs (Suc (unat PHYSTOP div unat PGSIZE)) p)
        (on_kmem release)))"


section \<open>The free list\<close>

text \<open>\<open>runs m p xs\<close>: from \<open>p\<close>, the chain of \<^verbatim>\<open>next\<close> pointers in memory is \<open>xs\<close>.\<close>

fun runs :: "(u64 \<Rightarrow> u64) \<Rightarrow> u64 \<Rightarrow> u64 list \<Rightarrow> bool" where
  "runs m p [] \<longleftrightarrow> p = 0"
| "runs m p (x # xs) \<longleftrightarrow> p = x \<and> x \<noteq> 0 \<and> runs m (m x) xs"

definition is_page :: "u64 \<Rightarrow> u64 \<Rightarrow> bool" where
  "is_page e v \<longleftrightarrow> v mod PGSIZE = 0 \<and> e \<le> v \<and> V2P v < PHYSTOP"

definition km_inv :: "'z mem_state_scheme \<Rightarrow> u64 list \<Rightarrow> bool" where
  "km_inv s xs \<longleftrightarrow> spin_free (kmemcslock s) \<and> KERNBASE < kend s \<and> distinct xs
     \<and> (\<forall>x\<in>set xs. is_page (kend s) x) \<and> runs (mem s) (km_free s) xs"

lemma runs_frame: "runs m p xs \<Longrightarrow> (\<And>x. x \<in> set xs \<Longrightarrow> m' x = m x) \<Longrightarrow> runs m' p xs"
  by (induction xs arbitrary: p) auto

lemma is_page_nonzero: "is_page e v \<Longrightarrow> KERNBASE < e \<Longrightarrow> v \<noteq> 0"
  by (auto simp: is_page_def KERNBASE_def)

lemma km_invD:
  assumes "km_inv s xs"
  shows "spin_free (kmemcslock s)" "KERNBASE < kend s" "distinct xs" "runs (mem s) (km_free s) xs"
    "x \<in> set xs \<Longrightarrow> is_page (kend s) x" "x \<in> set xs \<Longrightarrow> x \<noteq> 0"
  using assms is_page_nonzero by (auto simp: km_inv_def)

lemmas km_run_defs = on_kmem_def on_kinit_def load64_def store64_def

lemma kalloc_run: "km_inv s (x # xs) \<Longrightarrow> kalloc s = Ok x (s\<lparr>km_free := mem s x\<rparr>)"
  using km_invD(1,4)[of s "x # xs"] by (simp add: kalloc_def km_run_defs kop_defs)

lemma kalloc_empty: "km_inv s [] \<Longrightarrow> kalloc s = Ok 0 (s\<lparr>kmemcslock := spin_held (km_cpu s) (kmemcslock s)\<rparr>)"
  using km_invD(1,4)[of s "[]"] by (simp add: kalloc_def km_run_defs kop_defs)

lemma km_inv_pop: "km_inv s (x # xs) \<Longrightarrow> km_inv (s\<lparr>km_free := mem s x\<rparr>) xs"
  by (simp add: km_inv_def)

lemma kfree_run:
  "km_inv s xs \<Longrightarrow> is_page (kend s) v \<Longrightarrow> kfree v s = Ok () (s\<lparr>mem := (mem s)(v := km_free s), km_free := v\<rparr>)"
  using km_invD(1)[of s xs] by (auto simp: kfree_def is_page_def km_run_defs kop_defs)

lemma kfree_panics:
  assumes "\<not> is_page (kend s) v"
  shows "kfree v s = Fault (Panic ''kfree'')"
proof -
  have "v mod PGSIZE \<noteq> 0 \<or> v < kend s \<or> V2P v \<ge> PHYSTOP"
    using assms unfolding is_page_def by (metis not_le)
  then show ?thesis by (simp add: kfree_def kop_defs)
qed

lemma km_inv_push:
  assumes "km_inv s xs" "is_page (kend s) v" "v \<notin> set xs"
  shows "km_inv (s\<lparr>mem := (mem s)(v := km_free s), km_free := v\<rparr>) (v # xs)"
proof -
  have "v \<noteq> 0" using assms is_page_nonzero km_invD(2) by blast
  moreover have "runs ((mem s)(v := km_free s)) (km_free s) xs"
    by (rule runs_frame[OF km_invD(4)[OF assms(1)]]) (use assms(3) in auto)
  ultimately show ?thesis using assms by (simp add: km_inv_def)
qed

text \<open>Words of memory outside the pages of \<open>P\<close> are untouched.\<close>

definition page_of :: "u64 \<Rightarrow> u64" where "page_of a = ROUNDDOWN a PGSIZE"

definition km_frame :: "u64 set \<Rightarrow> 'z mem_state_scheme \<Rightarrow> 'z mem_state_scheme \<Rightarrow> bool" where
  "km_frame P s t \<longleftrightarrow> (\<exists>m fl. t = s\<lparr>mem := m, km_free := fl\<rparr> \<and> (\<forall>a. page_of a \<notin> P \<longrightarrow> m a = mem s a))"

lemma page_of_page [simp]: "is_page e v \<Longrightarrow> page_of v = v"
  by (simp add: page_of_def ROUNDDOWN_def is_page_def)

lemma km_frame_refl: "km_frame P s s"
  unfolding km_frame_def by (rule exI[of _ "mem s"], rule exI[of _ "km_free s"]) simp

lemma km_frame_trans: "km_frame P s t \<Longrightarrow> km_frame Q t u \<Longrightarrow> km_frame (P \<union> Q) s u"
  unfolding km_frame_def by fastforce

lemma km_frame_mono: "km_frame P s t \<Longrightarrow> P \<subseteq> Q \<Longrightarrow> km_frame Q s t"
  unfolding km_frame_def by blast

lemma km_frame_free: "km_frame P s (s\<lparr>km_free := fl\<rparr>)"
  unfolding km_frame_def by (rule exI[of _ "mem s"], rule exI[of _ fl]) simp

lemma km_frame_kend: "km_frame P s t \<Longrightarrow> kend t = kend s"
  by (auto simp: km_frame_def)


section \<open>A pool of pages\<close>

text \<open>
  What the users of pages rely on: \<open>rep s xs\<close> says that \<open>xs\<close> are the free pages, in the order
  in which they are handed out; \<open>keep P\<close> that only the pages of \<open>P\<close> were written.
\<close>

locale page_pool =
  fixes rep :: "'s \<Rightarrow> 'p list \<Rightarrow> bool" and valid :: "'s \<Rightarrow> 'p \<Rightarrow> bool"
    and keep :: "'p set \<Rightarrow> 's \<Rightarrow> 's \<Rightarrow> bool"
    and alloc :: "('s, 'p) kop" and free :: "'p \<Rightarrow> ('s, unit) kop"
  assumes keep_refl: "keep P s s"
    and keep_trans: "keep P s t \<Longrightarrow> keep Q t u \<Longrightarrow> keep (P \<union> Q) s u"
    and keep_mono: "keep P s t \<Longrightarrow> P \<subseteq> Q \<Longrightarrow> keep Q s t"
    and keep_valid: "keep P s t \<Longrightarrow> valid t p = valid s p"
    and rep_distinct: "rep s xs \<Longrightarrow> distinct xs"
    and alloc_ok: "rep s (x # xs) \<Longrightarrow> kok alloc (\<lambda>r t. r = x \<and> rep t xs \<and> valid t x \<and> keep {} s t) s"
    and free_ok: "rep s xs \<Longrightarrow> valid s p \<Longrightarrow> p \<notin> set xs \<Longrightarrow>
      kok (free p) (\<lambda>_ t. rep t (p # xs) \<and> keep {p} s t) s"
begin

lemma alloc_all:
  "rep s (xs @ ys) \<Longrightarrow> kok (krepeat (length xs) alloc) (\<lambda>r t. r = xs \<and> rep t ys \<and> (\<forall>x\<in>set xs. valid t x) \<and> keep {} s t) s"
proof (induction xs arbitrary: s)
  case Nil
  then show ?case by (simp add: wp_simps keep_refl)
next
  case (Cons x xs)
  show ?case
    unfolding length_Cons krepeat.simps kwp_kbind
  proof (rule kwp_conseq[OF alloc_ok[of s x "xs @ ys"]])
    show "rep s (x # xs @ ys)" using Cons.prems by simp
    fix r t assume t: "r = x \<and> rep t (xs @ ys) \<and> valid t x \<and> keep {} s t"
    then show "kok (krepeat (length xs) alloc) (\<lambda>as. kok (kret (r # as)) (\<lambda>r t. r = x # xs \<and> rep t ys
        \<and> (\<forall>x\<in>set (x # xs). valid t x) \<and> keep {} s t)) t"
      using keep_trans[of "{}" s t "{}"]
      by (intro kwp_conseq[OF Cons.IH[of t]]) (auto simp: wp_simps keep_valid)
  qed
qed

lemma free_all:
  "rep s xs \<Longrightarrow> distinct ps \<Longrightarrow> set ps \<inter> set xs = {} \<Longrightarrow> (\<And>p. p \<in> set ps \<Longrightarrow> valid s p) \<Longrightarrow>
    kok (kfor ps free) (\<lambda>_ t. rep t (rev ps @ xs) \<and> keep (set ps) s t) s"
proof (induction ps arbitrary: s xs)
  case Nil
  then show ?case by (simp add: wp_simps keep_refl)
next
  case (Cons p ps)
  show ?case
    unfolding kfor.simps kwp_kthen
  proof (rule kwp_conseq[OF free_ok[of s xs p]])
    show "rep s xs" "valid s p" "p \<notin> set xs" using Cons.prems by auto
    fix t assume t: "rep t (p # xs) \<and> keep {p} s t"
    then show "kok (kfor ps free) (\<lambda>_ u. rep u (rev (p # ps) @ xs) \<and> keep (set (p # ps)) s u) t"
      using Cons.prems keep_trans[of "{p}" s t "set ps"]
      by (intro kwp_conseq[OF Cons.IH[of t "p # xs"]]) (auto simp: keep_valid)
  qed
qed

text \<open>Pages that are allocated and given back are handed out again, none is lost.\<close>

lemma alloc_free_all:
  assumes "rep s (xs @ ys)" "mset ps = mset xs"
  shows "kok (kbind (krepeat (length xs) alloc) (\<lambda>_. kfor ps free)) (\<lambda>_ t. rep t (rev ps @ ys) \<and> keep (set xs) s t) s"
proof -
  have d: "distinct (xs @ ys)" by (rule rep_distinct[OF assms(1)])
  have ps: "set ps = set xs" "distinct ps"
    using assms(2) d by (auto dest: mset_eq_setD mset_eq_imp_distinct_iff)
  show ?thesis
    unfolding kwp_kbind
  proof (rule kwp_conseq[OF alloc_all[OF assms(1)]])
    fix r t assume t: "r = xs \<and> rep t ys \<and> (\<forall>x\<in>set xs. valid t x) \<and> keep {} s t"
    have "keep (set xs) s u" if "keep (set ps) t u" for u
      using keep_trans[of "{}" s t "set ps" u] that t ps by simp
    then show "kok (kfor ps free) (\<lambda>_ t. rep t (rev ps @ ys) \<and> keep (set xs) s t) t"
      using t ps d by (intro kwp_conseq[OF free_all[of t ys ps]]) auto
  qed
qed

end

interpretation kp: page_pool km_inv "\<lambda>s. is_page (kend s)" km_frame kalloc kfree
proof
  fix P Q :: "u64 set" and s t u :: "'a mem_state_scheme" and x p xs
  show "km_frame P s s" by (rule km_frame_refl)
  show "km_frame P s t \<Longrightarrow> km_frame Q t u \<Longrightarrow> km_frame (P \<union> Q) s u" by (rule km_frame_trans)
  show "km_frame P s t \<Longrightarrow> P \<subseteq> Q \<Longrightarrow> km_frame Q s t" by (rule km_frame_mono)
  show "km_frame P s t \<Longrightarrow> is_page (kend t) p = is_page (kend s) p" by (simp add: km_frame_kend)
  show "km_inv s xs \<Longrightarrow> distinct xs" by (rule km_invD(3))
  show "kok kalloc (\<lambda>r t. r = x \<and> km_inv t xs \<and> is_page (kend t) x \<and> km_frame {} s t) s" if "km_inv s (x # xs)"
    using kalloc_run[OF that] km_inv_pop[OF that] km_invD(5)[OF that] km_frame_free[of "{}" s]
    by (simp add: kwp_Ok)
  show "kok (kfree p) (\<lambda>_ t. km_inv t (p # xs) \<and> km_frame {p} s t) s"
    if "km_inv s xs" "is_page (kend s) p" "p \<notin> set xs"
    using kfree_run[OF that(1,2)] km_inv_push[OF that] that(2)
    by (auto simp: kwp_Ok km_frame_def intro!: exI[of _ "(mem s)(p := km_free s)"] exI[of _ p])
qed


section \<open>Initialisation\<close>

definition pages :: "u64 \<Rightarrow> nat \<Rightarrow> u64 list" where
  "pages p n = map (\<lambda>i. p + of_nat i * PGSIZE) [0..<n]"

lemma length_pages [simp]: "length (pages p n) = n"
  by (simp add: pages_def)

lemma pages_0 [simp]: "pages p 0 = []"
  by (simp add: pages_def)

lemma pages_Suc: "pages p (Suc n) = p # pages (p + PGSIZE) n"
  by (simp add: pages_def upt_conv_Cons map_Suc_upt[symmetric] algebra_simps del: upt_Suc)

lemma unat_page:
  "unat p + n * 4096 < 2 ^ 64 \<Longrightarrow> i \<le> n \<Longrightarrow> unat (p + of_nat i * PGSIZE) = unat p + i * 4096"
proof -
  assume a: "unat p + n * 4096 < 2 ^ 64" "i \<le> n"
  then have "i * 4096 < 2 ^ 64" "unat p + i * 4096 < 2 ^ 64" by simp_all
  then show ?thesis by (simp add: unat_word_ariths unat_of_nat PGSIZE_def)
qed

lemma pages_bounds:
  assumes "unat p + n * 4096 < 2 ^ 64" "x \<in> set (pages p n)"
  obtains i where "i < n" "x = p + of_nat i * PGSIZE" "unat x = unat p + i * 4096"
  using assms unat_page[OF assms(1)] by (auto simp: pages_def)

lemma distinct_pages:
  assumes "unat p + n * 4096 < 2 ^ 64"
  shows "distinct (pages p n)"
proof -
  have "inj_on (\<lambda>i. p + of_nat i * PGSIZE) {0..<n}"
  proof (rule inj_onI)
    fix i j assume "i \<in> {0..<n}" "j \<in> {0..<n}" and e: "p + of_nat i * PGSIZE = p + of_nat j * PGSIZE"
    then have "unat p + i * 4096 = unat p + j * 4096"
      using arg_cong[OF e, of unat] unat_page[OF assms, of i] unat_page[OF assms, of j]
      by (simp only: atLeastLessThan_iff less_imp_le)
    then show "i = j" by simp
  qed
  then show ?thesis by (simp add: pages_def distinct_map)
qed

text \<open>The loop frees the \<open>n\<close> pages that fit below \<^verbatim>\<open>vend\<close>, one after the other.\<close>

lemma free_range_loop_pages:
  fixes s :: "'z mem_state_scheme"
  assumes "unat vend < 2 ^ 64 - 4096" "unat p + n * 4096 \<le> unat vend" "unat vend < unat p + Suc n * 4096" "n < fuel"
  shows "free_range_loop fuel p vend s = kfor (pages p n) kfree s"
  using assms(2-)
proof (induction n arbitrary: fuel p s)
  case 0
  then have "unat (p + PGSIZE) = unat p + 4096" using unat_page[of p 1 1] assms(1) by simp
  then have "\<not> p + PGSIZE \<le> vend" using 0 by (simp add: word_le_nat_alt)
  then show ?case using 0 by (cases fuel) simp_all
next
  case (Suc n)
  have u: "unat (p + PGSIZE) = unat p + 4096" using unat_page[of p 1 1] assms(1) Suc.prems by simp
  then have le: "p + PGSIZE \<le> vend" using Suc.prems by (simp add: word_le_nat_alt)
  obtain fu where fu: "fuel = Suc fu" "n < fu" using Suc.prems by (cases fuel) auto
  have "free_range_loop fu (p + PGSIZE) vend t = kfor (pages (p + PGSIZE) n) kfree t" for t :: "'z mem_state_scheme"
    using Suc.IH[of "p + PGSIZE" fu t] Suc.prems fu u by simp
  then show ?case using le fu by (simp add: pages_Suc kthen_def kbind_def split: outcome.split)
qed

definition npages :: "u64 \<Rightarrow> nat" where
  "npages e = unat (P2V PHYSTOP - ROUNDUP e PGSIZE) div 4096"

text \<open>The first page at or after the end of the kernel.\<close>

lemma ROUNDUP_page:
  assumes "unat e + 4096 \<le> 2 ^ 64"
  shows "unat (ROUNDUP e PGSIZE) mod 4096 = 0" "e \<le> ROUNDUP e PGSIZE" "unat (ROUNDUP e PGSIZE) < unat e + 4096"
proof -
  have "unat (e + 4096 - 1) = unat e + 4095"
    using assms by (simp add: unat_word_ariths add.commute[of e] add_diff_eq[symmetric])
  moreover have "unat (ROUNDUP e PGSIZE) = unat (e + 4096 - 1) - unat (e + 4096 - 1) mod 4096"
    unfolding ROUNDUP_def ROUNDDOWN_def PGSIZE_def
    by (subst unat_sub) (simp_all add: word_le_nat_alt unat_mod)
  ultimately have u: "unat (ROUNDUP e PGSIZE) = (unat e + 4095) - (unat e + 4095) mod 4096" by simp
  then have v: "unat (ROUNDUP e PGSIZE) = 4096 * ((unat e + 4095) div 4096)" by (simp add: minus_mod_eq_mult_div)
  show "unat (ROUNDUP e PGSIZE) mod 4096 = 0" using v by simp
  show "e \<le> ROUNDUP e PGSIZE" "unat (ROUNDUP e PGSIZE) < unat e + 4096" using v by (simp_all add: word_le_nat_alt)
qed

lemma kern_range: "unat KERNBASE = 2 ^ 64 - 2 ^ 48" "unat (P2V PHYSTOP) = unat KERNBASE + unat PHYSTOP"
    "unat PHYSTOP = 0x3F000000"
  by (simp_all add: KERNBASE_def P2V_def PHYSTOP_def)

lemma is_page_at:
  assumes "KERNBASE < e" "unat e \<le> unat x" "unat x mod 4096 = 0" "unat x < unat (P2V PHYSTOP)"
  shows "is_page e x"
proof -
  have k: "KERNBASE \<le> x" using assms(1,2) by (simp add: word_le_nat_alt word_less_nat_alt)
  then have "unat (V2P x) = unat x - unat KERNBASE" by (simp add: V2P_def unat_sub)
  then have "V2P x < PHYSTOP" using assms(4) k kern_range by (simp add: word_less_nat_alt word_le_nat_alt)
  moreover have "x mod PGSIZE = 0" using assms(3) by (simp add: PGSIZE_def word_unat_eq_iff unat_mod)
  ultimately show ?thesis using assms(2) by (simp add: is_page_def word_le_nat_alt)
qed

text \<open>
  \<^verbatim>\<open>free_range\<close> from the end of the kernel to the top of memory puts every whole page between
  them on the free list.
\<close>

lemma free_range_ok:
  assumes inv: "km_inv s []" and e: "kend s \<le> P2V PHYSTOP"
    and fit: "ROUNDUP (kend s) PGSIZE \<le> P2V PHYSTOP"
  shows "kok (free_range (kend s) (P2V PHYSTOP))
    (\<lambda>_ t. km_inv t (rev (pages (ROUNDUP (kend s) PGSIZE) (npages (kend s)))) \<and>
       km_frame (set (pages (ROUNDUP (kend s) PGSIZE) (npages (kend s)))) s t) s"
proof -
  let ?p = "ROUNDUP (kend s) PGSIZE" and ?n = "npages (kend s)" and ?v = "P2V PHYSTOP"
  note kr = kern_range
  have ke: "unat (kend s) + 4096 \<le> 2 ^ 64" using e kr by (simp add: word_le_nat_alt)
  note rp = ROUNDUP_page[OF ke]
  have v: "unat ?v < 2 ^ 64 - 4096" using kr by simp
  have d: "unat (?v - ?p) = unat ?v - unat ?p" using fit by (simp add: unat_sub)
  have n: "unat ?p + ?n * 4096 \<le> unat ?v" "unat ?v < unat ?p + Suc ?n * 4096"
    using fit d by (simp_all add: npages_def word_le_nat_alt)
  have small: "unat ?p + ?n * 4096 < 2 ^ 64" using n(1) v by simp
  have pg: "is_page (kend s) x" if "x \<in> set (pages ?p ?n)" for x
  proof (rule pages_bounds[OF small that])
    fix i assume i: "i < ?n" "unat x = unat ?p + i * 4096"
    then have "Suc i * 4096 \<le> ?n * 4096" by simp
    then have "unat x < unat ?v" using i n(1) by simp
    moreover have "unat x mod 4096 = 0" using i rp(1) by (simp add: mod_add_eq)
    moreover have "unat (kend s) \<le> unat x" using rp(2) i by (simp add: word_le_nat_alt)
    ultimately show ?thesis using km_invD(2)[OF inv] by (intro is_page_at)
  qed
  have "free_range (kend s) ?v s = kfor (pages ?p ?n) kfree s"
    unfolding free_range_def Let_def
    by (rule free_range_loop_pages[OF v n]) (simp add: npages_def PGSIZE_def)
  moreover have "kok (kfor (pages ?p ?n) kfree) (\<lambda>_ t. km_inv t (rev (pages ?p ?n) @ []) \<and> km_frame (set (pages ?p ?n)) s t) s"
    by (rule kp.free_all[OF inv distinct_pages[OF small]]) (simp_all add: pg)
  ultimately show ?thesis by (simp add: kwp_def)
qed

lemma on_kinit_run:
  assumes "spin_free (kmeminitlock s)"
  shows "on_kinit acquire s = Ok () (s\<lparr>kmeminitlock := spin_held (km_cpu s) (kmeminitlock s)\<rparr>)"
    "kmeminitlock t = spin_held (km_cpu t) (kmeminitlock s) \<Longrightarrow>
      on_kinit release t = Ok () (t\<lparr>kmeminitlock := kmeminitlock s\<rparr>)"
  using assms by (simp_all add: on_kinit_def kop_defs)

definition booted :: "'z mem_state_scheme \<Rightarrow> bool" where
  "booted s \<longleftrightarrow> km_inv s [] \<and> spin_free (kmeminitlock s) \<and> kmeminitcnt s = 0
     \<and> ROUNDUP (kend s) PGSIZE \<le> P2V PHYSTOP \<and> kend s \<le> P2V PHYSTOP"

lemma alloc_init_ok:
  assumes "booted s"
  shows "kok alloc_init (\<lambda>_ t. km_inv t (rev (pages (ROUNDUP (kend s) PGSIZE) (npages (kend s))))
    \<and> kmeminitcnt t = 1 \<and> spin_free (kmeminitlock t) \<and> kend t = kend s) s"
proof -
  define s1 where "s1 = s\<lparr>kmeminitlock := spin_held (km_cpu s) (kmeminitlock s), kmeminitcnt := 1\<rparr>"
  have i: "km_inv s1 []" "kend s1 = kend s" using assms by (simp_all add: booted_def s1_def km_inv_def)
  obtain t where t: "free_range (kend s) (P2V PHYSTOP) s1 = Ok () t"
    "km_inv t (rev (pages (ROUNDUP (kend s) PGSIZE) (npages (kend s))))"
    "km_frame (set (pages (ROUNDUP (kend s) PGSIZE) (npages (kend s)))) s1 t"
    using free_range_ok[OF i(1)] assms i(2) by (auto simp: booted_def elim!: kwp_total_Ok)
  from t(3) have l: "kmeminitlock t = spin_held (km_cpu t) (kmeminitlock s)" "kmeminitcnt t = 1" "kend t = kend s"
    by (auto simp: km_frame_def s1_def)
  have "on_kinit release t = Ok () (t\<lparr>kmeminitlock := kmeminitlock s\<rparr>)"
    using on_kinit_run(2)[of s t] assms l(1) by (simp add: booted_def)
  then have "alloc_init s = Ok () (t\<lparr>kmeminitlock := kmeminitlock s\<rparr>)"
    using assms t(1) by (simp add: alloc_init_def booted_def on_kinit_run s1_def)
  moreover have "km_inv (t\<lparr>kmeminitlock := x\<rparr>) xs = km_inv t xs" for x xs by (simp add: km_inv_def)
  ultimately show ?thesis using t(2) l assms by (simp add: kwp_Ok booted_def)
qed

text \<open>The check passes on every well-formed list without the page at \<^verbatim>\<open>end\<close> itself.\<close>

lemma check_runs_ok:
  "runs (mem s) p xs \<Longrightarrow> (\<And>x. x \<in> set xs \<Longrightarrow> kend s < x) \<Longrightarrow> length xs < fuel \<Longrightarrow> check_runs fuel p s = Ok () s"
proof (induction xs arbitrary: p fuel)
  case Nil
  then show ?case by (cases fuel) auto
next
  case (Cons x xs)
  then show ?case by (cases fuel) auto
qed

end
