(* ===== verification/Vm.thy ===== *)
theory Vm
  imports Kalloc
begin

text \<open>
  Page tables and user memory, \<^verbatim>\<open>kern/vm.c\<close> with the constants of \<^verbatim>\<open>inc/mmu.h\<close>. Tables live in the
  pages of the allocator: entry \<open>i\<close> of the table at \<open>t\<close> is the word at \<open>t + 8 i\<close>. The abstract view
  is \<open>pte\<close>, the leaf entry that a virtual address reaches from a page directory; the lemmas say how
  each operation changes that view.
\<close>

section \<open>Constants\<close>

definition ENTRYSZ :: nat where "ENTRYSZ = 512"

definition PTX :: "nat \<Rightarrow> u64 \<Rightarrow> u64" where
  "PTX level va = drop_bit (39 - 9 * level) va AND 0x1FF"

definition PTE_P :: u64 where "PTE_P = 1"
definition PTE_TABLE :: u64 where "PTE_TABLE = 2"
definition PTE_USER :: u64 where "PTE_USER = 0x40"
definition PTE_RW :: u64 where "PTE_RW = 0"
definition PTE_SH :: u64 where "PTE_SH = 0x300"
definition PTE_AF :: u64 where "PTE_AF = 0x400"
definition PTE_NORMAL :: u64 where "PTE_NORMAL = PTE_P OR push_bit 2 1 OR PTE_AF"

definition table_flags :: u64 where
  "table_flags = PTE_P OR PTE_TABLE OR PTE_AF OR PTE_NORMAL"

definition page_flags :: "u64 \<Rightarrow> u64" where
  "page_flags perm = perm OR PTE_P OR PTE_TABLE OR PTE_AF OR PTE_NORMAL OR PTE_USER OR PTE_SH"

text \<open>\<^verbatim>\<open>x >> 12 << 12\<close>\<close>

definition page_addr :: "u64 \<Rightarrow> u64" where
  "page_addr e = push_bit 12 (drop_bit 12 e)"


section \<open>Operations\<close>

text \<open>The register \<^verbatim>\<open>TTBR0_EL1\<close> that \<^verbatim>\<open>lttbr0\<close> loads.\<close>

record vm_state = mem_state +
  ttbr0 :: u64

text \<open>\<^verbatim>\<open>memset(a, 0, PGSIZE)\<close> of a page; the null page of a failed allocation is not memory.\<close>

definition zero_page :: "u64 \<Rightarrow> ('z mem_state_scheme, unit) kop" where
  "zero_page a =
     (if a = 0 then kfault (Undef ''null page'')
      else kmod (\<lambda>s. s\<lparr>mem := (\<lambda>x. if page_of x = a then 0 else mem s x)\<rparr>))"

text \<open>\<^verbatim>\<open>memcpy(d, s, PGSIZE)\<close> between pages.\<close>

definition copy_page :: "u64 \<Rightarrow> u64 \<Rightarrow> ('z mem_state_scheme, unit) kop" where
  "copy_page d a =
     kmod (\<lambda>s. s\<lparr>mem := (\<lambda>x. if page_of x = d then mem s (x - d + a) else mem s x)\<rparr>)"

text \<open>One byte of a memory word, little endian.\<close>

definition store8 :: "u64 \<Rightarrow> u8 \<Rightarrow> ('z mem_state_scheme, unit) kop" where
  "store8 a b =
     (let w = a AND NOT 7; k = 8 * unat (a AND 7) in
      kmod (\<lambda>s. s\<lparr>mem := (mem s)(w := (mem s w AND NOT (push_bit k 0xFF)) OR push_bit k (ucast b))\<rparr>))"

definition load8 :: "u64 \<Rightarrow> ('z mem_state_scheme, u8) kop" where
  "load8 a = kget (\<lambda>s. ucast (drop_bit (8 * unat (a AND 7)) (mem s (a AND NOT 7))))"

definition store_bytes :: "u64 \<Rightarrow> u8 list \<Rightarrow> ('z mem_state_scheme, unit) kop" where
  "store_bytes a bs = kfor [0..<length bs] (\<lambda>i. store8 (a + of_nat i) (bs ! i))"

text \<open>
  One level of \<^verbatim>\<open>pgdir_walk\<close>: the table the entry leads to, allocated when it is missing and
  \<open>alloc\<close> is set.
\<close>

definition walk_level :: "u64 \<Rightarrow> bool \<Rightarrow> nat \<Rightarrow> u64 \<Rightarrow> ('z mem_state_scheme, u64 option) kop" where
  "walk_level va alloc i tb =
     (let idx = tb + 8 * PTX i va in
      kbind (load64 idx) (\<lambda>e.
      if e = 0 \<or> e AND PTE_P = 0 then
        if \<not> alloc then kret None
        else
          kbind kalloc (\<lambda>address.
          kthen (store64 idx (V2P address))
          (kthen (zero_page address)
          (kbind (load64 idx) (\<lambda>e.
           kthen (store64 idx (e OR table_flags))
           (kbind (load64 idx) (\<lambda>e.
            kret (Some (P2V (page_addr e)))))))))
      else kret (Some (P2V (page_addr e)))))"

primrec walk_levels :: "u64 \<Rightarrow> bool \<Rightarrow> nat list \<Rightarrow> u64 \<Rightarrow> ('z mem_state_scheme, u64 option) kop" where
  "walk_levels va alloc [] tb = kret (Some tb)"
| "walk_levels va alloc (i # is) tb =
     kbind (walk_level va alloc i tb) (\<lambda>r.
     case r of None \<Rightarrow> kret None | Some tb \<Rightarrow> walk_levels va alloc is tb)"

definition pgdir_walk :: "u64 \<Rightarrow> u64 \<Rightarrow> bool \<Rightarrow> ('z mem_state_scheme, u64 option) kop" where
  "pgdir_walk pgdir va alloc =
     kbind (walk_levels va alloc [0..<3] pgdir) (\<lambda>r.
     case r of None \<Rightarrow> kret None | Some tb \<Rightarrow> kret (Some (tb + 8 * PTX 3 va)))"

definition pgdir_iwalk :: "u64 \<Rightarrow> u64 \<Rightarrow> ('z mem_state_scheme, u64) kop" where
  "pgdir_iwalk pgdir va =
     kbind (pgdir_walk pgdir va False) (\<lambda>r.
     case r of None \<Rightarrow> kret 0 | Some p \<Rightarrow> kbind (load64 p) (\<lambda>e. kret (page_addr e)))"

fun map_region_loop :: "nat \<Rightarrow> u64 \<Rightarrow> u64 \<Rightarrow> u64 \<Rightarrow> u64 \<Rightarrow> u64 \<Rightarrow> ('z mem_state_scheme, int) kop" where
  "map_region_loop 0 pgdir v vaend pa tail s = Fault Spin"
| "map_region_loop (Suc fuel) pgdir v vaend pa tail s =
     (if v < vaend then
        kbind (pgdir_walk pgdir v True) (\<lambda>r.
        case r of None \<Rightarrow> kret (-1)
        | Some p \<Rightarrow>
            kbind (load64 p) (\<lambda>e.
            if e AND PTE_P \<noteq> 0 then kret (-1)
            else
              kthen (store64 p (tail OR page_addr pa))
              (map_region_loop fuel pgdir (v + PGSIZE) vaend (pa + PGSIZE) tail))) s
      else Ok 0 s)"

definition map_region :: "u64 \<Rightarrow> u64 \<Rightarrow> u64 \<Rightarrow> u64 \<Rightarrow> u64 \<Rightarrow> ('z mem_state_scheme, int) kop" where
  "map_region pgdir va sz pa perm =
     (let vastart = ROUNDDOWN va PGSIZE; vaend = va + sz in
      map_region_loop (unat (vaend - vastart) div 4096 + 2) pgdir vastart vaend pa (page_flags perm))"

fun uvm_alloc_loop :: "nat \<Rightarrow> u64 \<Rightarrow> u64 \<Rightarrow> u64 \<Rightarrow> ('z mem_state_scheme, u64) kop" where
  "uvm_alloc_loop 0 pgdir a newsz s = Fault Spin"
| "uvm_alloc_loop (Suc fuel) pgdir a newsz s =
     (if a < newsz then
        kbind kalloc (\<lambda>pgnew.
        if pgnew = 0 then kret 0
        else
          kthen (zero_page pgnew)
          (kbind (map_region pgdir a PGSIZE (V2P pgnew) (PTE_USER OR PTE_RW)) (\<lambda>r.
           if r < 0 then kret 0
           else uvm_alloc_loop fuel pgdir (a + PGSIZE) newsz))) s
      else Ok newsz s)"

definition uvm_alloc :: "u64 \<Rightarrow> u64 \<Rightarrow> u64 \<Rightarrow> ('z mem_state_scheme, u64) kop" where
  "uvm_alloc pgdir oldsz newsz =
     (let a = ROUNDUP oldsz PGSIZE in uvm_alloc_loop (unat (newsz - a) div 4096 + 2) pgdir a newsz)"

fun uvm_dealloc_loop :: "nat \<Rightarrow> u64 \<Rightarrow> u64 \<Rightarrow> u64 \<Rightarrow> ('z mem_state_scheme, unit) kop" where
  "uvm_dealloc_loop 0 pgdir a oldsz s = Fault Spin"
| "uvm_dealloc_loop (Suc fuel) pgdir a oldsz s =
     (if a < oldsz then
        kbind (pgdir_walk pgdir a False) (\<lambda>r.
        case r of None \<Rightarrow> uvm_dealloc_loop fuel pgdir (a + PGSIZE) oldsz
        | Some p \<Rightarrow>
            kbind (load64 p) (\<lambda>e.
            kthen (kwhen (e \<noteq> 0 \<and> e AND PTE_P \<noteq> 0)
              (kthen (kfree (P2V (page_addr e))) (store64 p 0)))
            (uvm_dealloc_loop fuel pgdir (a + PGSIZE) oldsz))) s
      else Ok () s)"

definition uvm_dealloc :: "u64 \<Rightarrow> u64 \<Rightarrow> u64 \<Rightarrow> ('z mem_state_scheme, u64) kop" where
  "uvm_dealloc pgdir oldsz newsz =
     (let a = ROUNDUP newsz PGSIZE in
      kthen (uvm_dealloc_loop (unat (oldsz - a) div 4096 + 2) pgdir a oldsz) (kret newsz))"

text \<open>\<open>d\<close> is \<open>3 - level\<close>: the recursion of the code stops at level 3.\<close>

primrec vm_free_dfs :: "nat \<Rightarrow> u64 \<Rightarrow> ('z mem_state_scheme, unit) kop" where
  "vm_free_dfs 0 pgdir =
     kthen (kfor [0..<ENTRYSZ] (\<lambda>i.
       kbind (load64 (pgdir + 8 * of_nat i)) (\<lambda>e.
       kwhen (e \<noteq> 0 \<and> e AND PTE_P \<noteq> 0) (store64 (pgdir + 8 * of_nat i) 0))))
     (kfree pgdir)"
| "vm_free_dfs (Suc d) pgdir =
     kthen (kfor [0..<ENTRYSZ] (\<lambda>i.
       kbind (load64 (pgdir + 8 * of_nat i)) (\<lambda>e.
       kwhen (e \<noteq> 0 \<and> e AND PTE_P \<noteq> 0)
         (kthen (kwhen (e AND PTE_TABLE \<noteq> 0) (vm_free_dfs d (P2V (page_addr e))))
         (store64 (pgdir + 8 * of_nat i) 0)))))
     (kfree pgdir)"

definition vm_free :: "u64 \<Rightarrow> nat \<Rightarrow> ('z mem_state_scheme, unit) kop" where
  "vm_free pgdir level = vm_free_dfs (3 - level) pgdir"

fun uvm_copy_loop :: "nat \<Rightarrow> u64 \<Rightarrow> u64 \<Rightarrow> u64 \<Rightarrow> u64 \<Rightarrow> ('z mem_state_scheme, bool) kop" where
  "uvm_copy_loop 0 old new i sz s = Fault Spin"
| "uvm_copy_loop (Suc fuel) old new i sz s =
     (if i < sz then
        kbind (pgdir_walk old i False) (\<lambda>r.
        case r of None \<Rightarrow> kret False
        | Some p \<Rightarrow>
            kbind (load64 p) (\<lambda>e.
            if e AND PTE_P = 0 then kret False
            else
              kbind kalloc (\<lambda>new_pg.
              if new_pg = 0 then kret False
              else
                kthen (copy_page new_pg (P2V (page_addr e)))
                (kbind (map_region new i PGSIZE (V2P new_pg) (drop_bit 52 (push_bit 52 e))) (\<lambda>r.
                 if r \<noteq> 0 then kret False
                 else uvm_copy_loop fuel old new (i + PGSIZE) sz))))) s
      else Ok True s)"

definition uvm_copy :: "u64 \<Rightarrow> u64 \<Rightarrow> ('z mem_state_scheme, u64) kop" where
  "uvm_copy old_pgdir sz =
     kbind kalloc (\<lambda>new_pgdir.
     if new_pgdir = 0 then kret 0
     else
       kthen (zero_page new_pgdir)
       (kbind (uvm_copy_loop (unat sz div 4096 + 2) old_pgdir new_pgdir 0 sz) (\<lambda>ok.
        kret (if ok then new_pgdir else 0))))"

definition pgdir_init :: "('z mem_state_scheme, u64) kop" where
  "pgdir_init = kbind kalloc (\<lambda>pgdir. if pgdir = 0 then panic ''pgdirinit'' else kret pgdir)"

definition uvm_init :: "u64 \<Rightarrow> u8 list \<Rightarrow> ('z mem_state_scheme, unit) kop" where
  "uvm_init pgdir binary =
     kbind kalloc (\<lambda>r.
     kthen (zero_page r)
     (kbind (map_region pgdir 0 PGSIZE (V2P r) PTE_RW) (\<lambda>_.
      store_bytes r binary)))"

definition uvm_switch :: "u64 \<Rightarrow> ('z vm_state_scheme, unit) kop" where
  "uvm_switch pgdir = kmod (\<lambda>s. s\<lparr>ttbr0 := V2P pgdir\<rparr>)"


section \<open>Addresses and entries\<close>

lemma low_bits_0: "unat (w :: u64) mod 4096 = 0 \<Longrightarrow> take_bit 12 w = 0"
  by (simp add: take_bit_eq_mod word_unat_eq_iff unat_mod)

lemma page_low_bits:
  assumes "is_page e t"
  shows "take_bit 12 t = 0"
proof -
  have "unat t mod 4096 = 0" using assms
    by (simp add: is_page_def PGSIZE_def word_unat_eq_iff unat_mod)
  then show ?thesis by (rule low_bits_0)
qed

lemma page_bounds:
  assumes "is_page e t" "KERNBASE < e"
  shows "unat t + 4096 < 2 ^ 64" "unat t mod 4096 = 0" "KERNBASE \<le> t"
proof -
  show k: "KERNBASE \<le> t" using assms unfolding is_page_def by (meson less_le_trans less_imp_le)
  have "unat (V2P t) = unat t - unat KERNBASE" using k by (simp add: V2P_def unat_sub)
  then show "unat t + 4096 < 2 ^ 64"
    using assms(1) k kern_range by (simp add: is_page_def word_less_nat_alt word_le_nat_alt) linarith
  show "unat t mod 4096 = 0" using assms(1) by (simp add: is_page_def PGSIZE_def word_unat_eq_iff unat_mod)
qed

lemma page_of_eq: "unat (page_of a) = unat a - unat a mod 4096"
  unfolding page_of_def ROUNDDOWN_def PGSIZE_def
  by (subst unat_sub) (simp_all add: word_le_nat_alt unat_mod)

text \<open>Entry \<open>i\<close> of a table lies in the table's page, and different entries are different words.\<close>

lemma unat_entry:
  assumes "is_page e t" "KERNBASE < e" "i < 512"
  shows "unat (t + 8 * of_nat i) = unat t + 8 * i"
proof -
  have "unat (8 * of_nat i :: u64) = 8 * i" using assms(3) by (simp add: unat_word_ariths unat_of_nat)
  then show ?thesis using page_bounds(1)[OF assms(1,2)] assms(3) by (simp add: unat_word_ariths)
qed

lemma page_of_entry:
  assumes "is_page e t" "KERNBASE < e" "i < 512"
  shows "page_of (t + 8 * of_nat i) = t"
proof -
  have "(unat t + 8 * i) mod 4096 = 8 * i"
    using page_bounds(2)[OF assms(1,2)] assms(3) by (simp add: mod_add_left_eq[symmetric])
  then show ?thesis by (simp add: word_unat_eq_iff page_of_eq unat_entry[OF assms])
qed

lemma entry_inj:
  assumes "is_page e t" "is_page e u" "KERNBASE < e" "i < 512" "j < 512"
  shows "t + 8 * of_nat i = u + 8 * of_nat j \<longleftrightarrow> t = u \<and> i = j"
proof
  assume eq: "t + 8 * of_nat i = u + 8 * of_nat j"
  then have "t = u" using page_of_entry[of e t i] page_of_entry[of e u j] assms by metis
  moreover have "unat t + 8 * i = unat u + 8 * j"
    using arg_cong[OF eq, of unat] unat_entry[of e t i] unat_entry[of e u j] assms by metis
  ultimately show "t = u \<and> i = j" by simp
qed simp

definition present :: "u64 \<Rightarrow> bool" where
  "present e \<longleftrightarrow> e AND PTE_P \<noteq> 0"

definition child :: "u64 \<Rightarrow> u64" where
  "child e = P2V (page_addr e)"

lemma absent_test: "(e = 0 \<or> e AND PTE_P = 0) = (\<not> present e)"
  by (auto simp: present_def)

lemma present_test: "(e \<noteq> 0 \<and> e AND PTE_P \<noteq> 0) = present e"
  by (auto simp: present_def)

lemma not_present_0 [simp]: "\<not> present 0"
  by (simp add: present_def)

lemma present_flags: "present (e OR table_flags)" "present (page_flags p OR e)"
  by (auto simp: present_def table_flags_def page_flags_def PTE_P_def bit.conj_disj_distrib2)

lemma table_flags_bits: "n \<ge> 12 \<Longrightarrow> \<not> bit table_flags n"
proof -
  have "table_flags = 0x407" by (simp add: table_flags_def PTE_P_def PTE_TABLE_def PTE_AF_def PTE_NORMAL_def)
  moreover have "take_bit 12 (0x407 :: u64) = 0x407" by simp
  ultimately show "n \<ge> 12 \<Longrightarrow> \<not> bit table_flags n" by (metis bit_take_bit_iff not_le)
qed

lemma page_addr_flags:
  assumes "take_bit 12 a = 0" "\<And>n. n \<ge> 12 \<Longrightarrow> \<not> bit f n"
  shows "page_addr (a OR f) = a"
proof (rule bit_word_eqI)
  fix n assume n: "n < LENGTH(64)"
  have "\<not> bit a n" if "n < 12" using assms(1) that by (metis bit_0_eq bit_take_bit_iff bot_apply bot_bool_def)
  then show "bit (page_addr (a OR f)) n = bit a n"
    using assms(2)[of n] n by (cases "n < 12") (auto simp: page_addr_def bit_simps not_less)
qed

lemma V2P_low:
  assumes "is_page e x" "KERNBASE < e"
  shows "take_bit 12 (V2P x) = 0"
proof -
  have "unat (V2P x) = unat x - unat KERNBASE"
    using page_bounds(3)[OF assms] by (simp add: V2P_def unat_sub)
  then have "unat (V2P x) mod 4096 = 0"
    using page_bounds(2)[OF assms] kern_range(1) by (auto simp: mod_eq_0_iff_dvd intro: dvd_diff_nat)
  then show ?thesis by (rule low_bits_0)
qed

lemma P2V_V2P [simp]: "P2V (V2P x) = x" "V2P (P2V x) = x"
  by (simp_all add: P2V_def V2P_def)

lemma child_table: "is_page e x \<Longrightarrow> KERNBASE < e \<Longrightarrow> child (V2P x OR table_flags) = x"
  by (simp add: child_def page_addr_flags[OF V2P_low table_flags_bits])


section \<open>The tree of tables\<close>

text \<open>\<open>walkf m t p\<close>: the table reached from \<open>t\<close> by the indices \<open>p\<close>, if every entry on the way is present.\<close>

fun walkf :: "(u64 \<Rightarrow> u64) \<Rightarrow> u64 \<Rightarrow> nat list \<Rightarrow> u64 option" where
  "walkf m t [] = Some t"
| "walkf m t (i # is) = (let e = m (t + 8 * of_nat i) in if present e then walkf m (child e) is else None)"

definition ix :: "nat \<Rightarrow> u64 \<Rightarrow> nat" where "ix i va = unat (PTX i va)"

definition vpath :: "u64 \<Rightarrow> nat list" where "vpath va = map (\<lambda>i. ix i va) [0..<3]"

text \<open>The leaf entry of a virtual address, 0 when a table on the way is missing.\<close>

definition pte :: "(u64 \<Rightarrow> u64) \<Rightarrow> u64 \<Rightarrow> u64 \<Rightarrow> u64" where
  "pte m root va = (case walkf m root (vpath va) of None \<Rightarrow> 0 | Some t \<Rightarrow> m (t + 8 * of_nat (ix 3 va)))"

definition pt_path :: "nat list \<Rightarrow> bool" where
  "pt_path p \<longleftrightarrow> length p \<le> 3 \<and> (\<forall>i\<in>set p. i < 512)"

text \<open>
  The tables under \<open>root\<close> are pages outside \<open>F\<close>, and each is reached by one path only.
\<close>

definition pt_ok :: "(u64 \<Rightarrow> u64) \<Rightarrow> u64 \<Rightarrow> u64 \<Rightarrow> u64 set \<Rightarrow> bool" where
  "pt_ok m e root F \<longleftrightarrow> KERNBASE < e
     \<and> (\<forall>p t. pt_path p \<longrightarrow> walkf m root p = Some t \<longrightarrow> is_page e t \<and> t \<notin> F)
     \<and> (\<forall>p q t. pt_path p \<longrightarrow> pt_path q \<longrightarrow> walkf m root p = Some t \<longrightarrow> walkf m root q = Some t \<longrightarrow> p = q)"

definition pt_inv :: "'z mem_state_scheme \<Rightarrow> u64 \<Rightarrow> u64 list \<Rightarrow> bool" where
  "pt_inv s root xs \<longleftrightarrow> km_inv s xs \<and> pt_ok (mem s) (kend s) root (set xs)"

definition tables :: "(u64 \<Rightarrow> u64) \<Rightarrow> u64 \<Rightarrow> u64 set" where
  "tables m root = {t. \<exists>p. pt_path p \<and> walkf m root p = Some t}"

lemma walkf_append: "walkf m t (p @ q) = (case walkf m t p of None \<Rightarrow> None | Some u \<Rightarrow> walkf m u q)"
  by (induction p arbitrary: t) (auto simp: Let_def)

lemma walkf_snoc: "walkf m t (p @ [i]) = (case walkf m t p of None \<Rightarrow> None
   | Some u \<Rightarrow> if present (m (u + 8 * of_nat i)) then Some (child (m (u + 8 * of_nat i))) else None)"
  by (simp add: walkf_append Let_def split: option.split)

lemma ix_less [simp]: "ix i va < 512"
proof -
  have "PTX i va = take_bit 9 (drop_bit (39 - 9 * i) va)"
    unfolding PTX_def by (simp add: take_bit_eq_mask mask_eq_exp_minus_1)
  then have "PTX i va < 2 ^ 9" by (simp add: take_bit_eq_mod word_mod_less_divisor)
  then show ?thesis by (simp add: ix_def word_less_nat_alt)
qed

lemma PTX_ix [simp]: "PTX i va = of_nat (ix i va)"
  by (simp add: ix_def)

lemma pt_path_simps [simp]: "pt_path []" "pt_path (p @ [i]) \<longleftrightarrow> pt_path p \<and> length p < 3 \<and> i < 512" "pt_path (vpath va)"
  by (auto simp: pt_path_def vpath_def)

lemma length_vpath [simp]: "length (vpath va) = 3"
  by (simp add: vpath_def)

lemma pt_okD:
  assumes "pt_ok m e root F"
  shows "KERNBASE < e" "pt_path p \<Longrightarrow> walkf m root p = Some t \<Longrightarrow> is_page e t"
    "pt_path p \<Longrightarrow> walkf m root p = Some t \<Longrightarrow> t \<notin> F"
    "pt_path p \<Longrightarrow> pt_path q \<Longrightarrow> walkf m root p = Some t \<Longrightarrow> walkf m root q = Some t \<Longrightarrow> p = q"
  using assms by (auto simp: pt_ok_def)

lemma walk_levels_find:
  "walk_levels va False is tb s = Ok (walkf (mem s) tb (map (\<lambda>i. ix i va) is)) s"
  by (induction "is" arbitrary: tb)
    (auto simp: walk_level_def Let_def load64_def absent_test child_def kop_defs)

text \<open>Without \<open>alloc\<close> the walk changes nothing and finds the address of the leaf entry.\<close>

lemma pgdir_walk_find:
  "pgdir_walk root va False s =
    Ok (map_option (\<lambda>t. t + 8 * of_nat (ix 3 va)) (walkf (mem s) root (vpath va))) s"
  by (simp add: pgdir_walk_def walk_levels_find vpath_def split: option.split)

text \<open>A zeroed page \<open>x\<close> is linked in at the absent entry \<open>i\<close> of the table at path \<open>p\<close>.\<close>

definition link_table :: "u64 \<Rightarrow> nat \<Rightarrow> u64 \<Rightarrow> (u64 \<Rightarrow> u64) \<Rightarrow> u64 \<Rightarrow> u64" where
  "link_table t i x m = (\<lambda>a. if page_of a = x then 0 else m a)(t + 8 * of_nat i := V2P x OR table_flags)"

lemma link_table_walkf:
  assumes ok: "pt_ok m e r F" and p: "pt_path p" "length p < 3" "walkf m r p = Some t"
    and i: "i < 512" and ab: "\<not> present (m (t + 8 * of_nat i))" and x: "x \<in> F" "is_page e x"
  shows "pt_path q \<Longrightarrow> walkf (link_table t i x m) r q =
    (if q = p @ [i] then Some x else if \<exists>w. q = p @ i # w then None else walkf m r q)"
proof (induction q rule: rev_induct)
  case Nil
  then show ?case by simp
next
  case (snoc j q)
  note K = pt_okD[OF ok]
  let ?m = "link_table t i x m"
  have q: "pt_path q" "j < 512" using snoc.prems by auto
  have tp: "is_page e t" "t \<noteq> x" using K(2,3)[OF p(1,3)] x by auto
  have xj: "?m (x + 8 * of_nat j) = 0"
    using entry_inj[OF x(2) tp(1) K(1) q(2) i] tp(2) page_of_entry[OF x(2) K(1) q(2)]
    by (auto simp: link_table_def)
  have ti: "?m (t + 8 * of_nat i) = V2P x OR table_flags" by (simp add: link_table_def)
  have other: "?m (u + 8 * of_nat j) = m (u + 8 * of_nat j)" if "walkf m r q = Some u" "q @ [j] \<noteq> p @ [i]" for u
  proof -
    have u: "is_page e u" "u \<noteq> x" using K(2,3)[OF q(1) that(1)] x by auto
    have "\<not> (u = t \<and> j = i)" using K(4)[OF q(1) p(1) that(1)] p(3) that(2) by auto
    then show ?thesis
      using entry_inj[OF u(1) tp(1) K(1) q(2) i] page_of_entry[OF u(1) K(1) q(2)] u(2)
      by (auto simp: link_table_def)
  qed
  consider (new) "q @ [j] = p @ [i]" | (under) w where "q = p @ i # w" | (off) "q @ [j] \<noteq> p @ [i]" "\<nexists>w. q @ [j] = p @ i # w"
    by (metis append_butlast_last_id append.assoc append_Cons butlast_append butlast.simps(2) butlast_snoc list.distinct(1))
  then show ?case
  proof cases
    case new
    then show ?thesis using snoc.IH[OF q(1)] p(3) ti present_flags(1) child_table[OF x(2) K(1)]
      by (auto simp: walkf_snoc)
  next
    case under
    have "walkf ?m r q = Some x \<or> walkf ?m r q = None" using snoc.IH[OF q(1)] under by auto
    then have "walkf ?m r (q @ [j]) = None" using xj by (auto simp: walkf_snoc)
    then show ?thesis using under by simp
  next
    case off
    then have "walkf ?m r q = walkf m r q" using snoc.IH[OF q(1)] by auto
    then show ?thesis using off other by (auto simp: walkf_snoc split: option.split)
  qed
qed


lemma link_table_ok:
  assumes ok: "pt_ok m e r F" and p: "pt_path p" "length p < 3" "walkf m r p = Some t"
    and i: "i < 512" and ab: "\<not> present (m (t + 8 * of_nat i))" and x: "x \<in> F" "is_page e x"
  shows "pt_ok (link_table t i x m) e r (F - {x})"
proof -
  note W = link_table_walkf[OF ok p i ab x] and K = pt_okD[OF ok]
  have old: "q \<noteq> p @ [i] \<Longrightarrow> walkf m r q = Some u" if "pt_path q" "walkf (link_table t i x m) r q = Some u" for q u
    using W[OF that(1)] that(2) by (simp split: if_splits)
  have new: "u = x" if "walkf (link_table t i x m) r (p @ [i]) = Some u" for u
    using W[of "p @ [i]"] that p i by simp
  have nx: "u \<noteq> x" if "pt_path q" "walkf m r q = Some u" for q u using K(3)[OF that] x by auto
  show ?thesis
    unfolding pt_ok_def
  proof (intro conjI allI impI)
    show "KERNBASE < e" by (rule K(1))
  next
    fix q u assume q: "pt_path q" "walkf (link_table t i x m) r q = Some u"
    show "is_page e u" "u \<notin> F - {x}"
      using old[OF q] new q K(2,3) x by (cases "q = p @ [i]"; auto)+
  next
    fix q q' u assume a: "pt_path q" "pt_path q'" "walkf (link_table t i x m) r q = Some u"
      "walkf (link_table t i x m) r q' = Some u"
    show "q = q'"
    proof (cases "q = p @ [i]"; cases "q' = p @ [i]")
      assume "q \<noteq> p @ [i]" "q' \<noteq> p @ [i]"
      then show ?thesis using old[OF a(1,3)] old[OF a(2,4)] K(4) a(1,2) by blast
    qed (use a old new nx in blast)+
  qed
qed

lemma link_table_pte:
  assumes ok: "pt_ok m e r F" and p: "pt_path p" "length p < 3" "walkf m r p = Some t"
    and i: "i < 512" and ab: "\<not> present (m (t + 8 * of_nat i))" and x: "x \<in> F" "is_page e x"
  shows "pte (link_table t i x m) r va = pte m r va"
proof -
  note W = link_table_walkf[OF ok p i ab x, of "vpath va", simplified] and K = pt_okD[OF ok]
  let ?m = "link_table t i x m"
  have t: "is_page e t" "t \<noteq> x" using K(2,3)[OF p(1,3)] x by auto
  have none: "walkf m r (p @ i # w) = None" for w using p(3) ab by (simp add: walkf_append Let_def)
  show ?thesis
  proof (cases "\<exists>w. vpath va = p @ i # w")
    case True
    have "?m (x + 8 * of_nat (ix 3 va)) = 0"
      using entry_inj[OF x(2) t(1) K(1) ix_less i] t(2) page_of_entry[OF x(2) K(1) ix_less]
      by (auto simp: link_table_def)
    then show ?thesis using True W none by (auto simp: pte_def)
  next
    case False
    have "?m (u + 8 * of_nat (ix 3 va)) = m (u + 8 * of_nat (ix 3 va))" if u: "walkf m r (vpath va) = Some u" for u
    proof -
      have "is_page e u" "u \<noteq> x" using K(2,3)[OF _ u] x by auto
      moreover have "u \<noteq> t" using K(4)[OF _ p(1) u] p(2,3) by (metis length_vpath less_irrefl pt_path_simps(3))
      ultimately show ?thesis
        using entry_inj[OF _ t(1) K(1) ix_less i] page_of_entry[OF _ K(1) ix_less] by (auto simp: link_table_def)
    qed
    then show ?thesis using False W by (auto simp: pte_def split: option.split)
  qed
qed

text \<open>
  \<open>grown n r xs s s' zs\<close>: at most \<open>n\<close> free pages of \<open>xs\<close> became tables under \<open>r\<close>, the tables that
  were there are still reached by the same paths, and no page but these was written.
\<close>

definition grown :: "nat \<Rightarrow> u64 \<Rightarrow> u64 list \<Rightarrow> 'z mem_state_scheme \<Rightarrow> 'z mem_state_scheme \<Rightarrow> u64 list \<Rightarrow> bool" where
  "grown n r xs s s' zs \<longleftrightarrow> (\<exists>ys. xs = ys @ zs \<and> length ys \<le> n \<and> pt_inv s' r zs
     \<and> km_frame (set ys \<union> tables (mem s) r) s s'
     \<and> tables (mem s') r \<subseteq> tables (mem s) r \<union> set ys
     \<and> (\<forall>p t. pt_path p \<longrightarrow> walkf (mem s) r p = Some t \<longrightarrow> walkf (mem s') r p = Some t))"

lemma grown_refl: "pt_inv s r xs \<Longrightarrow> grown n r xs s s xs"
  by (auto simp: grown_def km_frame_refl)

lemma grown_trans:
  assumes "grown n r xs s t ys" "grown k r ys t u zs"
  shows "grown (n + k) r xs s u zs"
proof -
  obtain as where a: "xs = as @ ys" "length as \<le> n"
    "km_frame (set as \<union> tables (mem s) r) s t" "tables (mem t) r \<subseteq> tables (mem s) r \<union> set as"
    "\<forall>p v. pt_path p \<longrightarrow> walkf (mem s) r p = Some v \<longrightarrow> walkf (mem t) r p = Some v"
    using assms(1) by (auto simp: grown_def)
  obtain bs where b: "ys = bs @ zs" "length bs \<le> k" "pt_inv u r zs"
    "km_frame (set bs \<union> tables (mem t) r) t u" "tables (mem u) r \<subseteq> tables (mem t) r \<union> set bs"
    "\<forall>p v. pt_path p \<longrightarrow> walkf (mem t) r p = Some v \<longrightarrow> walkf (mem u) r p = Some v"
    using assms(2) by (auto simp: grown_def)
  have "km_frame (set (as @ bs) \<union> tables (mem s) r) s u"
    by (rule km_frame_mono[OF km_frame_trans[OF a(3) b(4)]]) (use a(4) in auto)
  then show ?thesis unfolding grown_def using a b by (intro exI[of _ "as @ bs"]) auto
qed

lemma walk_level_present:
  "present (mem s (t + 8 * of_nat (ix i va))) \<Longrightarrow>
    walk_level va al i t s = Ok (Some (child (mem s (t + 8 * of_nat (ix i va))))) s"
  by (simp add: walk_level_def Let_def load64_def absent_test child_def kop_defs)

lemma walk_level_new:
  assumes inv: "pt_inv s r (x # xs)" and t: "walkf (mem s) r p = Some t" "pt_path p"
    and ab: "\<not> present (mem s (t + 8 * of_nat (ix i va)))"
  shows "walk_level va True i t s =
    Ok (Some x) (s\<lparr>mem := link_table t (ix i va) x (mem s), km_free := mem s x\<rparr>)"
proof -
  let ?a = "t + 8 * of_nat (ix i va)"
  have km: "km_inv s (x # xs)" and ok: "pt_ok (mem s) (kend s) r (set (x # xs))" using inv by (simp_all add: pt_inv_def)
  have tp: "is_page (kend s) t" "t \<noteq> x" using pt_okD(2,3)[OF ok t(2,1)] by auto
  note xp = km_invD(5,6)[OF km, of x, simplified]
  have pa: "page_of ?a \<noteq> x" using page_of_entry[OF tp(1) km_invD(2)[OF km] ix_less] tp(2) by simp
  have lt: "(\<lambda>y. if page_of y = x then 0 else ((mem s)(?a := V2P x)) y)(?a := V2P x OR table_flags)
      = link_table t (ix i va) x (mem s)"
    by (auto simp: link_table_def fun_eq_iff)
  have ch: "P2V (page_addr (V2P x OR table_flags)) = x"
    using child_table[OF xp(1) km_invD(2)[OF km]] by (simp add: child_def)
  have la: "link_table t (ix i va) x (mem s) ?a = V2P x OR table_flags" by (simp add: link_table_def)
  show ?thesis
    using ab pa xp(2) ch lt la
    by (simp add: walk_level_def Let_def load64_def store64_def zero_page_def absent_test kalloc_run[OF km] cong: if_cong)
qed


lemma link_table_grown:
  assumes inv: "pt_inv s r (x # xs)" and t: "walkf (mem s) r p = Some t" "pt_path p" "length p < 3" and i: "i < 512"
    and ab: "\<not> present (mem s (t + 8 * of_nat i))"
  shows "grown 1 r (x # xs) s (s\<lparr>mem := link_table t i x (mem s), km_free := mem s x\<rparr>) xs"
    "walkf (link_table t i x (mem s)) r (p @ [i]) = Some x" "pte (link_table t i x (mem s)) r va = pte (mem s) r va"
proof -
  have km: "km_inv s (x # xs)" and ok: "pt_ok (mem s) (kend s) r (set (x # xs))" using inv by (simp_all add: pt_inv_def)
  note xp = km_invD(5)[OF km, of x, simplified]
  note W = link_table_walkf[OF ok t(2,3,1) i ab _ xp, simplified]
  note O = link_table_ok[OF ok t(2,3,1) i ab _ xp, simplified]
  have tp: "is_page (kend s) t" "t \<notin> set (x # xs)" using pt_okD(2,3)[OF ok t(2,1)] by auto
  have pg: "page_of (t + 8 * of_nat i) = t" by (rule page_of_entry[OF tp(1) km_invD(2)[OF km] i])
  have xs: "set (x # xs) - {x} = set xs" using km_invD(3)[OF km] by auto
  have tt: "t \<in> tables (mem s) r" using t by (auto simp: tables_def)
  have "runs (link_table t i x (mem s)) (mem s x) xs"
  proof (rule runs_frame)
    show "runs (mem s) (mem s x) xs" using km_invD(4)[OF km] by simp
    fix y assume y: "y \<in> set xs"
    then have "page_of y = y" "y \<noteq> x" "y \<noteq> t" using km_invD(3)[OF km] page_of_page[OF km_invD(5)[OF km]] tp by auto
    then show "link_table t i x (mem s) y = mem s y" using pg by (auto simp: link_table_def)
  qed
  then have "km_inv (s\<lparr>mem := link_table t i x (mem s), km_free := mem s x\<rparr>) xs" using km by (simp add: km_inv_def)
  moreover have "km_frame (set [x] \<union> tables (mem s) r) s (s\<lparr>mem := link_table t i x (mem s), km_free := mem s x\<rparr>)"
    unfolding km_frame_def using pg tt
    by (intro exI[of _ "link_table t i x (mem s)"] exI[of _ "mem s x"]) (auto simp: link_table_def)
  moreover have "tables (link_table t i x (mem s)) r \<subseteq> tables (mem s) r \<union> {x}"
    using W by (auto simp: tables_def split: if_splits)
  moreover have "walkf (link_table t i x (mem s)) r q = Some u" if "pt_path q" "walkf (mem s) r q = Some u" for q u
  proof -
    have "walkf (mem s) r (p @ i # w) = None" for w using t(1) ab by (simp add: walkf_append Let_def)
    then show ?thesis using W[OF that(1)] that(2) by auto
  qed
  ultimately show "grown 1 r (x # xs) s (s\<lparr>mem := link_table t i x (mem s), km_free := mem s x\<rparr>) xs"
    unfolding grown_def pt_inv_def using O xs
    by (intro exI[of _ "[x]"]) auto
  show "walkf (link_table t i x (mem s)) r (p @ [i]) = Some x" using W[of "p @ [i]"] t i by simp
  show "pte (link_table t i x (mem s)) r va = pte (mem s) r va" using link_table_pte[OF ok t(2,3,1) i ab _ xp] by simp
qed

text \<open>With \<open>alloc\<close> the walk reaches the leaf table, making at most one table per level.\<close>

lemma walk_levels_alloc:
  "pt_inv s r xs \<Longrightarrow> walkf (mem s) r p = Some t \<Longrightarrow> pt_path p \<Longrightarrow> length p + length is \<le> 3 \<Longrightarrow> length is \<le> length xs \<Longrightarrow>
    kok (walk_levels va True is t) (\<lambda>u s'. (\<exists>zs. grown (length is) r xs s s' zs)
      \<and> (\<forall>va. pte (mem s') r va = pte (mem s) r va) \<and> u \<noteq> None \<and> u = walkf (mem s') r (p @ map (\<lambda>i. ix i va) is)) s"
proof (induction "is" arbitrary: p t s xs)
  case Nil
  then show ?case using grown_refl by (fastforce simp: wp_simps)
next
  case (Cons i "is")
  let ?e = "mem s (t + 8 * of_nat (ix i va))"
  have p: "length p < 3" "pt_path (p @ [ix i va])" using Cons.prems by auto
  obtain u s1 ys where 1: "walk_level va True i t s = Ok (Some u) s1" "grown 1 r xs s s1 ys"
    "walkf (mem s1) r (p @ [ix i va]) = Some u" "\<forall>va. pte (mem s1) r va = pte (mem s) r va"
  proof (cases "present ?e")
    case True
    show ?thesis
      by (rule that[OF walk_level_present[OF True] grown_refl[OF Cons.prems(1)]])
        (use True Cons.prems(2) in \<open>simp_all add: walkf_snoc\<close>)
  next
    case False
    obtain x xs' where xs: "xs = x # xs'" using Cons.prems(5) by (cases xs) auto
    have inv: "pt_inv s r (x # xs')" using Cons.prems(1) xs by simp
    show ?thesis
      using walk_level_new[OF inv Cons.prems(2,3) False] link_table_grown[OF inv Cons.prems(2,3) p(1) ix_less False] xs
      by (intro that) auto
  qed
  have ys: "pt_inv s1 r ys" "length is \<le> length ys" using 1(2) Cons.prems(5) by (auto simp: grown_def)
  have g: "\<exists>zs. grown (Suc (length is)) r xs s s2 zs" if "grown (length is) r ys s1 s2 zs" for s2 zs
    using grown_trans[OF 1(2) that] by auto
  show ?case
    using kwp_conseq[OF Cons.IH[OF ys(1) 1(3) p(2) _ ys(2)]] Cons.prems(4) g 1(4)
    by (fastforce simp: kwp_def 1(1) kbind_def)
qed

lemma pgdir_walk_alloc:
  assumes "pt_inv s r xs" "3 \<le> length xs"
  shows "kok (pgdir_walk r va True) (\<lambda>u s'. (\<exists>zs. grown 3 r xs s s' zs)
    \<and> (\<forall>va. pte (mem s') r va = pte (mem s) r va) \<and> (\<exists>t. walkf (mem s') r (vpath va) = Some t
    \<and> u = Some (t + 8 * of_nat (ix 3 va)))) s"
  unfolding pgdir_walk_def kwp_kbind
  by (rule kwp_conseq[OF walk_levels_alloc[OF assms(1), of "[]"]])
    (use assms in \<open>auto simp: vpath_def wp_simps\<close>)


section \<open>Mapping pages\<close>

definition same_page :: "u64 \<Rightarrow> u64 \<Rightarrow> bool" where
  "same_page a b \<longleftrightarrow> vpath a = vpath b \<and> ix 3 a = ix 3 b"

lemma set_leaf_walkf:
  assumes ok: "pt_ok m e r F" and t: "walkf m r (vpath va) = Some t"
  shows "pt_path q \<Longrightarrow> walkf (m(t + 8 * of_nat (ix 3 va) := v)) r q = walkf m r q"
proof (induction q rule: rev_induct)
  case (snoc j q)
  have q: "pt_path q" "length q < 3" "j < 512" using snoc.prems by auto
  have "u + 8 * of_nat j \<noteq> t + 8 * of_nat (ix 3 va)" if u: "walkf m r q = Some u" for u
  proof -
    have "u \<noteq> t" using pt_okD(4)[OF ok q(1) _ u, of "vpath va"] t q(2) by auto
    then show ?thesis
      using entry_inj[OF pt_okD(2)[OF ok q(1) u] pt_okD(2)[OF ok _ t] pt_okD(1)[OF ok] q(3) ix_less] by simp
  qed
  then show ?case using snoc.IH[OF q(1)] by (auto simp: walkf_snoc split: option.split)
qed simp

lemma set_leaf:
  assumes ok: "pt_ok m e r F" and t: "walkf m r (vpath va) = Some t"
  shows "pt_ok (m(t + 8 * of_nat (ix 3 va) := v)) e r F"
    "pte (m(t + 8 * of_nat (ix 3 va) := v)) r va' = (if same_page va' va then v else pte m r va')"
proof -
  note W = set_leaf_walkf[OF ok t]
  show "pt_ok (m(t + 8 * of_nat (ix 3 va) := v)) e r F" using ok W by (auto simp: pt_ok_def)
  have "u + 8 * of_nat (ix 3 va') = t + 8 * of_nat (ix 3 va) \<longleftrightarrow> same_page va' va" if u: "walkf m r (vpath va') = Some u" for u
    using entry_inj[OF pt_okD(2)[OF ok _ u] pt_okD(2)[OF ok _ t] pt_okD(1)[OF ok] ix_less ix_less]
      pt_okD(4)[OF ok _ _ u, of "vpath va"] t u by (auto simp: same_page_def)
  moreover have "\<not> same_page va' va" if "walkf m r (vpath va') = None" using that t by (auto simp: same_page_def)
  ultimately show "pte (m(t + 8 * of_nat (ix 3 va) := v)) r va' = (if same_page va' va then v else pte m r va')"
    by (auto simp: pte_def W split: option.split)
qed

lemma set_leaf_grown:
  assumes inv: "pt_inv s r xs" and t: "walkf (mem s) r (vpath va) = Some t"
  shows "grown 0 r xs s (s\<lparr>mem := (mem s)(t + 8 * of_nat (ix 3 va) := v)\<rparr>) xs"
proof -
  have km: "km_inv s xs" and ok: "pt_ok (mem s) (kend s) r (set xs)" using inv by (simp_all add: pt_inv_def)
  let ?a = "t + 8 * of_nat (ix 3 va)"
  have tp: "is_page (kend s) t" "t \<notin> set xs" using pt_okD(2,3)[OF ok _ t] by auto
  have pg: "page_of ?a = t" by (rule page_of_entry[OF tp(1) km_invD(2)[OF km] ix_less])
  have tt: "t \<in> tables (mem s) r" using t by (auto simp: tables_def intro: exI[of _ "vpath va"])
  have "y \<noteq> ?a" if "y \<in> set xs" for y using page_of_page[OF km_invD(5)[OF km that]] pg tp(2) that by auto
  then have "runs ((mem s)(?a := v)) (km_free s) xs" by (intro runs_frame[OF km_invD(4)[OF km]]) auto
  then have "km_inv (s\<lparr>mem := (mem s)(?a := v)\<rparr>) xs" using km by (simp add: km_inv_def)
  moreover have "km_frame (tables (mem s) r) s (s\<lparr>mem := (mem s)(?a := v)\<rparr>)"
    unfolding km_frame_def using pg tt by (intro exI[of _ "(mem s)(?a := v)"] exI[of _ "km_free s"]) auto
  ultimately show ?thesis
    unfolding grown_def pt_inv_def using set_leaf(1)[OF ok t] set_leaf_walkf[OF ok t] by (auto simp: tables_def)
qed


text \<open>Two addresses below \<open>2 ^ 48\<close> have the same indices only in the same page.\<close>

lemma ix_eq: "i \<le> 3 \<Longrightarrow> ix i va = unat va div 2 ^ (39 - 9 * i) mod 512"
proof -
  have "PTX i va = take_bit 9 (drop_bit (39 - 9 * i) va)"
    unfolding PTX_def by (simp add: take_bit_eq_mask mask_eq_exp_minus_1)
  moreover have "unat (drop_bit k va) = unat va div 2 ^ k" for k
    by (metis unat_drop_bit_eq drop_bit_eq_div)
  ultimately show ?thesis by (simp only: ix_def take_bit_eq_mod unat_mod) simp
qed

lemma digits4:
  "(n :: nat) < 512 ^ 4 \<Longrightarrow> n = n div 512 ^ 3 mod 512 * 512 ^ 3 + n div 512 ^ 2 mod 512 * 512 ^ 2 + n div 512 mod 512 * 512 + n mod 512"
proof -
  assume n: "n < 512 ^ 4"
  define a b c where "a = n div 512" and "b = a div 512" and "c = b div 512"
  have "n = 512 * a + n mod 512" "a = 512 * b + a mod 512" "b = 512 * c + b mod 512"
    by (simp_all add: a_def b_def c_def)
  moreover have "c < 512" using n by (simp add: a_def b_def c_def div_mult2_eq[symmetric] less_mult_imp_div_less)
  moreover have "n div 512 ^ 2 = b" "n div 512 ^ 3 = c"
    by (simp_all add: a_def b_def c_def div_mult2_eq[symmetric])
  ultimately show ?thesis by (simp add: a_def[symmetric])
qed

lemma vpn_ix:
  assumes "unat va < 2 ^ 48"
  shows "unat va div 4096 = ix 0 va * 512 ^ 3 + ix 1 va * 512 ^ 2 + ix 2 va * 512 + ix 3 va"
proof -
  have n: "unat va div 4096 < 512 ^ 4" using assms by (simp add: less_mult_imp_div_less)
  show ?thesis using digits4[OF n] by (simp add: ix_eq div_mult2_eq[symmetric])
qed

lemma same_page_iff:
  assumes "unat a < 2 ^ 48" "unat b < 2 ^ 48"
  shows "same_page a b \<longleftrightarrow> unat a div 4096 = unat b div 4096"
proof
  assume "same_page a b"
  then have "\<forall>i<3. ix i a = ix i b" "ix 3 a = ix 3 b" by (auto simp: same_page_def vpath_def)
  then show "unat a div 4096 = unat b div 4096" using vpn_ix[OF assms(1)] vpn_ix[OF assms(2)] by simp
next
  assume e: "unat a div 4096 = unat b div 4096"
  have "ix i x = unat x div 4096 div 2 ^ (27 - 9 * i) mod 512" if "i \<le> 3" for i x
  proof -
    have "(2 :: nat) ^ (39 - 9 * i) = 4096 * 2 ^ (27 - 9 * i)"
      using that power_add[of "2 :: nat" 12 "27 - 9 * i"] by simp
    then show ?thesis using that by (simp add: ix_eq div_mult2_eq)
  qed
  then show "same_page a b" using e by (simp add: same_page_def vpath_def)
qed

text \<open>The view after \<open>n\<close> pages from \<open>v\<close> were mapped to the frames from \<open>pa\<close>.\<close>

definition mapped :: "u64 \<Rightarrow> nat \<Rightarrow> u64 \<Rightarrow> u64 \<Rightarrow> (u64 \<Rightarrow> u64) \<Rightarrow> u64 \<Rightarrow> u64" where
  "mapped v n pa tail f va =
     (if unat v \<le> unat va \<and> unat va < unat v + n * 4096
      then tail OR page_addr (pa + of_nat ((unat va - unat v) div 4096) * PGSIZE) else f va)"

lemma mapped_step:
  assumes "unat v mod 4096 = 0" "unat v + Suc n * 4096 \<le> 2 ^ 48" "unat va < 2 ^ 48"
    and f: "\<And>x. unat x < 2 ^ 48 \<Longrightarrow> g x = (if same_page x v then tail OR page_addr pa else f x)"
  shows "mapped (v + PGSIZE) n (pa + PGSIZE) tail g va = mapped v (Suc n) pa tail f va"
proof -
  have v: "unat (v + PGSIZE) = unat v + 4096" using unat_page[of v 1 1] assms(2) by simp
  obtain k where k: "unat v = 4096 * k" using assms(1) by (auto elim: dvdE)
  have "unat va div 4096 = k \<longleftrightarrow> 4096 * k \<le> unat va \<and> unat va < 4096 * k + 4096"
    using mult_div_mod_eq[of 4096 "unat va"] mod_less_divisor[of 4096 "unat va"] div_nat_eqI[of 4096 k "unat va"]
    by (auto simp del: mult_div_mod_eq)
  then have sp: "same_page va v \<longleftrightarrow> unat v \<le> unat va \<and> unat va < unat v + 4096"
    using same_page_iff[of va v] assms(2,3) k by simp
  show ?thesis
  proof (cases "unat v + 4096 \<le> unat va")
    case True
    then have "(unat va - unat v) div 4096 = Suc ((unat va - (unat v + 4096)) div 4096)" by (subst div_if) simp
    then show ?thesis using True v sp f[OF assms(3)] by (auto simp: mapped_def algebra_simps)
  next
    case False
    then show ?thesis using v sp f[OF assms(3)] by (auto simp: mapped_def)
  qed
qed


lemma pte_leaf: "walkf m r (vpath va) = Some t \<Longrightarrow> pte m r va = m (t + 8 * of_nat (ix 3 va))"
  by (simp add: pte_def)

text \<open>One turn of \<^verbatim>\<open>map_region\<close>.\<close>

lemma map_turn:
  assumes inv: "pt_inv s r xs" "3 \<le> length xs" and lt: "v < vaend"
    and bad: "\<And>s' zs. present (pte (mem s) r v) \<Longrightarrow> grown 3 r xs s s' zs \<Longrightarrow> Q (-1) s'"
    and good: "\<And>s' zs. \<not> present (pte (mem s) r v) \<Longrightarrow> grown 3 r xs s s' zs \<Longrightarrow>
      (\<And>va. pte (mem s') r va = (if same_page va v then tail OR page_addr pa else pte (mem s) r va)) \<Longrightarrow>
      kok (map_region_loop fuel r (v + PGSIZE) vaend (pa + PGSIZE) tail) Q s'"
  shows "kok (map_region_loop (Suc fuel) r v vaend pa tail) Q s"
proof -
  obtain u s1 zs t where w: "pgdir_walk r v True s = Ok u s1" "grown 3 r xs s s1 zs" "walkf (mem s1) r (vpath v) = Some t"
    "u = Some (t + 8 * of_nat (ix 3 v))" "\<forall>va. pte (mem s1) r va = pte (mem s) r va"
    using pgdir_walk_alloc[OF inv, of v] by (auto elim!: kwp_total_Ok)
  let ?a = "t + 8 * of_nat (ix 3 v)"
  have e: "mem s1 ?a = pte (mem s) r v" using w(5) pte_leaf[OF w(3)] by simp
  have i1: "pt_inv s1 r zs" using w(2) by (auto simp: grown_def)
  then have ok: "pt_ok (mem s1) (kend s1) r (set zs)" by (simp add: pt_inv_def)
  have g: "grown 3 r xs s (s1\<lparr>mem := (mem s1)(?a := tail OR page_addr pa)\<rparr>) zs"
    using grown_trans[OF w(2) set_leaf_grown[OF i1 w(3)]] by simp
  note l = set_leaf(2)[OF ok w(3), of "tail OR page_addr pa"]
  show ?thesis
    using lt w(1,4,5) e bad[OF _ w(2)] good[OF _ g] l
    by (auto simp: kwp_def load64_def store64_def present_def)
qed

text \<open>
  \<^verbatim>\<open>map_region\<close> over \<open>n\<close> pages fails exactly when one of them is mapped already; otherwise it maps
  them all and changes no other translation. Three free pages per page are enough for the tables.
\<close>

lemma map_region_loop_ok:
  fixes s :: "'z mem_state_scheme"
  assumes "pt_inv s r xs" "3 * n \<le> length xs" "unat v mod 4096 = 0" "unat v + n * 4096 \<le> 2 ^ 48"
    "vaend = v + of_nat n * PGSIZE" "n < fuel"
  shows "kok (map_region_loop fuel r v vaend pa tail) (\<lambda>res s'.
    res = (if \<exists>i<n. present (pte (mem s) r (v + of_nat i * PGSIZE)) then -1 else 0)
    \<and> (\<exists>zs. grown (3 * n) r xs s s' zs)
    \<and> (res = 0 \<longrightarrow> (\<forall>va. unat va < 2 ^ 48 \<longrightarrow> pte (mem s') r va = mapped v n pa tail (pte (mem s) r) va))) s"
  using assms
proof (induction n arbitrary: s xs v pa fuel)
  case 0
  then show ?case using grown_refl[OF 0(1)] by (cases fuel) (auto simp: kwp_def mapped_def)
next
  case (Suc n)
  obtain fu where fu: "fuel = Suc fu" "n < fu" using Suc.prems by (cases fuel) auto
  have b: "unat v + Suc n * 4096 < 2 ^ 64" using Suc.prems(4) by simp
  note up = unat_page[OF b]
  have lt: "v < vaend" using up[of "Suc n"] Suc.prems(5) by (simp add: word_less_nat_alt)
  have v1: "unat (v + PGSIZE) = unat v + 4096" using up[of 1] by simp
  have nxt: "v + PGSIZE + of_nat i * PGSIZE = v + of_nat (Suc i) * PGSIZE" for i by (simp add: algebra_simps)
  have ex: "(\<exists>i<Suc n. P (v + of_nat i * PGSIZE)) \<longleftrightarrow> P v \<or> (\<exists>i<n. P (v + of_nat (Suc i) * PGSIZE))" for P
    by (auto simp: less_Suc_eq_0_disj)
  have sp: "\<not> same_page (v + of_nat (Suc i) * PGSIZE) v" if "i < n" for i
  proof -
    have "unat (v + of_nat (Suc i) * PGSIZE) = unat v + Suc i * 4096" using up[of "Suc i"] that by simp
    then show ?thesis using Suc.prems(4) that by (subst same_page_iff) simp_all
  qed
  show ?case
    unfolding fu(1)
  proof (rule map_turn[OF Suc.prems(1) _ lt])
    show "3 \<le> length xs" using Suc.prems(2) by simp
  next
    fix s' zs assume "present (pte (mem s) r v)" "grown 3 r xs s s' zs"
    moreover from this have "grown (3 * Suc n) r xs s s' zs" by (auto simp: grown_def)
    ultimately show "- 1 = (if \<exists>i<Suc n. present (pte (mem s) r (v + of_nat i * PGSIZE)) then - 1 else 0)
      \<and> (\<exists>zs. grown (3 * Suc n) r xs s s' zs) \<and> ((- 1 :: int) = 0 \<longrightarrow>
        (\<forall>va. unat va < 2 ^ 48 \<longrightarrow> pte (mem s') r va = mapped v (Suc n) pa tail (pte (mem s) r) va))"
      unfolding ex by auto
  next
    fix s' zs assume a: "\<not> present (pte (mem s) r v)" "grown 3 r xs s s' zs"
      "\<And>va. pte (mem s') r va = (if same_page va v then tail OR page_addr pa else pte (mem s) r va)"
    have pre: "pt_inv s' r zs" "3 * n \<le> length zs" using a(2) Suc.prems(2) by (auto simp: grown_def)
    have res: "(\<exists>i<n. present (pte (mem s') r (v + PGSIZE + of_nat i * PGSIZE)))
        = (\<exists>i<Suc n. present (pte (mem s) r (v + of_nat i * PGSIZE)))"
      unfolding nxt ex[of "\<lambda>x. present (pte (mem s) r x)"] using a(1,3) sp by (auto simp del: of_nat_Suc)
    have M: "mapped (v + PGSIZE) n (pa + PGSIZE) tail (pte (mem s') r) va = mapped v (Suc n) pa tail (pte (mem s) r) va"
      if "unat va < 2 ^ 48" for va by (rule mapped_step[OF Suc.prems(3,4) that]) (rule a(3))
    have gr: "\<exists>zs. grown (3 * Suc n) r xs s s2 zs" if "grown (3 * n) r zs s' s2 z2" for s2 z2
      using grown_trans[OF a(2) that] by auto
    have side: "unat (v + PGSIZE) mod 4096 = 0" "unat (v + PGSIZE) + n * 4096 \<le> 2 ^ 48"
      "vaend = v + PGSIZE + of_nat n * PGSIZE"
      using Suc.prems(3-5) v1 by (simp_all add: nxt)
    show "kok (map_region_loop fu r (v + PGSIZE) vaend (pa + PGSIZE) tail)
      (\<lambda>res s'. res = (if \<exists>i<Suc n. present (pte (mem s) r (v + of_nat i * PGSIZE)) then - 1 else 0)
        \<and> (\<exists>zs. grown (3 * Suc n) r xs s s' zs) \<and> (res = 0 \<longrightarrow>
          (\<forall>va. unat va < 2 ^ 48 \<longrightarrow> pte (mem s') r va = mapped v (Suc n) pa tail (pte (mem s) r) va))) s'"
      by (rule kwp_conseq[OF Suc.IH[OF pre side fu(2)]]) (use gr M in \<open>auto simp only: res\<close>)
  qed
qed

end
