(* ===== verification/Foundations.thy ===== *)
theory Foundations
  imports Linked_List CString Vm
begin

text \<open>
  Properties of the parts everything else rests on: the doubly linked lists, the spin lock, the
  string routines, the page allocator and the page tables.
\<close>

section \<open>Lists\<close>

definition small_heap :: "nat lheap" where
  "small_heap n = (if n = 0 then \<lparr>lnext = Some 1, lprev = Some 3\<rparr>
     else if n = 1 then \<lparr>lnext = Some 2, lprev = Some 0\<rparr>
     else if n = 2 then \<lparr>lnext = Some 3, lprev = Some 1\<rparr>
     else if n = 3 then \<lparr>lnext = Some 0, lprev = Some 2\<rparr>
     else \<lparr>lnext = Some n, lprev = Some n\<rparr>)"

lemma small_heap_dlist: "dlist small_heap 0 [1, 2, 3]" "dlist small_heap 9 []"
  by (simp_all add: dlist_def small_heap_def)

text \<open>
  A node anywhere in a list that is deleted and pushed in front again is the first one, the
  others keep their order, and nodes outside the list are not touched: the least-recently-used
  discipline of the buffer cache and the sleep queues rests on it.
\<close>

lemma list_move_to_front:
  assumes "dlist h q (as @ x # bs)"
  shows "kok (kthen (list_delete x) (list_push_front q x))
    (\<lambda>_ h'. dlist h' q (x # as @ bs) \<and> (\<forall>a. a \<notin> set (q # as @ x # bs) \<longrightarrow> h' a = h a)) h"
  by (rule lh.move_to_front[OF assms])

text \<open>
  A list used as a queue is first in, first out: whatever sequence of fresh nodes is pushed at
  the back of an empty list, as many pops at the front return it in the same order.
\<close>

theorem list_fifo:
  assumes "dlist h q []" "distinct (q # ys)"
  shows "kok (kthen (kfor ys (list_push_back q)) (krepeat (length ys) (list_pop_front q)))
    (\<lambda>r h'. r = map Some ys \<and> dlist h' q []) h"
  by (rule lh.fifo[OF assms])

theorem list_fifo_witness:
  "kok (kthen (kfor [5, 6, 7] (list_push_back 9)) (krepeat 3 (list_pop_front 9)))
    (\<lambda>r h'. r = [Some 5, Some 6, Some 7] \<and> dlist h' 9 []) small_heap"
  using list_fifo[OF small_heap_dlist(2), of "[5, 6, 7]"] by (simp add: numeral_nat)


section \<open>Mutual exclusion\<close>

text \<open>
  C5. The spin lock, with the single accesses of \<^verbatim>\<open>acquire\<close> and \<^verbatim>\<open>release\<close> of any number of processors
  interleaved in any order: at every reachable state at most one processor is in its critical
  section, the lock word is set while one is, and \<^verbatim>\<open>lk->cpu\<close> names it.
\<close>

theorem spin_mutual_exclusion:
  assumes "spin_reach nm s" "sys_pc s c = Inside"
  shows "(\<forall>d. sys_pc s d = Inside \<longrightarrow> d = c) \<and> spin_locked (sys_lock s) \<and> spin_cpu (sys_lock s) = Some c"
proof -
  obtain ow where ow: "spin_owner s ow" using spin_reach_inv[OF assms(1)] by (auto simp: spin_inv_def)
  have own: "owns (sys_pc s d) \<longleftrightarrow> ow = Some d" for d using ow by (simp add: spin_owner_def)
  have c: "ow = Some c" using own[of c] assms(2) by simp
  have "spin_locked (sys_lock s)" using ow c unfolding spin_owner_def by blast
  moreover have "spin_cpu (sys_lock s) = (case ow of None \<Rightarrow> None | Some c \<Rightarrow> if sys_pc s c = Inside then Some c else None)"
    using ow unfolding spin_owner_def by blast
  then have "spin_cpu (sys_lock s) = Some c" using c assms(2) by simp
  moreover have "d = c" if "sys_pc s d = Inside" for d using own[of d] that c by simp
  ultimately show ?thesis by blast
qed

definition spin_taken :: spin_sys where
  "spin_taken = \<lparr>sys_lock = \<lparr>spin_locked = True, spin_name = ''bcache'', spin_cpu = Some 2\<rparr>,
     sys_pc = ((\<lambda>_. Out)(2 := Inside))\<rparr>"

lemma spin_taken_reach: "spin_reach ''bcache'' spin_taken"
proof -
  let ?s0 = "spin_start ''bcache''"
  let ?s1 = "?s0\<lparr>sys_pc := (sys_pc ?s0)(2 := Trying)\<rparr>"
  let ?s2 = "?s1\<lparr>sys_lock := (sys_lock ?s1)\<lparr>spin_locked := True\<rparr>, sys_pc := (sys_pc ?s1)(2 := if spin_locked (sys_lock ?s1) then Trying else Won)\<rparr>"
  let ?s3 = "?s2\<lparr>sys_lock := (sys_lock ?s2)\<lparr>spin_cpu := Some 2\<rparr>, sys_pc := (sys_pc ?s2)(2 := Inside)\<rparr>"
  have 1: "spin_reach ''bcache'' ?s1"
    by (rule spin_reach.step[OF spin_reach.start], rule spin_step.enter) (simp_all add: spin_start_def holding_def)
  have 2: "spin_reach ''bcache'' ?s2" by (rule spin_reach.step[OF 1], rule spin_step.test_and_set) simp
  have "spin_reach ''bcache'' ?s3"
    by (rule spin_reach.step[OF 2], rule spin_step.record_owner) (simp add: spin_start_def)
  moreover have "?s3 = spin_taken" by (simp add: spin_taken_def spin_start_def fun_eq_iff)
  ultimately show ?thesis by simp
qed

theorem spin_mutual_exclusion_witness: "sys_pc spin_taken 1 \<noteq> Inside \<and> spin_cpu (sys_lock spin_taken) = Some 2"
proof -
  have "sys_pc spin_taken 2 = Inside" by (simp add: spin_taken_def)
  from spin_mutual_exclusion[OF spin_taken_reach this] show ?thesis by fastforce
qed


section \<open>Strings\<close>

text \<open>
  C40. \<^verbatim>\<open>memmove\<close> copies as if through a temporary buffer, also when source and destination overlap:
  byte \<open>i\<close> of the destination is the former byte \<open>i\<close> of the source, and no other byte changes.
\<close>

theorem memmove_overlap:
  "memmove m d s n a = (if d \<le> a \<and> a < d + n then m (s + (a - d)) else m a)"
  using memmove_moved[of m d s n] by (simp add: moved_def)

text \<open>
  \<^verbatim>\<open>strncmp\<close> returns 0 exactly on strings that agree up to the terminator or the limit, and
  \<^verbatim>\<open>strnlen\<close> is the length of the string so cut.
\<close>

lemma strncmp_equal:
  "(strncmp p q n = 0 \<longleftrightarrow> cstr n p = cstr n q) \<and> strnlen p n = length (cstr n p)"
  using strncmp_cstr strnlen_cstr by blast


section \<open>Pages\<close>

definition low_page :: u64 where "low_page = 0xFFFF00003EFF8000"

definition small_memory :: mem_state where
  "small_memory = \<lparr>km_cpu = 0, kend = low_page, km_free = low_page + 0x1000, kmeminitcnt = 1,
     kmemcslock = \<lparr>spin_locked = False, spin_name = ''kmem'', spin_cpu = None\<rparr>,
     kmeminitlock = \<lparr>spin_locked = False, spin_name = ''kmeminit'', spin_cpu = None\<rparr>,
     mem = (\<lambda>a. if a = low_page + 0x1000 then low_page + 0x2000
       else if a = low_page + 0x2000 then low_page + 0x3000
       else if a = low_page + 0x3000 then low_page + 0x4000 else 0)\<rparr>"

lemma small_memory_inv: "km_inv small_memory [low_page + 0x1000, low_page + 0x2000, low_page + 0x3000, low_page + 0x4000]"
  by (simp add: km_inv_def small_memory_def low_page_def spin_free_def is_page_def PGSIZE_def V2P_def KERNBASE_def PHYSTOP_def)



text \<open>
  \<^verbatim>\<open>kfree\<close> accepts exactly the page-aligned addresses between the end of the kernel and the top
  of physical memory, and puts such a page in front of the free list; on any other address it panics.
\<close>

lemma kfree_checks:
  assumes "km_inv s xs" "v \<notin> set xs"
  shows "if v mod PGSIZE = 0 \<and> kend s \<le> v \<and> V2P v < PHYSTOP
    then kok (kfree v) (\<lambda>_ t. km_inv t (v # xs) \<and> km_frame {v} s t) s
    else kfree v s = Fault (Panic ''kfree'')"
  using kp.free_ok[OF assms(1) _ assms(2)] kfree_panics[of s v] unfolding is_page_def by (cases "is_page (kend s) v") (auto simp: is_page_def)

text \<open>
  When the last page is gone \<^verbatim>\<open>kalloc\<close> returns the null pointer with the allocator's lock still
  held, so that the next allocation or release of a page on that processor panics.
\<close>

theorem kalloc_exhausted:
  assumes "km_inv s []"
  shows "\<exists>t. kalloc s = Ok 0 t \<and> kalloc t = Fault (Panic ''acquire: spinlock already held'')
    \<and> (\<forall>v. is_page (kend s) v \<longrightarrow> kfree v t = Fault (Panic ''acquire: spinlock already held''))"
  using kalloc_empty[OF assms] acquire_twice[OF km_invD(1)[OF assms]]
  by (auto simp: kalloc_def kfree_def km_run_defs kop_defs is_page_def)

theorem kalloc_exhausted_witness:
  "\<exists>t. kalloc (small_memory\<lparr>km_free := 0\<rparr>) = Ok 0 t \<and> kalloc t = Fault (Panic ''acquire: spinlock already held'')"
  using kalloc_exhausted[of "small_memory\<lparr>km_free := 0\<rparr>"] small_memory_inv by (auto simp: km_inv_def)

text \<open>
  C39. \<^verbatim>\<open>alloc_init\<close> on the booting machine puts every whole page between the end of the kernel and
  \<^verbatim>\<open>PHYSTOP\<close> on the free list, and returns with both locks free.
\<close>

theorem alloc_init_frees_all:
  assumes "booted s"
  shows "kok alloc_init (\<lambda>_ t. km_inv t (rev (pages (ROUNDUP (kend s) PGSIZE) (npages (kend s))))
    \<and> kmeminitcnt t = 1 \<and> spin_free (kmeminitlock t) \<and> kend t = kend s) s"
  by (rule alloc_init_ok[OF assms])

theorem alloc_init_frees_all_witness:
  "kok alloc_init (\<lambda>_ t. km_inv t (rev (pages low_page 8))) (small_memory\<lparr>km_free := 0, kmeminitcnt := 0\<rparr>)"
proof -
  let ?s = "small_memory\<lparr>km_free := 0, kmeminitcnt := 0\<rparr>"
  have "ROUNDUP low_page PGSIZE = low_page" "npages low_page = 8"
    by (simp_all add: ROUNDUP_def ROUNDDOWN_def low_page_def PGSIZE_def npages_def P2V_def PHYSTOP_def KERNBASE_def)
  moreover have "booted ?s"
    by (simp add: booted_def km_inv_def small_memory_def spin_free_def low_page_def KERNBASE_def P2V_def PHYSTOP_def ROUNDUP_def ROUNDDOWN_def PGSIZE_def)
  moreover have "kend ?s = low_page" by (simp add: small_memory_def)
  ultimately show ?thesis using alloc_init_frees_all[of ?s] by (auto elim!: kwp_conseq)
qed


section \<open>Page tables\<close>

text \<open>
  C17. \<^verbatim>\<open>map_region\<close> of \<open>n\<close> whole pages: it returns -1 exactly when one of them is mapped already;
  otherwise it returns 0, every address of the range then translates to its frame with the given
  permissions, and no other address below \<open>2 ^ 48\<close> translates differently.
\<close>

theorem map_region_maps:
  assumes "pt_inv s r xs" "3 * n \<le> length xs" "unat v mod 4096 = 0" "unat v + n * 4096 \<le> 2 ^ 48"
  shows "kok (map_region r v (of_nat n * PGSIZE) pa perm) (\<lambda>res s'.
    res = (if \<exists>i<n. present (pte (mem s) r (v + of_nat i * PGSIZE)) then -1 else 0)
    \<and> (\<exists>zs. pt_inv s' r zs)
    \<and> (res = 0 \<longrightarrow> (\<forall>va. unat va < 2 ^ 48 \<longrightarrow>
        pte (mem s') r va = mapped v n pa (page_flags perm) (pte (mem s) r) va))) s"
proof -
  have v: "ROUNDDOWN v PGSIZE = v" using assms(3) page_of_eq[of v] by (simp add: page_of_def word_unat_eq_iff)
  have "n * 4096 < 2 ^ 64" using assms(4) by simp
  then have n: "unat (of_nat n * PGSIZE) = n * 4096" by (simp add: unat_word_ariths unat_of_nat PGSIZE_def)
  show ?thesis unfolding map_region_def Let_def v
    by (rule kwp_conseq[OF map_region_loop_ok[OF assms(1-4) refl]]) (auto simp: n grown_def)
qed

lemma low_page_ok: "KERNBASE < low_page" "is_page low_page low_page" "kend small_memory = low_page"
  by (simp_all add: KERNBASE_def low_page_def is_page_def PGSIZE_def V2P_def PHYSTOP_def small_memory_def)

lemma small_memory_walk:
  assumes "pt_path p" "walkf (mem small_memory) low_page p = Some t"
  shows "p = [] \<and> t = low_page"
proof -
  have z: "mem small_memory (low_page + 8 * of_nat i) = 0" if "i < 512" for i
  proof -
    have "page_of (low_page + 8 * of_nat i) = low_page" by (rule page_of_entry[OF low_page_ok(2,1) that])
    moreover have "page_of (low_page + 0x1000) \<noteq> low_page" "page_of (low_page + 0x2000) \<noteq> low_page" "page_of (low_page + 0x3000) \<noteq> low_page"
      by (simp_all add: page_of_def ROUNDDOWN_def PGSIZE_def low_page_def)
    ultimately show ?thesis by (auto simp: small_memory_def)
  qed
  show ?thesis using assms z by (cases p) (auto simp: pt_path_def Let_def)
qed

lemma small_memory_pt: "pt_inv small_memory low_page [low_page + 0x1000, low_page + 0x2000, low_page + 0x3000, low_page + 0x4000]"
proof -
  have "low_page \<notin> set [low_page + 0x1000, low_page + 0x2000, low_page + 0x3000, low_page + 0x4000]"
    by (simp add: low_page_def)
  then show ?thesis unfolding pt_inv_def pt_ok_def low_page_ok(3)
    using small_memory_inv low_page_ok small_memory_walk by blast
qed

theorem map_region_maps_witness:
  "kok (map_region low_page 0x400000 (of_nat 1 * PGSIZE) 0x3EFFE000 PTE_USER) (\<lambda>res s'. res = 0
     \<and> pte (mem s') low_page 0x400123 = page_flags PTE_USER OR 0x3EFFE000) small_memory"
proof -
  have "walkf (mem small_memory) low_page (vpath va) = None" for va
    using small_memory_walk[of "vpath va"] length_vpath[of va] by (cases "walkf (mem small_memory) low_page (vpath va)") fastforce+
  then have "\<not> present (pte (mem small_memory) low_page va)" for va by (simp add: pte_def)
  then show ?thesis
    using map_region_maps[OF small_memory_pt, where n = 1 and v = "0x400000" and pa = "0x3EFFE000" and perm = PTE_USER]
    by (auto elim!: kwp_conseq simp: mapped_def page_addr_def PGSIZE_def)
qed

end
