(* ===== verification/Sd_Queue.thy ===== *)
theory Sd_Queue
  imports Linked_List Locks
begin

text \<open>
  The disk request queue of \<^verbatim>\<open>kern/sd.c\<close>: \<^verbatim>\<open>struct buf\<close> of \<^verbatim>\<open>inc/buf.h\<close>, \<^verbatim>\<open>sd_start\<close>,
  the interrupt handler \<^verbatim>\<open>sd_intr\<close>, \<^verbatim>\<open>sdWaitForInterrupt\<close> and the blocking request \<^verbatim>\<open>sdrw\<close>.

  The SD card is hardware. It is the array \<open>sectors\<close>, with the registers the driver polls; the
  answer it gives to a command is the input \<open>card_resp\<close>. The card raises its interrupt as
  soon as it has done a transfer.
\<close>

section \<open>Buffers and the driver's state\<close>

definition BSIZE :: nat where "BSIZE = 512"
definition B_VALID :: u32 where "B_VALID = 0x2"
definition B_DIRTY :: u32 where "B_DIRTY = 0x4"

record buf =
  b_flags :: u32
  b_dev :: u32
  b_blockno :: u32
  b_part :: u32
  b_refcnt :: u32
  b_data :: "u8 list"
  b_lock :: sleeplock

datatype sdnode = SdQue | SdBuf nat

record sd_state =
  this_cpu :: nat
  this_pid :: u32
  bufs :: "buf list"
  sd_lock :: spinlock
  sd_blist :: "sdnode lheap"
  sd_woken :: "nat set"
  sd_type :: u8
  LBA :: u32
  emmc_int :: u32
  emmc_cmd :: "u32 \<times> u32"
  card_resp :: "u32 \<Rightarrow> u32 \<Rightarrow> u32"
  sectors :: "u32 \<Rightarrow> u8 list"

definition SD_TYPE_2_HC :: u8 where "SD_TYPE_2_HC = 4"
definition IX_READ_SINGLE :: u32 where "IX_READ_SINGLE = 14"
definition IX_WRITE_SINGLE :: u32 where "IX_WRITE_SINGLE = 19"
definition INT_DATA_TIMEOUT :: u32 where "INT_DATA_TIMEOUT = 0x00100000"
definition INT_CMD_TIMEOUT :: u32 where "INT_CMD_TIMEOUT = 0x00010000"
definition INT_READ_RDY :: u32 where "INT_READ_RDY = 0x00000020"
definition INT_WRITE_RDY :: u32 where "INT_WRITE_RDY = 0x00000010"
definition INT_DATA_DONE :: u32 where "INT_DATA_DONE = 0x00000002"
definition INT_ERROR_MASK :: u32 where
  "INT_ERROR_MASK = 0x00020000 OR 0x00040000 OR 0x00080000 OR 0x00100000 OR 0x00200000
     OR 0x00400000 OR 0x00008000 OR 0x01000000"

lemmas sd_consts = BSIZE_def B_VALID_def B_DIRTY_def SD_TYPE_2_HC_def IX_READ_SINGLE_def
  IX_WRITE_SINGLE_def INT_DATA_TIMEOUT_def INT_CMD_TIMEOUT_def INT_READ_RDY_def
  INT_WRITE_RDY_def INT_DATA_DONE_def INT_ERROR_MASK_def

definition get_buf :: "nat \<Rightarrow> ('z sd_state_scheme, buf) kop" where
  "get_buf b = kidx bufs b"

definition upd_buf :: "nat \<Rightarrow> (buf \<Rightarrow> buf) \<Rightarrow> ('z sd_state_scheme, unit) kop" where
  "upd_buf b f = kupd bufs (\<lambda>x s. s\<lparr>bufs := x\<rparr>) b f"

lemma upd_buf_run:
  "b < length (bufs s) \<Longrightarrow> upd_buf b f s = Ok () (s\<lparr>bufs := (bufs s)[b := f (bufs s ! b)]\<rparr>)"
  by (simp add: upd_buf_def)

definition on_sdlock :: "(nat \<Rightarrow> (spinlock, 'a) kop) \<Rightarrow> ('z sd_state_scheme, 'a) kop" where
  "on_sdlock m = kbind (kget this_cpu) (\<lambda>c. zoom sd_lock (\<lambda>x s. s\<lparr>sd_lock := x\<rparr>) (m c))"

definition on_sdque :: "(sdnode lheap, 'a) kop \<Rightarrow> ('z sd_state_scheme, 'a) kop" where
  "on_sdque m = zoom sd_blist (\<lambda>x s. s\<lparr>sd_blist := x\<rparr>) m"

text \<open>\<^verbatim>\<open>container_of(l, struct buf, blist)\<close>: the head is not part of a buffer.\<close>

definition sd_container :: "sdnode option \<Rightarrow> ('s, nat) kop" where
  "sd_container l = (case l of Some (SdBuf b) \<Rightarrow> kret b | _ \<Rightarrow> kfault (Undef ''container_of''))"


section \<open>The card\<close>

text \<open>High-capacity cards take a sector number, standard ones a byte address.\<close>

definition card_sector :: "u8 \<Rightarrow> u32 \<Rightarrow> u32" where
  "card_sector ty a = (if ty = SD_TYPE_2_HC then a else drop_bit 9 a)"

text \<open>
  A command and its response code. An accepted read raises \<^verbatim>\<open>READ_RDY\<close>, an accepted write
  \<^verbatim>\<open>WRITE_RDY\<close>; the 128 words through \<^verbatim>\<open>EMMC_DATA\<close> complete the transfer.
\<close>

definition emmc_command :: "u32 \<Rightarrow> u32 \<Rightarrow> ('z sd_state_scheme, u32) kop" where
  "emmc_command cmd arg =
     kbind (kget (\<lambda>s. card_resp s cmd arg)) (\<lambda>r.
     kthen (kwhen (r = 0) (kmod (\<lambda>s. s\<lparr>emmc_cmd := (cmd, arg),
        emmc_int := emmc_int s OR (if cmd = IX_READ_SINGLE then INT_READ_RDY
          else if cmd = IX_WRITE_SINGLE then INT_WRITE_RDY else 0)\<rparr>)))
     (kret r))"

definition emmc_read_block :: "('z sd_state_scheme, u8 list) kop" where
  "emmc_read_block =
     kbind (kget (\<lambda>s. sectors s (card_sector (sd_type s) (snd (emmc_cmd s))))) (\<lambda>d.
     kthen (kmod (\<lambda>s. s\<lparr>emmc_int := emmc_int s OR INT_DATA_DONE\<rparr>))
     (kret d))"

definition emmc_write_block :: "u8 list \<Rightarrow> ('z sd_state_scheme, unit) kop" where
  "emmc_write_block d =
     kmod (\<lambda>s. s\<lparr>sectors := (sectors s)(card_sector (sd_type s) (snd (emmc_cmd s)) := d),
        emmc_int := emmc_int s OR INT_DATA_DONE\<rparr>)"


section \<open>The driver\<close>

text \<open>
  The polling loop of \<^verbatim>\<open>sdWaitForInterrupt\<close> over a register that has settled: either a bit of
  the mask is set, or the count runs out. Writing a bit to the register clears it.
\<close>

definition sdWaitForInterrupt :: "u32 \<Rightarrow> ('z sd_state_scheme, u32) kop" where
  "sdWaitForInterrupt msk =
     kbind (kget emmc_int) (\<lambda>ival.
     if ival AND (msk OR INT_ERROR_MASK) = 0 \<or> ival AND INT_CMD_TIMEOUT \<noteq> 0
        \<or> ival AND INT_DATA_TIMEOUT \<noteq> 0 then
       kthen (kmod (\<lambda>s. s\<lparr>emmc_int := emmc_int s AND NOT ival\<rparr>)) (kret 2)
     else if ival AND INT_ERROR_MASK \<noteq> 0 then
       kthen (kmod (\<lambda>s. s\<lparr>emmc_int := emmc_int s AND NOT ival\<rparr>)) (kret 1)
     else
       kthen (kmod (\<lambda>s. s\<lparr>emmc_int := emmc_int s AND NOT msk\<rparr>)) (kret 0))"

definition sd_start :: "nat \<Rightarrow> ('z sd_state_scheme, unit) kop" where
  "sd_start b =
     kbind (get_buf b) (\<lambda>bf.
     kbind (kget sd_type) (\<lambda>ty.
     let bno = (if ty = SD_TYPE_2_HC then b_blockno bf + b_part bf
                else push_bit 9 (b_blockno bf + b_part bf));
         wr = (b_flags bf AND B_DIRTY \<noteq> 0)
     in
     kbind (kget emmc_int) (\<lambda>i.
     if i \<noteq> 0 then panic ''emmc interrupt flag should be empty''
     else
     kbind (emmc_command (if wr then IX_WRITE_SINGLE else IX_READ_SINGLE) bno) (\<lambda>resp.
     if resp \<noteq> 0 then panic ''* EMMC send command error.''
     else if wr then
       kbind (sdWaitForInterrupt INT_WRITE_RDY) (\<lambda>r.
       if r \<noteq> 0 then panic ''* EMMC ERROR: Timeout waiting for ready to write''
       else
       kbind (kget emmc_int) (\<lambda>j.
       if j \<noteq> 0 then panic ''emmc interrupt flag set'' else emmc_write_block (b_data bf)))
     else kret ()))))"

text \<open>
  \<^verbatim>\<open>sd_intr\<close>. The test \<^verbatim>\<open>(!write && INT_READ_RDY)\<close> uses the constant, so a read request is
  taken as ready whatever the interrupt was.
\<close>

definition sd_intr :: "('z sd_state_scheme, unit) kop" where
  "sd_intr =
     kthen (on_sdlock acquire)
     (kbind (on_sdque (list_empty SdQue)) (\<lambda>e.
      kthen
       (if e then kret ()
        else
          kbind (kget emmc_int) (\<lambda>i.
          if i AND INT_DATA_DONE = 0 \<and> i AND INT_READ_RDY = 0 then panic ''unexpected sd intr''
          else
          kthen (kmod (\<lambda>s. s\<lparr>emmc_int := emmc_int s AND NOT i\<rparr>))
          (kbind (on_sdque (list_front SdQue)) (\<lambda>l.
           kbind (sd_container l) (\<lambda>b.
           kbind (get_buf b) (\<lambda>bf.
           let wr = (b_flags bf AND B_DIRTY \<noteq> 0) in
           if \<not> ((wr \<and> i = INT_DATA_DONE) \<or> (\<not> wr \<and> INT_READ_RDY \<noteq> 0)) then sd_start b
           else
             kthen (if \<not> wr then
                      kbind emmc_read_block (\<lambda>d.
                      kthen (upd_buf b (\<lambda>x. x\<lparr>b_data := d\<rparr>))
                      (kbind (sdWaitForInterrupt INT_DATA_DONE) (\<lambda>_. kret ())))
                    else kret ())
             (kthen (upd_buf b (\<lambda>x. x\<lparr>b_flags := b_flags x OR B_VALID\<rparr>))
             (kthen (upd_buf b (\<lambda>x. x\<lparr>b_flags := b_flags x AND NOT B_DIRTY\<rparr>))
             (kthen (kmod (\<lambda>s. s\<lparr>sd_woken := insert b (sd_woken s)\<rparr>))
             (kbind (on_sdque (list_pop_front SdQue)) (\<lambda>_.
              kbind (on_sdque (list_empty SdQue)) (\<lambda>e2.
              if \<not> e2 then
                kbind (on_sdque (list_front SdQue)) (\<lambda>hd. kbind (sd_container hd) sd_start)
              else kret ()))))))))))))
       (on_sdlock release)))"

text \<open>
  \<^verbatim>\<open>sleep(b, &sdlock)\<close>: the lock is dropped and the processor takes interrupts until the
  handler has called \<^verbatim>\<open>wakeup(b)\<close>. Each interrupt finishes one request, so the number of
  queued requests bounds the interrupts to wait for; with no interrupt pending the process
  sleeps for ever.
\<close>

definition SD_PATIENCE :: nat where "SD_PATIENCE = 64"

fun sd_wait :: "nat \<Rightarrow> nat \<Rightarrow> ('z sd_state_scheme, unit) kop" where
  "sd_wait 0 b s = Fault Block"
| "sd_wait (Suc k) b s =
     (if b \<in> sd_woken s then Ok () s
      else if emmc_int s = 0 then Fault Block
      else kthen sd_intr (sd_wait k b) s)"

definition sd_sleep :: "nat \<Rightarrow> ('z sd_state_scheme, unit) kop" where
  "sd_sleep b =
     kthen (kmod (\<lambda>s. s\<lparr>sd_woken := sd_woken s - {b}\<rparr>))
     (kthen (on_sdlock release)
     (kthen (sd_wait SD_PATIENCE b)
     (on_sdlock acquire)))"

definition sdrw :: "nat \<Rightarrow> ('z sd_state_scheme, unit) kop" where
  "sdrw b =
     kthen (on_sdlock acquire)
     (kbind (on_sdque (list_empty SdQue)) (\<lambda>e.
      kthen
       (if e then
          kthen (on_sdque (list_push_back SdQue (SdBuf b)))
          (kthen (sd_start b)
          (sd_sleep b))
        else
          kthen (on_sdque (list_push_back SdQue (SdBuf b)))
          (sd_sleep b))
       (on_sdlock release)))"


section \<open>A request on an idle driver\<close>

text \<open>No request is queued, no interrupt is pending, and the card (a high-capacity one) accepts
  the commands it is given.\<close>

definition sd_idle :: "'z sd_state_scheme \<Rightarrow> bool" where
  "sd_idle s \<longleftrightarrow> spin_free (sd_lock s) \<and> dlist (sd_blist s) SdQue [] \<and> emmc_int s = 0
     \<and> sd_type s = SD_TYPE_2_HC \<and> (\<forall>c a. card_resp s c a = 0)"

definition buf_sector :: "buf \<Rightarrow> u32" where
  "buf_sector bf = b_blockno bf + b_part bf"

text \<open>The queue primitives on the one-element queue that a lone request makes.\<close>

lemma sdque_cycle:
  assumes "dlist h SdQue []"
  obtains h1 h2 where "list_push_back SdQue (SdBuf b) h = Ok () h1"
    "list_empty SdQue h = Ok True h"
    "list_empty SdQue h1 = Ok False h1" "list_front SdQue h1 = Ok (Some (SdBuf b)) h1"
    "list_pop_front SdQue h1 = Ok (Some (SdBuf b)) h2"
    "list_empty SdQue h2 = Ok True h2" "dlist h2 SdQue []"
proof -
  obtain h1 where 1: "list_push_back SdQue (SdBuf b) h = Ok () h1" "dlist h1 SdQue [SdBuf b]"
    using lh.push_back_ok[OF assms, of "SdBuf b"] by (auto elim: kwp_total_Ok)
  obtain h2 where 2: "list_pop_front SdQue h1 = Ok (Some (SdBuf b)) h2" "dlist h2 SdQue []"
    using lh.pop_front_ok[OF 1(2)] by (auto elim: kwp_total_Ok)
  have "list_empty SdQue h = Ok True h" using lh.empty_ok[OF assms] by (auto elim: kwp_total_Ok)
  moreover have "list_empty SdQue h1 = Ok False h1"
    using lh.empty_ok[OF 1(2)] by (auto elim: kwp_total_Ok)
  moreover have "list_front SdQue h1 = Ok (Some (SdBuf b)) h1"
    using lh.front_ok[OF 1(2)] by (auto elim: kwp_total_Ok)
  moreover have "list_empty SdQue h2 = Ok True h2"
    using lh.empty_ok[OF 2(2)] by (auto elim: kwp_total_Ok)
  ultimately show thesis using that 1 2 by blast
qed

lemma sdWait_DATA_DONE:
  "emmc_int s = INT_DATA_DONE \<Longrightarrow> sdWaitForInterrupt INT_DATA_DONE s = Ok 0 (s\<lparr>emmc_int := 0\<rparr>)"
  by (simp add: sdWaitForInterrupt_def sd_consts)

lemma sdWait_WRITE_RDY:
  "emmc_int s = INT_WRITE_RDY \<Longrightarrow> sdWaitForInterrupt INT_WRITE_RDY s = Ok 0 (s\<lparr>emmc_int := 0\<rparr>)"
  by (simp add: sdWaitForInterrupt_def sd_consts)

lemma sd_wait_numeral [simp]:
  "sd_wait (numeral k) b s =
     (if b \<in> sd_woken s then Ok () s else if emmc_int s = 0 then Fault Block
      else kthen sd_intr (sd_wait (pred_numeral k) b) s)"
  by (simp add: numeral_eq_Suc)

lemmas sd_run_defs = sdrw_def on_sdlock_def on_sdque_def sd_start_def get_buf_def upd_buf_def
  emmc_command_def emmc_read_block_def emmc_write_block_def sd_sleep_def sd_intr_def
  sd_container_def Let_def card_sector_def

text \<open>A read request copies the sector into the buffer and marks it valid.\<close>

lemma sdrw_read:
  assumes "sd_idle s" "b < length (bufs s)" "b_flags (bufs s ! b) AND B_DIRTY = 0"
  shows "\<exists>bl w cm. sdrw b s = Ok () (s\<lparr>bufs := (bufs s)[b := (bufs s ! b)
      \<lparr>b_data := sectors s (buf_sector (bufs s ! b)),
       b_flags := (b_flags (bufs s ! b) OR B_VALID) AND NOT B_DIRTY\<rparr>],
      sd_blist := bl, sd_woken := w, emmc_cmd := cm\<rparr>) \<and> dlist bl SdQue []"
proof -
  have sf: "spin_free (sd_lock s)" and q: "dlist (sd_blist s) SdQue []" and i: "emmc_int s = 0"
    and ty: "sd_type s = SD_TYPE_2_HC" and r: "\<And>c a. card_resp s c a = 0"
    using assms(1) by (auto simp: sd_idle_def)
  obtain h1 h2 where h: "list_push_back SdQue (SdBuf b) (sd_blist s) = Ok () h1"
    "list_empty SdQue (sd_blist s) = Ok True (sd_blist s)"
    "list_empty SdQue h1 = Ok False h1" "list_front SdQue h1 = Ok (Some (SdBuf b)) h1"
    "list_pop_front SdQue h1 = Ok (Some (SdBuf b)) h2"
    "list_empty SdQue h2 = Ok True h2" "dlist h2 SdQue []"
    using sdque_cycle[OF q] by blast
  have c: "INT_READ_RDY \<noteq> 0" "INT_READ_RDY AND INT_READ_RDY \<noteq> 0" "IX_READ_SINGLE \<noteq> IX_WRITE_SINGLE"
    "INT_READ_RDY AND NOT INT_READ_RDY = 0" "INT_READ_RDY AND INT_DATA_DONE = 0"
    by (simp_all add: sd_consts)
  show ?thesis
    by (rule exI[of _ h2], rule exI[of _ "insert b (sd_woken s - {b})"],
        rule exI[of _ "(IX_READ_SINGLE, buf_sector (bufs s ! b))"])
      (simp add: sd_run_defs kop_defs SD_PATIENCE_def sf i ty r h c assms(2,3) sdWait_DATA_DONE
        buf_sector_def)
qed

text \<open>A write request stores the buffer in its sector and clears \<^verbatim>\<open>B_DIRTY\<close>.\<close>

lemma sdrw_write:
  assumes "sd_idle s" "b < length (bufs s)" "b_flags (bufs s ! b) AND B_DIRTY \<noteq> 0"
  shows "\<exists>bl w cm. sdrw b s = Ok () (s\<lparr>bufs := (bufs s)[b := (bufs s ! b)
      \<lparr>b_flags := (b_flags (bufs s ! b) OR B_VALID) AND NOT B_DIRTY\<rparr>],
      sectors := (sectors s)(buf_sector (bufs s ! b) := b_data (bufs s ! b)),
      sd_blist := bl, sd_woken := w, emmc_cmd := cm\<rparr>) \<and> dlist bl SdQue []"
proof -
  have sf: "spin_free (sd_lock s)" and q: "dlist (sd_blist s) SdQue []" and i: "emmc_int s = 0"
    and ty: "sd_type s = SD_TYPE_2_HC" and r: "\<And>c a. card_resp s c a = 0"
    using assms(1) by (auto simp: sd_idle_def)
  obtain h1 h2 where h: "list_push_back SdQue (SdBuf b) (sd_blist s) = Ok () h1"
    "list_empty SdQue (sd_blist s) = Ok True (sd_blist s)"
    "list_empty SdQue h1 = Ok False h1" "list_front SdQue h1 = Ok (Some (SdBuf b)) h1"
    "list_pop_front SdQue h1 = Ok (Some (SdBuf b)) h2"
    "list_empty SdQue h2 = Ok True h2" "dlist h2 SdQue []"
    using sdque_cycle[OF q] by blast
  have c: "INT_DATA_DONE \<noteq> 0" "IX_WRITE_SINGLE \<noteq> IX_READ_SINGLE"
    "INT_DATA_DONE AND NOT INT_DATA_DONE = 0" "INT_DATA_DONE AND INT_DATA_DONE \<noteq> 0"
    by (simp_all add: sd_consts)
  show ?thesis
    by (rule exI[of _ h2], rule exI[of _ "insert b (sd_woken s - {b})"],
        rule exI[of _ "(IX_WRITE_SINGLE, buf_sector (bufs s ! b))"])
      (simp add: sd_run_defs kop_defs SD_PATIENCE_def sf i ty r h c assms(2,3) sdWait_WRITE_RDY
        buf_sector_def)
qed

end
