(* ===== verification/Bio.thy ===== *)
theory Bio
  imports Sd_Queue
begin

text \<open>
  The buffer cache, \<^verbatim>\<open>kern/bio.c\<close>. The \<^verbatim>\<open>NBUF\<close> buffers hang off \<^verbatim>\<open>bcache.head\<close> in order of
  use. The invariant \<open>bc_inv\<close> and the block view \<open>blk\<close> are the abstraction: a block of
  the root device is what a valid buffer holds for it, or else the sector of the card. The
  lemmas of the last section give each routine as an operation on that view.
\<close>

section \<open>State and routines\<close>

definition NBUF :: nat where "NBUF = 30"
definition ROOTDEV :: u32 where "ROOTDEV = 1"

datatype bnode = BHead | BBuf nat

record bio_state = sd_state +
  bc_lock :: spinlock
  bc_clist :: "bnode lheap"

definition on_bclock :: "(nat \<Rightarrow> (spinlock, 'a) kop) \<Rightarrow> ('z bio_state_scheme, 'a) kop" where
  "on_bclock m = kbind (kget this_cpu) (\<lambda>c. zoom bc_lock (\<lambda>x s. s\<lparr>bc_lock := x\<rparr>) (m c))"

definition on_clist :: "(bnode lheap, 'a) kop \<Rightarrow> ('z bio_state_scheme, 'a) kop" where
  "on_clist m = zoom bc_clist (\<lambda>x s. s\<lparr>bc_clist := x\<rparr>) m"

text \<open>A sleep-lock routine on \<^verbatim>\<open>&b->lock\<close>, with the running processor and process.\<close>

definition on_block :: "nat \<Rightarrow> (nat \<Rightarrow> u32 \<Rightarrow> (sleeplock, 'a) kop) \<Rightarrow> ('z sd_state_scheme, 'a) kop" where
  "on_block b m =
     kbind (get_buf b) (\<lambda>_.
     kbind (kget this_cpu) (\<lambda>c.
     kbind (kget this_pid) (\<lambda>p.
     zoom (\<lambda>s. b_lock (bufs s ! b))
       (\<lambda>x s. s\<lparr>bufs := (bufs s)[b := (bufs s ! b)\<lparr>b_lock := x\<rparr>]\<rparr>) (m c p))))"

definition bnode_buf :: "bnode \<Rightarrow> ('s, nat) kop" where
  "bnode_buf n = (case n of BBuf b \<Rightarrow> kret b | BHead \<Rightarrow> kfault (Undef ''container_of''))"

definition binit_one :: "nat \<Rightarrow> ('z bio_state_scheme, unit) kop" where
  "binit_one b =
     kbind (kget LBA) (\<lambda>l.
     kthen (upd_buf b (\<lambda>x. x\<lparr>b_part := l\<rparr>))
     (kthen (on_clist (list_push_front BHead (BBuf b)))
     (on_block b (\<lambda>_ _. initsleeplock ''bcache buf lock''))))"

definition binit :: "('z bio_state_scheme, unit) kop" where
  "binit =
     kthen (zoom bc_lock (\<lambda>x s. s\<lparr>bc_lock := x\<rparr>) (initlock ''bcache lock''))
     (kthen (on_clist (list_init BHead))
     (kfor [0..<NBUF] binit_one))"

definition buf_is :: "buf list \<Rightarrow> u32 \<Rightarrow> u32 \<Rightarrow> bnode \<Rightarrow> bool" where
  "buf_is bs dev bno n = (case n of BBuf i \<Rightarrow> b_dev (bs ! i) = dev \<and> b_blockno (bs ! i) = bno
     | BHead \<Rightarrow> False)"

definition buf_unused :: "buf list \<Rightarrow> bnode \<Rightarrow> bool" where
  "buf_unused bs n = (case n of BBuf i \<Rightarrow> b_refcnt (bs ! i) = 0 | BHead \<Rightarrow> False)"

definition bget :: "u32 \<Rightarrow> u32 \<Rightarrow> ('z bio_state_scheme, nat) kop" where
  "bget dev bno =
     kthen (on_bclock acquire)
     (kbind (kget bufs) (\<lambda>bs.
      kbind (on_clist (kbind (get_next BHead) (\<lambda>it.
        list_find_next (Suc NBUF) (buf_is bs dev bno) BHead it))) (\<lambda>hit.
      case hit of
        Some n \<Rightarrow>
          kbind (bnode_buf n) (\<lambda>b.
          kthen (upd_buf b (\<lambda>x. x\<lparr>b_refcnt := b_refcnt x + 1\<rparr>))
          (kthen (on_bclock release)
          (kthen (on_block b acquiresleep)
          (kret b))))
      | None \<Rightarrow>
      kbind (on_clist (kbind (get_prev BHead) (\<lambda>it.
        list_find_prev (Suc NBUF) (buf_unused bs) BHead it))) (\<lambda>old.
      case old of
        Some n \<Rightarrow>
          kbind (bnode_buf n) (\<lambda>b.
          kthen (upd_buf b (\<lambda>x. x\<lparr>b_flags := 0\<rparr>))
          (kthen (upd_buf b (\<lambda>x. x\<lparr>b_refcnt := 1\<rparr>))
          (kthen (upd_buf b (\<lambda>x. x\<lparr>b_dev := dev\<rparr>))
          (kthen (upd_buf b (\<lambda>x. x\<lparr>b_blockno := bno\<rparr>))
          (kthen (on_bclock release)
          (kthen (on_block b acquiresleep)
          (kret b)))))))
      | None \<Rightarrow> panic ''No such buffer!''))))"

definition bread :: "u32 \<Rightarrow> u32 \<Rightarrow> ('z bio_state_scheme, nat) kop" where
  "bread dev bno =
     kbind (bget dev bno) (\<lambda>b.
     kbind (get_buf b) (\<lambda>bf.
     kthen (kwhen (b_flags bf AND B_VALID = 0)
              (kthen (sdrw b) (upd_buf b (\<lambda>x. x\<lparr>b_flags := B_VALID\<rparr>))))
     (kret b)))"

definition bwrite :: "nat \<Rightarrow> ('z bio_state_scheme, unit) kop" where
  "bwrite b =
     kbind (on_block b holdingsleep) (\<lambda>h.
     if \<not> h then panic ''Write buffer isn't locked''
     else
       kthen (upd_buf b (\<lambda>x. x\<lparr>b_flags := b_flags x OR B_DIRTY\<rparr>))
       (sdrw b))"

definition brelse :: "nat \<Rightarrow> ('z bio_state_scheme, unit) kop" where
  "brelse b =
     kbind (on_block b holdingsleep) (\<lambda>h.
     if \<not> h then panic ''Release buffer isn't locked''
     else
       kthen (on_block b (\<lambda>c _. releasesleep c))
       (kthen (on_bclock acquire)
       (kthen (upd_buf b (\<lambda>x. x\<lparr>b_refcnt := b_refcnt x - 1\<rparr>))
       (kbind (get_buf b) (\<lambda>bf.
        kthen (kwhen (b_refcnt bf = 0)
                 (kthen (on_clist (list_delete (BBuf b)))
                 (on_clist (list_push_front BHead (BBuf b)))))
        (on_bclock release))))))"

definition bpin :: "nat \<Rightarrow> ('z bio_state_scheme, unit) kop" where
  "bpin b =
     kthen (on_bclock acquire)
     (kthen (upd_buf b (\<lambda>x. x\<lparr>b_refcnt := b_refcnt x + 1\<rparr>))
     (on_bclock release))"

definition bunpin :: "nat \<Rightarrow> ('z bio_state_scheme, unit) kop" where
  "bunpin b =
     kthen (on_bclock acquire)
     (kthen (upd_buf b (\<lambda>x. x\<lparr>b_refcnt := b_refcnt x - 1\<rparr>))
     (on_bclock release))"


section \<open>Invariant and block view\<close>

text \<open>What a routine of this layer may change of the state.\<close>

definition bio_upd :: "'z bio_state_scheme \<Rightarrow> 'z bio_state_scheme \<Rightarrow> bool" where
  "bio_upd s s' \<longleftrightarrow> (\<exists>B bl w cm sx cl. s' = s\<lparr>bufs := B, sd_blist := bl, sd_woken := w,
     emmc_cmd := cm, sectors := sx, bc_clist := cl\<rparr>)"

lemma bio_upd_refl [simp]: "bio_upd s s"
  unfolding bio_upd_def
  by (rule exI[of _ "bufs s"], rule exI[of _ "sd_blist s"], rule exI[of _ "sd_woken s"],
      rule exI[of _ "emmc_cmd s"], rule exI[of _ "sectors s"], rule exI[of _ "bc_clist s"]) simp

lemma bio_upd_bufs [simp]: "bio_upd s (s\<lparr>bufs := B\<rparr>)"
  unfolding bio_upd_def
  by (rule exI[of _ B], rule exI[of _ "sd_blist s"], rule exI[of _ "sd_woken s"],
      rule exI[of _ "emmc_cmd s"], rule exI[of _ "sectors s"], rule exI[of _ "bc_clist s"]) simp

lemma bio_upd_trans [trans]: "bio_upd s t \<Longrightarrow> bio_upd t u \<Longrightarrow> bio_upd s u"
  unfolding bio_upd_def by (elim exE) (intro exI, simp)

lemma bio_upd_fields:
  "bio_upd s s' \<Longrightarrow> this_cpu s' = this_cpu s \<and> this_pid s' = this_pid s \<and> LBA s' = LBA s
    \<and> sd_lock s' = sd_lock s \<and> bc_lock s' = bc_lock s \<and> emmc_int s' = emmc_int s
    \<and> sd_type s' = sd_type s \<and> card_resp s' = card_resp s \<and> bio_state.more s' = bio_state.more s"
  by (auto simp: bio_upd_def)

lemma bio_upd_iff:
  "bio_upd s s' \<longleftrightarrow> this_cpu s' = this_cpu s \<and> this_pid s' = this_pid s \<and> LBA s' = LBA s
    \<and> sd_lock s' = sd_lock s \<and> bc_lock s' = bc_lock s \<and> emmc_int s' = emmc_int s
    \<and> sd_type s' = sd_type s \<and> card_resp s' = card_resp s \<and> bio_state.more s' = bio_state.more s"
  by (cases s; cases s') (auto simp: bio_upd_def)

definition valid_buf :: "buf \<Rightarrow> bool" where
  "valid_buf b = (b_flags b AND B_VALID \<noteq> 0)"

text \<open>One buffer: an unreferenced valid buffer of the root device agrees with the card.\<close>

definition buf_ok :: "nat \<Rightarrow> 'z bio_state_scheme \<Rightarrow> buf \<Rightarrow> bool" where
  "buf_ok k s b \<longleftrightarrow> length (b_data b) = BSIZE \<and> b_part b = LBA s \<and> slp_idle (b_lock b)
     \<and> (slp_locked (b_lock b) \<longrightarrow> b_refcnt b \<noteq> 0) \<and> (b_refcnt b \<noteq> 0 \<longrightarrow> b_dev b = ROOTDEV)
     \<and> b_flags b AND B_DIRTY = 0
     \<and> unat (b_refcnt b) + k < 2 ^ 32 + (if slp_locked (b_lock b) then 1 else 0)
     \<and> (b_refcnt b = 0 \<longrightarrow> b_dev b = ROOTDEV \<longrightarrow> valid_buf b \<longrightarrow> b_data b = sectors s (buf_sector b))"

definition lru_ok :: "bnode lheap \<Rightarrow> bool" where
  "lru_ok h \<longleftrightarrow> (\<exists>xs. dlist h BHead (map BBuf xs) \<and> set xs = {..<NBUF})"

text \<open>
  \<open>bc_inv k\<close>: no spin lock is held, and \<open>k\<close> more references can be counted in each buffer
  besides the one of the process that has it locked.
\<close>

definition bc_inv :: "nat \<Rightarrow> 'z bio_state_scheme \<Rightarrow> bool" where
  "bc_inv k s \<longleftrightarrow> sd_idle s \<and> spin_free (bc_lock s) \<and> length (bufs s) = NBUF
     \<and> lru_ok (bc_clist s) \<and> (\<forall>i<NBUF. buf_ok k s (bufs s ! i))
     \<and> (\<forall>n. length (sectors s n) = BSIZE)
     \<and> (\<forall>i<NBUF. \<forall>j<NBUF. b_dev (bufs s ! i) = ROOTDEV \<longrightarrow> b_dev (bufs s ! j) = ROOTDEV \<longrightarrow>
          b_blockno (bufs s ! i) = b_blockno (bufs s ! j) \<longrightarrow> i = j)"

definition cached :: "'z bio_state_scheme \<Rightarrow> u32 \<Rightarrow> nat option" where
  "cached s bn = List.find (\<lambda>i. b_dev (bufs s ! i) = ROOTDEV \<and> b_blockno (bufs s ! i) = bn)
     [0..<length (bufs s)]"

definition blk :: "'z bio_state_scheme \<Rightarrow> u32 \<Rightarrow> u8 list" where
  "blk s bn = (case cached s bn of
     Some i \<Rightarrow> if valid_buf (bufs s ! i) then b_data (bufs s ! i) else sectors s (bn + LBA s)
   | None \<Rightarrow> sectors s (bn + LBA s))"

definition card_blk :: "'z bio_state_scheme \<Rightarrow> u32 \<Rightarrow> u8 list" where
  "card_blk s bn = sectors s (bn + LBA s)"

text \<open>Buffer \<open>i\<close> holds block \<open>bn\<close> and is locked by the running process.\<close>

definition holds :: "'z bio_state_scheme \<Rightarrow> nat \<Rightarrow> u32 \<Rightarrow> bool" where
  "holds s i bn \<longleftrightarrow> i < NBUF \<and> b_dev (bufs s ! i) = ROOTDEV \<and> b_blockno (bufs s ! i) = bn
     \<and> valid_buf (bufs s ! i) \<and> slp_locked (b_lock (bufs s ! i))
     \<and> slp_pid (b_lock (bufs s ! i)) = this_pid s"

definition held :: "'z bio_state_scheme \<Rightarrow> u32 set" where
  "held s = {b_blockno (bufs s ! i) |i. i < length (bufs s) \<and> b_dev (bufs s ! i) = ROOTDEV
     \<and> slp_locked (b_lock (bufs s ! i))}"

text \<open>The references counted for a block.\<close>

definition refs :: "'z bio_state_scheme \<Rightarrow> u32 \<Rightarrow> nat" where
  "refs s bn = (case cached s bn of Some i \<Rightarrow> unat (b_refcnt (bufs s ! i)) | None \<Rightarrow> 0)"

text \<open>The buffer may be given up without losing data: it stays referenced, or it is clean.\<close>

definition safe_rel :: "'z bio_state_scheme \<Rightarrow> nat \<Rightarrow> bool" where
  "safe_rel s i \<longleftrightarrow> b_refcnt (bufs s ! i) \<noteq> 1
     \<or> b_data (bufs s ! i) = sectors s (buf_sector (bufs s ! i))"

definition all_pinned :: "'z bio_state_scheme \<Rightarrow> bool" where
  "all_pinned s = (\<forall>i<length (bufs s). b_refcnt (bufs s ! i) \<noteq> 0)"


subsection \<open>Facts about the view\<close>

lemma bc_invD:
  assumes "bc_inv k s"
  shows "sd_idle s" "spin_free (bc_lock s)" "length (bufs s) = NBUF" "lru_ok (bc_clist s)"
    "i < NBUF \<Longrightarrow> buf_ok k s (bufs s ! i)" "length (sectors s n) = BSIZE"
    "i < NBUF \<Longrightarrow> j < NBUF \<Longrightarrow> b_dev (bufs s ! i) = ROOTDEV \<Longrightarrow> b_dev (bufs s ! j) = ROOTDEV \<Longrightarrow>
      b_blockno (bufs s ! i) = b_blockno (bufs s ! j) \<Longrightarrow> i = j"
  using assms by (auto simp: bc_inv_def)

lemma find_upt_None: "List.find P [0..<n] = None \<longleftrightarrow> (\<forall>i<n. \<not> P i)"
  by (auto simp: find_None_iff)

lemma find_unique:
  assumes "x \<in> set xs" "P x" "\<And>y. y \<in> set xs \<Longrightarrow> P y \<Longrightarrow> y = x"
  shows "List.find P xs = Some x"
proof -
  obtain y where "List.find P xs = Some y"
    using assms(1,2) by (metis find_None_iff option.exhaust)
  moreover then have "y \<in> set xs" "P y" by (auto simp: find_Some_iff)
  ultimately show ?thesis using assms(3) by simp
qed

lemma cached_iff:
  assumes "bc_inv k s"
  shows "cached s bn = Some i \<longleftrightarrow> i < NBUF \<and> b_dev (bufs s ! i) = ROOTDEV \<and> b_blockno (bufs s ! i) = bn"
proof
  assume "cached s bn = Some i"
  then show "i < NBUF \<and> b_dev (bufs s ! i) = ROOTDEV \<and> b_blockno (bufs s ! i) = bn"
    using bc_invD(3)[OF assms] by (auto simp: cached_def find_Some_iff)
next
  assume i: "i < NBUF \<and> b_dev (bufs s ! i) = ROOTDEV \<and> b_blockno (bufs s ! i) = bn"
  show "cached s bn = Some i" unfolding cached_def
    by (rule find_unique) (use i bc_invD(3,7)[OF assms] in auto)
qed

lemma cached_None:
  assumes "bc_inv k s"
  shows "cached s bn = None \<longleftrightarrow>
    (\<forall>i<NBUF. \<not> (b_dev (bufs s ! i) = ROOTDEV \<and> b_blockno (bufs s ! i) = bn))"
  using bc_invD(3)[OF assms] by (simp add: cached_def find_upt_None)

lemma blk_hit:
  assumes "bc_inv k s" "i < NBUF" "b_dev (bufs s ! i) = ROOTDEV" "b_blockno (bufs s ! i) = bn"
  shows "blk s bn = (if valid_buf (bufs s ! i) then b_data (bufs s ! i) else sectors s (bn + LBA s))"
  using cached_iff[OF assms(1), of bn i] assms by (simp add: blk_def)

lemma blk_miss: "cached s bn = None \<Longrightarrow> blk s bn = sectors s (bn + LBA s)"
  by (simp add: blk_def)

lemma holds_blk: "bc_inv k s \<Longrightarrow> holds s i bn \<Longrightarrow> blk s bn = b_data (bufs s ! i)"
  using blk_hit[of k s i bn] by (simp add: holds_def)

lemma length_blk: "bc_inv k s \<Longrightarrow> length (blk s bn) = BSIZE"
  using cached_iff[of k s bn] bc_invD[of k s]
  by (auto simp: blk_def buf_ok_def split: option.splits)

lemma cached_cong:
  "length (bufs s') = length (bufs s) \<Longrightarrow>
   (\<And>i. i < length (bufs s) \<Longrightarrow> b_dev (bufs s' ! i) = b_dev (bufs s ! i)
     \<and> b_blockno (bufs s' ! i) = b_blockno (bufs s ! i)) \<Longrightarrow> cached s' bn = cached s bn"
  unfolding cached_def by (rule find_cong) auto

lemma sd_idle_upd [simp]:
  "sd_idle (s\<lparr>bufs := B\<rparr>) = sd_idle s" "sd_idle (s\<lparr>bc_clist := cl\<rparr>) = sd_idle s"
  "sd_idle (s\<lparr>sectors := sx\<rparr>) = sd_idle s" "sd_idle (s\<lparr>sd_woken := w\<rparr>) = sd_idle s"
  "sd_idle (s\<lparr>emmc_cmd := cm\<rparr>) = sd_idle s"
  "sd_idle s \<Longrightarrow> dlist bl SdQue [] \<Longrightarrow> sd_idle (s\<lparr>sd_blist := bl\<rparr>)"
  by (simp_all add: sd_idle_def)

lemma blk_clist [simp]: "blk (s\<lparr>bc_clist := cl\<rparr>) = blk s"
  by (rule ext) (simp add: blk_def cached_def split: option.split)

text \<open>Changing one buffer in place, its identity kept.\<close>

lemma bc_inv_update:
  assumes inv: "bc_inv k s" and i: "i < NBUF" and ok: "buf_ok k' (s\<lparr>bufs := (bufs s)[i := b']\<rparr>) b'"
    and id: "b_dev b' = b_dev (bufs s ! i)" "b_blockno b' = b_blockno (bufs s ! i)" and k: "k' \<le> k"
  shows "bc_inv k' (s\<lparr>bufs := (bufs s)[i := b']\<rparr>)"
proof -
  have "buf_ok k' (s\<lparr>bufs := (bufs s)[i := b']\<rparr>) ((bufs s)[i := b'] ! j)" if "j < NBUF" for j
    using bc_invD(5)[OF inv that] ok bc_invD(3)[OF inv] that k
    by (cases "j = i") (auto simp: buf_ok_def)
  then show ?thesis using inv id i
    by (auto simp: bc_inv_def nth_list_update)
qed

lemma blk_update:
  assumes inv: "bc_inv k s" and i: "i < NBUF"
    and id: "b_dev b' = b_dev (bufs s ! i)" "b_blockno b' = b_blockno (bufs s ! i)"
    and v: "valid_buf b' = valid_buf (bufs s ! i)"
  shows "blk (s\<lparr>bufs := (bufs s)[i := b']\<rparr>) =
    (if b_dev b' = ROOTDEV \<and> valid_buf b' then (blk s)(b_blockno b' := b_data b') else blk s)"
proof -
  let ?s = "s\<lparr>bufs := (bufs s)[i := b']\<rparr>"
  have c: "cached ?s bn = cached s bn" for bn
    by (rule cached_cong) (use id i bc_invD(3)[OF inv] in \<open>auto simp: nth_list_update\<close>)
  show ?thesis
  proof (rule ext)
    fix bn
    show "blk ?s bn = (if b_dev b' = ROOTDEV \<and> valid_buf b' then (blk s)(b_blockno b' := b_data b')
        else blk s) bn"
    proof (cases "cached s bn")
      case None
      then have "\<not> (b_dev b' = ROOTDEV \<and> b_blockno b' = bn)"
        using cached_None[OF inv] i id by auto
      then show ?thesis using None c by (auto simp: blk_def)
    next
      case (Some j)
      then have j: "j < NBUF" "b_dev (bufs s ! j) = ROOTDEV" "b_blockno (bufs s ! j) = bn"
        using cached_iff[OF inv] by auto
      show ?thesis
      proof (cases "j = i")
        case True
        then show ?thesis using Some c j id v bc_invD(3)[OF inv] by (simp add: blk_def)
      next
        case False
        then have "\<not> (b_dev b' = ROOTDEV \<and> b_blockno b' = bn)"
          using bc_invD(7)[OF inv j(1) i] j id by auto
        then show ?thesis using Some c False by (auto simp: blk_def)
      qed
    qed
  qed
qed


lemma refs_update:
  assumes inv: "bc_inv k s" and i: "i < NBUF"
    and id: "b_dev b' = b_dev (bufs s ! i)" "b_blockno b' = b_blockno (bufs s ! i)"
  shows "refs (s\<lparr>bufs := (bufs s)[i := b']\<rparr>) =
    (if b_dev b' = ROOTDEV then (refs s)(b_blockno b' := unat (b_refcnt b')) else refs s)"
proof (rule ext)
  fix bn
  let ?s = "s\<lparr>bufs := (bufs s)[i := b']\<rparr>"
  have len: "length (bufs s) = NBUF" by (rule bc_invD(3)[OF inv])
  have c: "cached ?s bn = cached s bn"
    by (rule cached_cong) (use id i len in \<open>auto simp: nth_list_update\<close>)
  have here: "cached s bn = Some i \<longleftrightarrow> b_dev b' = ROOTDEV \<and> b_blockno b' = bn"
    using cached_iff[OF inv, of bn i] i id by simp
  show "refs ?s bn = (if b_dev b' = ROOTDEV then (refs s)(b_blockno b' := unat (b_refcnt b')) else refs s) bn"
  proof (cases "cached s bn = Some i")
    case True
    then show ?thesis using here c i len by (simp add: refs_def)
  next
    case False
    then have "refs ?s bn = refs s bn" unfolding refs_def c by (auto split: option.split)
    then show ?thesis using False here by auto
  qed
qed

lemma refs_bufs: "bufs s' = bufs s \<Longrightarrow> refs s' = refs s"
  by (rule ext) (simp add: refs_def cached_def split: option.split)

lemma refs_hit:
  "bc_inv k s \<Longrightarrow> i < NBUF \<Longrightarrow> b_dev (bufs s ! i) = ROOTDEV \<Longrightarrow> b_blockno (bufs s ! i) = bn \<Longrightarrow>
    refs s bn = unat (b_refcnt (bufs s ! i))"
  using cached_iff[of k s bn i] by (simp add: refs_def)

text \<open>The blocks whose buffers are in use. A cache without a free buffer has \<open>NBUF\<close> of them.\<close>

definition pinned :: "'z bio_state_scheme \<Rightarrow> u32 set" where
  "pinned s = {bn. refs s bn \<noteq> 0}"

lemma block_sets_finite:
  assumes inv: "bc_inv k s"
  shows "finite (pinned s)" "finite (held s)" "held s \<subseteq> pinned s"
proof -
  have "pinned s \<subseteq> (\<lambda>i. b_blockno (bufs s ! i)) ` {..<NBUF}"
    using cached_iff[OF inv] by (auto simp: pinned_def refs_def split: option.splits)
  then show f: "finite (pinned s)" by (rule finite_subset) simp
  show h: "held s \<subseteq> pinned s"
  proof
    fix bn assume "bn \<in> held s"
    then obtain i where i: "i < NBUF" "b_dev (bufs s ! i) = ROOTDEV" "b_blockno (bufs s ! i) = bn" "slp_locked (b_lock (bufs s ! i))"
      using bc_invD(3)[OF inv] by (auto simp: held_def)
    then have "b_refcnt (bufs s ! i) \<noteq> 0" using bc_invD(5)[OF inv i(1)] by (simp add: buf_ok_def)
    then show "bn \<in> pinned s" using refs_hit[OF inv i(1-3)] by (simp add: pinned_def unat_gt_0)
  qed
  show "finite (held s)" by (rule finite_subset[OF h f])
qed

lemma all_pinned_card:
  assumes inv: "bc_inv k s" and all: "all_pinned s"
  shows "NBUF \<le> card (pinned s)"
proof -
  have d: "b_dev (bufs s ! i) = ROOTDEV" "refs s (b_blockno (bufs s ! i)) \<noteq> 0" if "i < NBUF" for i
  proof -
    have "b_refcnt (bufs s ! i) \<noteq> 0" using all that bc_invD(3)[OF inv] by (simp add: all_pinned_def)
    then show "b_dev (bufs s ! i) = ROOTDEV" "refs s (b_blockno (bufs s ! i)) \<noteq> 0"
      using bc_invD(5)[OF inv that] refs_hit[OF inv that] by (simp_all add: buf_ok_def unat_eq_0)
  qed
  have "inj_on (\<lambda>i. b_blockno (bufs s ! i)) {..<NBUF}"
    using inv d(1) by (auto simp: inj_on_def bc_inv_def)
  then have "card ((\<lambda>i. b_blockno (bufs s ! i)) ` {..<NBUF}) = NBUF" by (simp add: card_image)
  moreover have "(\<lambda>i. b_blockno (bufs s ! i)) ` {..<NBUF} \<subseteq> pinned s" using d(2) by (auto simp: pinned_def)
  ultimately show ?thesis using card_mono[OF block_sets_finite(1)[OF inv]] by metis
qed


section \<open>What the routines do\<close>

declare list_find_next.simps [simp del] list_find_prev.simps [simp del]

lemmas bio_run_defs = on_bclock_def on_clist_def on_block_def get_buf_def upd_buf_def

lemma lru_find:
  assumes "bc_inv k s"
  obtains xs where "dlist (bc_clist s) BHead (map BBuf xs)" "set xs = {..<NBUF}"
    "\<And>P. list_find_next (Suc NBUF) P BHead (lnext (bc_clist s BHead)) (bc_clist s)
        = Ok (List.find P (map BBuf xs)) (bc_clist s)"
    "\<And>P. list_find_prev (Suc NBUF) P BHead (lprev (bc_clist s BHead)) (bc_clist s)
        = Ok (List.find P (rev (map BBuf xs))) (bc_clist s)"
proof -
  obtain xs where xs: "dlist (bc_clist s) BHead (map BBuf xs)" "set xs = {..<NBUF}"
    using bc_invD(4)[OF assms] by (auto simp: lru_ok_def)
  have "distinct xs" using dlist_distinct[OF xs(1)] by (simp add: distinct_map)
  then have "length xs = NBUF" using xs(2) distinct_card[of xs] by simp
  then have "length (map BBuf xs) < Suc NBUF" by simp
  with that xs list_find_next_dlist[OF xs(1)] list_find_prev_dlist[OF xs(1)] show thesis by blast
qed

definition take_ref :: "u32 \<Rightarrow> buf \<Rightarrow> buf" where
  "take_ref pid b = b\<lparr>b_refcnt := b_refcnt b + 1,
     b_lock := (b_lock b)\<lparr>slp_locked := True, slp_pid := pid\<rparr>\<rparr>"

definition recycle :: "u32 \<Rightarrow> u32 \<Rightarrow> u32 \<Rightarrow> buf \<Rightarrow> buf" where
  "recycle pid dev bno b = b\<lparr>b_flags := 0, b_refcnt := 1, b_dev := dev, b_blockno := bno,
     b_lock := (b_lock b)\<lparr>slp_locked := True, slp_pid := pid\<rparr>\<rparr>"

lemma bget_hit:
  assumes inv: "bc_inv k s" and c: "cached s bn = Some i" and l: "\<not> slp_locked (b_lock (bufs s ! i))"
  shows "bget ROOTDEV bn s = Ok i (s\<lparr>bufs := (bufs s)[i := take_ref (this_pid s) (bufs s ! i)]\<rparr>)"
proof -
  obtain xs where xs: "set xs = {..<NBUF}"
    "\<And>P. list_find_next (Suc NBUF) P BHead (lnext (bc_clist s BHead)) (bc_clist s)
        = Ok (List.find P (map BBuf xs)) (bc_clist s)"
    using lru_find[OF inv] by metis
  have i: "i < NBUF" "b_dev (bufs s ! i) = ROOTDEV" "b_blockno (bufs s ! i) = bn"
    using c cached_iff[OF inv] by auto
  have f: "List.find (buf_is (bufs s) ROOTDEV bn) (map BBuf xs) = Some (BBuf i)"
    by (rule find_unique) (use xs(1) i bc_invD(7)[OF inv] in \<open>auto simp: buf_is_def\<close>)
  have sl: "slp_idle (b_lock (bufs s ! i))" using bc_invD(5)[OF inv i(1)] by (simp add: buf_ok_def)
  show ?thesis
    using i bc_invD(2,3)[OF inv] l sl
    by (simp add: bget_def bio_run_defs kop_defs get_next_def xs(2) f bnode_buf_def
        acquiresleep_free take_ref_def)
qed

lemma bget_miss:
  assumes inv: "bc_inv k s" and c: "cached s bn = None" and u: "\<not> all_pinned s"
  shows "\<exists>i<NBUF. b_refcnt (bufs s ! i) = 0 \<and>
    bget ROOTDEV bn s = Ok i (s\<lparr>bufs := (bufs s)[i := recycle (this_pid s) ROOTDEV bn (bufs s ! i)]\<rparr>)"
proof -
  obtain xs where xs: "set xs = {..<NBUF}"
    "\<And>P. list_find_next (Suc NBUF) P BHead (lnext (bc_clist s BHead)) (bc_clist s)
        = Ok (List.find P (map BBuf xs)) (bc_clist s)"
    "\<And>P. list_find_prev (Suc NBUF) P BHead (lprev (bc_clist s BHead)) (bc_clist s)
        = Ok (List.find P (rev (map BBuf xs))) (bc_clist s)"
    using lru_find[OF inv] by metis
  have n: "List.find (buf_is (bufs s) ROOTDEV bn) (map BBuf xs) = None"
    using c cached_None[OF inv] xs(1) by (auto simp: find_None_iff buf_is_def)
  have "\<exists>n \<in> set (map BBuf xs). buf_unused (bufs s) n"
    using u xs(1) bc_invD(3)[OF inv] by (auto simp: all_pinned_def buf_unused_def)
  then obtain n where f: "List.find (buf_unused (bufs s)) (rev (map BBuf xs)) = Some n"
    by (metis find_None_iff option.exhaust set_rev)
  then have "n \<in> set (map BBuf xs)" "buf_unused (bufs s) n"
    by (auto simp: find_Some_iff) (metis imageI length_map length_rev nth_mem set_map set_rev)
  then obtain i where i: "n = BBuf i" "i < NBUF" "b_refcnt (bufs s ! i) = 0"
    using xs(1) by (auto simp: buf_unused_def)
  have sl: "slp_idle (b_lock (bufs s ! i))" "\<not> slp_locked (b_lock (bufs s ! i))"
    using bc_invD(5)[OF inv i(2)] i(3) by (auto simp: buf_ok_def)
  have "bget ROOTDEV bn s = Ok i (s\<lparr>bufs := (bufs s)[i := recycle (this_pid s) ROOTDEV bn (bufs s ! i)]\<rparr>)"
    using i bc_invD(2,3)[OF inv] sl
    by (simp add: bget_def bio_run_defs kop_defs get_next_def get_prev_def xs(2,3) n f bnode_buf_def
        acquiresleep_free recycle_def)
  then show ?thesis using i by blast
qed

lemma bget_full:
  assumes inv: "bc_inv k s" and c: "cached s bn = None" and u: "all_pinned s"
  shows "bget ROOTDEV bn s = Fault (Panic ''No such buffer!'')"
proof -
  obtain xs where xs: "set xs = {..<NBUF}"
    "\<And>P. list_find_next (Suc NBUF) P BHead (lnext (bc_clist s BHead)) (bc_clist s)
        = Ok (List.find P (map BBuf xs)) (bc_clist s)"
    "\<And>P. list_find_prev (Suc NBUF) P BHead (lprev (bc_clist s BHead)) (bc_clist s)
        = Ok (List.find P (rev (map BBuf xs))) (bc_clist s)"
    using lru_find[OF inv] by metis
  have n: "List.find (buf_is (bufs s) ROOTDEV bn) (map BBuf xs) = None"
    using c cached_None[OF inv] xs(1) by (auto simp: find_None_iff buf_is_def)
  have f: "List.find (buf_unused (bufs s)) (rev (map BBuf xs)) = None"
    using u xs(1) bc_invD(3)[OF inv] by (auto simp: find_None_iff all_pinned_def buf_unused_def)
  show ?thesis
    using bc_invD(2)[OF inv]
    by (simp add: bget_def bio_run_defs kop_defs get_next_def get_prev_def xs(2,3) n f)
qed


subsection \<open>Reading a block\<close>

definition no_buffer :: "'z bio_state_scheme \<Rightarrow> u32 \<Rightarrow> fault \<Rightarrow> bool" where
  "no_buffer s bn e \<longleftrightarrow> e = Panic ''No such buffer!'' \<and> cached s bn = None \<and> all_pinned s"

definition bread_post :: "nat \<Rightarrow> u32 \<Rightarrow> 'z bio_state_scheme \<Rightarrow> nat \<Rightarrow> 'z bio_state_scheme \<Rightarrow> bool" where
  "bread_post k bn s i s' \<longleftrightarrow> bc_inv k s' \<and> holds s' i bn \<and> blk s' = blk s \<and> safe_rel s' i
     \<and> held s' = insert bn (held s) \<and> bio_upd s s' \<and> sectors s' = sectors s
     \<and> refs s' = (refs s)(bn := Suc (refs s bn))
     \<and> (\<forall>j<NBUF. j \<noteq> i \<longrightarrow> bufs s' ! j = bufs s ! j)"

lemma heldI: "bc_inv k s \<Longrightarrow> holds s i bn \<Longrightarrow> bn \<in> held s"
  using bc_invD(3)[of k s] by (auto simp: holds_def held_def)

lemma held_update:
  assumes "bc_inv k s" "i < NBUF" "\<not> slp_locked (b_lock (bufs s ! i))"
    "slp_locked (b_lock b')" "b_dev b' = ROOTDEV" "bufs s' = (bufs s)[i := b']"
  shows "held s' = insert (b_blockno b') (held s)"
  using assms bc_invD(3)[OF assms(1)]
  by (auto simp: held_def nth_list_update split: if_splits; metis)

lemma refs_room:
  assumes inv: "bc_inv k s" and nh: "bn \<notin> held s"
  shows "refs s bn + k < 2 ^ 32"
proof (cases "cached s bn")
  case None
  have "buf_ok k s (bufs s ! 0)" by (rule bc_invD(5)[OF inv]) (simp add: NBUF_def)
  then have "slp_locked (b_lock (bufs s ! 0)) \<longrightarrow> b_refcnt (bufs s ! 0) \<noteq> 0"
    "unat (b_refcnt (bufs s ! 0)) + k < 2 ^ 32 + (if slp_locked (b_lock (bufs s ! 0)) then 1 else 0)"
    by (simp_all add: buf_ok_def)
  moreover have "0 < unat r" if "r \<noteq> 0" for r :: u32 using that by (simp add: unat_gt_0)
  ultimately have "k < 2 ^ 32"
    by (cases "slp_locked (b_lock (bufs s ! 0))") (fastforce simp del: power_numeral)+
  then show ?thesis using None by (simp add: refs_def)
next
  case (Some i)
  then have i: "i < NBUF" "b_dev (bufs s ! i) = ROOTDEV" "b_blockno (bufs s ! i) = bn"
    using cached_iff[OF inv] by auto
  moreover have "\<not> slp_locked (b_lock (bufs s ! i))"
    using nh i bc_invD(3)[OF inv] by (auto simp: held_def)
  ultimately show ?thesis
    using bc_invD(5)[OF inv i(1)] Some by (simp add: buf_ok_def refs_def)
qed

text \<open>Buffer \<open>i\<close>, the one cached for the block or an unreferenced one, becomes \<open>b'\<close>.\<close>

definition refill :: "nat \<Rightarrow> u32 \<Rightarrow> 'z bio_state_scheme \<Rightarrow> nat \<Rightarrow> buf \<Rightarrow> 'z bio_state_scheme \<Rightarrow> bool" where
  "refill k bn s i b' s' \<longleftrightarrow> bc_inv k s \<and> i < NBUF
     \<and> (cached s bn = Some i \<or> cached s bn = None \<and> b_refcnt (bufs s ! i) = 0)
     \<and> \<not> slp_locked (b_lock (bufs s ! i))
     \<and> b_dev b' = ROOTDEV \<and> b_blockno b' = bn \<and> valid_buf b' \<and> b_data b' = blk s bn
     \<and> slp_locked (b_lock b') \<and> slp_pid (b_lock b') = this_pid s \<and> slp_idle (b_lock b')
     \<and> unat (b_refcnt b') = Suc (refs s bn) \<and> unat (b_refcnt b') + k \<le> 2 ^ 32
     \<and> b_flags b' AND B_DIRTY = 0 \<and> b_part b' = LBA s
     \<and> (b_refcnt b' \<noteq> 1 \<or> b_data b' = sectors s (buf_sector b'))
     \<and> dlist (sd_blist s') SdQue []
     \<and> s' = s\<lparr>bufs := (bufs s)[i := b'], sd_blist := sd_blist s', sd_woken := sd_woken s',
         emmc_cmd := emmc_cmd s'\<rparr>"

lemma refillD:
  assumes "refill k bn s i b' s'"
  shows "bc_inv k s" "i < NBUF" "cached s bn = Some i \<or> cached s bn = None \<and> b_refcnt (bufs s ! i) = 0"
    "b_dev b' = ROOTDEV" "b_blockno b' = bn" "sectors s' = sectors s" "LBA s' = LBA s"
    "length (bufs s) = NBUF" "\<And>x. bufs s' ! x = (if x = i then b' else bufs s ! x)" "length (bufs s') = NBUF"
proof -
  let ?t = "s\<lparr>bufs := (bufs s)[i := b'], sd_blist := sd_blist s', sd_woken := sd_woken s', emmc_cmd := emmc_cmd s'\<rparr>"
  have e: "s' = ?t" and i: "i < NBUF" and inv: "bc_inv k s" using assms unfolding refill_def by blast+
  have "bufs s' = bufs ?t" "sectors s' = sectors ?t" "LBA s' = LBA ?t" by (subst e, rule refl)+
  then have f: "bufs s' = (bufs s)[i := b']" "sectors s' = sectors s" "LBA s' = LBA s" by simp_all
  show len: "length (bufs s) = NBUF" by (rule bc_invD(3)[OF inv])
  show "sectors s' = sectors s" "LBA s' = LBA s" "length (bufs s') = NBUF" using f len by simp_all
  show "bufs s' ! x = (if x = i then b' else bufs s ! x)" for x using f i len by (simp add: nth_list_update)
qed (use assms in \<open>simp_all only: refill_def\<close>)

lemma refill_upd:
  assumes "refill k bn s i b' s'"
  shows "bio_upd s s'" "bc_clist s' = bc_clist s" "bufs s' = (bufs s)[i := b']"
proof -
  let ?t = "s\<lparr>bufs := (bufs s)[i := b'], sd_blist := sd_blist s', sd_woken := sd_woken s', emmc_cmd := emmc_cmd s'\<rparr>"
  have e: "s' = ?t" using assms unfolding refill_def by blast
  have "bio_upd s ?t" by (simp add: bio_upd_iff)
  then show "bio_upd s s'" using e by argo
  have "bc_clist s' = bc_clist ?t" "bufs s' = bufs ?t" by (subst e, rule refl)+
  then show "bc_clist s' = bc_clist s" "bufs s' = (bufs s)[i := b']" by simp_all
qed

lemma refill_inv:
  assumes r: "refill k bn s i b' s'"
  shows "bc_inv k s'"
proof -
  note inv = refillD(1)[OF r] and nth = refillD(9)[OF r]
  have uq: "j = i" if "j < NBUF" "b_dev (bufs s ! j) = ROOTDEV" "b_blockno (bufs s ! j) = bn" for j
    using refillD(3)[OF r] that cached_iff[OF inv] cached_None[OF inv] by (metis option.inject)
  have c: "unat (b_refcnt b') = Suc (refs s bn)" "b_data b' = blk s bn" "b_part b' = LBA s"
    "slp_idle (b_lock b')" "slp_locked (b_lock b')" "b_flags b' AND B_DIRTY = 0" "unat (b_refcnt b') + k \<le> 2 ^ 32"
    using r unfolding refill_def by blast+
  then have "b_refcnt b' \<noteq> 0" by auto
  then have "buf_ok k s' b'"
    using c length_blk[OF inv, of bn] refillD(4,7)[OF r] by (simp add: buf_ok_def)
  moreover have "buf_ok k s' (bufs s ! j)" if "j < NBUF" for j
    using bc_invD(5)[OF inv that] refillD(6,7)[OF r] by (simp add: buf_ok_def)
  ultimately have ok: "buf_ok k s' (bufs s' ! j)" if "j < NBUF" for j
    using that by (cases "j = i") (simp_all add: nth)
  have uq': "a = j" if "a < NBUF" "j < NBUF" "b_dev (bufs s' ! a) = ROOTDEV"
      "b_dev (bufs s' ! j) = ROOTDEV" "b_blockno (bufs s' ! a) = b_blockno (bufs s' ! j)" for a j
  proof -
    have only: "c = i" if "c < NBUF" "b_dev (bufs s' ! c) = ROOTDEV" "b_blockno (bufs s' ! c) = bn" for c
    proof (rule ccontr)
      assume "c \<noteq> i"
      then have "bufs s' ! c = bufs s ! c" by (simp add: nth)
      then show False using uq[of c] that \<open>c \<noteq> i\<close> by metis
    qed
    have bi: "b_blockno (bufs s' ! i) = bn" using refillD(5)[OF r] by (simp add: nth)
    consider "a = i" | "j = i" | "a \<noteq> i" "j \<noteq> i" by blast
    then show ?thesis
    proof cases
      case 1 then show ?thesis using only[OF that(2,4)] that(5) bi by metis
    next
      case 2 then show ?thesis using only[OF that(1,3)] that(5) bi by metis
    next
      case 3 then show ?thesis using that(3,4,5) bc_invD(7)[OF inv that(1,2)] by (simp only: nth if_False)
    qed
  qed
  have "sd_idle s'" "spin_free (bc_lock s')" "lru_ok (bc_clist s')"
    using bio_upd_fields[OF refill_upd(1)[OF r]] refill_upd(2)[OF r] r bc_invD(1,2,4)[OF inv]
    by (simp_all add: sd_idle_def refill_def)
  then show ?thesis unfolding bc_inv_def
    using ok uq' refillD(6,10)[OF r] bc_invD(6)[OF inv] by (intro conjI allI impI) simp_all
qed

text \<open>Of the other blocks, at most the one that was in the buffer leaves the cache.\<close>

lemma refill_cached:
  assumes r: "refill k bn s i b' s'" and x: "x \<noteq> bn"
  shows "cached s' x = (if cached s x = Some i then None else cached s x)"
proof -
  note inv = refillD(1)[OF r] and inv' = refill_inv[OF r] and nth = refillD(9)[OF r]
  have c: "cached s' x = Some j \<longleftrightarrow> j \<noteq> i \<and> cached s x = Some j" for j
    unfolding cached_iff[OF inv] cached_iff[OF inv']
    using x refillD(5)[OF r] by (cases "j = i") (simp_all only: nth if_True if_False, auto)
  show ?thesis
    by (cases "cached s x"; cases "cached s' x") (metis c option.distinct(1) option.inject)+
qed

lemma refill_holds:
  assumes r: "refill k bn s i b' s'"
  shows "holds s' i bn"
proof -
  have "valid_buf b'" "slp_locked (b_lock b')" "slp_pid (b_lock b') = this_pid s"
    using r unfolding refill_def by blast+
  then show ?thesis
    using refillD(2,4,5)[OF r] refillD(9)[OF r] bio_upd_fields[OF refill_upd(1)[OF r]]
    by (simp add: holds_def)
qed

text \<open>The block that leaves the cache was unreferenced, hence clean.\<close>

lemma refill_evicted:
  assumes r: "refill k bn s i b' s'" and x: "x \<noteq> bn" "cached s x = Some i"
  shows "blk s x = sectors s (x + LBA s)" "refs s x = 0"
proof -
  note inv = refillD(1)[OF r]
  have i: "i < NBUF" "b_dev (bufs s ! i) = ROOTDEV" "b_blockno (bufs s ! i) = x"
    using x(2) cached_iff[OF inv] by auto
  have z: "b_refcnt (bufs s ! i) = 0"
    using refillD(3)[OF r] x i cached_iff[OF inv] by auto
  show "blk s x = sectors s (x + LBA s)"
    using blk_hit[OF inv i] bc_invD(5)[OF inv i(1)] z i by (auto simp: buf_ok_def buf_sector_def)
  show "refs s x = 0" using z x(2) by (simp add: refs_def)
qed

lemma refill_views:
  assumes r: "refill k bn s i b' s'"
  shows "blk s' = blk s" "refs s' = (refs s)(bn := Suc (refs s bn))"
proof -
  note inv' = refill_inv[OF r] and nth = refillD(9)[OF r] and h = refill_holds[OF r]
  have cb: "cached s' bn = Some i" using h cached_iff[OF inv'] by (simp add: holds_def)
  have b: "b_data b' = blk s bn" "unat (b_refcnt b') = Suc (refs s bn)" using r unfolding refill_def by blast+
  have same: "bufs s' ! j = bufs s ! j" if "cached s x = Some j" "x \<noteq> bn" "cached s x \<noteq> Some i" for x j
    using that by (simp add: nth)
  have "blk s' x = blk s x" if "x \<noteq> bn" for x
    using refill_evicted(1)[OF r that] same[OF _ that] refillD(6,7)[OF r]
    by (auto simp: blk_def refill_cached[OF r that] split: option.split)
  moreover have "blk s' bn = blk s bn" using holds_blk[OF inv' h] b by (simp add: nth)
  ultimately show "blk s' = blk s" by (metis ext)
  have "refs s' x = refs s x" if "x \<noteq> bn" for x
    using refill_evicted(2)[OF r that] same[OF _ that]
    by (auto simp: refs_def refill_cached[OF r that] split: option.split)
  moreover have "refs s' bn = Suc (refs s bn)" using cb b by (simp add: refs_def nth)
  ultimately show "refs s' = (refs s)(bn := Suc (refs s bn))" by auto
qed

lemma refill_post:
  assumes r: "refill k bn s i b' s'"
  shows "bread_post k bn s i s'"
proof -
  note inv = refillD(1)[OF r] and i = refillD(2)[OF r] and nth = refillD(9)[OF r]
  have "\<not> slp_locked (b_lock (bufs s ! i))" "slp_locked (b_lock b')"
    "b_refcnt b' \<noteq> 1 \<or> b_data b' = sectors s (buf_sector b')" using r unfolding refill_def by blast+
  then have "held s' = insert (b_blockno b') (held s)" "safe_rel s' i"
    using held_update[OF inv i _ _ refillD(4)[OF r] refill_upd(3)[OF r]] refillD(6)[OF r]
    by (simp_all add: safe_rel_def nth)
  moreover note refill_upd(1)[OF r]
  ultimately show ?thesis
    using refill_inv[OF r] refill_views[OF r] refill_holds[OF r] refillD(5,6)[OF r]
    by (simp add: bread_post_def nth)
qed

text \<open>The refill half of \<^verbatim>\<open>bread\<close>: an invalid buffer is read from the card.\<close>

lemma bread_fill:
  assumes g: "bget ROOTDEV bn s = Ok i (s\<lparr>bufs := (bufs s)[i := b]\<rparr>)"
    and inv: "bc_inv k s" and i: "i < NBUF" and f: "b_flags b AND B_VALID = 0" "b_flags b AND B_DIRTY = 0"
  shows "\<exists>bl w cm. bread ROOTDEV bn s = Ok i (s\<lparr>bufs := (bufs s)[i :=
      b\<lparr>b_data := sectors s (buf_sector b), b_flags := B_VALID\<rparr>],
      sd_blist := bl, sd_woken := w, emmc_cmd := cm\<rparr>) \<and> dlist bl SdQue []"
proof -
  have len: "length (bufs s) = NBUF" by (rule bc_invD(3)[OF inv])
  have "sd_idle (s\<lparr>bufs := (bufs s)[i := b]\<rparr>)" using bc_invD(1)[OF inv] by simp
  from sdrw_read[OF this, of i] obtain bl w cm where
    r: "sdrw i (s\<lparr>bufs := (bufs s)[i := b]\<rparr>) = Ok () (s\<lparr>bufs := (bufs s)[i :=
        b\<lparr>b_data := sectors s (buf_sector b), b_flags := (b_flags b OR B_VALID) AND NOT B_DIRTY\<rparr>],
      sd_blist := bl, sd_woken := w, emmc_cmd := cm\<rparr>)" "dlist bl SdQue []"
    using i len f by auto
  show ?thesis
    by (rule exI[of _ bl], rule exI[of _ w], rule exI[of _ cm])
      (simp add: bread_def g get_buf_def upd_buf_def i len f r)
qed

lemma bread_hit_valid:
  assumes g: "bget ROOTDEV bn s = Ok i (s\<lparr>bufs := (bufs s)[i := b]\<rparr>)"
    and "bc_inv k s" "i < NBUF" "b_flags b AND B_VALID \<noteq> 0"
  shows "bread ROOTDEV bn s = Ok i (s\<lparr>bufs := (bufs s)[i := b]\<rparr>)"
  using assms bc_invD(3)[OF assms(2)] by (simp add: bread_def get_buf_def)

lemma refcnt_inc:
  fixes r :: u32
  assumes "unat r + 1 < 2 ^ 32"
  shows "unat (r + 1) = Suc (unat r)" "r + 1 \<noteq> 0" "r + 1 = 1 \<longleftrightarrow> r = 0"
proof -
  have "unat r + 1 < 2 ^ LENGTH(32)" using assms by simp
  then show 1: "unat (r + 1) = Suc (unat r)" by (simp add: unat_word_ariths)
  show "r + 1 \<noteq> 0" using 1 by auto
  show "r + 1 = 1 \<longleftrightarrow> r = 0" by simp
qed

lemma valid_flags [simp]: "B_VALID AND B_VALID \<noteq> 0" "B_VALID AND B_DIRTY = 0" "B_VALID \<noteq> 0"
  by (simp_all add: sd_consts)

lemma bread_ok_gen:
  assumes inv: "bc_inv k s" and nh: "bn \<notin> held s"
    and rm: "refs s bn + 1 < 2 ^ 32"
  shows "kwp (bread ROOTDEV bn) (no_buffer s bn) (bread_post k bn s) s"
proof (cases "cached s bn")
  case (Some i)
  then have i: "i < NBUF" "b_dev (bufs s ! i) = ROOTDEV" "b_blockno (bufs s ! i) = bn"
    using cached_iff[OF inv] by auto
  let ?b = "bufs s ! i" and ?b1 = "take_ref (this_pid s) (bufs s ! i)"
  have unl: "\<not> slp_locked (b_lock ?b)"
    using nh i bc_invD(3)[OF inv] by (auto simp: held_def)
  have ok: "buf_ok k s ?b" by (rule bc_invD(5)[OF inv i(1)])
  have room: "unat (b_refcnt ?b) + 1 < 2 ^ 32" using rm Some by (simp add: refs_def)
  have r: "unat (b_refcnt ?b + 1) + k \<le> 2 ^ 32" "b_refcnt ?b + 1 \<noteq> 0"
    using refcnt_inc[OF room] ok unl by (auto simp: buf_ok_def)
  have rf: "unat (b_refcnt ?b + 1) = Suc (refs s bn)"
    using refcnt_inc(1)[OF room] Some by (simp add: refs_def)
  note g = bget_hit[OF inv Some unl]
  show ?thesis
  proof (cases "valid_buf ?b")
    case True
    have "bread_post k bn s i (s\<lparr>bufs := (bufs s)[i := ?b1], sd_blist := sd_blist s,
        sd_woken := sd_woken s, emmc_cmd := emmc_cmd s\<rparr>)"
      by (rule refill_post[where b' = ?b1], unfold refill_def)
        (use inv unl rf Some i ok r True blk_hit[OF inv i] refcnt_inc(3)[OF room] bc_invD(1)[OF inv] in
          \<open>auto simp: take_ref_def buf_ok_def valid_buf_def sd_idle_def buf_sector_def\<close>)
    moreover have "bread ROOTDEV bn s = Ok i (s\<lparr>bufs := (bufs s)[i := ?b1]\<rparr>)"
      by (rule bread_hit_valid[OF g inv i(1)]) (use True in \<open>simp add: take_ref_def valid_buf_def\<close>)
    ultimately show ?thesis by (simp add: kwp_Ok)
  next
    case False
    have f: "b_flags ?b1 AND B_VALID = 0" "b_flags ?b1 AND B_DIRTY = 0"
      using False ok by (auto simp: take_ref_def valid_buf_def buf_ok_def)
    obtain bl w cm where rd: "bread ROOTDEV bn s = Ok i (s\<lparr>bufs := (bufs s)[i :=
        ?b1\<lparr>b_data := sectors s (buf_sector ?b1), b_flags := B_VALID\<rparr>],
        sd_blist := bl, sd_woken := w, emmc_cmd := cm\<rparr>)" "dlist bl SdQue []"
      using bread_fill[OF g inv i(1) f] by blast
    have "bread_post k bn s i (s\<lparr>bufs := (bufs s)[i :=
        ?b1\<lparr>b_data := sectors s (buf_sector ?b1), b_flags := B_VALID\<rparr>],
        sd_blist := bl, sd_woken := w, emmc_cmd := cm\<rparr>)"
      by (rule refill_post[where b' = "?b1\<lparr>b_data := sectors s (buf_sector ?b1), b_flags := B_VALID\<rparr>"],
          unfold refill_def)
        (use inv unl rf rd(2) Some i ok r False blk_hit[OF inv i] in
          \<open>auto simp: take_ref_def buf_ok_def valid_buf_def buf_sector_def\<close>)
    then show ?thesis using rd(1) by (simp add: kwp_Ok)
  qed
next
  case None
  show ?thesis
  proof (cases "all_pinned s")
    case True
    then show ?thesis using bget_full[OF inv None] None
      by (simp add: kwp_def bread_def kbind_def no_buffer_def)
  next
    case False
    from bget_miss[OF inv None False] obtain i where i: "i < NBUF" "b_refcnt (bufs s ! i) = 0"
      and g: "bget ROOTDEV bn s = Ok i (s\<lparr>bufs := (bufs s)[i := recycle (this_pid s) ROOTDEV bn (bufs s ! i)]\<rparr>)"
      by blast
    let ?b1 = "recycle (this_pid s) ROOTDEV bn (bufs s ! i)"
    have ok: "buf_ok k s (bufs s ! i)" by (rule bc_invD(5)[OF inv i(1)])
    have unl: "\<not> slp_locked (b_lock (bufs s ! i))" using ok i(2) by (auto simp: buf_ok_def)
    have rf: "refs s bn = 0" using None by (simp add: refs_def)
    obtain bl w cm where rd: "bread ROOTDEV bn s = Ok i (s\<lparr>bufs := (bufs s)[i :=
        ?b1\<lparr>b_data := sectors s (buf_sector ?b1), b_flags := B_VALID\<rparr>],
        sd_blist := bl, sd_woken := w, emmc_cmd := cm\<rparr>)" "dlist bl SdQue []"
      using bread_fill[OF g inv i(1)] by (auto simp: recycle_def)
    have "bread_post k bn s i (s\<lparr>bufs := (bufs s)[i :=
        ?b1\<lparr>b_data := sectors s (buf_sector ?b1), b_flags := B_VALID\<rparr>],
        sd_blist := bl, sd_woken := w, emmc_cmd := cm\<rparr>)"
      by (rule refill_post[where b' = "?b1\<lparr>b_data := sectors s (buf_sector ?b1), b_flags := B_VALID\<rparr>"],
          unfold refill_def)
        (use inv unl rf rd(2) None i ok blk_miss[OF None] in
          \<open>auto simp: recycle_def buf_ok_def valid_buf_def buf_sector_def\<close>)
    then show ?thesis using rd(1) by (simp add: kwp_Ok)
  qed
qed


lemma bread_ok:
  assumes "bc_inv k s" "0 < k" "bn \<notin> held s"
  shows "kwp (bread ROOTDEV bn) (no_buffer s bn) (bread_post k bn s) s"
  using bread_ok_gen[OF assms(1,3)] refs_room[OF assms(1,3)] assms(2) by linarith


subsection \<open>Releasing, changing, pinning and writing a held buffer\<close>

lemma lru_touch:
  assumes "lru_ok h" "i < NBUF"
  obtains h1 h2 where "list_delete (BBuf i) h = Ok () h1"
    "list_push_front BHead (BBuf i) h1 = Ok () h2" "lru_ok h2"
proof -
  obtain xs where xs: "dlist h BHead (map BBuf xs)" "set xs = {..<NBUF}"
    using assms(1) by (auto simp: lru_ok_def)
  obtain as bs where ab: "xs = as @ i # bs" using assms(2) xs(2) by (metis lessThan_iff split_list)
  have "dlist h BHead (map BBuf as @ BBuf i # map BBuf bs)" using xs(1) ab by simp
  from lh.move_to_front[OF this] obtain h2 where
    "kthen (list_delete (BBuf i)) (list_push_front BHead (BBuf i)) h = Ok () h2"
    "dlist h2 BHead (BBuf i # map BBuf as @ map BBuf bs)"
    by (auto elim: kwp_total_Ok)
  moreover from this(2) have "lru_ok h2" unfolding lru_ok_def
    by (intro exI[of _ "i # as @ bs"]) (use xs(2) ab in auto)
  ultimately show thesis using that by (auto simp: kthen_eq_Ok)
qed

definition release_post :: "nat \<Rightarrow> u32 \<Rightarrow> nat \<Rightarrow> nat \<Rightarrow> 'z bio_state_scheme \<Rightarrow> 'z bio_state_scheme \<Rightarrow> bool" where
  "release_post k bn i r s s' \<longleftrightarrow> bc_inv k s' \<and> blk s' = blk s \<and> held s' = held s - {bn}
     \<and> bio_upd s s' \<and> sectors s' = sectors s \<and> refs s' = (refs s)(bn := r)
     \<and> (\<forall>j<NBUF. j \<noteq> i \<longrightarrow> bufs s' ! j = bufs s ! j)"

definition drop_ref :: "buf \<Rightarrow> buf" where
  "drop_ref b = b\<lparr>b_lock := (b_lock b)\<lparr>slp_locked := False, slp_pid := 0,
       slp_wakeups := Suc (slp_wakeups (b_lock b))\<rparr>, b_refcnt := b_refcnt b - 1\<rparr>"

lemma held_drop:
  assumes "bc_inv k s" "holds s i bn" "\<not> slp_locked (b_lock b')" "bufs s' = (bufs s)[i := b']"
  shows "held s' = held s - {bn}"
proof -
  have len: "length (bufs s) = NBUF" by (rule bc_invD(3)[OF assms(1)])
  have h: "i < NBUF" "b_dev (bufs s ! i) = ROOTDEV" "b_blockno (bufs s ! i) = bn"
    using assms(2) by (auto simp: holds_def)
  have "x \<in> held s' \<longleftrightarrow> x \<in> held s - {bn}" for x
  proof
    assume "x \<in> held s'"
    then obtain j where j: "j < NBUF" "x = b_blockno (bufs s' ! j)" "b_dev (bufs s' ! j) = ROOTDEV"
        "slp_locked (b_lock (bufs s' ! j))"
      using len assms(4) by (auto simp: held_def)
    have ji: "j \<noteq> i" using j(4) assms(3,4) len h(1) by auto
    then have same: "bufs s' ! j = bufs s ! j" using assms(4) by simp
    have "x \<noteq> bn" using bc_invD(7)[OF assms(1) j(1) h(1)] ji j(2,3) h(2,3) by (auto simp: same)
    then show "x \<in> held s - {bn}" using j same len by (auto simp: held_def)
  next
    assume "x \<in> held s - {bn}"
    then obtain j where j: "j < NBUF" "x = b_blockno (bufs s ! j)" "b_dev (bufs s ! j) = ROOTDEV"
        "slp_locked (b_lock (bufs s ! j))" "x \<noteq> bn"
      using len by (auto simp: held_def)
    then have "j \<noteq> i" using h(3) by auto
    then have "bufs s' ! j = bufs s ! j" using assms(4) by simp
    then show "x \<in> held s'" using j len assms(4) by (auto simp: held_def intro!: exI[of _ j])
  qed
  then show ?thesis by blast
qed

lemma brelse_run:
  assumes "length (bufs s) = NBUF" "i < NBUF" "spin_free (bc_lock s)" "lru_ok (bc_clist s)"
    "slp_idle (b_lock (bufs s ! i))" "slp_locked (b_lock (bufs s ! i))"
    "slp_pid (b_lock (bufs s ! i)) = this_pid s"
  obtains cl where "lru_ok cl"
    "brelse i s = Ok () (s\<lparr>bufs := (bufs s)[i := drop_ref (bufs s ! i)], bc_clist := cl\<rparr>)"
proof -
  let ?b = "bufs s ! i"
  obtain h1 h2 where t: "list_delete (BBuf i) (bc_clist s) = Ok () h1"
    "list_push_front BHead (BBuf i) h1 = Ok () h2" "lru_ok h2"
    using lru_touch[OF assms(4,2)] by blast
  let ?cl = "if b_refcnt ?b - 1 = 0 then h2 else bc_clist s"
  have "brelse i s = Ok () (s\<lparr>bufs := (bufs s)[i := drop_ref ?b], bc_clist := ?cl\<rparr>)"
    using assms t
    by (simp add: brelse_def bio_run_defs kop_defs holdingsleep_run releasesleep_run drop_ref_def)
  moreover have "lru_ok ?cl" using t(3) assms(4) by simp
  ultimately show thesis using that by blast
qed

lemma release_update:
  assumes inv: "bc_inv k s" and h: "holds s i bn" and k: "k' \<le> k" and cl: "lru_ok cl"
    and id: "b_dev b' = b_dev (bufs s ! i)" "b_blockno b' = b_blockno (bufs s ! i)"
      "b_flags b' = b_flags (bufs s ! i)" "b_data b' = b_data (bufs s ! i)" "b_part b' = b_part (bufs s ! i)"
    and l: "\<not> slp_locked (b_lock b')" "slp_idle (b_lock b')" and r: "unat (b_refcnt b') + k' < 2 ^ 32"
    and cn: "b_refcnt b' = 0 \<Longrightarrow> b_data (bufs s ! i) = sectors s (buf_sector (bufs s ! i))"
  shows "release_post k' bn i (unat (b_refcnt b')) s (s\<lparr>bufs := (bufs s)[i := b'], bc_clist := cl\<rparr>)"
proof -
  let ?s1 = "s\<lparr>bufs := (bufs s)[i := b']\<rparr>" and ?s = "s\<lparr>bufs := (bufs s)[i := b'], bc_clist := cl\<rparr>"
  have i: "i < NBUF" and len: "length (bufs s) = NBUF"
    using h bc_invD(3)[OF inv] by (simp_all add: holds_def)
  have dev: "b_dev (bufs s ! i) = ROOTDEV" using h by (simp add: holds_def)
  have "buf_ok k' ?s1 b'"
    using bc_invD(5)[OF inv i] dev id l r cn by (auto simp: buf_ok_def valid_buf_def buf_sector_def)
  then have "bc_inv k' ?s1" by (rule bc_inv_update[OF inv i _ id(1,2) k])
  then have inv': "bc_inv k' ?s" using cl by (simp add: bc_inv_def buf_ok_def)
  have "blk ?s1 = blk s"
    using blk_update[OF inv i id(1,2)] holds_blk[OF inv h] h id by (auto simp: valid_buf_def holds_def)
  then have v: "blk ?s = blk s" by simp
  have "refs ?s = refs ?s1" by (rule refs_bufs) simp
  then have rf: "refs ?s = (refs s)(bn := unat (b_refcnt b'))"
    using refs_update[OF inv i id(1,2)] h id by (simp add: holds_def)
  have "held ?s = held s - {bn}" by (rule held_drop[OF inv h l(1)]) simp
  moreover have "bio_upd s ?s" by (simp add: bio_upd_iff)
  ultimately show ?thesis using inv' v rf by (simp add: release_post_def)
qed

lemma brelse_ok:
  assumes inv: "bc_inv k s" and h: "holds s i bn" and sr: "safe_rel s i"
  shows "kok (brelse i) (\<lambda>_. release_post k bn i (refs s bn - 1) s) s"
proof -
  let ?b = "bufs s ! i"
  have i: "i < NBUF" using h by (simp add: holds_def)
  have ok: "buf_ok k s ?b" by (rule bc_invD(5)[OF inv i])
  have rn: "b_refcnt ?b \<noteq> 0" "unat (b_refcnt ?b) + k \<le> 2 ^ 32" using ok h by (auto simp: buf_ok_def holds_def)
  have d: "unat (b_refcnt (drop_ref ?b)) = refs s bn - 1"
    using unat_minus_one[OF rn(1)] refs_hit[OF inv i] h by (simp add: drop_ref_def holds_def)
  moreover have "0 < unat (b_refcnt ?b)" using rn by (simp add: unat_gt_0)
  ultimately have un: "unat (b_refcnt (drop_ref ?b)) + k < 2 ^ 32"
    using rn(2) refs_hit[OF inv i] h by (simp add: holds_def)
  obtain cl where cl: "lru_ok cl"
    "brelse i s = Ok () (s\<lparr>bufs := (bufs s)[i := drop_ref ?b], bc_clist := cl\<rparr>)"
    by (rule brelse_run[OF bc_invD(3)[OF inv] i bc_invD(2,4)[OF inv]])
      (use ok h in \<open>auto simp: buf_ok_def holds_def\<close>)
  have "release_post k bn i (unat (b_refcnt (drop_ref ?b))) s
      (s\<lparr>bufs := (bufs s)[i := drop_ref ?b], bc_clist := cl\<rparr>)"
    by (rule release_update[OF inv h order_refl cl(1) _ _ _ _ _ _ _ un])
      (use ok sr in \<open>auto simp: drop_ref_def buf_ok_def safe_rel_def\<close>)
  then show ?thesis using cl(2) d by (simp add: kwp_Ok)
qed

text \<open>
  \<^verbatim>\<open>bunpin\<close> and \<^verbatim>\<open>brelse\<close> of a buffer that has been written through: two references fewer, and
  the count wraps around when the block was not pinned before it was read.
\<close>

lemma unpin_release:
  assumes inv: "bc_inv k s" and h: "holds s i bn"
    and cn: "b_data (bufs s ! i) = sectors s (buf_sector (bufs s ! i))"
    and k: "k' \<le> k" and r: "unat (of_nat (refs s bn) - 2 :: u32) + k' < 2 ^ 32"
  shows "kok (kthen (bunpin i) (brelse i)) (\<lambda>_. release_post k' bn i (unat (of_nat (refs s bn) - 2 :: u32)) s) s"
proof -
  let ?b = "bufs s ! i" let ?c = "?b\<lparr>b_refcnt := b_refcnt ?b - 1\<rparr>" let ?t = "s\<lparr>bufs := (bufs s)[i := ?c]\<rparr>"
  have i: "i < NBUF" and len: "length (bufs s) = NBUF" using h bc_invD(3)[OF inv] by (simp_all add: holds_def)
  have ok: "buf_ok k s ?b" by (rule bc_invD(5)[OF inv i])
  have "refs s bn = unat (b_refcnt ?b)" using refs_hit[OF inv i] h by (simp add: holds_def)
  then have d: "b_refcnt (drop_ref ?c) = of_nat (refs s bn) - 2" by (simp add: drop_ref_def)
  have u: "bunpin i s = Ok () ?t"
    using i len bc_invD(2)[OF inv] by (simp add: bunpin_def bio_run_defs kop_defs)
  obtain cl where cl: "lru_ok cl" "brelse i ?t = Ok () (?t\<lparr>bufs := (bufs ?t)[i := drop_ref (bufs ?t ! i)], bc_clist := cl\<rparr>)"
    by (rule brelse_run[of ?t i]) (use ok h i len bc_invD(2,4)[OF inv] in \<open>auto simp: buf_ok_def holds_def\<close>)
  have "release_post k' bn i (unat (b_refcnt (drop_ref ?c))) s
      (s\<lparr>bufs := (bufs s)[i := drop_ref ?c], bc_clist := cl\<rparr>)"
    by (rule release_update[OF inv h k cl(1)])
      (use ok r d cn in \<open>auto simp: drop_ref_def buf_ok_def\<close>)
  then show ?thesis using cl(2) d u i len by (simp add: kwp_Ok kwp_kthen)
qed

text \<open>A change of the data of a held buffer is a change of its block.\<close>

definition set_data :: "nat \<Rightarrow> (u8 list \<Rightarrow> u8 list) \<Rightarrow> ('z sd_state_scheme, unit) kop" where
  "set_data b f = upd_buf b (\<lambda>x. x\<lparr>b_data := f (b_data x)\<rparr>)"

definition held_post :: "nat \<Rightarrow> u32 \<Rightarrow> nat \<Rightarrow> 'z bio_state_scheme \<Rightarrow> 'z bio_state_scheme \<Rightarrow> bool" where
  "held_post k bn i s s' \<longleftrightarrow> bc_inv k s' \<and> holds s' i bn \<and> held s' = held s \<and> bio_upd s s'
     \<and> (\<forall>j<NBUF. j \<noteq> i \<longrightarrow> bufs s' ! j = bufs s ! j)"

lemma held_same:
  assumes "bc_inv k s" "i < NBUF" "b_dev b' = b_dev (bufs s ! i)" "b_blockno b' = b_blockno (bufs s ! i)"
    "slp_locked (b_lock b') = slp_locked (b_lock (bufs s ! i))" "bufs s' = (bufs s)[i := b']"
  shows "held s' = held s"
proof -
  have len: "length (bufs s) = NBUF" by (rule bc_invD(3)[OF assms(1)])
  have "b_dev (bufs s' ! j) = b_dev (bufs s ! j) \<and> b_blockno (bufs s' ! j) = b_blockno (bufs s ! j)
     \<and> slp_locked (b_lock (bufs s' ! j)) = slp_locked (b_lock (bufs s ! j))" for j
    using assms(2-6) len by (simp add: nth_list_update)
  then show ?thesis using assms(6) len by (simp add: held_def)
qed

lemma held_post_update:
  assumes inv: "bc_inv k s" and h: "holds s i bn" and k: "k' \<le> k"
    and ok: "buf_ok k' (s\<lparr>bufs := (bufs s)[i := b']\<rparr>) b'"
    and id: "b_dev b' = b_dev (bufs s ! i)" "b_blockno b' = b_blockno (bufs s ! i)"
      "b_flags b' = b_flags (bufs s ! i)" "b_lock b' = b_lock (bufs s ! i)"
  shows "held_post k' bn i s (s\<lparr>bufs := (bufs s)[i := b']\<rparr>)"
proof -
  have i: "i < NBUF" using h by (simp add: holds_def)
  have len: "length (bufs s) = NBUF" by (rule bc_invD(3)[OF inv])
  have inv': "bc_inv k' (s\<lparr>bufs := (bufs s)[i := b']\<rparr>)"
    by (rule bc_inv_update[OF inv i ok id(1,2) k])
  have hd: "held (s\<lparr>bufs := (bufs s)[i := b']\<rparr>) = held s"
    by (rule held_same[OF inv i id(1,2)]) (simp_all add: id(4))
  show ?thesis unfolding held_post_def
    using inv' hd h id i len by (simp add: holds_def valid_buf_def)
qed

lemma set_data_ok:
  assumes inv: "bc_inv k s" and h: "holds s i bn" and l: "length (f (blk s bn)) = BSIZE"
  shows "kok (set_data i f) (\<lambda>_ s'. held_post k bn i s s' \<and> blk s' = (blk s)(bn := f (blk s bn))
    \<and> sectors s' = sectors s \<and> refs s' = refs s) s"
proof -
  let ?b' = "(bufs s ! i)\<lparr>b_data := f (b_data (bufs s ! i))\<rparr>"
  have i: "i < NBUF" using h by (simp add: holds_def)
  have len: "length (bufs s) = NBUF" by (rule bc_invD(3)[OF inv])
  have ok: "buf_ok k s (bufs s ! i)" by (rule bc_invD(5)[OF inv i])
  have d: "b_data (bufs s ! i) = blk s bn" using holds_blk[OF inv h] by simp
  have "buf_ok k (s\<lparr>bufs := (bufs s)[i := ?b']\<rparr>) ?b'"
    using ok l d h by (auto simp: buf_ok_def holds_def)
  then have p: "held_post k bn i s (s\<lparr>bufs := (bufs s)[i := ?b']\<rparr>)"
    by (rule held_post_update[OF inv h order_refl]) simp_all
  have "blk (s\<lparr>bufs := (bufs s)[i := ?b']\<rparr>) = (blk s)(bn := f (blk s bn))"
    using blk_update[OF inv i, of ?b'] h d by (auto simp: holds_def valid_buf_def)
  moreover have "refs (s\<lparr>bufs := (bufs s)[i := ?b']\<rparr>) = refs s"
    using refs_update[OF inv i, of ?b'] refs_hit[OF inv i] h by (auto simp: holds_def)
  ultimately show ?thesis using p i len by (simp add: kwp_Ok set_data_def upd_buf_run)
qed

lemma bpin_ok:
  assumes inv: "bc_inv (Suc k) s" and k: "0 < k" and h: "holds s i bn"
  shows "kok (bpin i) (\<lambda>_ s'. held_post k bn i s s' \<and> blk s' = blk s \<and> safe_rel s' i
    \<and> sectors s' = sectors s \<and> refs s' = (refs s)(bn := Suc (refs s bn))) s"
proof -
  let ?b' = "(bufs s ! i)\<lparr>b_refcnt := b_refcnt (bufs s ! i) + 1\<rparr>"
  have i: "i < NBUF" using h by (simp add: holds_def)
  have len: "length (bufs s) = NBUF" by (rule bc_invD(3)[OF inv])
  have ok: "buf_ok (Suc k) s (bufs s ! i)" by (rule bc_invD(5)[OF inv i])
  have r: "unat (b_refcnt (bufs s ! i)) + Suc k \<le> 2 ^ 32" "b_refcnt (bufs s ! i) \<noteq> 0"
    using ok h by (auto simp: buf_ok_def holds_def)
  then have r1: "unat (b_refcnt (bufs s ! i)) + 1 < 2 ^ 32" using k by linarith
  have "buf_ok k (s\<lparr>bufs := (bufs s)[i := ?b']\<rparr>) ?b'"
    using ok h r refcnt_inc[OF r1] by (auto simp: buf_ok_def holds_def)
  then have p: "held_post k bn i s (s\<lparr>bufs := (bufs s)[i := ?b']\<rparr>)"
    by (intro held_post_update[OF inv h]) simp_all
  have "blk (s\<lparr>bufs := (bufs s)[i := ?b']\<rparr>) = blk s"
    using blk_update[OF inv i, of ?b'] h holds_blk[OF inv h] by (auto simp: holds_def valid_buf_def)
  moreover have "bpin i s = Ok () (s\<lparr>bufs := (bufs s)[i := ?b']\<rparr>)"
    using i len bc_invD(2)[OF inv] by (simp add: bpin_def bio_run_defs kop_defs)
  moreover have "refs (s\<lparr>bufs := (bufs s)[i := ?b']\<rparr>) = (refs s)(bn := Suc (refs s bn))"
    using refs_update[OF inv i, of ?b'] refs_hit[OF inv i] h refcnt_inc(1)[OF r1] by (auto simp: holds_def)
  ultimately show ?thesis using p i len r by (simp add: kwp_Ok safe_rel_def)
qed

text \<open>A synchronous write changes one sector of the card, and no block.\<close>

lemma dirty_cycle:
  fixes f :: u32
  shows "(f OR B_DIRTY) AND B_DIRTY \<noteq> 0" "(((f OR B_DIRTY) OR B_VALID) AND NOT B_DIRTY) AND B_VALID \<noteq> 0"
    "(((f OR B_DIRTY) OR B_VALID) AND NOT B_DIRTY) AND B_DIRTY = 0"
proof -
  have "bit ((f OR B_DIRTY) AND B_DIRTY) 2" by (simp add: sd_consts bit_simps)
  then show "(f OR B_DIRTY) AND B_DIRTY \<noteq> 0" by auto
  have "bit ((((f OR B_DIRTY) OR B_VALID) AND NOT B_DIRTY) AND B_VALID) 1"
    by (simp add: sd_consts bit_simps)
  then show "(((f OR B_DIRTY) OR B_VALID) AND NOT B_DIRTY) AND B_VALID \<noteq> 0" by auto
  show "(((f OR B_DIRTY) OR B_VALID) AND NOT B_DIRTY) AND B_DIRTY = 0"
    by (rule bit_word_eqI) (auto simp: bit_simps)
qed

lemma bwrite_run:
  assumes inv: "bc_inv k s" and h: "holds s i bn"
  shows "\<exists>bl w cm f. bwrite i s = Ok () (s\<lparr>bufs := (bufs s)[i := (bufs s ! i)\<lparr>b_flags := f\<rparr>],
      sectors := (sectors s)(bn + LBA s := blk s bn),
      sd_blist := bl, sd_woken := w, emmc_cmd := cm\<rparr>)
    \<and> dlist bl SdQue [] \<and> f AND B_VALID \<noteq> 0 \<and> f AND B_DIRTY = 0"
proof -
  let ?b = "bufs s ! i"
  let ?s = "s\<lparr>bufs := (bufs s)[i := ?b\<lparr>b_flags := b_flags ?b OR B_DIRTY\<rparr>]\<rparr>"
  have i: "i < NBUF" using h by (simp add: holds_def)
  have len: "length (bufs s) = NBUF" by (rule bc_invD(3)[OF inv])
  have ok: "buf_ok k s ?b" by (rule bc_invD(5)[OF inv i])
  have sec: "buf_sector ?b = bn + LBA s" using ok h by (simp add: buf_ok_def holds_def buf_sector_def)
  have "sd_idle ?s" "i < length (bufs ?s)" "b_flags (bufs ?s ! i) AND B_DIRTY \<noteq> 0"
    using bc_invD(1)[OF inv] i len dirty_cycle(1) by simp_all
  from sdrw_write[OF this] obtain bl w cm where w: "sdrw i ?s = Ok () (s\<lparr>bufs := (bufs s)[i := ?b
      \<lparr>b_flags := ((b_flags ?b OR B_DIRTY) OR B_VALID) AND NOT B_DIRTY\<rparr>],
      sectors := (sectors s)(bn + LBA s := blk s bn), sd_blist := bl, sd_woken := w, emmc_cmd := cm\<rparr>)"
      "dlist bl SdQue []"
    using i len sec holds_blk[OF inv h] by (auto simp: buf_sector_def)
  have "bwrite i s = sdrw i ?s"
    using i len ok h
    by (simp add: bwrite_def bio_run_defs holdingsleep_run buf_ok_def holds_def kop_defs)
  then show ?thesis using w dirty_cycle(2,3) by metis
qed

lemma bwrite_ok:
  assumes inv: "bc_inv k s" and h: "holds s i bn"
  shows "kok (bwrite i) (\<lambda>_ s'. held_post k bn i s s' \<and> blk s' = blk s \<and> safe_rel s' i
    \<and> sectors s' = (sectors s)(bn + LBA s := blk s bn) \<and> refs s' = refs s) s"
proof -
  obtain bl w cm f where run: "bwrite i s = Ok () (s\<lparr>bufs := (bufs s)[i := (bufs s ! i)\<lparr>b_flags := f\<rparr>],
      sectors := (sectors s)(bn + LBA s := blk s bn),
      sd_blist := bl, sd_woken := w, emmc_cmd := cm\<rparr>)"
    and f: "dlist bl SdQue []" "f AND B_VALID \<noteq> 0" "f AND B_DIRTY = 0"
    using bwrite_run[OF inv h] by blast
  define b' where "b' = (bufs s ! i)\<lparr>b_flags := f\<rparr>"
  define s' where "s' = s\<lparr>bufs := (bufs s)[i := b'],
      sectors := (sectors s)(bn + LBA s := blk s bn),
      sd_blist := bl, sd_woken := w, emmc_cmd := cm\<rparr>"
  have i: "i < NBUF" using h by (simp add: holds_def)
  have len: "length (bufs s) = NBUF" by (rule bc_invD(3)[OF inv])
  have ok: "buf_ok k s (bufs s ! i)" by (rule bc_invD(5)[OF inv i])
  have idn: "b_dev (bufs s' ! j) = b_dev (bufs s ! j)" "b_blockno (bufs s' ! j) = b_blockno (bufs s ! j)"
      "b_lock (bufs s' ! j) = b_lock (bufs s ! j)" "b_data (bufs s' ! j) = b_data (bufs s ! j)"
      "b_refcnt (bufs s' ! j) = b_refcnt (bufs s ! j)"
      "valid_buf (bufs s' ! j) = valid_buf (bufs s ! j)" for j
    using i len h f by (auto simp: s'_def b'_def nth_list_update holds_def valid_buf_def)
  have other: "b_blockno (bufs s ! j) \<noteq> bn" if "j < NBUF" "j \<noteq> i" "b_dev (bufs s ! j) = ROOTDEV" for j
    using bc_invD(7)[OF inv that(1) i that(3)] that(2) h by (auto simp: holds_def)
  have okj: "buf_ok k s' (bufs s' ! j)" if j: "j < NBUF" for j
  proof (cases "j = i")
    case True
    then show ?thesis using ok h f i len holds_blk[OF inv h]
      by (auto simp: buf_ok_def s'_def b'_def holds_def buf_sector_def)
  next
    case False
    then have "bufs s' ! j = bufs s ! j" by (simp add: s'_def)
    then show ?thesis using bc_invD(5)[OF inv j] other[OF j False]
      by (auto simp: buf_ok_def s'_def buf_sector_def)
  qed
  have sd: "sd_idle s'" using bc_invD(1)[OF inv] f(1) by (simp add: s'_def)
  have inv': "bc_inv k s'" unfolding bc_inv_def
    using okj sd bc_invD(2-4)[OF inv] bc_invD(6,7)[OF inv] length_blk[OF inv, of bn]
    by (simp add: idn) (simp add: s'_def)
  have h': "holds s' i bn" using h by (simp add: holds_def idn) (simp add: s'_def)
  have c: "cached s' x = cached s x" for x by (rule cached_cong) (simp_all add: idn, simp add: s'_def)
  have v: "blk s' x = blk s x" for x
  proof (cases "x = bn")
    case True
    then show ?thesis using holds_blk[OF inv h] holds_blk[OF inv' h'] idn by simp
  next
    case False
    then show ?thesis by (simp add: blk_def c idn split: option.split) (simp add: s'_def)
  qed
  have hd: "held s' = held s" by (simp add: held_def idn) (simp add: s'_def)
  have u: "bio_upd s s'" unfolding bio_upd_def s'_def
    by (rule exI[of _ "(bufs s)[i := b']"], rule exI[of _ bl], rule exI[of _ w], rule exI[of _ cm],
        rule exI[of _ "(sectors s)(bn + LBA s := blk s bn)"], rule exI[of _ "bc_clist s"]) simp
  have "safe_rel s' i" using holds_blk[OF inv h] ok h i len
    by (simp add: safe_rel_def s'_def b'_def buf_sector_def buf_ok_def holds_def)
  moreover have "refs s' = refs s" by (rule ext) (simp add: refs_def c idn split: option.split)
  ultimately show ?thesis using run inv' h' v hd u i len unfolding b'_def[symmetric] s'_def[symmetric]
    by (auto simp: kwp_Ok held_post_def idn) (simp_all add: s'_def)
qed


subsection \<open>Initialisation\<close>

text \<open>\<^verbatim>\<open>binit\<close> on the zeroed buffer array of the boot image establishes the invariant.\<close>

definition boot_bufs :: "buf list \<Rightarrow> bool" where
  "boot_bufs bs \<longleftrightarrow> length bs = NBUF \<and> (\<forall>b \<in> set bs. b_flags b = 0 \<and> b_dev b = 0 \<and> b_refcnt b = 0
     \<and> length (b_data b) = BSIZE)"

definition init_buf :: "u32 \<Rightarrow> buf \<Rightarrow> buf" where
  "init_buf l b = b\<lparr>b_part := l, b_lock := (b_lock b)\<lparr>slp_lk := (slp_lk (b_lock b))\<lparr>
     spin_name := ''bcache buf lock'', spin_locked := False, spin_cpu := None\<rparr>,
     slp_locked := False, slp_pid := 0\<rparr>\<rparr>"

lemma binit_loop:
  assumes "n \<le> NBUF" "length (bufs t) = NBUF" "dlist (bc_clist t) BHead []"
  shows "\<exists>cl. kfor [0..<n] binit_one t
      = Ok () (t\<lparr>bufs := map (init_buf (LBA t)) (take n (bufs t)) @ drop n (bufs t), bc_clist := cl\<rparr>)
    \<and> dlist cl BHead (map BBuf (rev [0..<n]))"
  using assms(1)
proof (induction n)
  case 0
  then show ?case using assms(3) by (intro exI[of _ "bc_clist t"]) (simp add: kop_defs)
next
  case (Suc n)
  obtain cl where cl: "kfor [0..<n] binit_one t = Ok () (t\<lparr>bufs := map (init_buf (LBA t)) (take n (bufs t))
      @ drop n (bufs t), bc_clist := cl\<rparr>)" "dlist cl BHead (map BBuf (rev [0..<n]))"
    using Suc by auto
  have "BBuf n \<notin> set (BHead # map BBuf (rev [0..<n]))" by auto
  from lh.push_front_ok[OF cl(2) this]
  obtain cl' where cl': "list_push_front BHead (BBuf n) cl = Ok () cl'"
    "dlist cl' BHead (BBuf n # map BBuf (rev [0..<n]))"
    by (auto elim: kwp_total_Ok)
  have n: "n < length (bufs t)" using Suc.prems assms(2) by simp
  have "drop n (bufs t) = bufs t ! n # drop (Suc n) (bufs t)"
    "take (Suc n) (bufs t) = take n (bufs t) @ [bufs t ! n]"
    using n by (simp_all add: Cons_nth_drop_Suc take_Suc_conv_app_nth)
  moreover have "min (length (bufs t)) n = n" using n by simp
  ultimately have "kfor [0..<Suc n] binit_one t = Ok () (t\<lparr>bufs := map (init_buf (LBA t)) (take (Suc n) (bufs t))
      @ drop (Suc n) (bufs t), bc_clist := cl'\<rparr>)"
    using cl(1) cl'(1) n
    by (simp add: kfor_append binit_one_def bio_run_defs kop_defs initsleeplock_def on_slp_lk_def initlock_def
        init_buf_def nth_append list_update_append)
  then show ?case using cl'(2) by auto
qed

lemma binit_ok:
  assumes idle: "sd_idle s" and boot: "boot_bufs (bufs s)" and sec: "\<And>n. length (sectors s n) = BSIZE"
    and k: "k < 2 ^ 32"
  shows "kok binit (\<lambda>_ s'. bc_inv k s' \<and> blk s' = card_blk s' \<and> held s' = {} \<and> sectors s' = sectors s
    \<and> LBA s' = LBA s \<and> \<not> all_pinned s') s"
proof -
  let ?bl = "(bc_lock s)\<lparr>spin_name := ''bcache lock'', spin_locked := False, spin_cpu := None\<rparr>"
  obtain c0 where c0: "list_init BHead (bc_clist s) = Ok () c0" "dlist c0 BHead []"
    using lh.init_ok[of BHead "bc_clist s"] by (auto elim: kwp_total_Ok)
  let ?t = "s\<lparr>bc_lock := ?bl, bc_clist := c0\<rparr>"
  have len: "length (bufs s) = NBUF" using boot by (simp add: boot_bufs_def)
  obtain cl where cl: "binit s = Ok () (?t\<lparr>bufs := map (init_buf (LBA s)) (bufs s), bc_clist := cl\<rparr>)"
    "dlist cl BHead (map BBuf (rev [0..<NBUF]))"
    using binit_loop[of NBUF ?t] len c0
    by (auto simp: binit_def on_clist_def initlock_def kop_defs)
  let ?s = "?t\<lparr>bufs := map (init_buf (LBA s)) (bufs s), bc_clist := cl\<rparr>"
  have b: "b_flags (bufs ?s ! i) = 0" "b_dev (bufs ?s ! i) \<noteq> ROOTDEV" "b_refcnt (bufs ?s ! i) = 0"
     "length (b_data (bufs ?s ! i)) = BSIZE" "\<not> slp_locked (b_lock (bufs ?s ! i))"
     "slp_idle (b_lock (bufs ?s ! i))" "b_part (bufs ?s ! i) = LBA s" if "i < NBUF" for i
    using boot that len
    by (auto simp: boot_bufs_def init_buf_def ROOTDEV_def slp_idle_def spin_free_def)
  have "lru_ok cl" unfolding lru_ok_def using cl(2) by (intro exI[of _ "rev [0..<NBUF]"]) auto
  then have inv: "bc_inv k ?s"
    using idle len sec b k by (simp add: bc_inv_def buf_ok_def sd_idle_def spin_free_def)
  have "cached ?s bn = None" for bn using cached_None[OF inv] b(2) by auto
  then have v: "blk ?s = card_blk ?s" by (intro ext) (simp only: blk_miss card_blk_def)
  have "held ?s = {}" using b(5) len by (auto simp: held_def)
  moreover have "\<not> all_pinned ?s" unfolding all_pinned_def
    using b(3)[of 0] len by (intro notI) (auto simp: NBUF_def)
  ultimately show ?thesis using cl(1) inv v by (simp add: kwp_Ok)
qed


section \<open>The interface of the block layer\<close>

text \<open>
  What the layers above rely on: a store of blocks, \<open>view\<close>, over a card, \<open>disk\<close>. A block is
  fetched and locked by \<open>rd\<close>, changed in place by \<open>upd\<close>, written through by \<open>wr\<close> or kept
  in memory by \<open>pin\<close>, and given up by \<open>rel\<close>, which is allowed once the buffer is \<open>clean\<close>:
  written through or kept. \<open>full\<close> is the only way to fail. The three protocols of the
  clients are proved here.
\<close>

definition buf_data :: "nat \<Rightarrow> ('z sd_state_scheme, u8 list) kop" where
  "buf_data b = kbind (get_buf b) (\<lambda>bf. kret (b_data bf))"

locale block_cache =
  fixes binv :: "nat \<Rightarrow> 's \<Rightarrow> bool" and view :: "'s \<Rightarrow> u32 \<Rightarrow> u8 list"
    and disk :: "'s \<Rightarrow> u32 \<Rightarrow> u8 list" and locked :: "'s \<Rightarrow> u32 set"
    and hold :: "'s \<Rightarrow> nat \<Rightarrow> u32 \<Rightarrow> bool" and clean :: "'s \<Rightarrow> nat \<Rightarrow> bool"
    and frame :: "'s \<Rightarrow> 's \<Rightarrow> bool" and full :: "'s \<Rightarrow> u32 \<Rightarrow> fault \<Rightarrow> bool"
    and rd :: "u32 \<Rightarrow> ('s, nat) kop" and dat :: "nat \<Rightarrow> ('s, u8 list) kop"
    and upd :: "nat \<Rightarrow> (u8 list \<Rightarrow> u8 list) \<Rightarrow> ('s, unit) kop"
    and wr :: "nat \<Rightarrow> ('s, unit) kop" and pin :: "nat \<Rightarrow> ('s, unit) kop"
    and rel :: "nat \<Rightarrow> ('s, unit) kop"
  assumes frame_trans: "frame s t \<Longrightarrow> frame t u \<Longrightarrow> frame s u"
    and rd_ok: "binv k s \<Longrightarrow> 0 < k \<Longrightarrow> bn \<notin> locked s \<Longrightarrow>
      kwp (rd bn) (full s bn) (\<lambda>b s'. binv k s' \<and> hold s' b bn \<and> view s' = view s \<and> disk s' = disk s
        \<and> clean s' b \<and> locked s' = insert bn (locked s) \<and> frame s s') s"
    and dat_ok: "binv k s \<Longrightarrow> hold s b bn \<Longrightarrow> dat b s = Ok (view s bn) s"
    and upd_ok: "binv k s \<Longrightarrow> hold s b bn \<Longrightarrow> length (f (view s bn)) = BSIZE \<Longrightarrow>
      kok (upd b f) (\<lambda>_ s'. binv k s' \<and> hold s' b bn \<and> view s' = (view s)(bn := f (view s bn))
        \<and> disk s' = disk s \<and> locked s' = locked s \<and> frame s s') s"
    and wr_ok: "binv k s \<Longrightarrow> hold s b bn \<Longrightarrow>
      kok (wr b) (\<lambda>_ s'. binv k s' \<and> hold s' b bn \<and> view s' = view s \<and> clean s' b
        \<and> disk s' = (disk s)(bn := view s bn) \<and> locked s' = locked s \<and> frame s s') s"
    and pin_ok: "binv (Suc k) s \<Longrightarrow> 0 < k \<Longrightarrow> hold s b bn \<Longrightarrow>
      kok (pin b) (\<lambda>_ s'. binv k s' \<and> hold s' b bn \<and> view s' = view s \<and> clean s' b
        \<and> disk s' = disk s \<and> locked s' = locked s \<and> frame s s') s"
    and rel_ok: "binv k s \<Longrightarrow> hold s b bn \<Longrightarrow> clean s b \<Longrightarrow>
      kok (rel b) (\<lambda>_ s'. binv k s' \<and> view s' = view s \<and> disk s' = disk s
        \<and> locked s' = locked s - {bn} \<and> frame s s') s"
begin

lemma read_release:
  assumes "binv k s" "0 < k" "bn \<notin> locked s"
  shows "kwp (kbind (rd bn) (\<lambda>b. kbind (dat b) (\<lambda>d. kthen (rel b) (kret (g d))))) (full s bn)
    (\<lambda>r s'. r = g (view s bn) \<and> binv k s' \<and> view s' = view s \<and> disk s' = disk s
      \<and> locked s' = locked s \<and> frame s s') s"
  unfolding kwp_kbind
proof (rule kwp_conseq[OF rd_ok[OF assms]], elim conjE)
  fix b t
  assume t: "binv k t" "hold t b bn" "view t = view s" "disk t = disk s" "clean t b"
    "locked t = insert bn (locked s)" "frame s t"
  show "kwp (dat b) (full s bn) (\<lambda>d. kwp (kthen (rel b) (kret (g d))) (full s bn)
    (\<lambda>r s'. r = g (view s bn) \<and> binv k s' \<and> view s' = view s \<and> disk s' = disk s
      \<and> locked s' = locked s \<and> frame s s')) t"
    unfolding kwp_Ok[of "dat b", OF dat_ok[OF t(1,2)]] kwp_kthen kwp_kret
    by (rule kok_E[OF rel_ok[OF t(1,2,5)]])
      (use t assms(3) frame_trans[OF t(7)] in auto)
qed

lemma update_write:
  assumes "binv k s" "0 < k" "bn \<notin> locked s" "length (f (view s bn)) = BSIZE"
  shows "kwp (kbind (rd bn) (\<lambda>b. kthen (upd b f) (kthen (wr b) (rel b)))) (full s bn)
    (\<lambda>_ s'. binv k s' \<and> view s' = (view s)(bn := f (view s bn))
      \<and> disk s' = (disk s)(bn := f (view s bn)) \<and> locked s' = locked s \<and> frame s s') s"
  unfolding kwp_kbind kwp_kthen
proof (rule kwp_conseq[OF rd_ok[OF assms(1-3)]], elim conjE, rule kok_E[OF upd_ok])
  fix b t assume t: "binv k t" "hold t b bn" "view t = view s" "disk t = disk s"
    "locked t = insert bn (locked s)" "frame s t"
  show "binv k t" "hold t b bn" "length (f (view t bn)) = BSIZE" using t assms(4) by simp_all
  fix u assume u: "binv k u \<and> hold u b bn \<and> view u = (view t)(bn := f (view t bn))
        \<and> disk u = disk t \<and> locked u = locked t \<and> frame t u"
  then have ub: "binv k u" "hold u b bn" by simp_all
  show "kwp (wr b) (full s bn) (\<lambda>_. kwp (rel b) (full s bn)
    (\<lambda>_ s'. binv k s' \<and> view s' = (view s)(bn := f (view s bn))
      \<and> disk s' = (disk s)(bn := f (view s bn)) \<and> locked s' = locked s \<and> frame s s')) u"
    by (rule kok_E[OF wr_ok[OF ub]], elim conjE, rule kok_E[OF rel_ok], assumption+)
      (use u t assms(3) in \<open>auto intro: frame_trans\<close>)
qed

lemma update_pin:
  assumes "binv (Suc k) s" "0 < k" "bn \<notin> locked s" "length (f (view s bn)) = BSIZE"
  shows "kwp (kbind (rd bn) (\<lambda>b. kthen (upd b f) (kthen (pin b) (rel b)))) (full s bn)
    (\<lambda>_ s'. binv k s' \<and> view s' = (view s)(bn := f (view s bn))
      \<and> disk s' = disk s \<and> locked s' = locked s \<and> frame s s') s"
  unfolding kwp_kbind kwp_kthen
proof (rule kwp_conseq[OF rd_ok[OF assms(1) _ assms(3)]], simp, elim conjE, rule kok_E[OF upd_ok])
  fix b t assume t: "binv (Suc k) t" "hold t b bn" "view t = view s" "disk t = disk s"
    "locked t = insert bn (locked s)" "frame s t"
  show "binv (Suc k) t" "hold t b bn" "length (f (view t bn)) = BSIZE" using t assms(4) by simp_all
  fix u assume u: "binv (Suc k) u \<and> hold u b bn \<and> view u = (view t)(bn := f (view t bn))
        \<and> disk u = disk t \<and> locked u = locked t \<and> frame t u"
  then have ub: "binv (Suc k) u" "hold u b bn" by simp_all
  show "kwp (pin b) (full s bn) (\<lambda>_. kwp (rel b) (full s bn)
    (\<lambda>_ s'. binv k s' \<and> view s' = (view s)(bn := f (view s bn))
      \<and> disk s' = disk s \<and> locked s' = locked s \<and> frame s s')) u"
    by (rule kok_E[OF pin_ok[OF ub(1) assms(2) ub(2)]], elim conjE, rule kok_E[OF rel_ok], assumption+)
      (use u t assms(3) in \<open>auto intro: frame_trans\<close>)
qed

end

lemma card_blk_simps:
  "bio_upd s s' \<Longrightarrow> sectors s' = sectors s \<Longrightarrow> card_blk s' = card_blk s"
  "bio_upd s s' \<Longrightarrow> sectors s' = (sectors s)(bn + LBA s := d) \<Longrightarrow> card_blk s' = (card_blk s)(bn := d)"
  by (auto simp: card_blk_def fun_eq_iff dest!: bio_upd_fields)

interpretation bc: block_cache bc_inv blk card_blk held holds safe_rel bio_upd no_buffer
  "bread ROOTDEV" buf_data set_data bwrite bpin brelse
proof
  fix s t u :: "'a bio_state_scheme" and k bn i f
  show "bio_upd s t \<Longrightarrow> bio_upd t u \<Longrightarrow> bio_upd s u" by (rule bio_upd_trans)
  show "bc_inv k s \<Longrightarrow> 0 < k \<Longrightarrow> bn \<notin> held s \<Longrightarrow>
      kwp (bread ROOTDEV bn) (no_buffer s bn) (\<lambda>b s'. bc_inv k s' \<and> holds s' b bn \<and> blk s' = blk s
        \<and> card_blk s' = card_blk s \<and> safe_rel s' b \<and> held s' = insert bn (held s) \<and> bio_upd s s') s"
    by (rule kwp_conseq[OF bread_ok]) (auto simp: bread_post_def card_blk_simps)
  show "bc_inv k s \<Longrightarrow> holds s i bn \<Longrightarrow> buf_data i s = Ok (blk s bn) s"
    using bc_invD(3)[of k s]
    by (auto simp: buf_data_def get_buf_def holds_blk holds_def kop_defs)
  show "bc_inv k s \<Longrightarrow> holds s i bn \<Longrightarrow> length (f (blk s bn)) = BSIZE \<Longrightarrow>
      kok (set_data i f) (\<lambda>_ s'. bc_inv k s' \<and> holds s' i bn \<and> blk s' = (blk s)(bn := f (blk s bn))
        \<and> card_blk s' = card_blk s \<and> held s' = held s \<and> bio_upd s s') s"
    by (rule kwp_conseq[OF set_data_ok]) (auto simp: held_post_def card_blk_simps)
  show "bc_inv k s \<Longrightarrow> holds s i bn \<Longrightarrow>
      kok (bwrite i) (\<lambda>_ s'. bc_inv k s' \<and> holds s' i bn \<and> blk s' = blk s \<and> safe_rel s' i
        \<and> card_blk s' = (card_blk s)(bn := blk s bn) \<and> held s' = held s \<and> bio_upd s s') s"
    by (rule kwp_conseq[OF bwrite_ok]) (auto simp: held_post_def card_blk_simps)
  show "bc_inv (Suc k) s \<Longrightarrow> 0 < k \<Longrightarrow> holds s i bn \<Longrightarrow>
      kok (bpin i) (\<lambda>_ s'. bc_inv k s' \<and> holds s' i bn \<and> blk s' = blk s \<and> safe_rel s' i
        \<and> card_blk s' = card_blk s \<and> held s' = held s \<and> bio_upd s s') s"
    by (rule kwp_conseq[OF bpin_ok]) (auto simp: held_post_def card_blk_simps)
  show "bc_inv k s \<Longrightarrow> holds s i bn \<Longrightarrow> safe_rel s i \<Longrightarrow>
      kok (brelse i) (\<lambda>_ s'. bc_inv k s' \<and> blk s' = blk s \<and> card_blk s' = card_blk s
        \<and> held s' = held s - {bn} \<and> bio_upd s s') s"
    by (rule kwp_conseq[OF brelse_ok]) (auto simp: release_post_def card_blk_simps)
qed


subsection \<open>Two buffers at once\<close>

text \<open>Reading another block leaves a held buffer alone.\<close>

lemma bread_other:
  assumes inv: "bc_inv k s" and h: "holds s i x" and p: "bread_post k y s j u" and ne: "x \<noteq> y"
  shows "j \<noteq> i" "bufs u ! i = bufs s ! i" "holds u i x"
proof -
  have inv': "bc_inv k u" and hd: "held u = insert y (held s)" and hj: "holds u j y"
    and same: "\<And>m. m < NBUF \<Longrightarrow> m \<noteq> j \<Longrightarrow> bufs u ! m = bufs s ! m" and up: "bio_upd s u"
    using p by (auto simp: bread_post_def)
  have "x \<in> held u" using heldI[OF inv h] hd by simp
  then obtain m where m: "m < NBUF" "b_blockno (bufs u ! m) = x" "b_dev (bufs u ! m) = ROOTDEV"
    using bc_invD(3)[OF inv'] by (auto simp: held_def)
  have "m \<noteq> j" using m(2) hj ne by (auto simp: holds_def)
  then have "bufs u ! m = bufs s ! m" by (rule same[OF m(1)])
  then have "m = i" using m h bc_invD(7)[OF inv m(1), of i] by (simp add: holds_def)
  then show "j \<noteq> i" "bufs u ! i = bufs s ! i" using \<open>m \<noteq> j\<close> same m(1) by auto
  then show "holds u i x" using h bio_upd_fields[OF up] by (simp add: holds_def)
qed

lemma holds_same:
  "holds s i x \<Longrightarrow> bufs s' ! i = bufs s ! i \<Longrightarrow> bio_upd s s' \<Longrightarrow> holds s' i x"
  using bio_upd_fields[of s s'] by (simp add: holds_def)

lemma safe_same:
  "safe_rel s i \<Longrightarrow> bufs s' ! i = bufs s ! i \<Longrightarrow>
    sectors s' (buf_sector (bufs s ! i)) = sectors s (buf_sector (bufs s ! i)) \<Longrightarrow> safe_rel s' i"
  by (simp add: safe_rel_def)

lemma holds_sector: "bc_inv k s \<Longrightarrow> holds s i x \<Longrightarrow> buf_sector (bufs s ! i) = x + LBA s"
  using bc_invD(5)[of k s i] by (simp add: holds_def buf_ok_def buf_sector_def)

text \<open>Block \<open>y\<close> has been overwritten by block \<open>x\<close>, in memory and on the card; both are held.\<close>

definition copied :: "nat \<Rightarrow> 'z bio_state_scheme \<Rightarrow> u32 \<Rightarrow> u32 \<Rightarrow> nat \<Rightarrow> nat \<Rightarrow> 'z bio_state_scheme \<Rightarrow> bool" where
  "copied k s x y i j w \<longleftrightarrow> bc_inv k w \<and> holds w i x \<and> holds w j y \<and> i \<noteq> j \<and> safe_rel w i
     \<and> b_data (bufs w ! j) = sectors w (buf_sector (bufs w ! j))
     \<and> blk w = (blk s)(y := blk s x) \<and> card_blk w = (card_blk s)(y := blk s x)
     \<and> held w = insert y (insert x (held s)) \<and> bio_upd s w
     \<and> refs w = (refs s)(x := Suc (refs s x), y := Suc (refs s y))"

lemma copy_steps:
  assumes t: "bread_post k x s i t" and u: "bread_post k y t j u" and ne: "x \<noteq> y"
    and K: "\<And>w. copied k s x y i j w \<Longrightarrow> kwp K E Q w"
  shows "kwp (kbind (buf_data i) (\<lambda>d. kthen (set_data j (\<lambda>_. d)) (kthen (bwrite j) K))) E Q u"
proof -
  have ti: "bc_inv k t" "holds t i x" "safe_rel t i" "blk t = blk s" "sectors t = sectors s" "bio_upd s t"
    "held t = insert x (held s)" "refs t = (refs s)(x := Suc (refs s x))" using t by (auto simp: bread_post_def)
  note o = bread_other[OF ti(1,2) u ne]
  have ui: "bc_inv k u" "holds u j y" "blk u = blk s" "sectors u = sectors s" "bio_upd s u"
    "held u = insert y (insert x (held s))" "refs u = (refs s)(x := Suc (refs s x), y := Suc (refs s y))"
    using u ti ne bio_upd_trans[OF ti(6)] by (auto simp: bread_post_def)
  have i: "i < NBUF" using o(3) by (simp add: holds_def)
  have d: "buf_data i u = Ok (blk s x) u" using bc.dat_ok[OF ui(1) o(3)] ui(3) by simp
  have lx: "length (blk u x) = BSIZE" by (rule length_blk[OF ui(1)])
  show ?thesis unfolding kwp_kbind kwp_Ok[of "buf_data i", OF d] kwp_kthen
  proof (rule kok_E[OF set_data_ok[OF ui(1,2)]], use lx ui(3) in simp, elim conjE)
    fix v assume v: "held_post k y j u v" "blk v = (blk u)(y := blk s x)" "sectors v = sectors u" "refs v = refs u"
    have vi: "bc_inv k v" "holds v j y" "held v = held u" "bio_upd u v" "bufs v ! i = bufs u ! i"
      using v(1) i o(1) by (auto simp: held_post_def)
    show "kwp (bwrite j) E (\<lambda>_. kwp K E Q) v"
    proof (rule kok_E[OF bwrite_ok[OF vi(1,2)]], elim conjE, rule K)
      fix w assume w: "held_post k y j v w" "blk w = blk v" "safe_rel w j"
        "sectors w = (sectors v)(y + LBA v := blk v y)" "refs w = refs v"
      have wi: "bc_inv k w" "holds w j y" "held w = held v" "bio_upd v w" "bufs w ! i = bufs v ! i"
        using w(1) i o(1) by (auto simp: held_post_def)
      have up: "bio_upd s v" "bio_upd s w" "bio_upd u w"
        using bio_upd_trans[OF ui(5) vi(4)] bio_upd_trans[OF _ wi(4)] vi(4) by blast+
      have same: "bufs w ! i = bufs t ! i" using wi(5) vi(5) o(2) by simp
      have hw: "holds w i x" by (rule holds_same[OF o(3)]) (use wi(5) vi(5) up in simp_all)
      have L: "LBA v = LBA s" "LBA w = LBA s" "LBA t = LBA s"
        using bio_upd_fields[OF up(1)] bio_upd_fields[OF up(2)] bio_upd_fields[OF ti(6)] by simp_all
      have "safe_rel w i" by (rule safe_same[OF ti(3) same])
        (use holds_sector[OF ti(1,2)] L ne w(4) v(3) ui(4) ti(5) in simp)
      moreover have "card_blk w = (card_blk s)(y := blk s x)"
        by (rule card_blk_simps(2)[OF up(2)]) (use w(4) v(2,3) ui(4) L in simp)
      moreover have "b_data (bufs w ! j) = sectors w (buf_sector (bufs w ! j))"
        using holds_blk[OF wi(1,2)] holds_sector[OF wi(1,2)] w(2,4) L by simp
      ultimately show "copied k s x y i j w"
        using wi hw up(2) o(1) w(2,5) v(2,4) vi(3) ui by (auto simp: copied_def)
    qed
  qed
qed

end
