(* ===== verification/Log.thy ===== *)
theory Log
  imports Bio
begin

text \<open>
  The redo log, \<^verbatim>\<open>kern/log.c\<close>: transactions, the on-disk header, commit and recovery.

  The header is a C structure cast over the first bytes of a block. \<open>head_bytes\<close> is what
  \<^verbatim>\<open>write_head\<close> stores; a count beyond \<^verbatim>\<open>LOGSIZE\<close> runs over the array, undefined behaviour.

  The first group of lemmas is about an empty header, which \<^verbatim>\<open>log_write\<close> never leaves; the
  second is about commit and recovery for a header with any number of entries.
\<close>

section \<open>State and routines\<close>

definition MAXOPBLOCKS :: nat where "MAXOPBLOCKS = 10"
definition LOGSIZE :: nat where "LOGSIZE = 30"

record superblock =
  sb_size :: u32
  sb_nblocks :: u32
  sb_ninodes :: u32
  sb_nlog :: u32
  sb_logstart :: u32
  sb_inodestart :: u32
  sb_bmapstart :: u32

record log_state = bio_state +
  log_lock :: spinlock
  log_start :: u32
  log_size :: u32
  log_outstanding :: int
  log_committing :: bool
  log_dev :: u32
  lh_n :: int
  lh_block :: "u32 list"
  sb :: superblock

definition on_loglock :: "(nat \<Rightarrow> (spinlock, 'a) kop) \<Rightarrow> ('z log_state_scheme, 'a) kop" where
  "on_loglock m = kbind (kget this_cpu) (\<lambda>c. zoom log_lock (\<lambda>x s. s\<lparr>log_lock := x\<rparr>) (m c))"

text \<open>The \<open>i\<close>-th 32-bit word of a block.\<close>

definition word_at :: "u8 list \<Rightarrow> nat \<Rightarrow> u32" where
  "word_at d i = unle32 (slice d (4 * i) 4)"

definition parse_sb :: "u8 list \<Rightarrow> superblock" where
  "parse_sb d = \<lparr>sb_size = word_at d 0, sb_nblocks = word_at d 1, sb_ninodes = word_at d 2,
     sb_nlog = word_at d 3, sb_logstart = word_at d 4, sb_inodestart = word_at d 5,
     sb_bmapstart = word_at d 6\<rparr>"

definition head_bytes :: "int \<Rightarrow> u32 list \<Rightarrow> u8 list" where
  "head_bytes n bs = le32 (word_of_int n) @ concat (map le32 (take (nat n) bs))"

definition install_one :: "nat \<Rightarrow> ('z log_state_scheme, unit) kop" where
  "install_one i =
     kbind (kget log_dev) (\<lambda>dev.
     kbind (kget log_start) (\<lambda>start.
     kbind (bread dev (start + 1 + of_nat i)) (\<lambda>x.
     kbind (kidx lh_block i) (\<lambda>bn.
     kbind (bread dev bn) (\<lambda>y.
     kbind (buf_data x) (\<lambda>d.
     kthen (set_data y (\<lambda>_. d))
     (kthen (bwrite y)
     (kthen (bunpin y)
     (kthen (brelse y)
     (brelse x))))))))))"

definition install_trans :: "('z log_state_scheme, unit) kop" where
  "install_trans = kbind (kget lh_n) (\<lambda>n. kfor [0..<nat n] install_one)"

definition read_head :: "('z log_state_scheme, unit) kop" where
  "read_head =
     kbind (kget log_dev) (\<lambda>dev.
     kbind (kget log_start) (\<lambda>start.
     kbind (bread dev start) (\<lambda>b.
     kbind (buf_data b) (\<lambda>d.
     let n = sint (word_at d 0) in
     if nat n > LOGSIZE then kfault (Undef ''log header'')
     else
     kthen (kmod (\<lambda>s. s\<lparr>lh_n := n,
        lh_block := map (\<lambda>i. word_at d (Suc i)) [0..<nat n] @ drop (nat n) (lh_block s)\<rparr>))
     (brelse b)))))"

definition write_head :: "('z log_state_scheme, unit) kop" where
  "write_head =
     kbind (kget log_dev) (\<lambda>dev.
     kbind (kget log_start) (\<lambda>start.
     kbind (kget lh_n) (\<lambda>n.
     kbind (kget lh_block) (\<lambda>bs.
     kbind (bread dev start) (\<lambda>b.
     if nat n > LOGSIZE then kfault (Undef ''log header'')
     else
     kthen (set_data b (\<lambda>d. splice d 0 (head_bytes n bs)))
     (kthen (bwrite b)
     (brelse b)))))))"

definition recover_from_log :: "('z log_state_scheme, unit) kop" where
  "recover_from_log =
     kthen read_head
     (kthen install_trans
     (kthen (kmod (\<lambda>s. s\<lparr>lh_n := 0\<rparr>))
     write_head))"

definition initlog :: "u32 \<Rightarrow> ('z log_state_scheme, unit) kop" where
  "initlog dev =
     kthen (zoom log_lock (\<lambda>x s. s\<lparr>log_lock := x\<rparr>) (initlock ''log''))
     (kthen (kmod (\<lambda>s. s\<lparr>log_dev := dev\<rparr>))
     (kbind (bread dev 1) (\<lambda>b.
      kbind (buf_data b) (\<lambda>d.
      kthen (kmod (\<lambda>s. s\<lparr>sb := parse_sb d\<rparr>))
      (kthen (kmod (\<lambda>s. s\<lparr>log_start := sb_logstart (sb s), log_size := sb_nlog (sb s)\<rparr>))
      (kthen (brelse b)
      recover_from_log))))))"

text \<open>
  \<^verbatim>\<open>begin_op\<close> sleeps on \<^verbatim>\<open>&log\<close> while a commit runs or the log might overflow. No routine of
  the kernel calls \<^verbatim>\<open>wakeup(&log)\<close>, so such a sleep does not end.
\<close>

definition begin_op :: "('z log_state_scheme, unit) kop" where
  "begin_op =
     kthen (on_loglock acquire)
     (kbind (kget log_committing) (\<lambda>c.
      if c then kfault Block
      else
      kbind (kget lh_n) (\<lambda>n.
      kbind (kget log_outstanding) (\<lambda>m.
      if n + (m + 1) * int MAXOPBLOCKS > int LOGSIZE then kfault Block
      else kthen (kmod (\<lambda>s. s\<lparr>log_outstanding := log_outstanding s + 1\<rparr>)) (on_loglock release)))))"

definition write_log_one :: "nat \<Rightarrow> ('z log_state_scheme, unit) kop" where
  "write_log_one i =
     kbind (kget log_dev) (\<lambda>dev.
     kbind (kget log_start) (\<lambda>start.
     kbind (kidx lh_block i) (\<lambda>bn.
     kbind (bread dev bn) (\<lambda>x.
     kbind (bread dev (start + of_nat i + 1)) (\<lambda>y.
     kbind (buf_data x) (\<lambda>d.
     kthen (set_data y (\<lambda>_. d))
     (kthen (bwrite y)
     (kthen (brelse x)
     (brelse y)))))))))"

definition write_log :: "('z log_state_scheme, unit) kop" where
  "write_log = kbind (kget lh_n) (\<lambda>n. kfor [0..<nat n] write_log_one)"

definition commit :: "('z log_state_scheme, unit) kop" where
  "commit =
     kthen write_log
     (kthen write_head
     (kthen install_trans
     (kthen (kmod (\<lambda>s. s\<lparr>lh_n := 0\<rparr>))
     write_head)))"

definition end_op :: "('z log_state_scheme, unit) kop" where
  "end_op =
     kthen (on_loglock acquire)
     (kthen (kmod (\<lambda>s. s\<lparr>log_outstanding := log_outstanding s - 1\<rparr>))
     (kbind (kget log_outstanding) (\<lambda>m.
      kthen (kwhen (m = 0) (kmod (\<lambda>s. s\<lparr>log_committing := True\<rparr>)))
      (kthen (on_loglock release)
      (kwhen (m = 0)
        (kthen commit
        (kthen (on_loglock acquire)
        (kthen (kmod (\<lambda>s. s\<lparr>log_committing := False\<rparr>))
        (on_loglock release)))))))))"

text \<open>The block is appended to the header when it is already there (\<^verbatim>\<open>p != -1\<close>).\<close>

definition log_write :: "nat \<Rightarrow> ('z log_state_scheme, unit) kop" where
  "log_write b =
     kthen (on_loglock acquire)
     (kbind (get_buf b) (\<lambda>bf.
      kbind (kget lh_n) (\<lambda>n.
      kbind (kget lh_block) (\<lambda>bs.
      kthen (if b_blockno bf \<in> set (take (nat n) bs) then
               kthen (kmod (\<lambda>s. s\<lparr>lh_n := lh_n s + 1\<rparr>))
               (kupd lh_block (\<lambda>x s. s\<lparr>lh_block := x\<rparr>) (nat n) (\<lambda>_. b_blockno bf))
             else kret ())
      (kthen (bpin b)
      (on_loglock release))))))"


section \<open>The layer with an empty header\<close>

text \<open>
  The blocks whose buffers stay in use when the buffers that are locked now are released. A pin adds
  to them; reading and releasing a block does not change them.
\<close>

definition heavy :: "'z bio_state_scheme \<Rightarrow> u32 set" where
  "heavy s = {bn. refs s bn \<noteq> 0 \<and> \<not> (bn \<in> held s \<and> refs s bn = 1)}"

lemma heavy_pinned: "heavy s \<subseteq> pinned s" "pinned s \<subseteq> heavy s \<union> held s"
  by (auto simp: heavy_def pinned_def)

lemma heavy_cong: "refs t = refs s \<Longrightarrow> held t = held s \<Longrightarrow> heavy t = heavy s"
  by (simp add: heavy_def)

lemma heavy_take:
  "refs t = (refs s)(bn := Suc (refs s bn)) \<Longrightarrow> held t = insert bn (held s) \<Longrightarrow> bn \<notin> held s \<Longrightarrow> heavy t = heavy s"
  by (auto simp: heavy_def)

lemma heavy_drop:
  assumes "refs t = (refs s)(bn := refs s bn - 1)" "held t = held s - {bn}" "bn \<in> held s" "refs s bn \<noteq> 0"
  shows "heavy t = heavy s"
proof (rule set_eqI)
  fix x
  have r: "refs t x = (if x = bn then refs s bn - 1 else refs s x)" using assms(1) by simp
  have h: "x \<in> held t \<longleftrightarrow> x \<in> held s \<and> x \<noteq> bn" using assms(2) by simp
  show "x \<in> heavy t \<longleftrightarrow> x \<in> heavy s" unfolding heavy_def mem_Collect_eq r h using assms(3,4) by auto
qed

lemma heavy_pin:
  "refs t = (refs s)(bn := Suc (refs s bn)) \<Longrightarrow> held t = held s \<Longrightarrow> heavy t \<subseteq> insert bn (heavy s)"
  by (auto simp: heavy_def)

text \<open>
  No transaction is being committed and no block is recorded: the state between calls. \<open>k\<close> more pins
  leave four buffers for the blocks that an operation holds at a time.
\<close>

definition log_inv :: "nat \<Rightarrow> 'z log_state_scheme \<Rightarrow> bool" where
  "log_inv k s \<longleftrightarrow> bc_inv k s \<and> spin_free (log_lock s) \<and> lh_n s = 0 \<and> log_dev s = ROOTDEV
     \<and> card (heavy s) + k + 4 \<le> NBUF"

definition crowded :: "'z bio_state_scheme \<Rightarrow> u32 \<Rightarrow> fault \<Rightarrow> bool" where
  "crowded s bn e \<longleftrightarrow> e = Panic ''No such buffer!'' \<and> 4 \<le> card (held s)"

lemma log_inv_pinned:
  assumes "log_inv k s"
  shows "card (pinned s) + k + 4 \<le> NBUF + card (held s)"
proof -
  have b: "bc_inv k s" using assms by (simp add: log_inv_def)
  have "finite (heavy s)" by (rule finite_subset[OF heavy_pinned(1) block_sets_finite(1)[OF b]])
  then have "card (pinned s) \<le> card (heavy s \<union> held s)"
    using block_sets_finite(2)[OF b] by (intro card_mono heavy_pinned) simp
  also have "\<dots> \<le> card (heavy s) + card (held s)" by (rule card_Un_le)
  finally show ?thesis using assms by (simp add: log_inv_def)
qed

lemma no_buffer_crowded:
  assumes "log_inv k s" "no_buffer s bn e"
  shows "crowded s bn e"
proof -
  have "bc_inv k s" using assms(1) by (simp add: log_inv_def)
  then have "NBUF \<le> card (pinned s)" using all_pinned_card assms(2) by (auto simp: no_buffer_def)
  then show ?thesis using log_inv_pinned[OF assms(1)] assms(2) by (simp add: crowded_def no_buffer_def)
qed

lemma log_fields:
  assumes "bio_upd s (s' :: 'z log_state_scheme)"
  shows "log_lock s' = log_lock s" "log_start s' = log_start s" "log_size s' = log_size s"
    "log_outstanding s' = log_outstanding s" "log_committing s' = log_committing s"
    "log_dev s' = log_dev s" "lh_n s' = lh_n s" "lh_block s' = lh_block s" "sb s' = sb s"
    "log_state.more s' = log_state.more s"
  using assms by (auto simp: bio_upd_def)

lemma bio_more_log:
  "bio_state.more s' = bio_state.more (s :: 'z log_state_scheme) \<longleftrightarrow>
    log_lock s' = log_lock s \<and> log_start s' = log_start s \<and> log_size s' = log_size s
    \<and> log_outstanding s' = log_outstanding s \<and> log_committing s' = log_committing s
    \<and> log_dev s' = log_dev s \<and> lh_n s' = lh_n s \<and> lh_block s' = lh_block s \<and> sb s' = sb s
    \<and> log_state.more s' = log_state.more s"
  by (cases s; cases s') simp

lemmas bio_upd_log_iff = bio_upd_iff[where 'a = "'z log_state_ext", unfolded bio_more_log]

lemma bc_loglock [simp]:
  "bc_inv k (s\<lparr>log_lock := x\<rparr>) = bc_inv k s" "blk (s\<lparr>log_lock := x\<rparr>) = blk s"
  "card_blk (s\<lparr>log_lock := x\<rparr>) = card_blk s" "held (s\<lparr>log_lock := x\<rparr>) = held s" "refs (s\<lparr>log_lock := x\<rparr>) = refs s"
  "holds (s\<lparr>log_lock := x\<rparr>) i bn = holds s i bn" "safe_rel (s\<lparr>log_lock := x\<rparr>) i = safe_rel s i"
  by (simp_all add: bc_inv_def sd_idle_def buf_ok_def held_def holds_def safe_rel_def
      card_blk_def fun_eq_iff blk_def refs_def cached_def split: option.split)

text \<open>With an empty header \<^verbatim>\<open>log_write\<close> records nothing: it only pins the buffer.\<close>

lemma log_write_ok:
  assumes inv: "log_inv (Suc k) s" and k: "0 < k" and h: "holds s i bn"
  shows "kok (log_write i) (\<lambda>_ s'. log_inv k s' \<and> holds s' i bn \<and> blk s' = blk s \<and> safe_rel s' i
    \<and> card_blk s' = card_blk s \<and> held s' = held s \<and> bio_upd s s') s"
proof -
  let ?l = "spin_held (this_cpu s) (log_lock s)" and ?t = "s\<lparr>log_lock := spin_held (this_cpu s) (log_lock s)\<rparr>"
  have b: "bc_inv (Suc k) ?t" "holds ?t i bn" using inv h by (simp_all add: log_inv_def)
  have i: "i < length (bufs s)" using bc_invD(3)[OF b(1)] h by (simp add: holds_def)
  from bpin_ok[OF b(1) k b(2)] obtain u where u: "bpin i ?t = Ok () u"
    "bc_inv k u" "holds u i bn" "blk u = blk ?t" "safe_rel u i" "card_blk u = card_blk ?t"
    "held u = held ?t" "bio_upd ?t u" "refs u = (refs ?t)(bn := Suc (refs ?t bn))"
    by (auto elim!: kwp_total_Ok simp: held_post_def card_blk_simps)
  have fin: "finite (heavy s)"
    using finite_subset[OF heavy_pinned(1) block_sets_finite(1)] inv by (auto simp: log_inv_def)
  have "card (heavy u) \<le> card (insert bn (heavy s))"
    using heavy_pin[of u s bn] u(7,9) fin by (intro card_mono) auto
  also have "\<dots> \<le> Suc (card (heavy s))" using fin by (simp add: card_insert_if)
  finally have hv: "card (heavy (u\<lparr>log_lock := log_lock s\<rparr>)) \<le> Suc (card (heavy s))" by (simp add: heavy_def)
  have f: "this_cpu u = this_cpu s" "log_lock u = ?l" "lh_n u = lh_n s" "log_dev u = log_dev s"
    using log_fields[OF u(8)] bio_upd_fields[OF u(8)] by simp_all
  have run: "log_write i s = Ok () (u\<lparr>log_lock := log_lock s\<rparr>)"
    using inv i u(1) f by (simp add: log_write_def on_loglock_def log_inv_def get_buf_def kop_defs)
  have "bio_upd s (u\<lparr>log_lock := log_lock s\<rparr>)"
    using u(8) by (simp add: bio_upd_log_iff)
  then show ?thesis using run u inv f hv by (simp add: kwp_Ok log_inv_def)
qed

interpretation lg: block_cache log_inv blk card_blk held holds safe_rel bio_upd crowded
  "bread ROOTDEV" buf_data set_data bwrite log_write brelse
proof
  fix s t u :: "'a log_state_scheme" and k bn i f
  have keep: "log_inv k u" if "log_inv k s" "bc_inv k u" "bio_upd s u" "heavy u = heavy s" for k and s u :: "'a log_state_scheme"
    using that log_fields[OF that(3)] by (simp add: log_inv_def)
  have bc: "log_inv k s \<Longrightarrow> bc_inv k s" for k and s :: "'a log_state_scheme" by (simp add: log_inv_def)
  have hr: "bn \<in> held s" "refs s bn \<noteq> 0" if "log_inv k s" "holds s i bn"
    using that block_sets_finite(3)[OF bc[OF that(1)]] bc_invD(3)[OF bc[OF that(1)]]
    by (auto simp: held_def holds_def pinned_def)
  have rd: "log_inv k v" if "log_inv k s" "bn \<notin> held s" "bread_post k bn s b v" for b v
    using that keep[of k s v] heavy_take[of v s bn] by (simp add: bread_post_def)
  have up: "log_inv k v" if "log_inv k s" "held_post k bn i s v" "refs v = refs s" for v
    using that keep[of k s v] heavy_cong[of v s] by (simp add: held_post_def)
  have dr: "log_inv k v" if "log_inv k s" "holds s i bn" "release_post k bn i (refs s bn - 1) s v" for v
    using that keep[of k s v] heavy_drop[of v s bn] hr by (simp add: release_post_def)
  show "bio_upd s t \<Longrightarrow> bio_upd t u \<Longrightarrow> bio_upd s u" by (rule bio_upd_trans)
  show "log_inv k s \<Longrightarrow> 0 < k \<Longrightarrow> bn \<notin> held s \<Longrightarrow>
      kwp (bread ROOTDEV bn) (crowded s bn) (\<lambda>b s'. log_inv k s' \<and> holds s' b bn \<and> blk s' = blk s
        \<and> card_blk s' = card_blk s \<and> safe_rel s' b \<and> held s' = insert bn (held s) \<and> bio_upd s s') s"
    using rd by (intro kwp_mono[OF bread_ok[OF bc]])
      (auto simp: bread_post_def card_blk_simps intro: no_buffer_crowded)
  show "log_inv k s \<Longrightarrow> holds s i bn \<Longrightarrow> buf_data i s = Ok (blk s bn) s"
    by (rule bc.dat_ok[OF bc])
  show "log_inv k s \<Longrightarrow> holds s i bn \<Longrightarrow> length (f (blk s bn)) = BSIZE \<Longrightarrow>
      kok (set_data i f) (\<lambda>_ s'. log_inv k s' \<and> holds s' i bn \<and> blk s' = (blk s)(bn := f (blk s bn))
        \<and> card_blk s' = card_blk s \<and> held s' = held s \<and> bio_upd s s') s"
    using up by (intro kwp_conseq[OF set_data_ok[OF bc]]) (auto simp: held_post_def card_blk_simps)
  show "log_inv k s \<Longrightarrow> holds s i bn \<Longrightarrow>
      kok (bwrite i) (\<lambda>_ s'. log_inv k s' \<and> holds s' i bn \<and> blk s' = blk s \<and> safe_rel s' i
        \<and> card_blk s' = (card_blk s)(bn := blk s bn) \<and> held s' = held s \<and> bio_upd s s') s"
    using up by (intro kwp_conseq[OF bwrite_ok[OF bc]]) (auto simp: held_post_def card_blk_simps)
  show "log_inv (Suc k) s \<Longrightarrow> 0 < k \<Longrightarrow> holds s i bn \<Longrightarrow>
      kok (log_write i) (\<lambda>_ s'. log_inv k s' \<and> holds s' i bn \<and> blk s' = blk s \<and> safe_rel s' i
        \<and> card_blk s' = card_blk s \<and> held s' = held s \<and> bio_upd s s') s"
    by (rule log_write_ok)
  show "log_inv k s \<Longrightarrow> holds s i bn \<Longrightarrow> safe_rel s i \<Longrightarrow>
      kok (brelse i) (\<lambda>_ s'. log_inv k s' \<and> blk s' = blk s \<and> card_blk s' = card_blk s
        \<and> held s' = held s - {bn} \<and> bio_upd s s') s"
    using dr by (intro kwp_conseq[OF brelse_ok[OF bc]]) (auto simp: release_post_def card_blk_simps)
qed


section \<open>The header on disk\<close>

text \<open>
  The one way to fail that the proofs admit: no buffer is left for the two blocks that a copy needs
  besides the blocks \<open>A\<close> in use.
\<close>

definition cramped :: "u32 set \<Rightarrow> fault \<Rightarrow> bool" where
  "cramped A e \<longleftrightarrow> e = Panic ''No such buffer!'' \<and> NBUF \<le> card A + 1"

lemma no_buffer_cramped:
  assumes "no_buffer s bn e" "bc_inv k s" "finite A" "pinned s \<subseteq> insert z A"
  shows "cramped A e"
proof -
  have "NBUF \<le> card (pinned s)" using all_pinned_card[OF assms(2)] assms(1) by (simp add: no_buffer_def)
  also have "\<dots> \<le> card (insert z A)" using assms(3,4) by (simp add: card_mono)
  also have "\<dots> \<le> card A + 1" using assms(3) by (simp add: card_insert_if)
  finally show ?thesis using assms(1) by (simp add: cramped_def no_buffer_def)
qed

lemma pinned_upd: "refs t = (refs s)(x := r) \<Longrightarrow> pinned t \<subseteq> insert x (pinned s)"
  by (auto simp: pinned_def split: if_splits)

lemma length_head_bytes: "nat n \<le> length bs \<Longrightarrow> length (head_bytes n bs) = 4 + 4 * nat n"
  by (simp add: head_bytes_def length_concat o_def sum_list_triv)

lemma concat_le32_nth:
  "i < length bs \<Longrightarrow> take 4 (drop (4 * i) (concat (map le32 bs))) = le32 (bs ! i)"
proof (induction bs arbitrary: i)
  case (Cons b bs)
  then show ?case by (cases i) simp_all
qed simp

text \<open>What \<^verbatim>\<open>write_head\<close> stores is what \<^verbatim>\<open>read_head\<close> reads back.\<close>

lemma head_roundtrip:
  assumes "0 \<le> n" "nat n \<le> LOGSIZE" "nat n \<le> length bs" "length d = BSIZE"
  defines "d' \<equiv> splice d 0 (head_bytes n bs)"
  shows "length d' = BSIZE" "sint (word_at d' 0) = n" "i < nat n \<Longrightarrow> word_at d' (Suc i) = bs ! i"
proof -
  have len: "length (head_bytes n bs) = 4 + 4 * nat n" by (rule length_head_bytes[OF assms(3)])
  have fit: "0 + length (head_bytes n bs) \<le> length d" using len assms(2,4) by (simp add: LOGSIZE_def BSIZE_def)
  show "length d' = BSIZE" using fit assms(4) by (simp add: d'_def)
  have pre: "take (4 + 4 * nat n) d' = head_bytes n bs"
    using len by (simp add: d'_def splice_def)
  have sl: "slice d' o2 4 = slice (head_bytes n bs) o2 4" if "o2 + 4 \<le> 4 + 4 * nat n" for o2
  proof -
    have "take 4 (drop o2 d') = take 4 (drop o2 (take (4 + 4 * nat n) d'))"
      using that by (simp add: drop_take min_def)
    then show ?thesis by (simp add: slice_def pre)
  qed
  have "slice d' 0 4 = le32 (word_of_int n)" using sl[of 0] by (simp add: head_bytes_def slice_def)
  moreover have "n < 2 ^ 31" using assms(1,2) by (simp add: LOGSIZE_def)
  ultimately show "sint (word_at d' 0) = n" using assms(1)
    by (simp add: word_at_def sint_word_ariths signed_take_bit_int_eq_self signed_of_int)
  assume i: "i < nat n"
  then have "slice d' (4 * Suc i) 4 = slice (head_bytes n bs) (4 * Suc i) 4" by (intro sl) simp
  also have "\<dots> = le32 (bs ! i)"
    using i assms(3) concat_le32_nth[of i "take (nat n) bs"] by (simp add: head_bytes_def slice_def)
  finally show "word_at d' (Suc i) = bs ! i" by (simp add: word_at_def)
qed

lemma bc_lh [simp]:
  "bc_inv k (s\<lparr>lh_n := x\<rparr>) = bc_inv k s" "blk (s\<lparr>lh_n := x\<rparr>) = blk s"
  "card_blk (s\<lparr>lh_n := x\<rparr>) = card_blk s" "held (s\<lparr>lh_n := x\<rparr>) = held s" "refs (s\<lparr>lh_n := x\<rparr>) = refs s"
  "holds (s\<lparr>lh_n := x\<rparr>) i bn = holds s i bn" "safe_rel (s\<lparr>lh_n := x\<rparr>) i = safe_rel s i"
  "bc_inv k (s\<lparr>lh_block := y\<rparr>) = bc_inv k s" "blk (s\<lparr>lh_block := y\<rparr>) = blk s"
  "card_blk (s\<lparr>lh_block := y\<rparr>) = card_blk s" "held (s\<lparr>lh_block := y\<rparr>) = held s"
  "refs (s\<lparr>lh_block := y\<rparr>) = refs s" "holds (s\<lparr>lh_block := y\<rparr>) i bn = holds s i bn"
  "safe_rel (s\<lparr>lh_block := y\<rparr>) i = safe_rel s i"
  by (simp_all add: bc_inv_def sd_idle_def buf_ok_def held_def holds_def safe_rel_def
      card_blk_def fun_eq_iff blk_def refs_def cached_def split: option.split)

lemma bread_out:
  assumes "bc_inv k s" "bn \<notin> held s" "refs s bn + 1 < 2 ^ 32" "finite A" "pinned s \<subseteq> insert z A"
  shows "kwp (bread ROOTDEV bn) (cramped A) (bread_post k bn s) s"
  by (rule kwp_mono[OF bread_ok_gen[OF assms(1-3)]]) (use no_buffer_cramped assms in blast)+

lemma update_write_out:
  assumes inv: "bc_inv k s" and nh: "bn \<notin> held s" and r: "refs s bn + 1 < 2 ^ 32"
    and l: "length (f (blk s bn)) = BSIZE" and A: "finite A" "pinned s \<subseteq> A"
  shows "kwp (kbind (bread ROOTDEV bn) (\<lambda>b. kthen (set_data b f) (kthen (bwrite b) (brelse b)))) (cramped A)
    (\<lambda>_ s'. bc_inv k s' \<and> blk s' = (blk s)(bn := f (blk s bn))
      \<and> card_blk s' = (card_blk s)(bn := f (blk s bn)) \<and> held s' = held s \<and> bio_upd s s' \<and> refs s' = refs s) s"
    (is "kwp _ _ ?Q s")
  unfolding kwp_kbind kwp_kthen
proof (rule kwp_conseq[OF bread_out[OF inv nh r A(1) subset_insertI2[OF A(2)]]])
  fix b t assume "bread_post k bn s b t"
  then have t: "bc_inv k t" "holds t b bn" "blk t = blk s" "sectors t = sectors s"
    "held t = insert bn (held s)" "bio_upd s t" "refs t = (refs s)(bn := Suc (refs s bn))"
    by (auto simp: bread_post_def)
  show "kwp (set_data b f) (cramped A) (\<lambda>_. kwp (bwrite b) (cramped A)
      (\<lambda>_. kwp (brelse b) (cramped A) ?Q)) t"
  proof (rule kok_E[OF set_data_ok[OF t(1,2)]], use l t(3) in simp, elim conjE)
    fix u assume "held_post k bn b t u" and u1: "blk u = (blk t)(bn := f (blk t bn))" "sectors u = sectors t" "refs u = refs t"
    then have u: "bc_inv k u" "holds u b bn" "held u = held t" "bio_upd t u" by (auto simp: held_post_def)
    show "kwp (bwrite b) (cramped A) (\<lambda>_. kwp (brelse b) (cramped A) ?Q) u"
    proof (rule kok_E[OF bwrite_ok[OF u(1,2)]], elim conjE)
      fix v assume "held_post k bn b u v" and v1: "blk v = blk u" "safe_rel v b"
        "sectors v = (sectors u)(bn + LBA u := blk u bn)" "refs v = refs u"
      then have v: "bc_inv k v" "holds v b bn" "held v = held u" "bio_upd u v" by (auto simp: held_post_def)
      have up: "bio_upd s v" using t(6) u(4) v(4) bio_upd_trans by blast
      have L: "LBA u = LBA s" using bio_upd_fields[OF t(6)] bio_upd_fields[OF u(4)] by simp
      show "kwp (brelse b) (cramped A) ?Q v"
      proof (rule kok_E[OF brelse_ok[OF v(1,2) v1(2)]])
        fix w assume w: "release_post k bn b (refs v bn - 1) v w"
        then have sw: "bio_upd s w" using bio_upd_trans[OF up] by (simp add: release_post_def)
        have "card_blk w = (card_blk s)(bn := f (blk s bn))"
          by (rule card_blk_simps(2)[OF sw]) (use w v1 u1 t L in \<open>simp add: release_post_def\<close>)
        then show "?Q () w" using w sw v1 u1 t nh v(3) u(3) by (auto simp: release_post_def)
      qed
    qed
  qed
qed

lemma write_head_ok:
  assumes "bc_inv k s" "log_start s \<notin> held s" "refs s (log_start s) + 1 < 2 ^ 32"
    "log_dev s = ROOTDEV" "nat (lh_n s) \<le> LOGSIZE" "length (lh_block s) = LOGSIZE"
    and A: "finite A" "pinned s \<subseteq> A"
  defines "d \<equiv> splice (blk s (log_start s)) 0 (head_bytes (lh_n s) (lh_block s))"
  shows "kwp write_head (cramped A) (\<lambda>_ s'. bc_inv k s' \<and> blk s' = (blk s)(log_start s := d)
    \<and> card_blk s' = (card_blk s)(log_start s := d) \<and> held s' = held s \<and> bio_upd s s' \<and> refs s' = refs s) s"
proof -
  have len: "length (head_bytes (lh_n s) (lh_block s)) = 4 + 4 * nat (lh_n s)"
    using assms(5,6) by (simp add: length_head_bytes)
  have l: "length (splice (blk s (log_start s)) 0 (head_bytes (lh_n s) (lh_block s))) = BSIZE"
    using assms(5) len length_blk[OF assms(1), of "log_start s"]
    by (subst length_splice) (simp_all add: LOGSIZE_def BSIZE_def)
  have ng: "\<not> LOGSIZE < nat (lh_n s)" using assms(5) by simp
  have "write_head s = kbind (bread ROOTDEV (log_start s)) (\<lambda>b.
      kthen (set_data b (\<lambda>d. splice d 0 (head_bytes (lh_n s) (lh_block s))))
      (kthen (bwrite b) (brelse b))) s"
    using assms(4) ng by (simp add: write_head_def)
  moreover note update_write_out[OF assms(1-3), of "\<lambda>d. splice d 0 (head_bytes (lh_n s) (lh_block s))", OF l A]
  ultimately show ?thesis unfolding d_def kwp_def by simp
qed

section \<open>Transactions with an empty header\<close>

definition head0 :: "u8 list \<Rightarrow> u8 list" where
  "head0 d = splice d 0 (le32 0)"

lemma head_bytes_0 [simp]: "head_bytes 0 bs = le32 0"
  by (simp add: head_bytes_def)

lemma head0_idem [simp]: "length d = BSIZE \<Longrightarrow> head0 (head0 d) = head0 d"
  by (simp add: head0_def splice_splice_same BSIZE_def)

text \<open>A commit of nothing writes the empty header, twice.\<close>

lemma write_head_empty:
  assumes "bc_inv k s" "0 < k" "log_start s \<notin> held s" "log_dev s = ROOTDEV" "lh_n s = 0"
    "length (lh_block s) = LOGSIZE" and A: "finite A" "pinned s \<subseteq> A"
  shows "kwp write_head (cramped A) (\<lambda>_ s'. bc_inv k s'
    \<and> blk s' = (blk s)(log_start s := head0 (blk s (log_start s)))
    \<and> card_blk s' = (card_blk s)(log_start s := head0 (blk s (log_start s))) \<and> held s' = held s \<and> bio_upd s s'
    \<and> refs s' = refs s) s"
  by (rule kwp_conseq[OF write_head_ok[OF assms(1,3) _ assms(4) _ _ A]])
    (use assms refs_room[OF assms(1,3)] in \<open>auto simp: head0_def\<close>)

lemma commit_empty:
  assumes "bc_inv k s" "0 < k" "log_start s \<notin> held s" "log_dev s = ROOTDEV" "lh_n s = 0"
    "length (lh_block s) = LOGSIZE" and A: "finite A" "pinned s \<subseteq> A"
  shows "kwp commit (cramped A) (\<lambda>_ s'. bc_inv k s'
    \<and> blk s' = (blk s)(log_start s := head0 (blk s (log_start s)))
    \<and> card_blk s' = (card_blk s)(log_start s := head0 (blk s (log_start s))) \<and> held s' = held s \<and> bio_upd s s'
    \<and> refs s' = refs s) s"
proof -
  have e: "commit s = kthen write_head (kthen install_trans (kthen (kmod (\<lambda>s. s\<lparr>lh_n := 0\<rparr>)) write_head)) s"
    using assms(5) by (simp add: commit_def write_log_def)
  show ?thesis unfolding kwp_def e unfolding kwp_def[symmetric] kwp_kthen
  proof (rule kwp_conseq[OF write_head_empty[OF assms]], elim conjE)
    fix u assume u: "bc_inv k u" "blk u = (blk s)(log_start s := head0 (blk s (log_start s)))"
      "card_blk u = (card_blk s)(log_start s := head0 (blk s (log_start s)))" "held u = held s" "bio_upd s u" "refs u = refs s"
    note f = log_fields[OF u(5)]
    have Au: "pinned u \<subseteq> A" using A(2) u(6) by (simp add: pinned_def)
    have n: "u\<lparr>lh_n := 0\<rparr> = u" using f(7) assms(5) by simp
    have it: "install_trans u = Ok () u" using f(7) assms(5) by (simp add: install_trans_def)
    show "kwp install_trans (cramped A) (\<lambda>_. kwp (kmod (\<lambda>s. s\<lparr>lh_n := 0\<rparr>)) (cramped A)
      (\<lambda>_. kwp write_head (cramped A) (\<lambda>_ s'. bc_inv k s'
        \<and> blk s' = (blk s)(log_start s := head0 (blk s (log_start s)))
        \<and> card_blk s' = (card_blk s)(log_start s := head0 (blk s (log_start s)))
        \<and> held s' = held s \<and> bio_upd s s' \<and> refs s' = refs s))) u"
      unfolding kwp_Ok[of install_trans, OF it] kwp_kmod n
      by (rule kwp_conseq[OF write_head_empty[OF u(1) assms(2) _ _ _ _ A(1) Au]])
        (use u f assms length_blk[OF assms(1), of "log_start s"] in \<open>auto intro: bio_upd_trans\<close>)
  qed
qed

text \<open>\<^verbatim>\<open>begin_op\<close> and \<^verbatim>\<open>end_op\<close> of the only running operation.\<close>

definition op_upd :: "'z log_state_scheme \<Rightarrow> 'z log_state_scheme \<Rightarrow> bool" where
  "op_upd s s' \<longleftrightarrow> (\<exists>m c. bio_upd (s\<lparr>log_outstanding := m, log_committing := c\<rparr>) s')"

lemma bc_outst [simp]:
  "bc_inv k (s\<lparr>log_outstanding := x\<rparr>) = bc_inv k s" "blk (s\<lparr>log_outstanding := x\<rparr>) = blk s"
  "card_blk (s\<lparr>log_outstanding := x\<rparr>) = card_blk s" "held (s\<lparr>log_outstanding := x\<rparr>) = held s"
  "refs (s\<lparr>log_outstanding := x\<rparr>) = refs s" "refs (s\<lparr>log_committing := y\<rparr>) = refs s"
  "bc_inv k (s\<lparr>log_committing := y\<rparr>) = bc_inv k s" "blk (s\<lparr>log_committing := y\<rparr>) = blk s"
  "card_blk (s\<lparr>log_committing := y\<rparr>) = card_blk s" "held (s\<lparr>log_committing := y\<rparr>) = held s"
  by (simp_all add: bc_inv_def sd_idle_def buf_ok_def held_def
      card_blk_def fun_eq_iff blk_def refs_def cached_def split: option.split)

lemma begin_op_run:
  assumes "spin_free (log_lock s)" "\<not> log_committing s"
    "lh_n s + (log_outstanding s + 1) * 10 \<le> 30"
  shows "begin_op s = Ok () (s\<lparr>log_outstanding := log_outstanding s + 1\<rparr>)"
  using assms by (simp add: begin_op_def on_loglock_def kop_defs MAXOPBLOCKS_def LOGSIZE_def)

lemma begin_op_blocks:
  assumes "spin_free (log_lock s)"
    "log_committing s \<or> lh_n s + (log_outstanding s + 1) * 10 > 30"
  shows "begin_op s = Fault Block"
  using assms by (auto simp: begin_op_def on_loglock_def kop_defs MAXOPBLOCKS_def LOGSIZE_def)

lemma end_op_more:
  assumes "spin_free (log_lock s)" "log_outstanding s \<noteq> 1"
  shows "end_op s = Ok () (s\<lparr>log_outstanding := log_outstanding s - 1\<rparr>)"
  using assms by (simp add: end_op_def on_loglock_def kop_defs)

lemma end_op_last:
  assumes inv: "log_inv k s" "0 < k" and st: "log_start s \<notin> held s" and o1: "log_outstanding s = 1"
    and lb: "length (lh_block s) = LOGSIZE" and few: "card (held s) \<le> 2"
  shows "kok end_op (\<lambda>_ s'. log_inv k s'
    \<and> blk s' = (blk s)(log_start s := head0 (blk s (log_start s)))
    \<and> card_blk s' = (card_blk s)(log_start s := head0 (blk s (log_start s))) \<and> held s' = held s
    \<and> bio_upd (s\<lparr>log_outstanding := 0, log_committing := False\<rparr>) s') s"
proof -
  let ?t = "s\<lparr>log_outstanding := 0, log_committing := True\<rparr>" and ?A = "pinned s"
  have A: "finite ?A" "pinned ?t \<subseteq> ?A" using block_sets_finite(1) inv(1) by (auto simp: log_inv_def pinned_def)
  have no: "\<not> cramped ?A e" for e using log_inv_pinned[OF inv(1)] few by (simp add: cramped_def)
  let ?fin = "kthen (on_loglock acquire) (kthen (kmod (\<lambda>s. s\<lparr>log_committing := False\<rparr>)) (on_loglock release))"
  have e: "end_op s = kthen commit ?fin ?t"
    using inv(1) o1 by (simp add: end_op_def on_loglock_def log_inv_def kop_defs)
  have c: "bc_inv k ?t" "log_start ?t \<notin> held ?t" "log_dev ?t = ROOTDEV" "lh_n ?t = 0"
    "length (lh_block ?t) = LOGSIZE" using inv st lb by (simp_all add: log_inv_def)
  show ?thesis unfolding kwp_def e unfolding kwp_def[symmetric]
  proof (subst kwp_kthen, rule kwp_mono[OF commit_empty[OF c(1) inv(2) c(2-5) A]], elim conjE)
    fix u assume u: "bc_inv k u" "blk u = (blk ?t)(log_start ?t := head0 (blk ?t (log_start ?t)))"
      "card_blk u = (card_blk ?t)(log_start ?t := head0 (blk ?t (log_start ?t)))" "held u = held ?t" "bio_upd ?t u" "refs u = refs ?t"
    note f = log_fields[OF u(5)]
    have hv: "heavy (u\<lparr>log_committing := False\<rparr>) = heavy s" using u(4,6) by (simp add: heavy_def)
    have fin: "?fin u = Ok () (u\<lparr>log_committing := False\<rparr>)"
      using inv(1) f by (simp add: on_loglock_def log_inv_def kop_defs)
    have "bio_upd (s\<lparr>log_outstanding := 0, log_committing := False\<rparr>) (u\<lparr>log_committing := False\<rparr>)"
      using u(5) by (simp add: bio_upd_log_iff)
    then show "kok ?fin (\<lambda>_ s'. log_inv k s'
      \<and> blk s' = (blk s)(log_start s := head0 (blk s (log_start s)))
      \<and> card_blk s' = (card_blk s)(log_start s := head0 (blk s (log_start s))) \<and> held s' = held s
      \<and> bio_upd (s\<lparr>log_outstanding := 0, log_committing := False\<rparr>) s') u"
      using u f inv(1) hv by (simp add: kwp_Ok[of ?fin, OF fin] log_inv_def)
  qed (use no in blast)
qed


section \<open>Commit and recovery of a header with entries\<close>

text \<open>One reference fewer, with the wrap-around of the unsigned counter.\<close>

definition dec_ref :: "nat \<Rightarrow> nat" where
  "dec_ref r = unat (of_nat (Suc r) - 2 :: u32)"

lemma dec_ref_0: "dec_ref 0 = 2 ^ 32 - 1"
  by (simp add: dec_ref_def unsigned_minus_1_eq_mask mask_eq_exp_minus_1)

lemma dec_ref_Suc:
  assumes "0 < r" "r < 2 ^ 32"
  shows "dec_ref r = r - 1"
proof -
  obtain q where q: "r = Suc q" using assms(1) by (cases r) auto
  then have "of_nat (Suc r) - 2 = (of_nat q :: u32)" by simp
  then show ?thesis using assms(2) q by (simp add: dec_ref_def unat_of_nat)
qed

lemma dec_ref_less: "dec_ref r < 2 ^ 32"
  unfolding dec_ref_def using unsigned_less[of "of_nat (Suc r) - 2 :: u32"] by simp

text \<open>Installing entry \<open>i\<close> copies log block \<open>i\<close> to its home.\<close>

lemma install_one_ok:
  assumes inv: "bc_inv k s" and dev: "log_dev s = ROOTDEV" and i: "i < length (lh_block s)"
    and x: "x = log_start s + 1 + of_nat i" "x \<notin> held s" "refs s x + 1 < 2 ^ 32"
    and y: "y = lh_block s ! i" "y \<notin> held s" "refs s y + 1 < 2 ^ 32" and ne: "x \<noteq> y"
    and k': "k' \<le> k" "dec_ref (refs s y) + k' < 2 ^ 32"
    and A: "finite A" "pinned s \<subseteq> A"
  shows "kwp (install_one i) (cramped A) (\<lambda>_ s'. bc_inv k' s' \<and> blk s' = (blk s)(y := blk s x)
    \<and> card_blk s' = (card_blk s)(y := blk s x) \<and> held s' = held s \<and> bio_upd s s'
    \<and> refs s' = (refs s)(y := dec_ref (refs s y))) s"
  unfolding install_one_def kwp_kbind kwp_kget dev x(1)[symmetric]
proof (rule kwp_conseq[OF bread_out[OF inv x(2,3) A(1) subset_insertI2[OF A(2)]]])
  fix a t assume t: "bread_post k x s a t"
  then have ti: "bc_inv k t" "held t = insert x (held s)" "refs t = (refs s)(x := Suc (refs s x))" "bio_upd s t"
    by (auto simp: bread_post_def)
  have lt: "i < length (lh_block t)" "lh_block t ! i = y" using log_fields(8)[OF ti(4)] i y(1) by simp_all
  have yt: "y \<notin> held t" "refs t y + 1 < 2 ^ 32" using ti y ne by auto
  have At: "pinned t \<subseteq> insert x A" using pinned_upd[OF ti(3)] A(2) by auto
  show "kwp (kidx lh_block i) (cramped A) (\<lambda>bn. kwp (bread ROOTDEV bn) (cramped A)
     (\<lambda>ya. kwp (buf_data a) (cramped A) (\<lambda>d. kwp (kthen (set_data ya (\<lambda>_. d)) (kthen (bwrite ya)
       (kthen (bunpin ya) (kthen (brelse ya) (brelse a))))) (cramped A)
     (\<lambda>_ s'. bc_inv k' s' \<and> blk s' = (blk s)(y := blk s x)
    \<and> card_blk s' = (card_blk s)(y := blk s x) \<and> held s' = held s \<and> bio_upd s s'
    \<and> refs s' = (refs s)(y := dec_ref (refs s y)))))) t"
    unfolding kwp_kidx[of i lh_block, OF lt(1)] lt(2)
  proof (rule kwp_conseq[OF bread_out[OF ti(1) yt A(1) At]], rule copy_steps[unfolded kwp_kbind, OF t _ ne], assumption)
    fix b w assume w: "copied k s x y a b w"
    then have wi: "bc_inv k w" "holds w a x" "holds w b y" "a \<noteq> b" "safe_rel w a"
      "b_data (bufs w ! b) = sectors w (buf_sector (bufs w ! b))" "refs w y = Suc (refs s y)"
      using ne by (auto simp: copied_def)
    have r: "unat (of_nat (refs w y) - 2 :: u32) = dec_ref (refs s y)" by (simp add: wi(7) dec_ref_def)
    have a: "a < NBUF" using wi(2) by (simp add: holds_def)
    show "kwp (kthen (bunpin b) (kthen (brelse b) (brelse a))) (cramped A)
      (\<lambda>_ s'. bc_inv k' s' \<and> blk s' = (blk s)(y := blk s x)
        \<and> card_blk s' = (card_blk s)(y := blk s x) \<and> held s' = held s \<and> bio_upd s s'
        \<and> refs s' = (refs s)(y := dec_ref (refs s y))) w"
      unfolding kthen_assoc[symmetric] kwp_kthen[of "kthen (bunpin b) (brelse b)"]
    proof (rule kok_E[OF unpin_release[OF wi(1,3,6) k'(1)]])
      show "unat (of_nat (refs w y) - 2 :: u32) + k' < 2 ^ 32" using k'(2) r by simp
      fix v assume v: "release_post k' y b (unat (of_nat (refs w y) - 2 :: u32)) w v"
      then have vi: "bc_inv k' v" "bufs v ! a = bufs w ! a" "sectors v = sectors w" "bio_upd w v"
        using a wi(4) by (auto simp: release_post_def)
      have hv: "holds v a x" by (rule holds_same[OF wi(2) vi(2,4)])
      have sv: "safe_rel v a" by (rule safe_same[OF wi(5) vi(2)]) (simp add: vi(3))
      have rx: "refs v x - 1 = refs s x" using v w ne by (auto simp: release_post_def copied_def)
      show "kwp (brelse a) (cramped A) (\<lambda>_ s'. bc_inv k' s' \<and> blk s' = (blk s)(y := blk s x)
        \<and> card_blk s' = (card_blk s)(y := blk s x) \<and> held s' = held s \<and> bio_upd s s'
        \<and> refs s' = (refs s)(y := dec_ref (refs s y))) v"
      proof (rule kok_E[OF brelse_ok[OF vi(1) hv sv]])
        fix z assume z: "release_post k' x a (refs v x - 1) v z"
        have up: "bio_upd w z" "bio_upd s z" "card_blk z = card_blk w"
          using z v w vi card_blk_simps(1)[of w z] bio_upd_trans[of s w z]
          by (auto simp: release_post_def copied_def intro: bio_upd_trans[OF vi(4)])
        show "bc_inv k' z \<and> blk z = (blk s)(y := blk s x)
          \<and> card_blk z = (card_blk s)(y := blk s x) \<and> held z = held s \<and> bio_upd s z
          \<and> refs z = (refs s)(y := dec_ref (refs s y))"
          using z v w up rx r x(2) y(2) ne by (auto simp: release_post_def copied_def)
      qed
    qed
  qed
qed

lemma write_log_one_ok:
  assumes inv: "bc_inv k s" and dev: "log_dev s = ROOTDEV" and i: "i < length (lh_block s)"
    and x: "x = lh_block s ! i" "x \<notin> held s" "refs s x + 1 < 2 ^ 32"
    and y: "y = log_start s + 1 + of_nat i" "y \<notin> held s" "refs s y + 1 < 2 ^ 32" and ne: "x \<noteq> y"
    and A: "finite A" "pinned s \<subseteq> A"
  shows "kwp (write_log_one i) (cramped A) (\<lambda>_ s'. bc_inv k s' \<and> blk s' = (blk s)(y := blk s x)
    \<and> card_blk s' = (card_blk s)(y := blk s x) \<and> held s' = held s \<and> bio_upd s s' \<and> refs s' = refs s) s"
proof -
  let ?Q = "\<lambda>(_::unit) s'. bc_inv k s' \<and> blk s' = (blk s)(y := blk s x)
    \<and> card_blk s' = (card_blk s)(y := blk s x) \<and> held s' = held s \<and> bio_upd s s' \<and> refs s' = refs s"
  have y': "log_start s + of_nat i + 1 = y" using y(1) by simp
  show ?thesis
    unfolding write_log_one_def kwp_kbind kwp_kget dev kwp_kidx[of i lh_block, OF i] x(1)[symmetric] y'
  proof (rule kwp_conseq[OF bread_out[OF inv x(2,3) A(1) subset_insertI2[OF A(2)]]])
    fix a t assume t: "bread_post k x s a t"
    then have ti: "bc_inv k t" "held t = insert x (held s)" "refs t = (refs s)(x := Suc (refs s x))" "bio_upd s t"
      by (auto simp: bread_post_def)
    have yt: "y \<notin> held t" "refs t y + 1 < 2 ^ 32" using ti y ne by auto
  have At: "pinned t \<subseteq> insert x A" using pinned_upd[OF ti(3)] A(2) by auto
    show "kwp (bread ROOTDEV y) (cramped A)
       (\<lambda>ya. kwp (buf_data a) (cramped A) (\<lambda>d. kwp (kthen (set_data ya (\<lambda>_. d)) (kthen (bwrite ya)
         (kthen (brelse a) (brelse ya)))) (cramped A) ?Q)) t"
    proof (rule kwp_conseq[OF bread_out[OF ti(1) yt A(1) At]], rule copy_steps[unfolded kwp_kbind, OF t _ ne], assumption)
      fix b w assume w: "copied k s x y a b w"
      then have wi: "bc_inv k w" "holds w a x" "holds w b y" "a \<noteq> b" "safe_rel w a"
        "b_data (bufs w ! b) = sectors w (buf_sector (bufs w ! b))" by (auto simp: copied_def)
      have b: "b < NBUF" using wi(3) by (simp add: holds_def)
      show "kwp (kthen (brelse a) (brelse b)) (cramped A) ?Q w" unfolding kwp_kthen
      proof (rule kok_E[OF brelse_ok[OF wi(1,2,5)]])
        fix v assume v: "release_post k x a (refs w x - 1) w v"
        then have vi: "bc_inv k v" "bufs v ! b = bufs w ! b" "sectors v = sectors w" "bio_upd w v"
          using b wi(4) by (auto simp: release_post_def)
        have hv: "holds v b y" by (rule holds_same[OF wi(3) vi(2,4)])
        have sv: "safe_rel v b" using wi(6) vi(2,3) by (simp add: safe_rel_def)
        show "kwp (brelse b) (cramped A) ?Q v"
        proof (rule kok_E[OF brelse_ok[OF vi(1) hv sv]])
          fix z assume z: "release_post k y b (refs v y - 1) v z"
          have up: "bio_upd w z" "bio_upd s z" "card_blk z = card_blk w"
            using z v w vi card_blk_simps(1)[of w z] bio_upd_trans[of s w z]
            by (auto simp: release_post_def copied_def intro: bio_upd_trans[OF vi(4)])
          show "?Q () z" using z v w up x(2) y(2) ne by (auto simp: release_post_def copied_def)
        qed
      qed
    qed
  qed
qed


subsection \<open>The loops\<close>

text \<open>A sequence of \<open>m\<close> overwritings: block \<open>h i\<close> gets \<open>d i\<close>.\<close>

primrec redo :: "(nat \<Rightarrow> u32) \<Rightarrow> (nat \<Rightarrow> 'a) \<Rightarrow> nat \<Rightarrow> (u32 \<Rightarrow> 'a) \<Rightarrow> u32 \<Rightarrow> 'a" where
  "redo h d 0 v = v"
| "redo h d (Suc m) v = (redo h d m v)(h m := d m)"

lemma redo_other: "(\<And>i. i < m \<Longrightarrow> h i \<noteq> b) \<Longrightarrow> redo h d m v b = v b"
  by (induction m) (auto simp: fun_upd_def)

lemma redo_hit:
  "inj_on h {..<m} \<Longrightarrow> i < m \<Longrightarrow> redo h d m v (h i) = d i"
proof (induction m)
  case (Suc m)
  show ?case
  proof (cases "i = m")
    case False
    then have "i < m" "h i \<noteq> h m" using Suc.prems by (auto dest: inj_onD)
    moreover have "inj_on h {..<m}" using Suc.prems(1) by (rule inj_on_subset) auto
    ultimately show ?thesis using Suc.IH by simp
  qed simp
qed simp

lemma redo_cases:
  obtains (hit) i where "i < m" "b = h i" | (other) "redo h d m v b = v b" "\<And>i. i < m \<Longrightarrow> h i \<noteq> b"
  using redo_other[of m h b] by blast

definition slot :: "'z log_state_scheme \<Rightarrow> nat \<Rightarrow> u32" where
  "slot s i = log_start s + 1 + of_nat i"

definition home :: "'z log_state_scheme \<Rightarrow> nat \<Rightarrow> u32" where
  "home s i = lh_block s ! i"

text \<open>The recorded blocks are distinct and outside the log, and nothing of it is in use.\<close>

definition log_layout :: "'z log_state_scheme \<Rightarrow> bool" where
  "log_layout s \<longleftrightarrow> log_dev s = ROOTDEV \<and> length (lh_block s) = LOGSIZE \<and> nat (lh_n s) \<le> LOGSIZE
     \<and> distinct (take (nat (lh_n s)) (lh_block s))
     \<and> (\<forall>i<nat (lh_n s). home s i \<noteq> log_start s \<and> (\<forall>j<LOGSIZE. home s i \<noteq> slot s j))"

lemma log_layoutD:
  assumes "log_layout s"
  shows "log_dev s = ROOTDEV" "length (lh_block s) = LOGSIZE" "nat (lh_n s) \<le> LOGSIZE"
    "inj_on (home s) {..<nat (lh_n s)}" "inj_on (slot s) {..<nat (lh_n s)}"
    "i < nat (lh_n s) \<Longrightarrow> home s i \<noteq> log_start s" "i < nat (lh_n s) \<Longrightarrow> j < nat (lh_n s) \<Longrightarrow> home s i \<noteq> slot s j"
    "i < nat (lh_n s) \<Longrightarrow> slot s i \<noteq> log_start s"
proof -
  let ?n = "nat (lh_n s)"
  show n: "?n \<le> LOGSIZE" and l: "length (lh_block s) = LOGSIZE" and "log_dev s = ROOTDEV"
    using assms by (auto simp: log_layout_def)
  have "distinct (take ?n (lh_block s))" using assms by (simp add: log_layout_def)
  then show "inj_on (home s) {..<?n}" using n l by (auto simp: inj_on_def home_def nth_eq_iff_index_eq distinct_conv_nth)
  have small: "i < 2 ^ 32" if "i < ?n" for i using that n by (simp add: LOGSIZE_def)
  show "inj_on (slot s) {..<?n}"
    by (auto simp: inj_on_def slot_def u32_of_nat_eq dest!: small)
  show "home s i \<noteq> log_start s" if "i < ?n" using assms that by (simp add: log_layout_def)
  show "home s i \<noteq> slot s j" if "i < ?n" "j < ?n" using assms that n by (simp add: log_layout_def)
  show "slot s i \<noteq> log_start s" if "i < ?n"
  proof
    assume "slot s i = log_start s"
    then have "(of_nat (Suc i) :: u32) = of_nat 0" by (simp add: slot_def add.assoc)
    then show False using that n u32_of_nat_eq[of "Suc i" 0] by (simp add: LOGSIZE_def)
  qed
qed

lemma layout_upd: "bio_upd s s' \<Longrightarrow> slot s' = slot s \<and> home s' = home s \<and> log_layout s' = log_layout s"
  using log_fields[of s s'] by (simp add: slot_def home_def log_layout_def fun_eq_iff)


lemma kfor_Suc: "kwp (kfor [0..<Suc m] f) E Q s = kwp (kfor [0..<m] f) E (\<lambda>_. kwp (f m) E Q) s"
  by (simp add: kfor_append kwp_kthen) (simp add: kwp_def kthen_def kbind_def kret_def
      split: outcome.split)

definition quiet :: "'z log_state_scheme \<Rightarrow> bool" where
  "quiet s \<longleftrightarrow> log_start s \<notin> held s \<and> refs s (log_start s) + 1 < 2 ^ 32
     \<and> (\<forall>i<nat (lh_n s). home s i \<notin> held s \<and> slot s i \<notin> held s
        \<and> refs s (home s i) + 1 < 2 ^ 32 \<and> refs s (slot s i) + 1 < 2 ^ 32)"

lemma install_loop:
  assumes inv: "bc_inv k s" and ly: "log_layout s" and q: "quiet s"
    and dec: "\<And>i. i < nat (lh_n s) \<Longrightarrow> dec_ref (refs s (home s i)) + k < 2 ^ 32"
    and m: "m \<le> nat (lh_n s)" and A: "finite A" "pinned s \<subseteq> A" "\<And>i. i < nat (lh_n s) \<Longrightarrow> home s i \<in> A"
  shows "kwp (kfor [0..<m] install_one) (cramped A) (\<lambda>_ s'. bc_inv k s'
    \<and> blk s' = redo (home s) (\<lambda>i. blk s (slot s i)) m (blk s)
    \<and> card_blk s' = redo (home s) (\<lambda>i. blk s (slot s i)) m (card_blk s) \<and> held s' = held s \<and> bio_upd s s'
    \<and> refs s' = redo (home s) (\<lambda>i. dec_ref (refs s (home s i))) m (refs s)) s"
  using m
proof (induction m)
  case 0
  then show ?case using inv by (simp add: wp_simps)
next
  case (Suc m)
  then have m: "m < nat (lh_n s)" by simp
  note D = log_layoutD[OF ly]
  show ?case unfolding kfor_Suc
  proof (rule kwp_conseq[OF Suc.IH], use Suc.prems in simp, elim conjE)
    fix t assume t: "bc_inv k t" "blk t = redo (home s) (\<lambda>i. blk s (slot s i)) m (blk s)"
      "card_blk t = redo (home s) (\<lambda>i. blk s (slot s i)) m (card_blk s)" "held t = held s" "bio_upd s t"
      "refs t = redo (home s) (\<lambda>i. dec_ref (refs s (home s i))) m (refs s)"
    note f = log_fields[OF t(5)] and ut = layout_upd[OF t(5)]
    have hm: "refs t (home s m) = refs s (home s m)" unfolding t(6)
      by (rule redo_other) (use inj_onD[OF D(4)] m in fastforce)
    have sm: "refs t (slot s m) = refs s (slot s m)" unfolding t(6)
      by (rule redo_other) (use D(7)[OF _ m] m in simp)
    have bm: "blk t (slot s m) = blk s (slot s m)" unfolding t(2)
      by (rule redo_other) (use D(7)[OF _ m] m in simp)
    have lt: "m < length (lh_block t)" using m D(2,3) f by simp
    have x: "slot s m = log_start t + 1 + of_nat m" "slot s m \<notin> held t" "refs t (slot s m) + 1 < 2 ^ 32"
      using q m t(4) f sm by (auto simp: quiet_def slot_def)
    have y: "home s m = lh_block t ! m" "home s m \<notin> held t" "refs t (home s m) + 1 < 2 ^ 32"
      using q m t(4) f hm by (auto simp: quiet_def home_def)
    have dr: "dec_ref (refs t (home s m)) + k < 2 ^ 32" using dec[OF m] hm by simp
    have At: "pinned t \<subseteq> A"
    proof
      fix b assume b: "b \<in> pinned t"
      show "b \<in> A"
      proof (cases "\<exists>i<m. home s i = b")
        case True
        then show ?thesis using A(3) m by auto
      next
        case False
        then have "refs t b = refs s b" unfolding t(6) by (intro redo_other) auto
        then show ?thesis using A(2) b by (auto simp: pinned_def)
      qed
    qed
    show "kwp (install_one m) (cramped A) (\<lambda>_ s'. bc_inv k s'
      \<and> blk s' = redo (home s) (\<lambda>i. blk s (slot s i)) (Suc m) (blk s)
      \<and> card_blk s' = redo (home s) (\<lambda>i. blk s (slot s i)) (Suc m) (card_blk s) \<and> held s' = held s \<and> bio_upd s s'
      \<and> refs s' = redo (home s) (\<lambda>i. dec_ref (refs s (home s i))) (Suc m) (refs s)) t"
      by (rule kwp_conseq[OF install_one_ok[OF t(1) _ lt x y D(7)[OF m m, symmetric] order_refl dr A(1) At]])
        (use D(1) f t bm hm in \<open>auto intro: bio_upd_trans\<close>)
  qed
qed

lemma write_log_loop:
  assumes inv: "bc_inv k s" and ly: "log_layout s" and q: "quiet s" and m: "m \<le> nat (lh_n s)"
    and A: "finite A" "pinned s \<subseteq> A"
  shows "kwp (kfor [0..<m] write_log_one) (cramped A) (\<lambda>_ s'. bc_inv k s'
    \<and> blk s' = redo (slot s) (\<lambda>i. blk s (home s i)) m (blk s)
    \<and> card_blk s' = redo (slot s) (\<lambda>i. blk s (home s i)) m (card_blk s) \<and> held s' = held s \<and> bio_upd s s'
    \<and> refs s' = refs s) s"
  using m
proof (induction m)
  case 0
  then show ?case using inv by (simp add: wp_simps)
next
  case (Suc m)
  then have m: "m < nat (lh_n s)" by simp
  note D = log_layoutD[OF ly]
  show ?case unfolding kfor_Suc
  proof (rule kwp_conseq[OF Suc.IH], use Suc.prems in simp, elim conjE)
    fix t assume t: "bc_inv k t" "blk t = redo (slot s) (\<lambda>i. blk s (home s i)) m (blk s)"
      "card_blk t = redo (slot s) (\<lambda>i. blk s (home s i)) m (card_blk s)" "held t = held s" "bio_upd s t"
      "refs t = refs s"
    note f = log_fields[OF t(5)]
    have bm: "blk t (home s m) = blk s (home s m)" unfolding t(2)
      by (rule redo_other) (use D(7)[OF m] m in \<open>simp add: eq_commute\<close>)
    have lt: "m < length (lh_block t)" using m D(2,3) f by simp
    have y: "slot s m = log_start t + 1 + of_nat m" "slot s m \<notin> held t" "refs t (slot s m) + 1 < 2 ^ 32"
      using q m t(4,6) f by (auto simp: quiet_def slot_def)
    have x: "home s m = lh_block t ! m" "home s m \<notin> held t" "refs t (home s m) + 1 < 2 ^ 32"
      using q m t(4,6) f by (auto simp: quiet_def home_def)
    have At: "pinned t \<subseteq> A" using A(2) t(6) by (simp add: pinned_def)
    show "kwp (write_log_one m) (cramped A) (\<lambda>_ s'. bc_inv k s'
      \<and> blk s' = redo (slot s) (\<lambda>i. blk s (home s i)) (Suc m) (blk s)
      \<and> card_blk s' = redo (slot s) (\<lambda>i. blk s (home s i)) (Suc m) (card_blk s) \<and> held s' = held s \<and> bio_upd s s'
      \<and> refs s' = refs s) t"
      by (rule kwp_conseq[OF write_log_one_ok[OF t(1) _ lt x y D(7)[OF m m] A(1) At]])
        (use D(1) f t bm in \<open>auto intro: bio_upd_trans\<close>)
  qed
qed


subsection \<open>Commit\<close>

definition outside_log :: "'z log_state_scheme \<Rightarrow> u32 \<Rightarrow> bool" where
  "outside_log s b \<longleftrightarrow> b \<noteq> log_start s \<and> (\<forall>i<nat (lh_n s). b \<noteq> slot s i)"

definition recorded :: "'z log_state_scheme \<Rightarrow> u32 set" where
  "recorded s = home s ` {..<nat (lh_n s)}"

lemma redo_recorded: "b \<notin> recorded s \<Longrightarrow> redo (home s) d (nat (lh_n s)) g b = g b"
  by (rule redo_other) (auto simp: recorded_def)

lemma quiet_upd: "bio_upd s s' \<Longrightarrow> held s' = held s \<Longrightarrow> refs s' = refs s \<Longrightarrow> quiet s' = quiet s"
  using layout_upd[of s s'] log_fields[of s s'] by (simp add: quiet_def)

definition commit_post :: "nat \<Rightarrow> 'z log_state_scheme \<Rightarrow> 'z log_state_scheme \<Rightarrow> bool" where
  "commit_post k s s' \<longleftrightarrow> bc_inv k s' \<and> lh_n s' = 0 \<and> held s' = held s
     \<and> (\<forall>b\<in>recorded s. card_blk s' b = blk s b)
     \<and> (\<forall>b. outside_log s b \<longrightarrow> blk s' b = blk s b)
     \<and> (\<forall>b. outside_log s b \<longrightarrow> b \<notin> recorded s \<longrightarrow> card_blk s' b = card_blk s b)
     \<and> (\<forall>b\<in>recorded s. refs s' b = refs s b - 1) \<and> (\<forall>b. b \<notin> recorded s \<longrightarrow> refs s' b = refs s b)
     \<and> word_at (card_blk s' (log_start s)) 0 = 0"

lemma head0_word: "length d = BSIZE \<Longrightarrow> word_at (head0 d) 0 = 0"
  unfolding word_at_def head0_def mult_0_right
  by (subst slice_splice_same) (simp_all add: BSIZE_def)

lemma recorded_outside: "log_layout s \<Longrightarrow> b \<in> recorded s \<Longrightarrow> outside_log s b"
  using log_layoutD(6,7)[of s] by (auto simp: recorded_def outside_log_def)

text \<open>The install pass and the final header, from a state whose log area holds the blocks.\<close>

lemma install_finish:
  assumes inv: "bc_inv k u" and ly: "log_layout u" and q: "quiet u"
    and dec: "\<And>i. i < nat (lh_n u) \<Longrightarrow> dec_ref (refs u (home u i)) + k < 2 ^ 32"
    and A: "finite A" "pinned u \<subseteq> A" "recorded u \<subseteq> A"
  shows "kwp (kthen install_trans (kthen (kmod (\<lambda>s. s\<lparr>lh_n := 0\<rparr>)) write_head)) (cramped A)
    (\<lambda>_ z. bc_inv k z \<and> lh_n z = 0 \<and> held z = held u
      \<and> (\<forall>i<nat (lh_n u). card_blk z (home u i) = blk u (slot u i) \<and> blk z (home u i) = blk u (slot u i))
      \<and> (\<forall>b. b \<noteq> log_start u \<longrightarrow> b \<notin> recorded u \<longrightarrow> blk z b = blk u b \<and> card_blk z b = card_blk u b)
      \<and> (\<forall>b\<in>recorded u. refs z b = dec_ref (refs u b)) \<and> (\<forall>b. b \<notin> recorded u \<longrightarrow> refs z b = refs u b)
      \<and> word_at (card_blk z (log_start u)) 0 = 0 \<and> bio_upd (u\<lparr>lh_n := 0\<rparr>) z) u"
    (is "kwp _ _ ?Q u")
proof -
  let ?n = "nat (lh_n u)"
  note D = log_layoutD[OF ly]
  have it: "kwp install_trans E Q u = kwp (kfor [0..<?n] install_one) E Q u" for E Q
    by (simp add: install_trans_def kwp_kbind kwp_kget)
  have hA: "home u i \<in> A" if "i < ?n" for i using A(3) that by (auto simp: recorded_def)
  show ?thesis unfolding kwp_kthen it
  proof (rule kwp_conseq[OF install_loop[OF inv ly q dec order_refl A(1,2) hA]], assumption, assumption, elim conjE)
    fix v assume v: "bc_inv k v" "blk v = redo (home u) (\<lambda>i. blk u (slot u i)) ?n (blk u)"
      "card_blk v = redo (home u) (\<lambda>i. blk u (slot u i)) ?n (card_blk u)" "held v = held u" "bio_upd u v"
      "refs v = redo (home u) (\<lambda>i. dec_ref (refs u (home u i))) ?n (refs u)"
    let ?w = "v\<lparr>lh_n := 0\<rparr>"
    note f = log_fields[OF v(5)]
    have st: "log_start u \<notin> recorded u"
    proof
      assume "log_start u \<in> recorded u"
      then obtain i where "i < ?n" "home u i = log_start u" by (auto simp: recorded_def)
      then show False using D(6) by blast
    qed
    have c: "bc_inv k ?w" "log_start ?w \<notin> held ?w" "refs ?w (log_start ?w) + 1 < 2 ^ 32" "log_dev ?w = ROOTDEV"
      "nat (lh_n ?w) \<le> LOGSIZE" "length (lh_block ?w) = LOGSIZE"
      using v(1,4) f q D v(6) by (simp_all add: quiet_def redo_recorded[OF st])
    have up: "bio_upd (u\<lparr>lh_n := 0\<rparr>) ?w" using v(5) by (simp add: bio_upd_log_iff)
    have Aw: "pinned ?w \<subseteq> A"
    proof
      fix b assume b: "b \<in> pinned ?w"
      show "b \<in> A"
      proof (cases "b \<in> recorded u")
        case False
        then have "refs ?w b = refs u b" using v(6) by (simp add: redo_recorded)
        then show ?thesis using A(2) b by (auto simp: pinned_def)
      qed (use A(3) in auto)
    qed
    show "kwp (kmod (\<lambda>s. s\<lparr>lh_n := 0\<rparr>)) (cramped A) (\<lambda>_. kwp write_head (cramped A) ?Q) v"
      unfolding kwp_kmod
    proof (rule kwp_conseq[OF write_head_ok[OF c A(1) Aw]], elim conjE)
      fix z assume z: "bc_inv k z"
        "blk z = (blk ?w)(log_start ?w := splice (blk ?w (log_start ?w)) 0 (head_bytes (lh_n ?w) (lh_block ?w)))"
        "card_blk z = (card_blk ?w)(log_start ?w := splice (blk ?w (log_start ?w)) 0 (head_bytes (lh_n ?w) (lh_block ?w)))"
        "held z = held ?w" "bio_upd ?w z" "refs z = refs ?w"
      have hd: "head0 (blk v (log_start u)) = card_blk z (log_start u)" using z(3) f by (simp add: head0_def)
      have w0: "word_at (card_blk z (log_start u)) 0 = 0"
        using head0_word[OF length_blk[OF v(1)]] hd by metis
      have hit: "card_blk z (home u i) = blk u (slot u i)" "blk z (home u i) = blk u (slot u i)"
        "refs z (home u i) = dec_ref (refs u (home u i))" if "i < ?n" for i
        using z(2,3,6) v(2,3,6) f D(6)[OF that] redo_hit[OF D(4) that] by simp_all
      then have rr: "\<forall>b\<in>recorded u. refs z b = dec_ref (refs u b)" by (auto simp: recorded_def)
      have oth: "blk z b = blk u b" "card_blk z b = card_blk u b" if "b \<noteq> log_start u" "b \<notin> recorded u" for b
        using z(2,3) v(2,3) f that redo_recorded[OF that(2)] by simp_all
      have ro: "refs z b = refs u b" if "b \<notin> recorded u" for b
        using z(6) v(6) by (simp add: redo_recorded[OF that])
      show "?Q () z" using z(1,4) v(4) hit oth rr ro w0 log_fields(7)[OF z(5)] bio_upd_trans[OF up z(5)] by simp
    qed
  qed
qed

lemma commit_ok:
  assumes inv: "bc_inv k s" and ly: "log_layout s" and q: "quiet s"
    and pin: "\<And>b. b \<in> recorded s \<Longrightarrow> 0 < refs s b"
  shows "kwp commit (cramped (pinned s)) (\<lambda>_. commit_post k s) s"
proof -
  let ?n = "nat (lh_n s)"
  note D = log_layoutD[OF ly]
  have A: "finite (pinned s)" by (rule block_sets_finite(1)[OF inv])
  have wl: "kwp write_log E Q s = kwp (kfor [0..<?n] write_log_one) E Q s" for E Q
    by (simp add: write_log_def kwp_kbind kwp_kget)
  let ?I = "kthen install_trans (kthen (kmod (\<lambda>s. s\<lparr>lh_n := 0\<rparr>)) write_head)"
  show ?thesis unfolding commit_def kwp_kthen[of write_log] wl kwp_kthen[of write_head]
  proof (rule kwp_conseq[OF write_log_loop[OF inv ly q order_refl A order_refl]], elim conjE)
    fix t assume t: "bc_inv k t" "blk t = redo (slot s) (\<lambda>i. blk s (home s i)) ?n (blk s)"
      "card_blk t = redo (slot s) (\<lambda>i. blk s (home s i)) ?n (card_blk s)" "held t = held s" "bio_upd s t"
      "refs t = refs s"
    note f = log_fields[OF t(5)] and ut = layout_upd[OF t(5)]
    have c: "log_start t \<notin> held t" "refs t (log_start t) + 1 < 2 ^ 32" "log_dev t = ROOTDEV"
      "nat (lh_n t) \<le> LOGSIZE" "length (lh_block t) = LOGSIZE" using q t(4,6) f D by (simp_all add: quiet_def)
    have At: "pinned t \<subseteq> pinned s" using t(6) by (simp add: pinned_def)
    show "kwp write_head (cramped (pinned s)) (\<lambda>_. kwp ?I (cramped (pinned s)) (\<lambda>_. commit_post k s)) t"
    proof (rule kwp_conseq[OF write_head_ok[OF t(1) c A At]], elim conjE)
      fix u assume u: "bc_inv k u"
        "blk u = (blk t)(log_start t := splice (blk t (log_start t)) 0 (head_bytes (lh_n t) (lh_block t)))"
        "card_blk u = (card_blk t)(log_start t := splice (blk t (log_start t)) 0 (head_bytes (lh_n t) (lh_block t)))"
        "held u = held t" "bio_upd t u" "refs u = refs t"
      have su: "bio_upd s u" by (rule bio_upd_trans[OF t(5) u(5)])
      note fu = log_fields[OF su] and uu = layout_upd[OF su]
      have qu: "quiet u" using quiet_upd[OF su] u(4,6) t(4,6) q by simp
      have lu: "log_layout u" using uu ly by simp
      have ru: "recorded u = recorded s" using uu fu by (simp add: recorded_def)
      have rm: "refs s b + k < 2 ^ 32" if "b \<in> recorded s" for b
        by (rule refs_room[OF inv]) (use that q in \<open>auto simp: recorded_def quiet_def\<close>)
      have de: "dec_ref (refs s b) = refs s b - 1" if "b \<in> recorded s" for b
        using dec_ref_Suc[OF pin[OF that]] rm[OF that] by simp
      have dec: "dec_ref (refs u (home u i)) + k < 2 ^ 32" if "i < nat (lh_n u)" for i
        using that de[of "home s i"] rm[of "home s i"] uu fu u(6) t(6) by (simp add: recorded_def)
      have sl: "blk u (slot s i) = blk s (home s i)" if "i < ?n" for i
        using u(2) t(2) D(8)[OF that] f redo_hit[OF D(5) that] by simp
      have os: "blk u b = blk s b \<and> card_blk u b = card_blk s b" if "outside_log s b" for b
        using that u(2,3) t(2,3) f redo_other[of ?n "slot s" b] by (auto simp: outside_log_def)
      have sb: "blk s b = blk u (slot u i)" if "i < ?n" "b = home s i" for b i
        using sl[OF that(1)] that(2) uu by simp
      have Au: "pinned u \<subseteq> pinned s" "recorded u \<subseteq> pinned s"
        using u(6) t(6) ru pin by (auto simp: pinned_def)
      show "kwp ?I (cramped (pinned s)) (\<lambda>_. commit_post k s) u"
      proof (rule kwp_conseq[OF install_finish[OF u(1) lu qu dec A Au]], assumption, elim conjE)
        fix z :: "'a log_state_scheme"
        assume z: "bc_inv k z" "lh_n z = 0" "held z = held u"
          "\<forall>i<nat (lh_n u). card_blk z (home u i) = blk u (slot u i) \<and> blk z (home u i) = blk u (slot u i)"
          "\<forall>b. b \<noteq> log_start u \<longrightarrow> b \<notin> recorded u \<longrightarrow> blk z b = blk u b \<and> card_blk z b = card_blk u b"
          "\<forall>b\<in>recorded u. refs z b = dec_ref (refs u b)" "\<forall>b. b \<notin> recorded u \<longrightarrow> refs z b = refs u b"
          "word_at (card_blk z (log_start u)) 0 = 0"
        have rz: "card_blk z b = blk s b \<and> blk z b = blk s b" if "b \<in> recorded s" for b
          using that z(4) sb uu fu by (auto simp: recorded_def)
        have oz: "blk z b = blk s b \<and> (b \<notin> recorded s \<longrightarrow> card_blk z b = card_blk s b)" if "outside_log s b" for b
          using rz[of b] z(5) os[OF that] that ru fu by (cases "b \<in> recorded s") (auto simp: outside_log_def)
        show "commit_post k s z" unfolding commit_post_def
          using z rz oz ru fu u(4,6) t(4,6) de by auto
      qed
    qed
  qed
qed


subsection \<open>Recovery\<close>

text \<open>The log state that \<^verbatim>\<open>read_head\<close> loads from the header block.\<close>

definition head_n :: "u8 list \<Rightarrow> int" where
  "head_n d = sint (word_at d 0)"

definition loaded :: "'z log_state_scheme \<Rightarrow> 'z log_state_scheme" where
  "loaded s = (let d = blk s (log_start s); n = head_n d in s\<lparr>lh_n := n,
     lh_block := map (\<lambda>i. word_at d (Suc i)) [0..<nat n] @ drop (nat n) (lh_block s)\<rparr>)"

lemma loaded_views [simp]:
  "bc_inv k (loaded s) = bc_inv k s" "blk (loaded s) = blk s" "card_blk (loaded s) = card_blk s"
  "held (loaded s) = held s" "refs (loaded s) = refs s" "log_start (loaded s) = log_start s"
  "lh_n (loaded s) = head_n (blk s (log_start s))"
  by (simp_all add: loaded_def Let_def)

lemma read_head_ok:
  assumes inv: "bc_inv k s" and dev: "log_dev s = ROOTDEV" and st: "log_start s \<notin> held s"
    "refs s (log_start s) + 1 < 2 ^ 32" and n: "nat (head_n (blk s (log_start s))) \<le> LOGSIZE"
    and A: "finite A" "pinned s \<subseteq> A"
  shows "kwp read_head (cramped A) (\<lambda>_ s'. bc_inv k s' \<and> blk s' = blk s \<and> card_blk s' = card_blk s
    \<and> held s' = held s \<and> refs s' = refs s \<and> bio_upd (loaded s) s') s"
  unfolding read_head_def kwp_kbind kwp_kget dev
proof (rule kwp_conseq[OF bread_out[OF inv st A(1) subset_insertI2[OF A(2)]]])
  fix b t assume "bread_post k (log_start s) s b t"
  then have t: "bc_inv k t" "holds t b (log_start s)" "blk t = blk s" "card_blk t = card_blk s"
    "held t = insert (log_start s) (held s)" "bio_upd s t" "safe_rel t b"
    "refs t = (refs s)(log_start s := Suc (refs s (log_start s)))"
    by (auto simp: bread_post_def card_blk_simps)
  have d: "buf_data b t = Ok (blk s (log_start s)) t" using bc.dat_ok[OF t(1,2)] t(3) by simp
  let ?d = "blk s (log_start s)"
  let ?f = "\<lambda>s :: 'a log_state_scheme. s\<lparr>lh_n := head_n ?d,
        lh_block := map (\<lambda>i. word_at ?d (Suc i)) [0..<nat (head_n ?d)] @ drop (nat (head_n ?d)) (lh_block s)\<rparr>"
  have up: "bio_upd (loaded s) (?f t)"
    using t(6) by (simp add: loaded_def Let_def bio_upd_log_iff)
  have ng: "\<not> LOGSIZE < nat (head_n ?d)" using n by simp
  have c: "bc_inv k (?f t)" "holds (?f t) b (log_start s)" "safe_rel (?f t) b" using t by simp_all
  show "kwp (buf_data b) (cramped A) (\<lambda>d. kwp (let n = sint (word_at d 0) in
     if nat n > LOGSIZE then kfault (Undef ''log header'')
     else
     kthen (kmod (\<lambda>s. s\<lparr>lh_n := n,
        lh_block := map (\<lambda>i. word_at d (Suc i)) [0..<nat n] @ drop (nat n) (lh_block s)\<rparr>))
     (brelse b)) (cramped A) (\<lambda>_ s'. bc_inv k s' \<and> blk s' = blk s \<and> card_blk s' = card_blk s
    \<and> held s' = held s \<and> refs s' = refs s \<and> bio_upd (loaded s) s')) t"
    unfolding kwp_Ok[of "buf_data b", OF d] Let_def if_not_P[OF ng] kwp_kthen kwp_kmod head_n_def[symmetric]
  proof (rule kok_E[OF brelse_ok[OF c]])
    fix z assume z: "release_post k (log_start s) b (refs (?f t) (log_start s) - 1) (?f t) z"
    then have "card_blk z = card_blk (?f t)"
      by (intro card_blk_simps(1)) (auto simp: release_post_def)
    then show "bc_inv k z \<and> blk z = blk s \<and> card_blk z = card_blk s \<and> held z = held s \<and> refs z = refs s
      \<and> bio_upd (loaded s) z"
      using z t st bio_upd_trans[OF up] by (auto simp: release_post_def)
  qed
qed

definition recover_post :: "nat \<Rightarrow> 'z log_state_scheme \<Rightarrow> 'z log_state_scheme \<Rightarrow> bool" where
  "recover_post k s s' \<longleftrightarrow> bc_inv k s' \<and> lh_n s' = 0 \<and> held s' = held s
     \<and> (\<forall>i<nat (lh_n (loaded s)). card_blk s' (home (loaded s) i) = blk s (slot s i)
          \<and> blk s' (home (loaded s) i) = blk s (slot s i))
     \<and> (\<forall>b. b \<noteq> log_start s \<longrightarrow> b \<notin> recorded (loaded s) \<longrightarrow> blk s' b = blk s b \<and> card_blk s' b = card_blk s b)
     \<and> (\<forall>b\<in>recorded (loaded s). refs s' b = dec_ref (refs s b))
     \<and> (\<forall>b. b \<notin> recorded (loaded s) \<longrightarrow> refs s' b = refs s b)
     \<and> word_at (card_blk s' (log_start s)) 0 = 0"

lemma recover_ok:
  assumes inv: "bc_inv 0 s" and ly: "log_layout (loaded s)" and q: "quiet (loaded s)"
  shows "kwp recover_from_log (cramped (pinned s \<union> recorded (loaded s))) (\<lambda>_. recover_post 0 s) s"
proof -
  have dev: "log_dev s = ROOTDEV" using log_layoutD(1)[OF ly] by (simp add: loaded_def Let_def)
  have n: "nat (head_n (blk s (log_start s))) \<le> LOGSIZE" using log_layoutD(3)[OF ly] by simp
  have st: "log_start s \<notin> held s" "refs s (log_start s) + 1 < 2 ^ 32" using q by (simp_all add: quiet_def)
  have A: "finite (pinned s \<union> recorded (loaded s))" using block_sets_finite(1)[OF inv] by (simp add: recorded_def)
  show ?thesis unfolding recover_from_log_def kwp_kthen[of read_head]
  proof (rule kwp_conseq[OF read_head_ok[OF inv dev st n A Un_upper1]], elim conjE)
    fix t assume t: "bc_inv 0 t" "blk t = blk s" "card_blk t = card_blk s" "held t = held s" "refs t = refs s"
      "bio_upd (loaded s) t"
    note ut = layout_upd[OF t(6)] and f = log_fields[OF t(6)]
    have lt: "log_layout t" using ut ly by simp
    have qt: "quiet t" using quiet_upd[OF t(6)] t(4,5) q by simp
    have rt: "recorded t = recorded (loaded s)" using ut f by (simp add: recorded_def)
    have sl: "slot (loaded s) = slot s" by (simp add: slot_def fun_eq_iff)
    have dec: "dec_ref (refs t (home t i)) + 0 < 2 ^ 32" for i using dec_ref_less by simp
    have At: "pinned t \<subseteq> pinned s \<union> recorded (loaded s)" "recorded t \<subseteq> pinned s \<union> recorded (loaded s)"
      using t(5) rt by (auto simp: pinned_def)
    show "kwp (kthen install_trans (kthen (kmod (\<lambda>s. s\<lparr>lh_n := 0\<rparr>)) write_head)) (cramped (pinned s \<union> recorded (loaded s)))
        (\<lambda>_. recover_post 0 s) t"
      by (rule kwp_conseq[OF install_finish[OF t(1) lt qt dec A At]])
        (use t ut f rt sl in \<open>simp add: recover_post_def\<close>)
  qed
qed

end
