(* ===== verification/Fs.thy ===== *)
theory Fs
  imports Log CString
begin

text \<open>
  Blocks and inodes of the file system, \<^verbatim>\<open>kern/fs.c\<close> with the on-disk format of
  \<^verbatim>\<open>inc/fs.h\<close>: the free-block bitmap, the inode cache, and the content of an inode.

  An in-memory inode is the index of its entry in \<^verbatim>\<open>icache.inode\<close>. A caller's buffer is the
  list of its bytes: \<^verbatim>\<open>readi\<close> returns what it stores, \<^verbatim>\<open>writei\<close> takes what it reads. The device
  table \<^verbatim>\<open>devsw\<close> holds the functions that the drivers register.
\<close>

section \<open>On-disk format\<close>

definition NDEV :: nat where "NDEV = 10"
definition NINODE :: nat where "NINODE = 50"
definition ROOTINO :: u32 where "ROOTINO = 1"
definition NDIRECT :: nat where "NDIRECT = 12"
definition NINDIRECT :: nat where "NINDIRECT = 128"
definition MAXFILE :: nat where "MAXFILE = NDIRECT + NINDIRECT"
definition IPB :: nat where "IPB = 8"
definition BPB :: nat where "BPB = 4096"
definition DIRSIZ :: nat where "DIRSIZ = 14"
definition T_DIR :: u16 where "T_DIR = 1"
definition T_FILE :: u16 where "T_FILE = 2"
definition T_DEV :: u16 where "T_DEV = 3"

lemmas fs_consts = NDEV_def NINODE_def ROOTINO_def NDIRECT_def NINDIRECT_def MAXFILE_def IPB_def
  BPB_def DIRSIZ_def T_DIR_def T_FILE_def T_DEV_def

definition IBLOCK :: "u32 \<Rightarrow> superblock \<Rightarrow> u32" where
  "IBLOCK i b = i div 8 + sb_inodestart b"

definition BBLOCK :: "u32 \<Rightarrow> superblock \<Rightarrow> u32" where
  "BBLOCK i b = i div 4096 + sb_bmapstart b"

text \<open>The fields of \<^verbatim>\<open>struct dinode\<close>, 64 bytes.\<close>

record dinode =
  di_type :: u16
  di_major :: u16
  di_minor :: u16
  di_nlink :: u16
  di_size :: u32
  di_addrs :: "u32 list"

definition DINODE_SIZE :: nat where "DINODE_SIZE = 64"

definition enc_dinode :: "dinode \<Rightarrow> u8 list" where
  "enc_dinode d = le16 (di_type d) @ le16 (di_major d) @ le16 (di_minor d) @ le16 (di_nlink d)
     @ le32 (di_size d) @ concat (map le32 (di_addrs d))"

definition dec_dinode :: "u8 list \<Rightarrow> dinode" where
  "dec_dinode b = \<lparr>di_type = unle16 (slice b 0 2), di_major = unle16 (slice b 2 2),
     di_minor = unle16 (slice b 4 2), di_nlink = unle16 (slice b 6 2), di_size = unle32 (slice b 8 4),
     di_addrs = map (\<lambda>i. unle32 (slice b (12 + 4 * i) 4)) [0..<Suc NDIRECT]\<rparr>"


section \<open>State\<close>

record inode =
  i_dev :: u32
  i_inum :: u32
  i_ref :: int
  i_lock :: sleeplock
  i_valid :: bool
  i_type :: u16
  i_major :: u16
  i_minor :: u16
  i_nlink :: u16
  i_size :: u32
  i_addrs :: "u32 list"

record stat =
  st_dev :: u32
  st_ino :: u32
  st_nlink :: u16
  st_size :: u32
  st_mode :: u32

record fs_state = log_state +
  ic_lock :: spinlock
  icache :: "inode list"
  cwd :: nat
  dev_read :: "u16 \<Rightarrow> (nat \<Rightarrow> u64 \<Rightarrow> int \<times> u8 list) option"
  dev_write :: "u16 \<Rightarrow> (nat \<Rightarrow> u8 list \<Rightarrow> int) option"
  dev_out :: "(u16 \<times> u8 list) list"

definition on_iclock :: "(nat \<Rightarrow> (spinlock, 'a) kop) \<Rightarrow> ('z fs_state_scheme, 'a) kop" where
  "on_iclock m = kbind (kget this_cpu) (\<lambda>c. zoom ic_lock (\<lambda>x s. s\<lparr>ic_lock := x\<rparr>) (m c))"

definition get_ino :: "nat \<Rightarrow> ('z fs_state_scheme, inode) kop" where
  "get_ino ip = kidx icache ip"

definition upd_ino :: "nat \<Rightarrow> (inode \<Rightarrow> inode) \<Rightarrow> ('z fs_state_scheme, unit) kop" where
  "upd_ino ip f = kupd icache (\<lambda>x s. s\<lparr>icache := x\<rparr>) ip f"

definition on_ilock :: "nat \<Rightarrow> (nat \<Rightarrow> u32 \<Rightarrow> (sleeplock, 'a) kop) \<Rightarrow> ('z fs_state_scheme, 'a) kop" where
  "on_ilock ip m =
     kbind (get_ino ip) (\<lambda>_.
     kbind (kget this_cpu) (\<lambda>c.
     kbind (kget this_pid) (\<lambda>p.
     zoom (\<lambda>s. i_lock (icache s ! ip))
       (\<lambda>x s. s\<lparr>icache := (icache s)[ip := (icache s ! ip)\<lparr>i_lock := x\<rparr>]\<rparr>) (m c p))))"


section \<open>Blocks\<close>

definition readsb :: "u32 \<Rightarrow> ('z fs_state_scheme, superblock) kop" where
  "readsb dev =
     kbind (bread dev 0) (\<lambda>b.
     kbind (buf_data b) (\<lambda>d.
     kthen (brelse b)
     (kret (parse_sb d))))"

definition bzero :: "u32 \<Rightarrow> u32 \<Rightarrow> ('z fs_state_scheme, unit) kop" where
  "bzero dev bno =
     kbind (bread dev bno) (\<lambda>b.
     kthen (set_data b (\<lambda>d. replicate BSIZE 0))
     (kthen (log_write b)
     (brelse b)))"

definition bit_set :: "u8 list \<Rightarrow> nat \<Rightarrow> bool" where
  "bit_set d j = (d ! (j div 8) AND push_bit (j mod 8) 1 \<noteq> 0)"

definition mark_bit :: "nat \<Rightarrow> u8 list \<Rightarrow> u8 list" where
  "mark_bit j d = d[j div 8 := d ! (j div 8) OR push_bit (j mod 8) 1]"

definition flip_bit_at :: "nat \<Rightarrow> u8 list \<Rightarrow> u8 list" where
  "flip_bit_at j d = d[j div 8 := d ! (j div 8) XOR push_bit (j mod 8) 1]"

text \<open>
  The outer loop of \<^verbatim>\<open>balloc\<close> over the first bits of the bitmap blocks. When no bit is free the
  function ends without a \<^verbatim>\<open>return\<close>, and its callers use the missing value.
\<close>

fun balloc_from :: "u32 \<Rightarrow> nat list \<Rightarrow> ('z fs_state_scheme, u32) kop" where
  "balloc_from dev [] = kfault (Undef ''balloc: no value returned'')"
| "balloc_from dev (i # is) =
     kbind (kget sb) (\<lambda>b0.
     kbind (bread dev (BBLOCK (of_nat i) b0)) (\<lambda>b.
     kbind (buf_data b) (\<lambda>d.
     case List.find (\<lambda>j. \<not> bit_set d j) [0..<BPB] of
       Some j \<Rightarrow>
         kthen (set_data b (mark_bit j))
         (kthen (log_write b)
         (kthen (brelse b)
         (kthen (bzero dev (of_nat (i + j)))
         (kret (of_nat (i + j))))))
     | None \<Rightarrow> kthen (brelse b) (balloc_from dev is))))"

definition bitmap_firsts :: "u32 \<Rightarrow> nat list" where
  "bitmap_firsts n = map (\<lambda>q. q * BPB) [0..<(unat n + BPB - 1) div BPB]"

definition balloc :: "u32 \<Rightarrow> ('z fs_state_scheme, u32) kop" where
  "balloc dev = kbind (kget sb) (\<lambda>b0. balloc_from dev (bitmap_firsts (sb_size b0)))"

definition bfree :: "u32 \<Rightarrow> u32 \<Rightarrow> ('z fs_state_scheme, unit) kop" where
  "bfree dev bn =
     kbind (kget sb) (\<lambda>b0.
     kbind (bread dev (BBLOCK bn b0)) (\<lambda>b.
     kbind (buf_data b) (\<lambda>d.
     if \<not> bit_set d (unat bn mod BPB) then panic ''Free block has been freed''
     else
       kthen (set_data b (flip_bit_at (unat bn mod BPB)))
       (kthen (log_write b)
       (brelse b)))))"


section \<open>Inodes\<close>

definition iinit :: "u32 \<Rightarrow> ('z fs_state_scheme, unit) kop" where
  "iinit dev =
     kthen (initlog ROOTDEV)
     (kthen (zoom ic_lock (\<lambda>x s. s\<lparr>ic_lock := x\<rparr>) (initlock ''inode cache''))
     (kfor [0..<NINODE] (\<lambda>i. on_ilock i (\<lambda>_ _. initsleeplock ''inode''))))"

text \<open>The scan of \<^verbatim>\<open>iget\<close>: the cached entry, or else the first free one.\<close>

definition is_cached_ino :: "inode list \<Rightarrow> u32 \<Rightarrow> u32 \<Rightarrow> nat \<Rightarrow> bool" where
  "is_cached_ino ic dev inum i \<longleftrightarrow> i_inum (ic ! i) = inum \<and> i_ref (ic ! i) > 0 \<and> i_dev (ic ! i) = dev"

definition iget :: "u32 \<Rightarrow> u32 \<Rightarrow> ('z fs_state_scheme, nat) kop" where
  "iget dev inum =
     kthen (on_iclock acquire)
     (kbind (kget icache) (\<lambda>ic.
      case List.find (is_cached_ino ic dev inum) [0..<NINODE] of
        Some i \<Rightarrow>
          kthen (upd_ino i (\<lambda>x. x\<lparr>i_ref := i_ref x + 1\<rparr>))
          (kthen (on_iclock release)
          (kret i))
      | None \<Rightarrow>
          (case List.find (\<lambda>i. i_ref (ic ! i) = 0) [0..<NINODE] of
             None \<Rightarrow> panic ''Cannot alloc a inode''
           | Some e \<Rightarrow>
               kthen (upd_ino e (\<lambda>x. x\<lparr>i_dev := dev, i_inum := inum, i_ref := 1, i_size := 0, i_valid := False\<rparr>))
               (kthen (on_iclock release)
               (kret e)))))"

text \<open>\<^verbatim>\<open>ialloc\<close>. The inner loop starts at slot 1 of every block.\<close>

definition ino_type_at :: "u8 list \<Rightarrow> nat \<Rightarrow> u16" where
  "ino_type_at d j = unle16 (slice d (DINODE_SIZE * j) 2)"

fun ialloc_from :: "u32 \<Rightarrow> u16 \<Rightarrow> nat list \<Rightarrow> ('z fs_state_scheme, nat) kop" where
  "ialloc_from dev ty [] = panic ''Ialloc cannot alloc inode''"
| "ialloc_from dev ty (i # is) =
     kbind (kget sb) (\<lambda>b0.
     kbind (bread dev (IBLOCK (of_nat i) b0)) (\<lambda>b.
     kbind (buf_data b) (\<lambda>d.
     case List.find (\<lambda>j. ino_type_at d j = 0) [1..<IPB] of
       Some j \<Rightarrow>
         kthen (set_data b (\<lambda>d. splice d (DINODE_SIZE * j) (le16 ty @ replicate (DINODE_SIZE - 2) 0)))
         (kthen (log_write b)
         (kthen (brelse b)
         (iget dev (of_nat (i + j)))))
     | None \<Rightarrow> kthen (brelse b) (ialloc_from dev ty is))))"

definition inode_firsts :: "u32 \<Rightarrow> nat list" where
  "inode_firsts n = map (\<lambda>q. q * IPB) [0..<(unat n + IPB - 1) div IPB]"

definition ialloc :: "u32 \<Rightarrow> u16 \<Rightarrow> ('z fs_state_scheme, nat) kop" where
  "ialloc dev ty = kbind (kget sb) (\<lambda>b0. ialloc_from dev ty (inode_firsts (sb_ninodes b0)))"

definition dino_of :: "inode \<Rightarrow> dinode" where
  "dino_of i = \<lparr>di_type = i_type i, di_major = i_major i, di_minor = i_minor i, di_nlink = i_nlink i,
     di_size = i_size i, di_addrs = i_addrs i\<rparr>"

definition dino_off :: "u32 \<Rightarrow> nat" where
  "dino_off inum = DINODE_SIZE * (unat inum mod IPB)"

definition iupdate :: "nat \<Rightarrow> ('z fs_state_scheme, unit) kop" where
  "iupdate ip =
     kbind (get_ino ip) (\<lambda>i.
     kbind (kget sb) (\<lambda>b0.
     kbind (bread (i_dev i) (IBLOCK (i_inum i) b0)) (\<lambda>b.
     kthen (set_data b (\<lambda>d. splice d (dino_off (i_inum i)) (enc_dinode (dino_of i))))
     (kthen (log_write b)
     (brelse b)))))"

definition idup :: "nat \<Rightarrow> ('z fs_state_scheme, nat) kop" where
  "idup ip =
     kthen (on_iclock acquire)
     (kthen (upd_ino ip (\<lambda>x. x\<lparr>i_ref := i_ref x + 1\<rparr>))
     (kthen (on_iclock release)
     (kret ip)))"

definition load_dinode :: "dinode \<Rightarrow> inode \<Rightarrow> inode" where
  "load_dinode d x = x\<lparr>i_type := di_type d, i_major := di_major d, i_minor := di_minor d,
     i_nlink := di_nlink d, i_size := di_size d, i_addrs := di_addrs d\<rparr>"

definition ilock :: "nat \<Rightarrow> ('z fs_state_scheme, unit) kop" where
  "ilock ip =
     kthen (on_ilock ip acquiresleep)
     (kbind (get_ino ip) (\<lambda>i.
      kwhen (\<not> i_valid i)
       (kbind (kget sb) (\<lambda>b0.
        kbind (bread (i_dev i) (IBLOCK (i_inum i) b0)) (\<lambda>b.
        kbind (buf_data b) (\<lambda>d.
        kthen (upd_ino ip (load_dinode (dec_dinode (slice d (dino_off (i_inum i)) DINODE_SIZE))))
        (kthen (brelse b)
        (upd_ino ip (\<lambda>x. x\<lparr>i_valid := True\<rparr>)))))))))"

definition iunlock :: "nat \<Rightarrow> ('z fs_state_scheme, unit) kop" where
  "iunlock ip = on_ilock ip (\<lambda>c _. releasesleep c)"

definition itrunc :: "nat \<Rightarrow> ('z fs_state_scheme, unit) kop" where
  "itrunc ip =
     kthen (kfor [0..<NDIRECT] (\<lambda>i.
        kbind (get_ino ip) (\<lambda>x. if i_addrs x ! i = 0 then kret () else bfree (i_dev x) (i_addrs x ! i))))
     (kbind (get_ino ip) (\<lambda>x.
      kthen (kwhen (i_addrs x ! NDIRECT \<noteq> 0)
        (kbind (bread (i_dev x) (i_addrs x ! NDIRECT)) (\<lambda>b.
         kthen (kfor [0..<NINDIRECT] (\<lambda>i.
            kbind (buf_data b) (\<lambda>d. if word_at d i = 0 then kret () else bfree (i_dev x) (word_at d i))))
         (kthen (brelse b)
         (bfree (i_dev x) (i_addrs x ! NDIRECT))))))
      (kthen (upd_ino ip (\<lambda>x. x\<lparr>i_size := 0\<rparr>))
      (iupdate ip))))"

definition iput :: "nat \<Rightarrow> ('z fs_state_scheme, unit) kop" where
  "iput ip =
     kthen (on_iclock acquire)
     (kbind (get_ino ip) (\<lambda>i.
      kthen (kwhen (i_ref i = 1 \<and> i_valid i \<and> i_nlink i = 0)
        (kthen (on_ilock ip acquiresleep)
        (kthen (on_iclock release)
        (kthen (itrunc ip)
        (kthen (upd_ino ip (\<lambda>x. x\<lparr>i_type := 0\<rparr>))
        (kthen (iupdate ip)
        (kthen (upd_ino ip (\<lambda>x. x\<lparr>i_valid := False\<rparr>))
        (kthen (on_ilock ip (\<lambda>c _. releasesleep c))
        (on_iclock acquire)))))))))
      (kthen (upd_ino ip (\<lambda>x. x\<lparr>i_ref := i_ref x - 1\<rparr>))
      (on_iclock release))))"

definition iunlockput :: "nat \<Rightarrow> ('z fs_state_scheme, unit) kop" where
  "iunlockput ip = kthen (iunlock ip) (iput ip)"


section \<open>Content\<close>

definition set_addr :: "nat \<Rightarrow> nat \<Rightarrow> u32 \<Rightarrow> ('z fs_state_scheme, unit) kop" where
  "set_addr ip n a = upd_ino ip (\<lambda>x. x\<lparr>i_addrs := (i_addrs x)[n := a]\<rparr>)"

definition put_word :: "nat \<Rightarrow> u32 \<Rightarrow> u8 list \<Rightarrow> u8 list" where
  "put_word i w d = splice d (4 * i) (le32 w)"

text \<open>\<^verbatim>\<open>bmap\<close> reads \<^verbatim>\<open>addrs[bn]\<close> of the indirect block after \<^verbatim>\<open>brelse\<close>, and does not log it.\<close>

definition bmap :: "nat \<Rightarrow> u32 \<Rightarrow> ('z fs_state_scheme, u32) kop" where
  "bmap ip bn0 =
     (let bn = unat bn0 in
     kbind (get_ino ip) (\<lambda>x.
     if bn < NDIRECT then
       kthen (kwhen (i_addrs x ! bn = 0) (kbind (balloc (i_dev x)) (set_addr ip bn)))
       (kbind (get_ino ip) (\<lambda>y. kret (i_addrs y ! bn)))
     else if bn - NDIRECT < NINDIRECT then
       kthen (kwhen (i_addrs x ! NDIRECT = 0) (kbind (balloc (i_dev x)) (set_addr ip NDIRECT)))
       (kbind (get_ino ip) (\<lambda>y.
        kbind (bread (i_dev y) (i_addrs y ! NDIRECT)) (\<lambda>b.
        kbind (buf_data b) (\<lambda>d.
        kthen (kwhen (word_at d (bn - NDIRECT) = 0)
          (kbind (balloc (i_dev y)) (\<lambda>a. set_data b (put_word (bn - NDIRECT) a))))
        (kthen (brelse b)
        (kbind (buf_data b) (\<lambda>e. kret (word_at e (bn - NDIRECT)))))))))
     else panic ''Cannot bmap such block''))"

definition S_IFREG :: u32 where "S_IFREG = 0x8000"
definition S_IFDIR :: u32 where "S_IFDIR = 0x4000"

definition stati :: "nat \<Rightarrow> ('z fs_state_scheme, stat) kop" where
  "stati ip =
     kbind (get_ino ip) (\<lambda>x.
     let st = \<lparr>st_dev = i_dev x, st_ino = i_inum x, st_nlink = i_nlink x, st_size = i_size x, st_mode = 0\<rparr> in
     if i_type x = T_FILE then kret (st\<lparr>st_mode := S_IFREG\<rparr>)
     else if i_type x = T_DIR then kret (st\<lparr>st_mode := S_IFDIR\<rparr>)
     else if i_type x = T_DEV then kret st
     else panic ''unexpected stat type %d. '')"

text \<open>The bytes of a transfer that lie in the block of the offset.\<close>

definition chunk :: "nat \<Rightarrow> nat \<Rightarrow> nat" where
  "chunk off n = min n (BSIZE - off mod BSIZE)"

lemma chunk_pos: "0 < n \<Longrightarrow> 0 < chunk off n"
  by (simp add: chunk_def BSIZE_def)

lemma chunk_le: "chunk off n \<le> n"
  by (simp add: chunk_def)

function readi_loop :: "nat \<Rightarrow> nat \<Rightarrow> nat \<Rightarrow> ('z fs_state_scheme, u8 list) kop" where
  "readi_loop ip off n s =
     (if n = 0 then Ok [] s
      else
        kbind (get_ino ip) (\<lambda>x.
        kbind (bmap ip (of_nat (off div BSIZE))) (\<lambda>a.
        kbind (bread (i_dev x) a) (\<lambda>b.
        kbind (buf_data b) (\<lambda>d.
        kthen (brelse b)
        (kbind (readi_loop ip (off + chunk off n) (n - chunk off n)) (\<lambda>rest.
         kret (slice d (off mod BSIZE) (chunk off n) @ rest))))))) s)"
  by pat_completeness auto
termination
  by (relation "measure (\<lambda>(ip, off, n, s). n)") (use chunk_pos chunk_le in \<open>auto intro: diff_less\<close>)

definition readi :: "nat \<Rightarrow> u64 \<Rightarrow> u64 \<Rightarrow> ('z fs_state_scheme, int \<times> u8 list) kop" where
  "readi ip off n =
     kbind (get_ino ip) (\<lambda>x.
     if i_type x = T_DEV then
       kbind (kget dev_read) (\<lambda>tbl.
       if unat (i_major x) \<ge> NDEV then kret (-1, [])
       else (case tbl (i_major x) of None \<Rightarrow> kret (-1, []) | Some f \<Rightarrow> kret (f ip n)))
     else if off > ucast (i_size x) \<or> off + n < off then kret (-1, [])
     else
       let m = (if off + n > ucast (i_size x) then ucast (i_size x) - off else n) in
       kbind (readi_loop ip (unat off) (unat m)) (\<lambda>d. kret (int (unat m), d)))"

function writei_loop :: "nat \<Rightarrow> u8 list \<Rightarrow> nat \<Rightarrow> nat \<Rightarrow> ('z fs_state_scheme, unit) kop" where
  "writei_loop ip src off n s =
     (if n = 0 then Ok () s
      else
        kbind (get_ino ip) (\<lambda>x.
        kbind (bmap ip (of_nat (off div BSIZE))) (\<lambda>a.
        kbind (bread (i_dev x) a) (\<lambda>b.
        kthen (set_data b (\<lambda>d. splice d (off mod BSIZE) (take (chunk off n) src)))
        (kthen (log_write b)
        (kthen (brelse b)
        (writei_loop ip (drop (chunk off n) src) (off + chunk off n) (n - chunk off n))))))) s)"
  by pat_completeness auto
termination
  by (relation "measure (\<lambda>(ip, src, off, n, s). n)") (use chunk_pos chunk_le in \<open>auto intro: diff_less\<close>)

definition writei :: "nat \<Rightarrow> u8 list \<Rightarrow> u64 \<Rightarrow> u64 \<Rightarrow> ('z fs_state_scheme, int) kop" where
  "writei ip src off n =
     kbind (get_ino ip) (\<lambda>x.
     if i_type x = T_DEV then
       kbind (kget dev_write) (\<lambda>tbl.
       if unat (i_major x) \<ge> NDEV then kret (-1)
       else (case tbl (i_major x) of None \<Rightarrow> kret (-1)
         | Some f \<Rightarrow>
             kthen (kmod (\<lambda>s. s\<lparr>dev_out := dev_out s @ [(i_major x, take (unat n) src)]\<rparr>))
             (kret (f ip (take (unat n) src)))))
     else if off > ucast (i_size x) \<or> off + n < off then kret (-1)
     else if unat (off + n) > MAXFILE * BSIZE then kret (-1)
     else
       kthen (writei_loop ip src (unat off) (unat n))
       (kbind (get_ino ip) (\<lambda>y.
        kthen (kwhen (n > 0 \<and> off + n > ucast (i_size y))
          (kthen (upd_ino ip (\<lambda>z. z\<lparr>i_size := ucast (off + n)\<rparr>))
          (iupdate ip)))
        (kret (int (unat n))))))"


section \<open>Rules for the block layer\<close>

lemma log_inv_mono: "log_inv k s \<Longrightarrow> k' \<le> k \<Longrightarrow> log_inv k' s"
  by (fastforce simp: log_inv_def bc_inv_def buf_ok_def)

lemma fs_fields:
  assumes "bio_upd s (t :: 'z fs_state_scheme)"
  shows "icache t = icache s" "ic_lock t = ic_lock s" "cwd t = cwd s" "dev_read t = dev_read s"
    "dev_write t = dev_write s" "dev_out t = dev_out s" "sb t = sb s" "this_cpu t = this_cpu s"
    "this_pid t = this_pid s"
  using assms by (auto simp: bio_upd_def)

text \<open>A block has been read and is held.\<close>

definition got :: "nat \<Rightarrow> 'z log_state_scheme \<Rightarrow> u32 \<Rightarrow> nat \<Rightarrow> 'z log_state_scheme \<Rightarrow> bool" where
  "got k s bn b t \<longleftrightarrow> log_inv k t \<and> holds t b bn \<and> blk t = blk s \<and> card_blk t = card_blk s
     \<and> safe_rel t b \<and> held t = insert bn (held s) \<and> bio_upd s t"

text \<open>The state after a routine that leaves the held blocks and the card alone.\<close>

definition fs_to :: "nat \<Rightarrow> 'z log_state_scheme \<Rightarrow> (u32 \<Rightarrow> u8 list) \<Rightarrow> 'z log_state_scheme \<Rightarrow> bool" where
  "fs_to k s v t \<longleftrightarrow> log_inv k t \<and> blk t = v \<and> card_blk t = card_blk s \<and> held t = held s \<and> bio_upd s t"

lemma bread_wp:
  assumes "log_inv k s" "0 < k" "bn \<notin> held s" "card (held s) \<le> 3"
    "\<And>b t. got k s bn b t \<Longrightarrow> kwp (K b) E Q t"
  shows "kwp (kbind (bread ROOTDEV bn) K) E Q s"
  unfolding kwp_kbind
  by (rule kwp_mono[OF lg.rd_ok[OF assms(1-3)]]) (use assms(4,5) in \<open>auto simp: got_def crowded_def\<close>)

lemma data_wp:
  assumes "log_inv k t" "holds t b bn" "kwp (K (blk t bn)) E Q t"
  shows "kwp (kbind (buf_data b) K) E Q t"
  unfolding kwp_kbind using assms(3) by (simp add: kwp_Ok[of "buf_data b", OF lg.dat_ok[OF assms(1,2)]])

lemma release_wp:
  assumes "got k s bn b t" "bn \<notin> held s" "\<And>u. fs_to k s (blk s) u \<Longrightarrow> kwp K E Q u"
  shows "kwp (kthen (brelse b) K) E Q t"
  unfolding kwp_kthen
proof -
  have t: "log_inv k t" "holds t b bn" "safe_rel t b" using assms(1) by (auto simp: got_def)
  show "kwp (brelse b) E (\<lambda>_. kwp K E Q) t"
    by (rule kok_E[OF lg.rel_ok[OF t]], rule assms(3))
      (use assms(1,2) in \<open>auto simp: got_def fs_to_def intro: bio_upd_trans\<close>)
qed

text \<open>The idiom of every update: change the buffer, log it, release it.\<close>

lemma update_wp:
  assumes g: "got (Suc k) s bn b t" and k: "0 < k" and bn: "bn \<notin> held s" and l: "length (f (blk s bn)) = BSIZE"
    and K: "\<And>u. fs_to k s ((blk s)(bn := f (blk s bn))) u \<Longrightarrow> kwp K E Q u"
  shows "kwp (kthen (set_data b f) (kthen (log_write b) (kthen (brelse b) K))) E Q t"
proof -
  have t: "log_inv (Suc k) t" "holds t b bn" "blk t = blk s" "bio_upd s t" using g by (auto simp: got_def)
  show ?thesis unfolding kwp_kthen
  proof (rule kok_E[OF lg.upd_ok[OF t(1,2)]], use l t(3) in simp, elim conjE)
    fix u assume u: "log_inv (Suc k) u" "holds u b bn" "blk u = (blk t)(bn := f (blk t bn))"
      "card_blk u = card_blk t" "held u = held t" "bio_upd t u"
    show "kwp (log_write b) E (\<lambda>_. kwp (brelse b) E (\<lambda>_. kwp K E Q)) u"
    proof (rule kok_E[OF log_write_ok[OF u(1) k u(2)]], elim conjE)
      fix v assume v: "log_inv k v" "holds v b bn" "blk v = blk u" "safe_rel v b" "card_blk v = card_blk u"
        "held v = held u" "bio_upd u v"
      show "kwp (brelse b) E (\<lambda>_. kwp K E Q) v"
        by (rule kok_E[OF lg.rel_ok[OF v(1,2,4)]], rule K)
          (use g bn u v t in \<open>auto simp: got_def fs_to_def intro: bio_upd_trans\<close>)
    qed
  qed
qed

lemma kthen_kret [simp]: "kthen m (kret ()) = m"
  by (rule ext) (simp add: kthen_def kbind_def kret_def split: outcome.split)

lemmas update_end_wp = update_wp[where K = "kret ()", unfolded kthen_kret kwp_kret]


section \<open>The free-block bitmap\<close>

lemma bit8: "(x :: u8) AND 2 ^ n = 0 \<longleftrightarrow> \<not> bit x n"
  using bit_iff_and_push_bit_not_eq_0[of x n] by simp

lemma bit_set_mark:
  assumes "length d = BSIZE" "j < BPB"
  shows "length (mark_bit j d) = BSIZE" "i < BPB \<Longrightarrow> bit_set (mark_bit j d) i \<longleftrightarrow> i = j \<or> bit_set d i"
proof -
  have j: "j div 8 < BSIZE" using assms(2) by (simp add: BPB_def BSIZE_def)
  show "length (mark_bit j d) = BSIZE" using assms(1) by (simp add: mark_bit_def)
  assume i: "i < BPB"
  have "i mod 8 < 8" by simp
  show "bit_set (mark_bit j d) i \<longleftrightarrow> i = j \<or> bit_set d i"
  proof (cases "i div 8 = j div 8")
    case True
    then have "i = j \<longleftrightarrow> i mod 8 = j mod 8" by (metis mod_div_mult_eq)
    then show ?thesis using True j assms(1)
      by (auto simp: bit_set_def mark_bit_def bit8 bit_simps)
  next
    case False
    then show ?thesis by (auto simp: bit_set_def mark_bit_def)
  qed
qed

lemma bit_set_flip:
  assumes "length d = BSIZE" "j < BPB"
  shows "length (flip_bit_at j d) = BSIZE"
    "i < BPB \<Longrightarrow> bit_set (flip_bit_at j d) i \<longleftrightarrow> (if i = j then \<not> bit_set d i else bit_set d i)"
proof -
  have j: "j div 8 < BSIZE" using assms(2) by (simp add: BPB_def BSIZE_def)
  show "length (flip_bit_at j d) = BSIZE" using assms(1) by (simp add: flip_bit_at_def)
  assume i: "i < BPB"
  show "bit_set (flip_bit_at j d) i \<longleftrightarrow> (if i = j then \<not> bit_set d i else bit_set d i)"
  proof (cases "i div 8 = j div 8")
    case True
    then have "i = j \<longleftrightarrow> i mod 8 = j mod 8" by (metis mod_div_mult_eq)
    then show ?thesis using True j assms(1)
      by (auto simp: bit_set_def flip_bit_at_def bit8 bit_simps)
  next
    case False
    then show ?thesis by (auto simp: bit_set_def flip_bit_at_def)
  qed
qed

text \<open>Freeing undoes marking, byte for byte.\<close>

lemma flip_mark:
  assumes "length d = BSIZE" "j < BPB" "\<not> bit_set d j"
  shows "flip_bit_at j (mark_bit j d) = d"
proof -
  have "(x OR 2 ^ n) XOR 2 ^ n = x" if "\<not> bit x n" for x :: u8 and n
    by (rule bit_word_eqI) (use that in \<open>auto simp: bit_simps\<close>)
  moreover have "j div 8 < length d" using assms(1,2) by (simp add: BPB_def BSIZE_def)
  ultimately show ?thesis using assms(3) by (simp add: flip_bit_at_def mark_bit_def bit_set_def bit8)
qed

lemma bzero_ok:
  assumes "log_inv (Suc k) s" "0 < k" "bn \<notin> held s" and few: "card (held s) \<le> 1"
  shows "kwp (bzero ROOTDEV bn) (\<lambda>_. False) (\<lambda>_. fs_to k s ((blk s)(bn := replicate BSIZE 0))) s"
  unfolding bzero_def
proof (rule bread_wp[OF assms(1) _ assms(3)])
  fix b t assume g: "got (Suc k) s bn b t"
  show "kwp (kthen (set_data b (\<lambda>d. replicate BSIZE 0)) (kthen (log_write b) (brelse b))) (\<lambda>_. False)
    (\<lambda>_. fs_to k s ((blk s)(bn := replicate BSIZE 0))) t"
    by (rule update_end_wp[OF g assms(2,3)]) simp_all
qed (use assms(2) few in simp_all)

lemma bfree_ok:
  fixes bn :: u32
  assumes inv: "log_inv (Suc k) s" and k: "0 < k" and nh: "BBLOCK bn (sb s) \<notin> held s"
    and st: "bit_set (blk s (BBLOCK bn (sb s))) (unat bn mod BPB)" and few: "card (held s) \<le> 1"
  shows "kwp (bfree ROOTDEV bn) (\<lambda>_. False) (\<lambda>_. fs_to k s ((blk s)(BBLOCK bn (sb s) :=
    flip_bit_at (unat bn mod BPB) (blk s (BBLOCK bn (sb s)))))) s"
  unfolding bfree_def kwp_kbind[of "kget sb"] kwp_kget
proof (rule bread_wp[OF inv _ nh])
  fix b t assume g: "got (Suc k) s (BBLOCK bn (sb s)) b t"
  then have t: "log_inv (Suc k) t" "holds t b (BBLOCK bn (sb s))" "blk t = blk s" by (auto simp: got_def)
  have len: "length (blk s (BBLOCK bn (sb s))) = BSIZE" using inv length_blk by (auto simp: log_inv_def)
  have j: "unat bn mod BPB < BPB" by (simp add: BPB_def)
  show "kwp (kbind (buf_data b) (\<lambda>d.
     if \<not> bit_set d (unat bn mod BPB) then panic ''Free block has been freed''
     else kthen (set_data b (flip_bit_at (unat bn mod BPB))) (kthen (log_write b) (brelse b)))) (\<lambda>_. False)
     (\<lambda>_. fs_to k s ((blk s)(BBLOCK bn (sb s) :=
       flip_bit_at (unat bn mod BPB) (blk s (BBLOCK bn (sb s)))))) t"
    by (rule data_wp[OF t(1,2)])
      (simp add: t(3) st update_end_wp[OF g k nh] bit_set_flip(1)[OF len j])
qed (use k few in simp_all)

lemma bfree_panics:
  fixes bn :: u32
  assumes inv: "log_inv k s" and k: "0 < k" and nh: "BBLOCK bn (sb s) \<notin> held s"
    and st: "\<not> bit_set (blk s (BBLOCK bn (sb s))) (unat bn mod BPB)" and few: "card (held s) \<le> 1"
  shows "kwp (bfree ROOTDEV bn) (\<lambda>e. e = Panic ''Free block has been freed'') (\<lambda>_ _. False) s"
  unfolding bfree_def kwp_kbind[of "kget sb"] kwp_kget
proof (rule bread_wp[OF inv k nh])
  fix b t assume g: "got k s (BBLOCK bn (sb s)) b t"
  then have t: "log_inv k t" "holds t b (BBLOCK bn (sb s))" "blk t = blk s" by (auto simp: got_def)
  show "kwp (kbind (buf_data b) (\<lambda>d.
     if \<not> bit_set d (unat bn mod BPB) then panic ''Free block has been freed''
     else kthen (set_data b (flip_bit_at (unat bn mod BPB))) (kthen (log_write b) (brelse b))))
     (\<lambda>e. e = Panic ''Free block has been freed'') (\<lambda>_ _. False) t"
    by (rule data_wp[OF t(1,2)]) (simp add: t(3) st kwp_kfault)
qed (use few in simp)


subsection \<open>Allocation\<close>

text \<open>What \<^verbatim>\<open>balloc\<close> looks for: the first bitmap block with a clear bit, and the bit.\<close>

primrec first_free :: "(u32 \<Rightarrow> u8 list) \<Rightarrow> superblock \<Rightarrow> nat list \<Rightarrow> (nat \<times> nat) option" where
  "first_free v b0 [] = None"
| "first_free v b0 (i # is) = (case List.find (\<lambda>j. \<not> bit_set (v (BBLOCK (of_nat i) b0)) j) [0..<BPB] of
     Some j \<Rightarrow> Some (i, j) | None \<Rightarrow> first_free v b0 is)"

definition allocated :: "(u32 \<Rightarrow> u8 list) \<Rightarrow> superblock \<Rightarrow> nat \<Rightarrow> nat \<Rightarrow> u32 \<Rightarrow> u8 list" where
  "allocated v b0 i j = (v(BBLOCK (of_nat i) b0 := mark_bit j (v (BBLOCK (of_nat i) b0))))
     (of_nat (i + j) := replicate BSIZE 0)"

lemma fs_to_trans: "fs_to k s v t \<Longrightarrow> fs_to k' t w u \<Longrightarrow> fs_to k' s w u"
  by (auto simp: fs_to_def intro: bio_upd_trans)

lemma fs_toD:
  assumes "fs_to k s v t"
  shows "log_inv k t" "blk t = v" "held t = held s" "bio_upd s t" "card_blk t = card_blk s"
  using assms by (auto simp: fs_to_def)

lemma find_upt_Some: "List.find P [0..<n] = Some j \<longleftrightarrow> j < n \<and> P j \<and> (\<forall>i<j. \<not> P i)"
  by (auto simp: find_Some_iff)

definition no_value :: fault where
  "no_value = Undef ''balloc: no value returned''"

lemma balloc_from_ok:
  fixes s :: "'z fs_state_scheme"
  assumes "log_inv (Suc (Suc k)) s" "0 < k" "\<And>i. i \<in> set is \<Longrightarrow> BBLOCK (of_nat i) (sb s) \<notin> held s"
    "\<And>i j. first_free (blk s) (sb s) is = Some (i, j) \<Longrightarrow> of_nat (i + j) \<notin> held s" "card (held s) \<le> 1"
  shows "kwp (balloc_from ROOTDEV is)
    (\<lambda>e. first_free (blk s) (sb s) is = None \<and> e = no_value)
    (\<lambda>a t. \<exists>i j. first_free (blk s) (sb s) is = Some (i, j) \<and> a = of_nat (i + j)
      \<and> fs_to k s (allocated (blk s) (sb s) i j) t) s"
  using assms
proof (induction "is" arbitrary: s)
  case Nil
  then show ?case by (simp add: wp_simps no_value_def)
next
  case (Cons i rs)
  let ?E = "\<lambda>e. first_free (blk s) (sb s) (i # rs) = None \<and> e = no_value"
  let ?Q = "\<lambda>a t. \<exists>ia j. first_free (blk s) (sb s) (i # rs) = Some (ia, j) \<and> a = of_nat (ia + j)
      \<and> fs_to k s (allocated (blk s) (sb s) ia j) t"
  let ?bb = "BBLOCK (of_nat i) (sb s)"
  have nb: "?bb \<notin> held s" using Cons.prems(3) by simp
  have len: "length (blk s ?bb) = BSIZE" using Cons.prems(1) length_blk by (auto simp: log_inv_def)
  show ?case unfolding balloc_from.simps kwp_kbind[of "kget sb"] kwp_kget
  proof (rule bread_wp[OF Cons.prems(1) _ nb], simp, use Cons.prems(5) in simp)
    fix b t assume g: "got (Suc (Suc k)) s ?bb b t"
    then have t: "log_inv (Suc (Suc k)) t" "holds t b ?bb" "blk t = blk s" by (auto simp: got_def)
    show "kwp (kbind (buf_data b) (\<lambda>d. case List.find (\<lambda>j. \<not> bit_set d j) [0..<BPB] of
         None \<Rightarrow> kthen (brelse b) (balloc_from ROOTDEV rs)
       | Some j \<Rightarrow> kthen (set_data b (mark_bit j)) (kthen (log_write b) (kthen (brelse b)
           (kthen (bzero ROOTDEV (of_nat (i + j))) (kret (of_nat (i + j)))))))) ?E ?Q t"
    proof (rule data_wp[OF t(1,2)], unfold t(3), cases "List.find (\<lambda>j. \<not> bit_set (blk s ?bb) j) [0..<BPB]")
      case None
      then have ff: "first_free (blk s) (sb s) (i # rs) = first_free (blk s) (sb s) rs" by simp
      show "kwp (case List.find (\<lambda>j. \<not> bit_set (blk s ?bb) j) [0..<BPB] of
         None \<Rightarrow> kthen (brelse b) (balloc_from ROOTDEV rs)
       | Some j \<Rightarrow> kthen (set_data b (mark_bit j)) (kthen (log_write b) (kthen (brelse b)
           (kthen (bzero ROOTDEV (of_nat (i + j))) (kret (of_nat (i + j))))))) ?E ?Q t"
        unfolding None option.case ff
      proof (rule release_wp[OF g nb])
        fix u assume u: "fs_to (Suc (Suc k)) s (blk s) u"
        note f = fs_toD[OF u] and sbu = fs_fields(7)[OF fs_toD(4)[OF u]]
        show "kwp (balloc_from ROOTDEV rs)
          (\<lambda>e. first_free (blk s) (sb s) rs = None \<and> e = no_value)
          (\<lambda>a t. \<exists>i j. first_free (blk s) (sb s) rs = Some (i, j) \<and> a = of_nat (i + j)
            \<and> fs_to k s (allocated (blk s) (sb s) i j) t) u"
          by (rule kwp_mono[OF Cons.IH[OF f(1) Cons.prems(2)]])
            (use Cons.prems(3-5) f ff sbu fs_to_trans[OF u] in auto)
      qed
    next
      case (Some j)
      then have ff: "first_free (blk s) (sb s) (i # rs) = Some (i, j)" by simp
      have j: "j < BPB" using Some by (simp add: find_upt_Some)
      have na: "of_nat (i + j) \<notin> held s" by (rule Cons.prems(4)[OF ff])
      show "kwp (case List.find (\<lambda>j. \<not> bit_set (blk s ?bb) j) [0..<BPB] of
         None \<Rightarrow> kthen (brelse b) (balloc_from ROOTDEV rs)
       | Some j \<Rightarrow> kthen (set_data b (mark_bit j)) (kthen (log_write b) (kthen (brelse b)
           (kthen (bzero ROOTDEV (of_nat (i + j))) (kret (of_nat (i + j))))))) ?E ?Q t"
        unfolding Some option.case
      proof (rule update_wp[OF g _ nb, where f = "mark_bit j", OF _ bit_set_mark(1)[OF len j]], simp,
          unfold kwp_kthen kwp_kret)
        fix u assume u: "fs_to (Suc k) s ((blk s)(?bb := mark_bit j (blk s ?bb))) u"
        note f = fs_toD[OF u]
        have nu: "of_nat (i + j) \<notin> held u" "card (held u) \<le> 1" using na f(3) Cons.prems(5) by simp_all
        show "kwp (bzero ROOTDEV (of_nat (i + j))) ?E (\<lambda>_. ?Q (of_nat (i + j))) u"
          by (rule kwp_mono[OF bzero_ok[OF f(1) Cons.prems(2) nu]])
            (use ff f(2) fs_to_trans[OF u] in \<open>auto simp: allocated_def\<close>)
      qed
    qed
  qed
qed

text \<open>In terms of block numbers it is the least one whose bit is clear.\<close>

definition block_free :: "(u32 \<Rightarrow> u8 list) \<Rightarrow> superblock \<Rightarrow> nat \<Rightarrow> bool" where
  "block_free v b0 n \<longleftrightarrow> \<not> bit_set (v (BBLOCK (of_nat n) b0)) (n mod BPB)"

definition bitmap_limit :: "u32 \<Rightarrow> nat" where
  "bitmap_limit n = (unat n + BPB - 1) div BPB * BPB"

lemma bitmap_limit_le: "bitmap_limit n \<le> 2 ^ 32" "unat n \<le> bitmap_limit n"
proof -
  have "unat n < 2 ^ 32" using unsigned_less[of n] by simp
  then show "bitmap_limit n \<le> 2 ^ 32" unfolding bitmap_limit_def BPB_def
    by (simp add: less_mult_imp_div_less)
  show "unat n \<le> bitmap_limit n" unfolding bitmap_limit_def BPB_def
    using div_mult_mod_eq[of "unat n + 4096 - 1" 4096] mod_less_divisor[of 4096 "unat n + 4096 - 1"] by linarith
qed

lemma BBLOCK_same:
  assumes "q * BPB + j < 2 ^ 32" "j < BPB"
  shows "BBLOCK (of_nat (q * BPB)) b0 = BBLOCK (of_nat (q * BPB + j)) b0"
proof -
  have u: "unat (of_nat (q * BPB) :: u32) = q * BPB" "unat (of_nat (q * BPB + j) :: u32) = q * BPB + j"
    by (rule unat_of_nat_u32, use assms in simp)+
  have "(of_nat (q * BPB) :: u32) div 4096 = of_nat (q * BPB + j) div 4096"
    by (rule word_unat_eq_iff[THEN iffD2]) (use u assms(2) in \<open>simp add: unat_div BPB_def del: of_nat_add of_nat_mult\<close>)
  then show ?thesis by (simp add: BBLOCK_def del: of_nat_add of_nat_mult)
qed

lemma first_free_Some:
  "first_free v b0 is = Some (i, j) \<Longrightarrow> \<exists>as bs. is = as @ i # bs \<and> j < BPB
    \<and> \<not> bit_set (v (BBLOCK (of_nat i) b0)) j \<and> (\<forall>j'<j. bit_set (v (BBLOCK (of_nat i) b0)) j')
    \<and> (\<forall>i'\<in>set as. \<forall>j'<BPB. bit_set (v (BBLOCK (of_nat i') b0)) j')"
proof (induction "is")
  case (Cons a rs)
  show ?case
  proof (cases "List.find (\<lambda>j. \<not> bit_set (v (BBLOCK (of_nat a) b0)) j) [0..<BPB]")
    case None
    then have full: "\<forall>j'<BPB. bit_set (v (BBLOCK (of_nat a) b0)) j'" by (auto simp: find_None_iff)
    from None Cons obtain as bs where "rs = as @ i # bs" "j < BPB"
      "\<not> bit_set (v (BBLOCK (of_nat i) b0)) j" "\<forall>j'<j. bit_set (v (BBLOCK (of_nat i) b0)) j'"
      "\<forall>i'\<in>set as. \<forall>j'<BPB. bit_set (v (BBLOCK (of_nat i') b0)) j'" by auto
    then show ?thesis using full by (intro exI[of _ "a # as"] exI[of _ bs]) auto
  next
    case (Some j')
    then have "i = a" "j = j'" using Cons.prems by auto
    then show ?thesis using Some by (intro exI[of _ "[]"] exI[of _ rs]) (auto simp: find_upt_Some)
  qed
qed simp

lemma first_free_None:
  "first_free v b0 is = None \<Longrightarrow> i \<in> set is \<Longrightarrow> j < BPB \<Longrightarrow> bit_set (v (BBLOCK (of_nat i) b0)) j"
  by (induction "is") (auto simp: find_None_iff split: option.splits)

lemma block_free_at:
  assumes "q * BPB + j < 2 ^ 32" "j < BPB"
  shows "block_free v b0 (q * BPB + j) \<longleftrightarrow> \<not> bit_set (v (BBLOCK (of_nat (q * BPB)) b0)) j"
  using BBLOCK_same[OF assms] assms(2) by (simp add: block_free_def del: of_nat_add of_nat_mult)

lemma first_free_least:
  assumes ff: "first_free v b0 (bitmap_firsts n) = Some (i, j)"
  shows "block_free v b0 (i + j) \<and> i + j < bitmap_limit n \<and> (\<forall>m<i + j. \<not> block_free v b0 m)"
proof -
  let ?c = "(unat n + BPB - 1) div BPB"
  obtain as bs where a: "map (\<lambda>q. q * BPB) [0..<?c] = as @ i # bs" "j < BPB"
    "\<not> bit_set (v (BBLOCK (of_nat i) b0)) j" "\<forall>j'<j. bit_set (v (BBLOCK (of_nat i) b0)) j'"
    "\<forall>i'\<in>set as. \<forall>j'<BPB. bit_set (v (BBLOCK (of_nat i') b0)) j'"
    using first_free_Some[OF ff] by (auto simp: bitmap_firsts_def)
  define q where "q = length as"
  have q: "q < ?c" using arg_cong[OF a(1), of length] by (simp add: q_def)
  have i: "i = q * BPB" using arg_cong[OF a(1), of "\<lambda>xs. xs ! q"] q by (simp add: q_def nth_append)
  have as: "as = map (\<lambda>q. q * BPB) [0..<q]" using arg_cong[OF a(1), of "take q"] q by (simp add: q_def take_map)
  have lim: "q * BPB + j < bitmap_limit n"
  proof -
    have "q * BPB + j < Suc q * BPB" using a(2) by simp
    also have "\<dots> \<le> ?c * BPB" using q by (intro mult_le_mono1) simp
    finally show ?thesis by (simp add: bitmap_limit_def)
  qed
  then have l32: "q * BPB + j < 2 ^ 32" using bitmap_limit_le(1)[of n] by linarith
  have "\<not> block_free v b0 m" if m: "m < i + j" for m
  proof -
    have md: "m = m div BPB * BPB + m mod BPB" "m mod BPB < BPB" by (simp_all add: BPB_def)
    have m32: "m div BPB * BPB + m mod BPB < 2 ^ 32" using md(1) m l32 i by simp
    have "bit_set (v (BBLOCK (of_nat (m div BPB * BPB)) b0)) (m mod BPB)"
    proof (cases "m div BPB = q")
      case True
      then show ?thesis using a(4) m i md(1) by (metis add_less_cancel_left)
    next
      case False
      moreover have "m div BPB \<le> q"
      proof -
        have "m < Suc q * BPB" using m i a(2) by simp
        then show ?thesis by (simp add: less_mult_imp_div_less less_Suc_eq_le[symmetric] del: mult_Suc)
      qed
      ultimately have "m div BPB * BPB \<in> set as" using as by auto
      then show ?thesis using a(5) md(2) by blast
    qed
    then show ?thesis using block_free_at[OF m32 md(2), of v b0] md(1) by simp
  qed
  then show ?thesis using lim block_free_at[OF l32 a(2), of v b0] a(3) i by simp
qed

lemma first_free_full:
  assumes ff: "first_free v b0 (bitmap_firsts n) = None" and m: "m < bitmap_limit n"
  shows "\<not> block_free v b0 m"
proof -
  have md: "m = m div BPB * BPB + m mod BPB" "m mod BPB < BPB" by (simp_all add: BPB_def)
  have m32: "m div BPB * BPB + m mod BPB < 2 ^ 32" using md(1) m bitmap_limit_le(1)[of n] by linarith
  have "m div BPB < (unat n + BPB - 1) div BPB"
    using m by (simp add: bitmap_limit_def less_mult_imp_div_less)
  then have "m div BPB * BPB \<in> set (bitmap_firsts n)" by (auto simp: bitmap_firsts_def)
  then show ?thesis
    using first_free_None[OF ff _ md(2)] block_free_at[OF m32 md(2), of v b0] md(1)
    by (simp del: of_nat_mult)
qed

end
