(* ===== verification/Inode.thy ===== *)
theory Inode
  imports Fs
begin

text \<open>
  Correctness of the inode layer of \<^verbatim>\<open>kern/fs.c\<close>: the on-disk encoding, the inode cache and its
  reference counts, and the content of an inode as a sequence of bytes that \<^verbatim>\<open>readi\<close> reads and
  \<^verbatim>\<open>writei\<close> changes.
\<close>

section \<open>On-disk inodes\<close>

lemma length_concat_le32 [simp]: "length (concat (map le32 xs)) = 4 * length xs"
  by (induction xs) simp_all

lemma length_enc_dinode: "length (di_addrs d) = Suc NDIRECT \<Longrightarrow> length (enc_dinode d) = DINODE_SIZE"
  by (simp add: enc_dinode_def NDIRECT_def DINODE_SIZE_def)

lemma slice_prefix: "length xs = off \<Longrightarrow> slice (xs @ ys) off n = take n ys"
  by (simp add: slice_def)

lemma dinode_roundtrip:
  assumes "length (di_addrs d) = Suc NDIRECT"
  shows "dec_dinode (enc_dinode d) = d"
proof -
  let ?h = "le16 (di_type d) @ le16 (di_major d) @ le16 (di_minor d) @ le16 (di_nlink d) @ le32 (di_size d)"
  let ?c = "concat (map le32 (di_addrs d))"
  have e: "enc_dinode d = ?h @ ?c" by (simp add: enc_dinode_def)
  have f: "slice (enc_dinode d) 0 2 = le16 (di_type d)" "slice (enc_dinode d) 2 2 = le16 (di_major d)"
    "slice (enc_dinode d) 4 2 = le16 (di_minor d)" "slice (enc_dinode d) 6 2 = le16 (di_nlink d)"
    "slice (enc_dinode d) 8 4 = le32 (di_size d)"
    by (simp_all add: enc_dinode_def slice_def)
  have "slice (enc_dinode d) (12 + 4 * i) 4 = le32 (di_addrs d ! i)" if "i < Suc NDIRECT" for i
  proof -
    have "slice (enc_dinode d) (12 + 4 * i) 4 = take 4 (drop (4 * i) ?c)" by (simp add: e slice_def)
    then show ?thesis using concat_le32_nth[of i "di_addrs d"] that assms by simp
  qed
  then have "map (\<lambda>i. unle32 (slice (enc_dinode d) (12 + 4 * i) 4)) [0..<Suc NDIRECT] = di_addrs d"
    using assms by (intro nth_equalityI) (simp_all del: upt_Suc)
  then show ?thesis unfolding dec_dinode_def f by simp
qed

text \<open>The inode numbered \<open>inum\<close>, as the blocks have it.\<close>

definition disk_ino :: "(u32 \<Rightarrow> u8 list) \<Rightarrow> superblock \<Rightarrow> u32 \<Rightarrow> dinode" where
  "disk_ino v b0 inum = dec_dinode (slice (v (IBLOCK inum b0)) (dino_off inum) DINODE_SIZE)"

definition store_ino :: "(u32 \<Rightarrow> u8 list) \<Rightarrow> superblock \<Rightarrow> u32 \<Rightarrow> dinode \<Rightarrow> u32 \<Rightarrow> u8 list" where
  "store_ino v b0 inum d = v(IBLOCK inum b0 := splice (v (IBLOCK inum b0)) (dino_off inum) (enc_dinode d))"

lemma dino_off_fit: "dino_off inum + DINODE_SIZE \<le> BSIZE"
proof -
  have "unat inum mod 8 < 8" by simp
  then show ?thesis unfolding dino_off_def DINODE_SIZE_def BSIZE_def IPB_def by linarith
qed

lemma disk_ino_store:
  assumes "length (di_addrs d) = Suc NDIRECT" "\<And>b. length (v b) = BSIZE"
  shows "disk_ino (store_ino v b0 inum d) b0 inum = d"
  using dino_off_fit[of inum] length_enc_dinode[OF assms(1)] dinode_roundtrip[OF assms(1)] assms(2)
  by (simp add: disk_ino_def store_ino_def slice_splice_same)

text \<open>Another inode keeps its contents: the slots of a block do not overlap.\<close>

lemma disk_ino_store_other:
  assumes ne: "i \<noteq> j" and d: "length (di_addrs d) = Suc NDIRECT" and v: "\<And>b. length (v b) = BSIZE"
  shows "disk_ino (store_ino v b0 i d) b0 j = disk_ino v b0 j"
proof (cases "IBLOCK i b0 = IBLOCK j b0")
  case True
  then have "i div 8 = j div 8" by (simp add: IBLOCK_def)
  then have "unat (i div 8) = unat (j div 8)" by simp
  then have "unat i div 8 = unat j div 8" by (simp add: unat_div)
  moreover have "unat i \<noteq> unat j" using ne by (simp add: word_unat_eq_iff)
  ultimately have "unat i mod 8 \<noteq> unat j mod 8" by (metis div_mult_mod_eq)
  then have "dino_off j + DINODE_SIZE \<le> dino_off i \<or> dino_off i + DINODE_SIZE \<le> dino_off j"
    unfolding dino_off_def DINODE_SIZE_def IPB_def by linarith
  then show ?thesis
    using True dino_off_fit length_enc_dinode[OF d] v
    by (simp add: disk_ino_def store_ino_def slice_splice_other)
qed (simp add: disk_ino_def store_ino_def)


section \<open>The inode cache\<close>

lemma fs_part [simp]:
  fixes s :: "'z fs_state_scheme"
  shows "log_inv k (s\<lparr>icache := ic\<rparr>) = log_inv k s" "blk (s\<lparr>icache := ic\<rparr>) = blk s"
    "card_blk (s\<lparr>icache := ic\<rparr>) = card_blk s" "held (s\<lparr>icache := ic\<rparr>) = held s"
    "holds (s\<lparr>icache := ic\<rparr>) i bn = holds s i bn" "safe_rel (s\<lparr>icache := ic\<rparr>) i = safe_rel s i"
    "log_inv k (s\<lparr>ic_lock := l\<rparr>) = log_inv k s" "blk (s\<lparr>ic_lock := l\<rparr>) = blk s"
    "card_blk (s\<lparr>ic_lock := l\<rparr>) = card_blk s" "held (s\<lparr>ic_lock := l\<rparr>) = held s"
  by (simp_all add: log_inv_def bc_inv_def sd_idle_def buf_ok_def held_def holds_def safe_rel_def
      card_blk_def fun_eq_iff blk_def cached_def heavy_def refs_def split: option.split)

lemma log_more_fs:
  "log_state.more s' = log_state.more (s :: 'z fs_state_scheme) \<longleftrightarrow>
    ic_lock s' = ic_lock s \<and> icache s' = icache s \<and> cwd s' = cwd s \<and> dev_read s' = dev_read s
    \<and> dev_write s' = dev_write s \<and> dev_out s' = dev_out s \<and> fs_state.more s' = fs_state.more s"
  by (cases s; cases s') simp

lemmas bio_upd_fs_iff = bio_upd_log_iff[where 'z = "'z fs_state_ext", unfolded log_more_fs]

definition ino_ok :: "inode \<Rightarrow> bool" where
  "ino_ok x \<longleftrightarrow> length (i_addrs x) = Suc NDIRECT \<and> slp_idle (i_lock x) \<and> 0 \<le> i_ref x
     \<and> (slp_locked (i_lock x) \<longrightarrow> 0 < i_ref x)"

text \<open>No lock of the layer is taken, and an inode has at most one referenced entry.\<close>

definition ic_inv :: "'z fs_state_scheme \<Rightarrow> bool" where
  "ic_inv s \<longleftrightarrow> spin_free (ic_lock s) \<and> length (icache s) = NINODE \<and> (\<forall>i<NINODE. ino_ok (icache s ! i))
     \<and> (\<forall>i<NINODE. \<forall>j<NINODE. 0 < i_ref (icache s ! i) \<longrightarrow> 0 < i_ref (icache s ! j) \<longrightarrow>
          i_dev (icache s ! i) = i_dev (icache s ! j) \<longrightarrow> i_inum (icache s ! i) = i_inum (icache s ! j) \<longrightarrow> i = j)"

definition ino_refs :: "'z fs_state_scheme \<Rightarrow> u32 \<Rightarrow> u32 \<Rightarrow> int" where
  "ino_refs s dev inum = (case List.find (is_cached_ino (icache s) dev inum) [0..<NINODE] of
     Some i \<Rightarrow> i_ref (icache s ! i) | None \<Rightarrow> 0)"

lemma ic_invD:
  assumes "ic_inv s"
  shows "spin_free (ic_lock s)" "length (icache s) = NINODE" "i < NINODE \<Longrightarrow> ino_ok (icache s ! i)"
    "i < NINODE \<Longrightarrow> j < NINODE \<Longrightarrow> 0 < i_ref (icache s ! i) \<Longrightarrow> 0 < i_ref (icache s ! j) \<Longrightarrow>
      i_dev (icache s ! i) = i_dev (icache s ! j) \<Longrightarrow> i_inum (icache s ! i) = i_inum (icache s ! j) \<Longrightarrow> i = j"
  using assms by (auto simp: ic_inv_def)

lemma ino_found:
  assumes "ic_inv s" "i < NINODE" "0 < i_ref (icache s ! i)" "i_dev (icache s ! i) = dev" "i_inum (icache s ! i) = inum"
  shows "List.find (is_cached_ino (icache s) dev inum) [0..<NINODE] = Some i"
  by (rule find_unique) (use assms ic_invD(4)[OF assms(1)] in \<open>auto simp: is_cached_ino_def\<close>)

lemmas ic_run_defs = on_iclock_def on_ilock_def get_ino_def upd_ino_def

text \<open>\<^verbatim>\<open>iget\<close> on its three branches.\<close>

lemma iget_hit:
  assumes "ic_inv s" "i < NINODE" "0 < i_ref (icache s ! i)" "i_dev (icache s ! i) = dev" "i_inum (icache s ! i) = inum"
  shows "iget dev inum s = Ok i (s\<lparr>icache := (icache s)[i := (icache s ! i)\<lparr>i_ref := i_ref (icache s ! i) + 1\<rparr>]\<rparr>)"
  using assms ic_invD(1,2)[OF assms(1)] ino_found[OF assms]
  by (simp add: iget_def ic_run_defs kop_defs)

definition new_ino :: "u32 \<Rightarrow> u32 \<Rightarrow> inode \<Rightarrow> inode" where
  "new_ino dev inum x = x\<lparr>i_dev := dev, i_inum := inum, i_ref := 1, i_size := 0, i_valid := False\<rparr>"

lemma iget_new:
  assumes "ic_inv s" "List.find (is_cached_ino (icache s) dev inum) [0..<NINODE] = None"
    "List.find (\<lambda>i. i_ref (icache s ! i) = 0) [0..<NINODE] = Some e"
  shows "iget dev inum s = Ok e (s\<lparr>icache := (icache s)[e := new_ino dev inum (icache s ! e)]\<rparr>)"
proof -
  have "e < NINODE" using assms(3) by (auto simp: find_Some_iff)
  then show ?thesis using assms ic_invD(1,2)[OF assms(1)]
    by (simp add: iget_def ic_run_defs kop_defs new_ino_def)
qed

lemma iget_full:
  assumes "ic_inv s" "List.find (is_cached_ino (icache s) dev inum) [0..<NINODE] = None"
    "List.find (\<lambda>i. i_ref (icache s ! i) = 0) [0..<NINODE] = None"
  shows "iget dev inum s = Fault (Panic ''Cannot alloc a inode'')"
  using assms ic_invD(1,2)[OF assms(1)] by (simp add: iget_def ic_run_defs kop_defs)


lemma ino_refs_hit:
  "ic_inv s \<Longrightarrow> i < NINODE \<Longrightarrow> 0 < i_ref (icache s ! i) \<Longrightarrow> i_dev (icache s ! i) = dev \<Longrightarrow>
    i_inum (icache s ! i) = inum \<Longrightarrow> ino_refs s dev inum = i_ref (icache s ! i)"
  using ino_found[of s i dev inum] by (simp add: ino_refs_def)

lemma ino_refs_miss:
  "(\<And>i. i < NINODE \<Longrightarrow> \<not> is_cached_ino (icache s) dev inum i) \<Longrightarrow> ino_refs s dev inum = 0"
  using find_upt_None[of "is_cached_ino (icache s) dev inum" NINODE] by (simp add: ino_refs_def)

lemma ino_refs_other:
  assumes "length (icache s) = NINODE" "e < NINODE" "icache t = (icache s)[e := y]"
    "\<not> is_cached_ino (icache s) d n e" "\<not> (i_dev y = d \<and> i_inum y = n \<and> 0 < i_ref y)"
  shows "ino_refs t d n = ino_refs s d n"
proof -
  have "is_cached_ino (icache t) d n i = is_cached_ino (icache s) d n i" if "i < NINODE" for i
    using assms that by (cases "i = e") (auto simp: is_cached_ino_def)
  then have f: "List.find (is_cached_ino (icache t) d n) [0..<NINODE] = List.find (is_cached_ino (icache s) d n) [0..<NINODE]"
    by (intro find_cong) auto
  have "i \<noteq> e" if "List.find (is_cached_ino (icache s) d n) [0..<NINODE] = Some i" for i
    using that assms(4) by (auto simp: find_Some_iff)
  then have "i_ref (icache t ! i) = i_ref (icache s ! i)"
    if "List.find (is_cached_ino (icache s) d n) [0..<NINODE] = Some i" for i
    using that assms(3) by simp
  then show ?thesis unfolding ino_refs_def f by (auto split: option.split)
qed

lemma ic_inv_update:
  assumes inv: "ic_inv s" and e: "e < NINODE" and y: "ino_ok y"
    and uq: "\<And>j. j < NINODE \<Longrightarrow> j \<noteq> e \<Longrightarrow> 0 < i_ref y \<Longrightarrow> 0 < i_ref (icache s ! j) \<Longrightarrow>
      i_dev (icache s ! j) = i_dev y \<Longrightarrow> i_inum (icache s ! j) \<noteq> i_inum y"
  shows "ic_inv (s\<lparr>icache := (icache s)[e := y]\<rparr>)"
proof -
  have nth: "(icache s)[e := y] ! i = (if i = e then y else icache s ! i)" for i
    using e ic_invD(2)[OF inv] by (simp add: nth_list_update)
  have "i = j" if "i < NINODE" "j < NINODE" "0 < i_ref ((icache s)[e := y] ! i)" "0 < i_ref ((icache s)[e := y] ! j)"
      "i_dev ((icache s)[e := y] ! i) = i_dev ((icache s)[e := y] ! j)"
      "i_inum ((icache s)[e := y] ! i) = i_inum ((icache s)[e := y] ! j)" for i j
    using that uq[of i] uq[of j] ic_invD(4)[OF inv, of i j] unfolding nth by (cases "i = e"; cases "j = e") auto
  then show ?thesis using inv y e unfolding ic_inv_def
    by (auto simp: nth_list_update)
qed

text \<open>\<^verbatim>\<open>iget\<close> counts one more reference to the inode, and to no other.\<close>

definition iget_post :: "u32 \<Rightarrow> u32 \<Rightarrow> 'z fs_state_scheme \<Rightarrow> nat \<Rightarrow> 'z fs_state_scheme \<Rightarrow> bool" where
  "iget_post dev inum s i t \<longleftrightarrow> i < NINODE \<and> ic_inv t \<and> i_dev (icache t ! i) = dev \<and> i_inum (icache t ! i) = inum
     \<and> ino_refs t dev inum = ino_refs s dev inum + 1
     \<and> (\<forall>d n. (d, n) \<noteq> (dev, inum) \<longrightarrow> ino_refs t d n = ino_refs s d n)
     \<and> t = s\<lparr>icache := (icache s)[i := icache t ! i]\<rparr>"

lemma iget_ok:
  assumes inv: "ic_inv s"
  shows "kwp (iget dev inum)
    (\<lambda>e. e = Panic ''Cannot alloc a inode'' \<and> ino_refs s dev inum = 0 \<and> (\<forall>i<NINODE. 0 < i_ref (icache s ! i)))
    (iget_post dev inum s) s"
proof (cases "List.find (is_cached_ino (icache s) dev inum) [0..<NINODE]")
  case (Some i)
  then have i: "i < NINODE" "0 < i_ref (icache s ! i)" "i_dev (icache s ! i) = dev" "i_inum (icache s ! i) = inum"
    by (auto simp: find_Some_iff is_cached_ino_def)
  let ?y = "(icache s ! i)\<lparr>i_ref := i_ref (icache s ! i) + 1\<rparr>"
  let ?t = "s\<lparr>icache := (icache s)[i := ?y]\<rparr>"
  have len: "length (icache s) = NINODE" by (rule ic_invD(2)[OF inv])
  have inv': "ic_inv ?t"
  proof (rule ic_inv_update[OF inv i(1)])
    show "ino_ok ?y" using ic_invD(3)[OF inv i(1)] by (auto simp: ino_ok_def)
    fix j assume "j < NINODE" "j \<noteq> i" "0 < i_ref (icache s ! j)" "i_dev (icache s ! j) = i_dev ?y"
    then show "i_inum (icache s ! j) \<noteq> i_inum ?y" using ic_invD(4)[OF inv _ i(1) _ i(2), of j] by auto
  qed
  have "ino_refs ?t dev inum = i_ref (icache ?t ! i)"
    by (rule ino_refs_hit[OF inv' i(1)]) (use i len in simp_all)
  moreover have "ino_refs s dev inum = i_ref (icache s ! i)" by (rule ino_refs_hit[OF inv i(1,2,3,4)])
  moreover have "ino_refs ?t d n = ino_refs s d n" if "(d, n) \<noteq> (dev, inum)" for d n
    by (rule ino_refs_other[OF len i(1), where y = ?y]) (use that i in \<open>auto simp: is_cached_ino_def\<close>)
  ultimately show ?thesis using iget_hit[OF inv i] inv' i len
    by (simp add: kwp_Ok iget_post_def)
next
  case None
  then have no: "\<not> is_cached_ino (icache s) dev inum i" if "i < NINODE" for i
    using that by (simp add: find_upt_None)
  have len: "length (icache s) = NINODE" by (rule ic_invD(2)[OF inv])
  have r0: "ino_refs s dev inum = 0" by (rule ino_refs_miss) (rule no)
  show ?thesis
  proof (cases "List.find (\<lambda>i. i_ref (icache s ! i) = 0) [0..<NINODE]")
    case n2: None
    then have "\<forall>i<NINODE. 0 < i_ref (icache s ! i)"
      using ic_invD(3)[OF inv] by (fastforce simp: find_upt_None ino_ok_def)
    then show ?thesis using iget_full[OF inv None n2] r0 by (simp add: kwp_def)
  next
    case (Some e)
    then have e: "e < NINODE" "i_ref (icache s ! e) = 0" by (auto simp: find_Some_iff)
    let ?y = "new_ino dev inum (icache s ! e)" let ?t = "s\<lparr>icache := (icache s)[e := ?y]\<rparr>"
    have inv': "ic_inv ?t"
    proof (rule ic_inv_update[OF inv e(1)])
      show "ino_ok ?y" using ic_invD(3)[OF inv e(1)] by (auto simp: ino_ok_def new_ino_def)
      fix j assume "j < NINODE" "0 < i_ref (icache s ! j)" "i_dev (icache s ! j) = i_dev ?y"
      then show "i_inum (icache s ! j) \<noteq> i_inum ?y" using no[of j] by (auto simp: is_cached_ino_def new_ino_def)
    qed
    have "ino_refs ?t dev inum = i_ref (icache ?t ! e)"
      by (rule ino_refs_hit[OF inv' e(1)]) (use e len in \<open>simp_all add: new_ino_def\<close>)
    moreover have "ino_refs ?t d n = ino_refs s d n" if "(d, n) \<noteq> (dev, inum)" for d n
      by (rule ino_refs_other[OF len e(1), where y = ?y])
        (use that e in \<open>auto simp: is_cached_ino_def new_ino_def\<close>)
    ultimately show ?thesis using iget_new[OF inv None Some] inv' e len r0
      by (simp add: kwp_Ok iget_post_def new_ino_def)
  qed
qed


section \<open>Locking, loading and storing an inode\<close>

lemma got_icache: "got k s bn b t \<Longrightarrow> got k (s\<lparr>icache := ic\<rparr>) bn b (t\<lparr>icache := ic\<rparr>)"
  by (simp add: got_def bio_upd_fs_iff)

lemma fs_to_icache: "fs_to k s v t \<Longrightarrow> fs_to k (s\<lparr>icache := ic\<rparr>) v (t\<lparr>icache := ic\<rparr>)"
  by (simp add: fs_to_def bio_upd_fs_iff)

definition taken :: "u32 \<Rightarrow> sleeplock \<Rightarrow> sleeplock" where
  "taken pid l = l\<lparr>slp_locked := True, slp_pid := pid\<rparr>"

text \<open>The entry after \<^verbatim>\<open>ilock\<close>: loaded from the inode's slot unless it was valid.\<close>

definition locked_ino :: "'z fs_state_scheme \<Rightarrow> nat \<Rightarrow> inode" where
  "locked_ino s ip = (let x = (icache s ! ip)\<lparr>i_lock := taken (this_pid s) (i_lock (icache s ! ip))\<rparr> in
     if i_valid x then x
     else (load_dinode (disk_ino (blk s) (sb s) (i_inum x)) x)\<lparr>i_valid := True\<rparr>)"

lemma get_ino_run: "ip < length (icache s) \<Longrightarrow> get_ino ip s = Ok (icache s ! ip) s"
  by (simp add: get_ino_def)

lemma upd_ino_run: "ip < length (icache s) \<Longrightarrow> upd_ino ip f s = Ok () (s\<lparr>icache := (icache s)[ip := f (icache s ! ip)]\<rparr>)"
  by (simp add: upd_ino_def)

lemma ilock_ok:
  assumes inv: "log_inv k s" "0 < k" "ic_inv s" and ip: "ip < NINODE" "\<not> slp_locked (i_lock (icache s ! ip))"
    "i_dev (icache s ! ip) = ROOTDEV" and nh: "IBLOCK (i_inum (icache s ! ip)) (sb s) \<notin> held s"
    and few: "card (held s) \<le> 1"
  shows "kwp (ilock ip) (\<lambda>_. False) (\<lambda>_. fs_to k (s\<lparr>icache := (icache s)[ip := locked_ino s ip]\<rparr>) (blk s)) s"
proof -
  have len: "length (icache s) = NINODE" by (rule ic_invD(2)[OF inv(3)])
  define x where "x = (icache s ! ip)\<lparr>i_lock := taken (this_pid s) (i_lock (icache s ! ip))\<rparr>"
  define s1 where "s1 = s\<lparr>icache := (icache s)[ip := x]\<rparr>"
  have a: "on_ilock ip acquiresleep s = Ok () s1"
    using ic_invD(3)[OF inv(3) ip(1)] ip len
    by (simp add: ic_run_defs kop_defs acquiresleep_free ino_ok_def s1_def x_def taken_def)
  have g1: "get_ino ip s1 = Ok x s1" using ip len by (simp add: get_ino_def s1_def)
  let ?bn = "IBLOCK (i_inum x) (sb s)"
  let ?d = "disk_ino (blk s) (sb s) (i_inum x)"
  show ?thesis
  proof (cases "i_valid x")
    case True
    then have "ilock ip s = Ok () s1" using a g1 by (simp add: ilock_def)
    moreover have "locked_ino s ip = x" using True by (simp add: locked_ino_def x_def Let_def)
    ultimately show ?thesis using inv by (simp add: kwp_Ok fs_to_def s1_def)
  next
    case False
    let ?K = "\<lambda>b0. kbind (bread (i_dev x) (IBLOCK (i_inum x) b0)) (\<lambda>b.
        kbind (buf_data b) (\<lambda>d.
        kthen (upd_ino ip (load_dinode (dec_dinode (slice d (dino_off (i_inum x)) DINODE_SIZE))))
        (kthen (brelse b)
        (upd_ino ip (\<lambda>x. x\<lparr>i_valid := True\<rparr>)))))"
    have run: "ilock ip s = ?K (sb s) s1" using a g1 False by (simp add: ilock_def s1_def)
    have dev: "i_dev x = ROOTDEV" and inum: "i_inum x = i_inum (icache s ! ip)" using ip(3) by (simp_all add: x_def)
    have lo: "locked_ino s ip = (load_dinode ?d x)\<lparr>i_valid := True\<rparr>" using False by (simp add: locked_ino_def x_def Let_def)
    have nb: "?bn \<notin> held s1" and i1: "log_inv k s1" and f1: "card (held s1) \<le> 3"
      using nh inum inv few by (simp_all add: s1_def)
    let ?Q = "\<lambda>_. fs_to k (s\<lparr>icache := (icache s)[ip := locked_ino s ip]\<rparr>) (blk s)"
    have "kwp (?K (sb s)) (\<lambda>_. False) ?Q s1" unfolding dev
    proof (rule bread_wp[OF i1 inv(2) nb f1])
      fix b t assume g: "got k s1 ?bn b t"
      then have t: "log_inv k t" "holds t b ?bn" "blk t = blk s" "bio_upd s1 t" by (auto simp: got_def s1_def)
      have it: "icache t = (icache s)[ip := x]" using fs_fields(1)[OF t(4)] by (simp add: s1_def)
      let ?ic = "(icache s)[ip := load_dinode ?d x]"
      have u1: "upd_ino ip (load_dinode ?d) t = Ok () (t\<lparr>icache := ?ic\<rparr>)"
        using it ip len by (simp add: upd_ino_run)
      have g2: "got k (s1\<lparr>icache := ?ic\<rparr>) ?bn b (t\<lparr>icache := ?ic\<rparr>)" by (rule got_icache[OF g])
      have nb2: "?bn \<notin> held (s1\<lparr>icache := ?ic\<rparr>)" using nb by simp
      show "kwp (kbind (buf_data b) (\<lambda>d.
          kthen (upd_ino ip (load_dinode (dec_dinode (slice d (dino_off (i_inum x)) DINODE_SIZE))))
          (kthen (brelse b) (upd_ino ip (\<lambda>x. x\<lparr>i_valid := True\<rparr>))))) (\<lambda>_. False) ?Q t"
      proof (rule data_wp[OF t(1,2)], unfold t(3) disk_ino_def[symmetric] kwp_kthen[of "upd_ino ip (load_dinode ?d)"]
          kwp_Ok[of "upd_ino ip (load_dinode ?d)", OF u1], rule release_wp[OF g2 nb2])
        fix u assume u: "fs_to k (s1\<lparr>icache := ?ic\<rparr>) (blk (s1\<lparr>icache := ?ic\<rparr>)) u"
        have iu: "icache u = ?ic" using fs_fields(1)[OF fs_toD(4)[OF u]] by simp
        have u2: "upd_ino ip (\<lambda>x. x\<lparr>i_valid := True\<rparr>) u = Ok () (u\<lparr>icache := (icache s)[ip := locked_ino s ip]\<rparr>)"
          using iu ip len lo by (simp add: upd_ino_run)
        show "kwp (upd_ino ip (\<lambda>x. x\<lparr>i_valid := True\<rparr>)) (\<lambda>_. False) ?Q u"
          using fs_to_icache[OF u, of "(icache s)[ip := locked_ino s ip]"]
          by (simp add: kwp_def u2 s1_def)
      qed
    qed
    then show ?thesis unfolding kwp_def run by simp
  qed
qed

lemma iupdate_ok:
  assumes inv: "log_inv (Suc k) s" "0 < k" "ic_inv s" and ip: "ip < NINODE" "i_dev (icache s ! ip) = ROOTDEV"
    and nh: "IBLOCK (i_inum (icache s ! ip)) (sb s) \<notin> held s" and few: "card (held s) \<le> 1"
  shows "kwp (iupdate ip) (\<lambda>_. False)
    (\<lambda>_. fs_to k s (store_ino (blk s) (sb s) (i_inum (icache s ! ip)) (dino_of (icache s ! ip)))) s"
proof -
  let ?x = "icache s ! ip" let ?bn = "IBLOCK (i_inum (icache s ! ip)) (sb s)"
  let ?f = "\<lambda>d. splice d (dino_off (i_inum ?x)) (enc_dinode (dino_of ?x))"
  have run: "iupdate ip s = kbind (bread ROOTDEV ?bn) (\<lambda>b. kthen (set_data b ?f) (kthen (log_write b) (brelse b))) s"
    using ip ic_invD(2)[OF inv(3)] by (simp add: iupdate_def get_ino_run)
  have "length (di_addrs (dino_of ?x)) = Suc NDIRECT"
    using ic_invD(3)[OF inv(3) ip(1)] by (simp add: ino_ok_def dino_of_def)
  then have l: "length (?f (blk s ?bn)) = BSIZE"
    using dino_off_fit[of "i_inum ?x"] length_enc_dinode inv(1) length_blk[of "Suc k" s ?bn]
    by (simp add: log_inv_def)
  have "kwp (kbind (bread ROOTDEV ?bn) (\<lambda>b. kthen (set_data b ?f) (kthen (log_write b) (brelse b)))) (\<lambda>_. False)
      (\<lambda>_. fs_to k s (store_ino (blk s) (sb s) (i_inum ?x) (dino_of ?x))) s"
  proof (rule bread_wp[OF inv(1) _ nh], simp, use few in simp)
    fix b t assume g: "got (Suc k) s ?bn b t"
    show "kwp (kthen (set_data b ?f) (kthen (log_write b) (brelse b))) (\<lambda>_. False)
      (\<lambda>_. fs_to k s (store_ino (blk s) (sb s) (i_inum ?x) (dino_of ?x))) t"
      by (rule update_end_wp[where f = ?f, OF g inv(2) nh l]) (simp add: store_ino_def)
  qed
  then show ?thesis unfolding kwp_def run .
qed


section \<open>Content\<close>

text \<open>Reading a buffer that has just been released still sees its data.\<close>

lemma release_data_wp:
  assumes g: "got k s bn b t" and nh: "bn \<notin> held s" and K: "\<And>u. fs_to k s (blk s) u \<Longrightarrow> kwp (K (blk s bn)) E Q u"
  shows "kwp (kthen (brelse b) (kbind (buf_data b) K)) E Q t"
proof -
  have t: "log_inv k t" "holds t b bn" "safe_rel t b" "blk t = blk s" using g by (auto simp: got_def)
  have bi: "bc_inv k t" using t(1) by (simp add: log_inv_def)
  have b: "b < NBUF" using t(2) by (simp add: holds_def)
  obtain cl where cl: "brelse b t = Ok () (t\<lparr>bufs := (bufs t)[b := drop_ref (bufs t ! b)], bc_clist := cl\<rparr>)"
    by (rule brelse_run[OF bc_invD(3)[OF bi] b bc_invD(2,4)[OF bi]])
      (use bc_invD(5)[OF bi b] t(2) in \<open>auto simp: buf_ok_def holds_def\<close>)
  let ?u = "t\<lparr>bufs := (bufs t)[b := drop_ref (bufs t ! b)], bc_clist := cl\<rparr>"
  have "kwp (kthen (brelse b) (kret ())) (\<lambda>_. False) (\<lambda>_. fs_to k s (blk s)) t"
    by (rule release_wp[OF g nh]) (simp add: wp_simps)
  then have u: "fs_to k s (blk s) ?u" using cl by (simp add: kwp_def)
  have "buf_data b ?u = Ok (blk s bn) ?u"
    using holds_blk[OF bi t(2)] t(4) b bc_invD(3)[OF bi]
    by (simp add: buf_data_def get_buf_def drop_ref_def)
  then show ?thesis using cl K[OF u] by (simp add: kwp_def)
qed

definition addr_of :: "(u32 \<Rightarrow> u8 list) \<Rightarrow> inode \<Rightarrow> nat \<Rightarrow> u32" where
  "addr_of v x n = (if n < NDIRECT then i_addrs x ! n else word_at (v (i_addrs x ! NDIRECT)) (n - NDIRECT))"

definition mapped :: "(u32 \<Rightarrow> u8 list) \<Rightarrow> inode \<Rightarrow> nat \<Rightarrow> bool" where
  "mapped v x n \<longleftrightarrow> n < MAXFILE \<and> addr_of v x n \<noteq> 0 \<and> (NDIRECT \<le> n \<longrightarrow> i_addrs x ! NDIRECT \<noteq> 0)"

text \<open>\<^verbatim>\<open>bmap\<close> of a block that exists only looks it up.\<close>

lemma bmap_mapped:
  assumes inv: "log_inv k s" "0 < k" "ic_inv s" and ip: "ip < NINODE" "i_dev (icache s ! ip) = ROOTDEV"
    and m: "mapped (blk s) (icache s ! ip) n" and nh: "i_addrs (icache s ! ip) ! NDIRECT \<notin> held s" and few: "card (held s) \<le> 1"
  shows "kwp (bmap ip (of_nat n)) (\<lambda>_. False)
    (\<lambda>a t. a = addr_of (blk s) (icache s ! ip) n \<and> fs_to k s (blk s) t) s"
proof -
  let ?x = "icache s ! ip" let ?a = "i_addrs (icache s ! ip) ! NDIRECT"
  have len: "ip < length (icache s)" using ic_invD(2)[OF inv(3)] ip by simp
  have n: "n < MAXFILE" using m by (simp add: mapped_def)
  then have un: "unat (of_nat n :: u32) = n" by (intro unat_of_nat_u32) (simp add: fs_consts)
  have self: "fs_to k s (blk s) s" using inv by (simp add: fs_to_def)
  show ?thesis
  proof (cases "n < NDIRECT")
    case True
    then have "bmap ip (of_nat n) s = Ok (addr_of (blk s) ?x n) s"
      using m len by (simp add: bmap_def Let_def un get_ino_run mapped_def addr_of_def)
    then show ?thesis using self by (simp add: kwp_Ok)
  next
    case False
    then have i: "n - NDIRECT < NINDIRECT" "?a \<noteq> 0" "addr_of (blk s) ?x n = word_at (blk s ?a) (n - NDIRECT)"
      "word_at (blk s ?a) (n - NDIRECT) \<noteq> 0"
      using m n by (auto simp: mapped_def addr_of_def fs_consts)
    let ?K = "\<lambda>b. kbind (buf_data b) (\<lambda>d.
        kthen (kwhen (word_at d (n - NDIRECT) = 0)
          (kbind (balloc ROOTDEV) (\<lambda>a. set_data b (put_word (n - NDIRECT) a))))
        (kthen (brelse b)
        (kbind (buf_data b) (\<lambda>e. kret (word_at e (n - NDIRECT))))))"
    have run: "bmap ip (of_nat n) s = kbind (bread ROOTDEV ?a) ?K s"
      using i False len ip(2) by (simp add: bmap_def Let_def un get_ino_run)
    have "kwp (kbind (bread ROOTDEV ?a) ?K) (\<lambda>_. False)
      (\<lambda>a t. a = addr_of (blk s) ?x n \<and> fs_to k s (blk s) t) s"
    proof (rule bread_wp[OF inv(1,2) nh], use few in simp)
      fix b t assume g: "got k s ?a b t"
      then have t: "log_inv k t" "holds t b ?a" "blk t = blk s" by (auto simp: got_def)
      show "kwp (?K b) (\<lambda>_. False) (\<lambda>a t. a = addr_of (blk s) ?x n \<and> fs_to k s (blk s) t) t"
      proof (rule data_wp[OF t(1,2)], unfold t(3))
        have e: "kthen (kwhen (word_at (blk s ?a) (n - NDIRECT) = 0)
            (kbind (balloc ROOTDEV) (\<lambda>a. set_data b (put_word (n - NDIRECT) a)))) M = M" for M
          using i(4) by (simp add: kthen_def kbind_def kret_def)
        show "kwp (kthen (kwhen (word_at (blk s ?a) (n - NDIRECT) = 0)
            (kbind (balloc ROOTDEV) (\<lambda>a. set_data b (put_word (n - NDIRECT) a))))
            (kthen (brelse b) (kbind (buf_data b) (\<lambda>e. kret (word_at e (n - NDIRECT)))))) (\<lambda>_. False)
          (\<lambda>a t. a = addr_of (blk s) ?x n \<and> fs_to k s (blk s) t) t"
          unfolding e by (rule release_data_wp[OF g nh]) (use i(3) in \<open>simp add: wp_simps\<close>)
      qed
    qed
    then show ?thesis unfolding kwp_def run .
  qed
qed

text \<open>The bytes of a file.\<close>

definition file_byte :: "(u32 \<Rightarrow> u8 list) \<Rightarrow> inode \<Rightarrow> nat \<Rightarrow> u8" where
  "file_byte v x p = v (addr_of v x (p div BSIZE)) ! (p mod BSIZE)"

definition file_bytes :: "(u32 \<Rightarrow> u8 list) \<Rightarrow> inode \<Rightarrow> nat \<Rightarrow> nat \<Rightarrow> u8 list" where
  "file_bytes v x off n = map (file_byte v x) [off..<off + n]"

lemma chunk_div:
  assumes "i < chunk off n"
  shows "(off + i) div BSIZE = off div BSIZE" "(off + i) mod BSIZE = off mod BSIZE + i"
proof -
  have i: "off mod BSIZE + i < BSIZE" using assms by (auto simp: chunk_def BSIZE_def)
  have e: "off = BSIZE * (off div BSIZE) + off mod BSIZE" by simp
  show d: "(off + i) div BSIZE = off div BSIZE"
  proof (rule div_nat_eqI)
    show "BSIZE * (off div BSIZE) \<le> off + i" using e by linarith
    show "off + i < BSIZE * Suc (off div BSIZE)" unfolding mult_Suc_right using e i by linarith
  qed
  have "off + i = BSIZE * ((off + i) div BSIZE) + (off + i) mod BSIZE" by simp
  then show "(off + i) mod BSIZE = off mod BSIZE + i" using e unfolding d by linarith
qed

lemma chunk_fit: "off mod BSIZE + chunk off n \<le> BSIZE"
  using mod_less_divisor[of BSIZE off] by (simp add: chunk_def BSIZE_def)

lemma file_bytes_chunk:
  assumes "length (v (addr_of v x (off div BSIZE))) = BSIZE"
  shows "slice (v (addr_of v x (off div BSIZE))) (off mod BSIZE) (chunk off n) = file_bytes v x off (chunk off n)"
  by (rule nth_equalityI)
    (use assms chunk_fit[of off n] in \<open>auto simp: file_bytes_def nth_slice file_byte_def chunk_div\<close>)

lemma file_bytes_append: "file_bytes v x off m @ file_bytes v x (off + m) n = file_bytes v x off (m + n)"
  unfolding file_bytes_def map_append[symmetric] add.assoc[symmetric]
  using upt_add_eq_append[of off "off + m" n] by simp

definition reach_ok :: "'z fs_state_scheme \<Rightarrow> inode \<Rightarrow> nat \<Rightarrow> nat \<Rightarrow> bool" where
  "reach_ok s x off n \<longleftrightarrow> i_addrs x ! NDIRECT \<notin> held s
     \<and> (\<forall>p. off \<le> p \<longrightarrow> p < off + n \<longrightarrow> mapped (blk s) x (p div BSIZE) \<and> addr_of (blk s) x (p div BSIZE) \<notin> held s)"

lemma reach_ok_mono: "reach_ok s x off n \<Longrightarrow> off \<le> off' \<Longrightarrow> off' + n' \<le> off + n \<Longrightarrow> reach_ok s x off' n'"
  by (auto simp: reach_ok_def)

lemma ic_inv_fields: "bio_upd s t \<Longrightarrow> ic_inv t = ic_inv s"
  using fs_fields(1,2)[of s t] by (simp add: ic_inv_def)

lemma readi_loop_ok:
  fixes s :: "'z fs_state_scheme"
  assumes "log_inv k s" "0 < k" "ic_inv s" "ip < NINODE" "i_dev (icache s ! ip) = ROOTDEV"
    "reach_ok s (icache s ! ip) off n" "card (held s) \<le> 1"
  shows "kwp (readi_loop ip off n) (\<lambda>_. False)
    (\<lambda>d t. d = file_bytes (blk s) (icache s ! ip) off n \<and> fs_to k s (blk s) t) s"
  using assms
proof (induction n arbitrary: off s rule: less_induct)
  case (less n)
  let ?x = "icache s ! ip" let ?a = "addr_of (blk s) (icache s ! ip) (off div BSIZE)" let ?m = "chunk off n"
  have len: "ip < length (icache s)" using ic_invD(2)[OF less.prems(3)] less.prems(4) by simp
  show ?case
  proof (cases "n = 0")
    case True
    then show ?thesis using less.prems(1) by (simp add: kwp_def file_bytes_def fs_to_def)
  next
    case False
    have mp: "mapped (blk s) ?x (off div BSIZE)" "?a \<notin> held s" "i_addrs ?x ! NDIRECT \<notin> held s"
      using less.prems(6) False by (auto simp: reach_ok_def)
    let ?R = "\<lambda>d. kbind (readi_loop ip (off + ?m) (n - ?m)) (\<lambda>rest. kret (slice d (off mod BSIZE) ?m @ rest))"
    let ?K = "\<lambda>a. kbind (bread ROOTDEV a) (\<lambda>b. kbind (buf_data b) (\<lambda>d. kthen (brelse b) (?R d)))"
    let ?Q = "\<lambda>d t. d = file_bytes (blk s) ?x off n \<and> fs_to k s (blk s) t"
    have run: "readi_loop ip off n s = kbind (bmap ip (of_nat (off div BSIZE))) ?K s"
      using False len less.prems(5) by (simp add: get_ino_run del: readi_loop.simps) (simp add: get_ino_run)
    have "kwp (kbind (bmap ip (of_nat (off div BSIZE))) ?K) (\<lambda>_. False) ?Q s" unfolding kwp_kbind[of "bmap _ _"]
    proof (rule kwp_conseq[OF bmap_mapped[OF less.prems(1-5) mp(1,3) less.prems(7)]], elim conjE, hypsubst)
      fix t assume t: "fs_to k s (blk s) t"
      note ft = fs_toD[OF t]
      have nt: "?a \<notin> held t" using mp(2) ft(3) by simp
      show "kwp (?K ?a) (\<lambda>_. False) ?Q t"
      proof (rule bread_wp[OF ft(1) less.prems(2) nt], use ft(3) less.prems(7) in simp)
        fix b u assume g: "got k t ?a b u"
        then have u: "log_inv k u" "holds u b ?a" "blk u = blk s" using ft(2) by (auto simp: got_def)
        show "kwp (kbind (buf_data b) (\<lambda>d. kthen (brelse b) (?R d))) (\<lambda>_. False) ?Q u"
        proof (rule data_wp[OF u(1,2)], rule release_wp[OF g nt], unfold u(3) kwp_kbind kwp_kret)
          fix w assume "fs_to k t (blk t) w"
          then have w: "fs_to k s (blk s) w" using fs_to_trans[OF t] ft(2) by simp
          note fw = fs_toD[OF w] and iw = fs_fields(1)[OF fs_toD(4)[OF w]]
          have lt: "n - ?m < n" using chunk_pos[of n off] False by simp
          have ro: "reach_ok w (icache w ! ip) (off + ?m) (n - ?m)"
            using reach_ok_mono[OF less.prems(6), of "off + ?m" "n - ?m"] chunk_le[of off n] fw iw
            by (simp add: reach_ok_def)
          have la: "length (blk s ?a) = BSIZE" using less.prems(1) length_blk by (auto simp: log_inv_def)
          show "kwp (readi_loop ip (off + ?m) (n - ?m)) (\<lambda>_. False)
            (\<lambda>rest. ?Q (slice (blk s ?a) (off mod BSIZE) ?m @ rest)) w"
            by (rule kwp_conseq[OF less.IH[OF lt fw(1) less.prems(2) _ less.prems(4) _ ro]])
              (use ic_inv_fields[OF fw(4)] less.prems iw fw(2,3) file_bytes_chunk[where v = "blk s" and n = n, OF la] fs_to_trans[OF w]
                file_bytes_append[of "blk s" ?x off ?m "n - ?m"] chunk_le[of off n] in auto)
        qed
      qed
    qed
    then show ?thesis unfolding kwp_def run .
  qed
qed


lemma unat_ucast_u64 [simp]: "unat (ucast (w :: u32) :: u64) = unat w"
proof -
  have "unat w < 2 ^ LENGTH(32)" by (rule unsigned_less)
  then have "unat w < 2 ^ 64" by simp
  then show ?thesis by (simp add: unsigned_ucast_eq take_bit_nat_eq_self)
qed

lemma unat_add_no_wrap:
  fixes a b :: u64
  assumes "\<not> a + b < a"
  shows "unat (a + b) = unat a + unat b"
proof -
  have ab: "unat a < 2 ^ 64" "unat b < 2 ^ 64" using unsigned_less[of a] unsigned_less[of b] by simp_all
  have e: "unat (a + b) = (unat a + unat b) mod 2 ^ 64" by (simp add: unat_word_ariths)
  have "unat a \<le> unat (a + b)" using assms by (simp add: word_le_nat_alt not_less)
  show ?thesis
  proof (cases "unat a + unat b < 2 ^ 64")
    case False
    then have "(unat a + unat b) mod 2 ^ 64 = (unat a + unat b - 2 ^ 64) mod 2 ^ 64" by (intro le_mod_geq) simp
    also have "\<dots> = unat a + unat b - 2 ^ 64" using ab by (intro mod_less) linarith
    finally show ?thesis using \<open>unat a \<le> unat (a + b)\<close> e ab False by linarith
  qed (simp add: e)
qed

lemma readi_len:
  fixes off n sz :: u64
  assumes "\<not> off > sz" "\<not> off + n < off"
  shows "unat (if off + n > sz then sz - off else n) = min (unat n) (unat sz - unat off)"
proof -
  have o: "unat off \<le> unat sz" using assms(1) by (simp add: word_le_nat_alt not_less)
  then have "unat (sz - off) = unat sz - unat off" by (simp add: unat_sub_if_size word_le_nat_alt)
  moreover have "off + n > sz \<longleftrightarrow> unat off + unat n > unat sz"
    using unat_add_no_wrap[OF assms(2)] by (simp add: word_less_nat_alt)
  ultimately show ?thesis by auto
qed

text \<open>\<^verbatim>\<open>readi\<close> returns the bytes of the file from the offset on, cut at the end of the file.\<close>

definition read_len :: "inode \<Rightarrow> u64 \<Rightarrow> u64 \<Rightarrow> nat" where
  "read_len x off n = min (unat n) (unat (i_size x) - unat off)"

lemma readi_ok:
  assumes inv: "log_inv k s" "0 < k" "ic_inv s" and ip: "ip < NINODE" "i_dev (icache s ! ip) = ROOTDEV"
    "i_type (icache s ! ip) \<noteq> T_DEV" and off: "unat off \<le> unat (i_size (icache s ! ip))" "\<not> off + n < off"
    and r: "reach_ok s (icache s ! ip) (unat off) (read_len (icache s ! ip) off n)" and few: "card (held s) \<le> 1"
  shows "kwp (readi ip off n) (\<lambda>_. False) (\<lambda>(c, d) t. c = int (read_len (icache s ! ip) off n)
    \<and> d = file_bytes (blk s) (icache s ! ip) (unat off) (read_len (icache s ! ip) off n) \<and> fs_to k s (blk s) t) s"
proof -
  let ?x = "icache s ! ip"
  have us: "unat (ucast (i_size ?x) :: u64) = unat (i_size ?x)" by simp
  have c: "\<not> off > ucast (i_size ?x)" using off(1) by (simp add: word_less_nat_alt)
  let ?m = "if off + n > ucast (i_size ?x) then ucast (i_size ?x) - off else n"
  have m: "unat ?m = read_len ?x off n" using readi_len[OF c off(2)] us by (simp only: read_len_def)
  have run: "readi ip off n s = kbind (readi_loop ip (unat off) (unat ?m)) (\<lambda>d. kret (int (unat ?m), d)) s"
    using ip c off(2) ic_invD(2)[OF inv(3)] by (simp add: readi_def get_ino_run Let_def)
  show ?thesis unfolding kwp_def run unfolding kwp_def[symmetric] m kwp_kbind kwp_kret
    by (rule kwp_conseq[OF readi_loop_ok[OF inv ip(1,2) r few]]) auto
qed

lemma readi_beyond:
  assumes "ip < length (icache s)" "i_type (icache s ! ip) \<noteq> T_DEV"
    "unat (i_size (icache s ! ip)) < unat off \<or> off + n < off"
  shows "readi ip off n s = Ok (-1, []) s"
  using assms by (auto simp: readi_def get_ino_run word_less_nat_alt)


subsection \<open>Writing\<close>

text \<open>Distinct blocks of a file have distinct addresses, none of them the indirect block.\<close>

definition file_wf :: "(u32 \<Rightarrow> u8 list) \<Rightarrow> inode \<Rightarrow> bool" where
  "file_wf v x \<longleftrightarrow> (\<forall>m n. mapped v x m \<longrightarrow> mapped v x n \<longrightarrow> addr_of v x m = addr_of v x n \<longrightarrow> m = n)
     \<and> (\<forall>n. mapped v x n \<longrightarrow> addr_of v x n \<noteq> i_addrs x ! NDIRECT)"

definition written :: "(u32 \<Rightarrow> u8 list) \<Rightarrow> inode \<Rightarrow> nat \<Rightarrow> u8 list \<Rightarrow> (u32 \<Rightarrow> u8 list) \<Rightarrow> bool" where
  "written v x off bs w \<longleftrightarrow> addr_of w x = addr_of v x
     \<and> (\<forall>p. mapped v x (p div BSIZE) \<longrightarrow> file_byte w x p =
          (if off \<le> p \<and> p < off + length bs then bs ! (p - off) else file_byte v x p))
     \<and> (\<forall>b. (\<forall>p. off \<le> p \<longrightarrow> p < off + length bs \<longrightarrow> addr_of v x (p div BSIZE) \<noteq> b) \<longrightarrow> w b = v b)"

lemma mapped_same: "addr_of w x = addr_of v x \<Longrightarrow> mapped w x = mapped v x"
  by (simp add: mapped_def fun_eq_iff)

lemma file_wf_same: "addr_of w x = addr_of v x \<Longrightarrow> file_wf w x = file_wf v x"
  using mapped_same[of w x v] by (simp add: file_wf_def)

lemma written_trans:
  assumes 1: "written v x off bs u" and 2: "written u x (off + length bs) cs w"
  shows "written v x off (bs @ cs) w"
proof -
  have a: "addr_of u x = addr_of v x" "addr_of w x = addr_of v x" using 1 2 by (auto simp: written_def)
  have "file_byte w x p = (if off \<le> p \<and> p < off + length (bs @ cs) then (bs @ cs) ! (p - off) else file_byte v x p)"
    if "mapped v x (p div BSIZE)" for p
    using 1 2 that mapped_same[OF a(1)] by (auto simp: written_def nth_append)
  moreover have "w b = v b" if "\<forall>p. off \<le> p \<longrightarrow> p < off + length (bs @ cs) \<longrightarrow> addr_of v x (p div BSIZE) \<noteq> b" for b
  proof -
    have "\<forall>p. off + length bs \<le> p \<longrightarrow> p < off + length bs + length cs \<longrightarrow> addr_of u x (p div BSIZE) \<noteq> b"
      "\<forall>p. off \<le> p \<longrightarrow> p < off + length bs \<longrightarrow> addr_of v x (p div BSIZE) \<noteq> b"
      using that a(1) by auto
    then have "w b = u b" "u b = v b" using 1 2 unfolding written_def by blast+
    then show ?thesis by simp
  qed
  ultimately show ?thesis using a by (simp add: written_def)
qed

lemma addr_of_upd: "a \<noteq> i_addrs x ! NDIRECT \<Longrightarrow> addr_of (v(a := d)) x = addr_of v x"
  by (simp add: addr_of_def fun_eq_iff)

text \<open>One chunk.\<close>

lemma written_chunk:
  assumes wf: "file_wf v x" and m: "mapped v x (off div BSIZE)" and bs: "length bs = chunk off n" "0 < n"
    and len: "length (v (addr_of v x (off div BSIZE))) = BSIZE"
  shows "written v x off bs (v(addr_of v x (off div BSIZE) :=
    splice (v (addr_of v x (off div BSIZE))) (off mod BSIZE) bs))" (is "written v x off bs ?w")
proof -
  let ?a = "addr_of v x (off div BSIZE)"
  have na: "?a \<noteq> i_addrs x ! NDIRECT" using wf m by (simp add: file_wf_def)
  then have ad: "addr_of ?w x = addr_of v x" by (rule addr_of_upd)
  have fit: "off mod BSIZE + length bs \<le> length (v ?a)" using chunk_fit[of off n] bs len by simp
  have "file_byte ?w x p = (if off \<le> p \<and> p < off + length bs then bs ! (p - off) else file_byte v x p)"
    if mp: "mapped v x (p div BSIZE)" for p
  proof (cases "p div BSIZE = off div BSIZE")
    case True
    have pm: "p mod BSIZE < BSIZE" by (simp add: BSIZE_def)
    have e: "p = BSIZE * (off div BSIZE) + p mod BSIZE" "off = BSIZE * (off div BSIZE) + off mod BSIZE"
      using mult_div_mod_eq[of BSIZE p] mult_div_mod_eq[of BSIZE off] True by simp_all
    have "off \<le> p \<and> p < off + length bs \<longleftrightarrow> off mod BSIZE \<le> p mod BSIZE \<and> p mod BSIZE < off mod BSIZE + length bs"
      "p - off = p mod BSIZE - off mod BSIZE" using e by linarith+
    then show ?thesis using nth_splice[OF fit, of "p mod BSIZE"] pm len True by (simp add: file_byte_def ad)
  next
    case False
    then have "addr_of v x (p div BSIZE) \<noteq> ?a" using wf m mp by (auto simp: file_wf_def)
    moreover have "\<not> (off \<le> p \<and> p < off + length bs)"
    proof
      assume "off \<le> p \<and> p < off + length bs"
      then have "p - off < chunk off n" "off + (p - off) = p" using bs(1) by auto
      then show False using False chunk_div(1)[of "p - off" off n] by metis
    qed
    ultimately show ?thesis by (auto simp: file_byte_def ad)
  qed
  moreover have "?w b = v b" if "\<forall>p. off \<le> p \<longrightarrow> p < off + length bs \<longrightarrow> addr_of v x (p div BSIZE) \<noteq> b" for b
    using that chunk_pos[OF bs(2), of off] bs(1) by auto
  ultimately show ?thesis using ad by (auto simp: written_def)
qed


text \<open>The number of blocks that \<open>n\<close> bytes from \<open>off\<close> on touch.\<close>

definition span :: "nat \<Rightarrow> nat \<Rightarrow> nat" where
  "span off n = (if n = 0 then 0 else Suc ((off + n - 1) div BSIZE - off div BSIZE))"

lemma span_step:
  assumes n: "0 < n"
  shows "span off n = Suc (span (off + chunk off n) (n - chunk off n))"
proof -
  have B: "0 < BSIZE" by (simp add: BSIZE_def)
  have o: "off = BSIZE * (off div BSIZE) + off mod BSIZE" "off mod BSIZE < BSIZE" using B by simp_all
  show ?thesis
  proof (cases "n \<le> BSIZE - off mod BSIZE")
    case True
    have "BSIZE * (off div BSIZE) \<le> off + n - 1" "off + n - 1 < BSIZE * Suc (off div BSIZE)"
      unfolding mult_Suc_right using o True n by linarith+
    then have "(off + n - 1) div BSIZE = off div BSIZE" by (rule div_nat_eqI)
    then show ?thesis using True n by (simp add: span_def chunk_def min_def)
  next
    case False
    let ?m = "BSIZE - off mod BSIZE"
    have m: "chunk off n = ?m" using False by (simp add: chunk_def min_def)
    have om: "off + ?m = BSIZE * Suc (off div BSIZE)" unfolding mult_Suc_right using o by linarith
    then have d: "(off + ?m) div BSIZE = Suc (off div BSIZE)" using B by (metis nonzero_mult_div_cancel_left less_numeral_extra(3))
    have "off + ?m \<le> off + n - 1" using False by simp
    then have "Suc (off div BSIZE) \<le> (off + n - 1) div BSIZE" using d div_le_mono by metis
    moreover have "off + ?m + (n - ?m) - 1 = off + n - 1" using False by simp
    ultimately show ?thesis using False n d by (simp add: span_def m)
  qed
qed

lemma writei_loop_ok:
  fixes s :: "'z fs_state_scheme"
  assumes "log_inv (k + span off n) s" "0 < k" "ic_inv s" "ip < NINODE" "i_dev (icache s ! ip) = ROOTDEV"
    "reach_ok s (icache s ! ip) off n" "file_wf (blk s) (icache s ! ip)" "n \<le> length src" "card (held s) \<le> 1"
  shows "kwp (writei_loop ip src off n) (\<lambda>_. False)
    (\<lambda>_ t. \<exists>w. written (blk s) (icache s ! ip) off (take n src) w \<and> fs_to k s w t) s"
  using assms
proof (induction n arbitrary: off src s rule: less_induct)
  case (less n)
  let ?x = "icache s ! ip" let ?a = "addr_of (blk s) (icache s ! ip) (off div BSIZE)" let ?m = "chunk off n"
  have len: "ip < length (icache s)" using ic_invD(2)[OF less.prems(3)] less.prems(4) by simp
  show ?case
  proof (cases "n = 0")
    case True
    then show ?thesis using less.prems(1)
      by (auto simp: kwp_def fs_to_def written_def span_def intro!: exI[of _ "blk s"])
  next
    case False
    have mp: "mapped (blk s) ?x (off div BSIZE)" "?a \<notin> held s" "i_addrs ?x ! NDIRECT \<notin> held s"
      using less.prems(6) False by (auto simp: reach_ok_def)
    have m: "0 < ?m" "?m \<le> n" using chunk_pos chunk_le False by auto
    let ?f = "\<lambda>d. splice d (off mod BSIZE) (take ?m src)"
    let ?R = "writei_loop ip (drop ?m src) (off + ?m) (n - ?m)"
    let ?K = "\<lambda>a. kbind (bread ROOTDEV a) (\<lambda>b. kthen (set_data b ?f) (kthen (log_write b) (kthen (brelse b) ?R)))"
    let ?Q = "\<lambda>(_::unit) t. \<exists>w. written (blk s) ?x off (take n src) w \<and> fs_to k s w t"
    have run: "writei_loop ip src off n s = kbind (bmap ip (of_nat (off div BSIZE))) ?K s"
      using False len less.prems(5) by (simp add: get_ino_run del: writei_loop.simps) (simp add: get_ino_run)
    have kn: "log_inv (Suc (k + span (off + ?m) (n - ?m))) s" "0 < Suc (k + span (off + ?m) (n - ?m))" "0 < k + span (off + ?m) (n - ?m)"
      using less.prems(1,2) span_step[of n off] False by simp_all
    have la: "length (blk s ?a) = BSIZE" using less.prems(1) length_blk by (auto simp: log_inv_def)
    have lb: "length (take ?m src) = ?m" using m(2) less.prems(8) by simp
    have lf: "length (?f (blk s ?a)) = BSIZE" using chunk_fit[of off n] la lb by simp
    have wr: "written (blk s) ?x off (take ?m src) ((blk s)(?a := ?f (blk s ?a)))"
      by (rule written_chunk[where n = n, OF less.prems(7) mp(1) lb _ la]) (use False in simp)
    have "kwp (kbind (bmap ip (of_nat (off div BSIZE))) ?K) (\<lambda>_. False) ?Q s" unfolding kwp_kbind[of "bmap _ _"]
    proof (rule kwp_conseq[OF bmap_mapped[OF kn(1,2) less.prems(3-5) mp(1,3) less.prems(9)]], elim conjE, hypsubst)
      fix t assume t: "fs_to (Suc (k + span (off + ?m) (n - ?m))) s (blk s) t"
      note ft = fs_toD[OF t]
      have nt: "?a \<notin> held t" using mp(2) ft(3) by simp
      have lt: "length (?f (blk t ?a)) = BSIZE" using lf ft(2) by simp
      show "kwp (?K ?a) (\<lambda>_. False) ?Q t"
      proof (rule bread_wp[OF ft(1) kn(2) nt], use ft(3) less.prems(9) in simp, rule update_wp[where f = ?f, OF _ kn(3) nt lt], assumption)
        fix w assume "fs_to (k + span (off + ?m) (n - ?m)) t ((blk t)(?a := ?f (blk t ?a))) w"
        then have w: "fs_to (k + span (off + ?m) (n - ?m)) s ((blk s)(?a := ?f (blk s ?a))) w" using fs_to_trans[OF t] ft(2) by simp
        note fw = fs_toD[OF w] and iw = fs_fields(1)[OF fs_toD(4)[OF w]]
        have ad: "addr_of (blk w) ?x = addr_of (blk s) ?x" using wr fw(2) by (simp add: written_def)
        have nl: "n - ?m < n" using m False by simp
        have ro: "reach_ok w (icache w ! ip) (off + ?m) (n - ?m)"
          using reach_ok_mono[OF less.prems(6), of "off + ?m" "n - ?m"] m(2) fw(3) iw ad mapped_same[OF ad]
          by (simp add: reach_ok_def)
        have wf: "file_wf (blk w) (icache w ! ip)" using file_wf_same[OF ad] less.prems(7) iw by simp
        have tk: "take n src = take ?m src @ take (n - ?m) (drop ?m src)"
          using m(2) by (metis le_add_diff_inverse take_add)
        show "kwp ?R (\<lambda>_. False) ?Q w"
        proof (rule kwp_conseq[OF less.IH[OF nl fw(1) less.prems(2) _ less.prems(4) _ ro wf]])
          show "ic_inv w" "i_dev (icache w ! ip) = ROOTDEV" "n - ?m \<le> length (drop ?m src)" "card (held w) \<le> 1"
            using ic_inv_fields[OF fw(4)] less.prems(3,5,8,9) iw fw(3) by simp_all
          fix t' assume "\<exists>w'. written (blk w) (icache w ! ip) (off + ?m) (take (n - ?m) (drop ?m src)) w' \<and> fs_to k w w' t'"
          then obtain w' where w': "written (blk w) ?x (off + ?m) (take (n - ?m) (drop ?m src)) w'" "fs_to k w w' t'"
            using iw by auto
          have "written (blk s) ?x off (take n src) w'" unfolding tk
            by (rule written_trans[OF wr]) (use w'(1) fw(2) lb in simp)
          then show "\<exists>w. written (blk s) ?x off (take n src) w \<and> fs_to k s w t'"
            using fs_to_trans[OF w w'(2)] by blast
        qed
      qed
    qed
    then show ?thesis unfolding kwp_def run .
  qed
qed

text \<open>Overwriting part of a file changes these bytes and no others.\<close>

lemma writei_ok:
  assumes inv: "log_inv (k + span (unat off) (unat n)) s" "0 < k" "ic_inv s" and ip: "ip < NINODE" "i_dev (icache s ! ip) = ROOTDEV"
    "i_type (icache s ! ip) \<noteq> T_DEV"
    and fits: "unat off + unat n \<le> unat (i_size (icache s ! ip))" "unat off + unat n \<le> MAXFILE * BSIZE"
    and r: "reach_ok s (icache s ! ip) (unat off) (unat n)" and wf: "file_wf (blk s) (icache s ! ip)"
    and src: "unat n \<le> length src" and few: "card (held s) \<le> 1"
  shows "kwp (writei ip src off n) (\<lambda>_. False) (\<lambda>c t. c = int (unat n)
    \<and> (\<exists>w. written (blk s) (icache s ! ip) (unat off) (take (unat n) src) w \<and> fs_to k s w t)) s"
proof -
  let ?x = "icache s ! ip"
  have "unat off + unat n < 2 ^ 64" using fits(2) by (simp add: fs_consts BSIZE_def)
  then have un: "unat (off + n) = unat off + unat n" by (simp add: unat_word_ariths)
  have c: "\<not> off > ucast (i_size ?x)" "\<not> off + n < off" "\<not> unat (off + n) > MAXFILE * BSIZE"
    "\<not> off + n > ucast (i_size ?x)"
    using fits un by (simp_all add: word_less_nat_alt)
  have run: "writei ip src off n s = kthen (writei_loop ip src (unat off) (unat n))
       (kbind (get_ino ip) (\<lambda>y.
        kthen (kwhen (n > 0 \<and> off + n > ucast (i_size y))
          (kthen (upd_ino ip (\<lambda>z. z\<lparr>i_size := ucast (off + n)\<rparr>)) (iupdate ip)))
        (kret (int (unat n))))) s"
    using ip c ic_invD(2)[OF inv(3)] by (simp add: writei_def get_ino_run)
  show ?thesis unfolding kwp_def run unfolding kwp_def[symmetric] kwp_kthen[of "writei_loop _ _ _ _"]
  proof (rule kwp_conseq[OF writei_loop_ok[OF inv ip(1,2) r wf src few]], elim exE conjE)
    fix t w assume w: "written (blk s) ?x (unat off) (take (unat n) src) w" "fs_to k s w t"
    have "icache t = icache s" using fs_fields(1)[OF fs_toD(4)[OF w(2)]] .
    then show "kwp (kbind (get_ino ip) (\<lambda>y.
        kthen (kwhen (n > 0 \<and> off + n > ucast (i_size y))
          (kthen (upd_ino ip (\<lambda>z. z\<lparr>i_size := ucast (off + n)\<rparr>)) (iupdate ip)))
        (kret (int (unat n))))) (\<lambda>_. False) (\<lambda>c t. c = int (unat n)
        \<and> (\<exists>w. written (blk s) ?x (unat off) (take (unat n) src) w \<and> fs_to k s w t)) t"
      using w c(4) ip ic_invD(2)[OF inv(3)] by (auto simp: kwp_def get_ino_run)
  qed
qed

end
