(* ===== verification/Dirs.thy ===== *)
theory Dirs
  imports Inode
begin

text \<open>
  Directories and path names, the last two layers of \<^verbatim>\<open>kern/fs.c\<close>. A name is the view of the
  bytes from a pointer on; a directory entry is the 16 bytes of \<^verbatim>\<open>struct dirent\<close>.
\<close>

section \<open>Directories\<close>

definition DE_SIZE :: nat where "DE_SIZE = 16"

definition de_inum :: "u8 list \<Rightarrow> u16" where
  "de_inum de = unle16 (slice de 0 2)"

definition de_name :: "u8 list \<Rightarrow> u8 list" where
  "de_name de = slice de 2 DIRSIZ"

definition enc_dirent :: "u16 \<Rightarrow> u8 list \<Rightarrow> u8 list" where
  "enc_dirent inum nm = le16 inum @ nm"

text \<open>A pointer to a list of bytes; behind it there is a zero.\<close>

definition ptr :: "u8 list \<Rightarrow> nat \<Rightarrow> u8" where
  "ptr xs i = (if i < length xs then xs ! i else 0)"

definition namecmp :: "(nat \<Rightarrow> u8) \<Rightarrow> (nat \<Rightarrow> u8) \<Rightarrow> int" where
  "namecmp s t = strncmp s t DIRSIZ"

text \<open>One turn of the loops over a directory: the entry at \<open>off\<close>, or a panic.\<close>

definition read_dirent :: "string \<Rightarrow> nat \<Rightarrow> nat \<Rightarrow> ('z fs_state_scheme, u8 list) kop" where
  "read_dirent msg dp off =
     kbind (readi dp (of_nat off) (of_nat DE_SIZE)) (\<lambda>(r, de).
     if r \<noteq> int DE_SIZE then panic msg else kret de)"

lemma next_dirent: "off < unat (w :: u32) \<Longrightarrow> 2 ^ 32 - (off + DE_SIZE) < 2 ^ 32 - off"
proof -
  have "unat w < 2 ^ LENGTH(32)" by (rule unsigned_less)
  then show "off < unat w \<Longrightarrow> 2 ^ 32 - (off + DE_SIZE) < 2 ^ 32 - off" by (simp add: DE_SIZE_def)
qed

text \<open>\<^verbatim>\<open>dirlookup\<close>: the inode, and the offset stored through \<^verbatim>\<open>poff\<close>.\<close>

function dirlookup_from :: "nat \<Rightarrow> (nat \<Rightarrow> u8) \<Rightarrow> nat \<Rightarrow> ('z fs_state_scheme, (nat \<times> nat) option) kop" where
  "dirlookup_from dp name off s =
     kbind (get_ino dp) (\<lambda>x.
     if off < unat (i_size x) then
       kbind (read_dirent ''dirlookup read'' dp off) (\<lambda>de.
       if de_inum de = 0 then dirlookup_from dp name (off + DE_SIZE)
       else if namecmp name (ptr (de_name de)) = 0 then
         kbind (iget (i_dev x) (ucast (de_inum de))) (\<lambda>ip. kret (Some (ip, off)))
       else dirlookup_from dp name (off + DE_SIZE))
     else kret None) s"
  by pat_completeness auto

termination
  by (relation "measure (\<lambda>(dp, name, off, s). 2 ^ 32 - off)")
    (auto dest: next_dirent)

definition dirlookup :: "nat \<Rightarrow> (nat \<Rightarrow> u8) \<Rightarrow> ('z fs_state_scheme, (nat \<times> nat) option) kop" where
  "dirlookup dp name =
     kbind (get_ino dp) (\<lambda>x.
     if i_type x \<noteq> T_DIR then panic ''dirlookup not DIR'' else dirlookup_from dp name 0)"

function free_dirent :: "nat \<Rightarrow> nat \<Rightarrow> ('z fs_state_scheme, nat) kop" where
  "free_dirent dp off s =
     kbind (get_ino dp) (\<lambda>x.
     if off < unat (i_size x) then
       kbind (read_dirent ''dirlink read'' dp off) (\<lambda>de.
       if de_inum de = 0 then kret off else free_dirent dp (off + DE_SIZE))
     else kret off) s"
  by pat_completeness auto
termination
  by (relation "measure (\<lambda>(dp, off, s). 2 ^ 32 - off)")
    (auto dest: next_dirent)

definition dirlink :: "nat \<Rightarrow> (nat \<Rightarrow> u8) \<Rightarrow> u32 \<Rightarrow> ('z fs_state_scheme, int) kop" where
  "dirlink dp name inum =
     kbind (dirlookup dp name) (\<lambda>r.
     case r of
       Some (ip, _) \<Rightarrow> kthen (iput ip) (kret (-1))
     | None \<Rightarrow>
         kbind (free_dirent dp 0) (\<lambda>off.
         kbind (writei dp (enc_dirent (ucast inum) (strncpy_bytes name DIRSIZ)) (of_nat off) (of_nat DE_SIZE)) (\<lambda>c.
         if c \<noteq> int DE_SIZE then panic ''dirlink'' else kret 0)))"


section \<open>Paths\<close>

text \<open>
  A path is the list of its characters up to the terminator. \<^verbatim>\<open>skipelem\<close> returns the rest of
  the path and the new contents of the \<^verbatim>\<open>name\<close> buffer.
\<close>

definition SLASH :: u8 where "SLASH = 47"

definition put_name :: "u8 list \<Rightarrow> u8 list \<Rightarrow> u8 list" where
  "put_name el name = (if length el \<ge> DIRSIZ then splice name 0 (take DIRSIZ el)
     else splice name 0 (el @ [0]))"

definition skipelem :: "u8 list \<Rightarrow> u8 list \<Rightarrow> (u8 list \<times> u8 list) option" where
  "skipelem path name =
     (let p = dropWhile (\<lambda>c. c = SLASH) path in
      if p = [] then None
      else
        let el = takeWhile (\<lambda>c. c \<noteq> SLASH) p;
            q = dropWhile (\<lambda>c. c \<noteq> SLASH) p
        in Some (dropWhile (\<lambda>c. c = SLASH) q, put_name el name))"

lemma skipelem_shorter: "skipelem path name = Some (rest, nm) \<Longrightarrow> length rest < length path"
proof -
  assume a: "skipelem path name = Some (rest, nm)"
  let ?p = "dropWhile (\<lambda>c. c = SLASH) path"
  have p: "?p \<noteq> []" "rest = dropWhile (\<lambda>c. c = SLASH) (dropWhile (\<lambda>c. c \<noteq> SLASH) ?p)"
    using a by (auto simp: skipelem_def Let_def split: if_splits)
  obtain c cs where c: "?p = c # cs" using p(1) by (cases ?p) auto
  have "hd ?p \<noteq> SLASH" using p(1) hd_dropWhile by blast
  then have "rest = dropWhile (\<lambda>c. c = SLASH) (dropWhile (\<lambda>c. c \<noteq> SLASH) cs)" using p(2) c by simp
  then have "length rest \<le> length cs"
    using length_dropWhile_le[of "\<lambda>c. c = SLASH" "dropWhile (\<lambda>c. c \<noteq> SLASH) cs"]
      length_dropWhile_le[of "\<lambda>c. c \<noteq> SLASH" cs] by (simp add: order_trans)
  then show ?thesis using c length_dropWhile_le[of "\<lambda>c. c = SLASH" path] by simp
qed

function namex_loop :: "bool \<Rightarrow> u8 list \<Rightarrow> u8 list \<Rightarrow> nat \<Rightarrow> ('z fs_state_scheme, nat option \<times> u8 list) kop" where
  "namex_loop parent path name ip s =
     (case skipelem path name of
        None \<Rightarrow>
          (if parent then kthen (iput ip) (kret (None, name)) s else Ok (Some ip, name) s)
      | Some (rest, nm) \<Rightarrow>
          kthen (ilock ip)
          (kbind (get_ino ip) (\<lambda>x.
           if i_type x \<noteq> T_DIR then kthen (iunlockput ip) (kret (None, nm))
           else if parent \<and> rest = [] then kthen (iunlock ip) (kret (Some ip, nm))
           else
             kbind (dirlookup ip (ptr nm)) (\<lambda>r.
             case r of
               None \<Rightarrow> kthen (iunlockput ip) (kret (None, nm))
             | Some (nxt, _) \<Rightarrow> kthen (iunlockput ip) (namex_loop parent rest nm nxt)))) s)"
  by pat_completeness auto
termination
  by (relation "measure (\<lambda>(parent, path, name, ip, s). length path)") (auto dest: skipelem_shorter)

definition namex :: "u8 list \<Rightarrow> bool \<Rightarrow> u8 list \<Rightarrow> ('z fs_state_scheme, nat option \<times> u8 list) kop" where
  "namex path parent name =
     kbind (if path \<noteq> [] \<and> hd path = SLASH then iget ROOTDEV ROOTINO
            else kbind (kget cwd) idup) (\<lambda>ip.
     namex_loop parent path name ip)"

definition namei :: "u8 list \<Rightarrow> u8 list \<Rightarrow> ('z fs_state_scheme, nat option) kop" where
  "namei path garbage = kbind (namex path False garbage) (\<lambda>(r, _). kret r)"

definition nameiparent :: "u8 list \<Rightarrow> u8 list \<Rightarrow> ('z fs_state_scheme, nat option \<times> u8 list) kop" where
  "nameiparent path name = namex path True name"


section \<open>Path elements\<close>

text \<open>The components of a path, defined independently of the scanning code.\<close>

primrec split_path :: "u8 list \<Rightarrow> u8 list list" where
  "split_path [] = [[]]"
| "split_path (c # cs) = (if c = SLASH then [] # split_path cs
     else (c # hd (split_path cs)) # tl (split_path cs))"

definition path_elems :: "u8 list \<Rightarrow> u8 list list" where
  "path_elems p = filter (\<lambda>e. e \<noteq> []) (split_path p)"

lemma split_path_ne [simp]: "split_path p \<noteq> []"
  by (cases p) auto

lemma path_elems_Nil [simp]: "path_elems [] = []"
  by (simp add: path_elems_def)

lemma path_elems_slash [simp]: "path_elems (SLASH # p) = path_elems p"
  by (simp add: path_elems_def)

lemma path_elems_skip [simp]: "path_elems (dropWhile (\<lambda>c. c = SLASH) p) = path_elems p"
  by (induction p) auto

lemma split_path_first:
  "split_path p = takeWhile (\<lambda>c. c \<noteq> SLASH) p # (case dropWhile (\<lambda>c. c \<noteq> SLASH) p of [] \<Rightarrow> [] | _ # q \<Rightarrow> split_path q)"
  by (induction p) (auto split: list.splits)

lemma path_elems_first:
  assumes "p \<noteq> []" "hd p \<noteq> SLASH"
  shows "path_elems p = takeWhile (\<lambda>c. c \<noteq> SLASH) p # path_elems (dropWhile (\<lambda>c. c \<noteq> SLASH) p)"
proof -
  have ne: "takeWhile (\<lambda>c. c \<noteq> SLASH) p \<noteq> []" using assms by (cases p) auto
  show ?thesis
  proof (cases "dropWhile (\<lambda>c. c \<noteq> SLASH) p")
    case Nil
    have "split_path p = [takeWhile (\<lambda>c. c \<noteq> SLASH) p]"
      by (subst split_path_first) (simp only: Nil list.case)
    then show ?thesis using ne by (simp only: path_elems_def Nil split_path.simps filter.simps) simp
  next
    case (Cons c q)
    then have "c = SLASH" by (metis (mono_tags, lifting) dropWhile_eq_Cons_conv)
    then show ?thesis using Cons ne split_path_first[of p] by (simp add: path_elems_def)
  qed
qed

lemma path_elems_empty: "path_elems p = [] \<longleftrightarrow> (\<forall>c\<in>set p. c = SLASH)"
proof
  assume e: "path_elems p = []"
  let ?p = "dropWhile (\<lambda>c. c = SLASH) p"
  have "?p = []"
  proof (rule ccontr)
    assume n: "?p \<noteq> []"
    then have "hd ?p \<noteq> SLASH" using hd_dropWhile by blast
    then show False using path_elems_first[OF n] e by simp
  qed
  then show "\<forall>c\<in>set p. c = SLASH" by (simp add: dropWhile_eq_Nil_conv)
next
  assume "\<forall>c\<in>set p. c = SLASH"
  then have "dropWhile (\<lambda>c. c = SLASH) p = []" by (simp add: dropWhile_eq_Nil_conv)
  then show "path_elems p = []" by (metis path_elems_Nil path_elems_skip)
qed

text \<open>\<^verbatim>\<open>skipelem\<close> takes the first component, and leaves the others without leading slashes.\<close>

lemma skipelem_elems:
  "case path_elems path of
     [] \<Rightarrow> skipelem path name = None
   | e # es \<Rightarrow> \<exists>rest. skipelem path name = Some (rest, put_name e name) \<and> path_elems rest = es
       \<and> (rest = [] \<longleftrightarrow> es = []) \<and> (rest \<noteq> [] \<longrightarrow> hd rest \<noteq> SLASH)"
proof (cases "dropWhile (\<lambda>c. c = SLASH) path")
  case Nil
  then have "path_elems path = []" by (metis path_elems_Nil path_elems_skip)
  then show ?thesis using Nil by (simp add: skipelem_def)
next
  case (Cons c cs)
  let ?p = "dropWhile (\<lambda>c. c = SLASH) path"
  let ?q = "dropWhile (\<lambda>c. c \<noteq> SLASH) ?p" let ?r = "dropWhile (\<lambda>c. c = SLASH) ?q"
  have p: "?p \<noteq> []" "hd ?p \<noteq> SLASH" using Cons hd_dropWhile[of "\<lambda>c. c = SLASH" path] by auto
  have e: "path_elems path = takeWhile (\<lambda>c. c \<noteq> SLASH) ?p # path_elems ?r"
    using path_elems_first[OF p] by simp
  have s: "skipelem path name = Some (?r, put_name (takeWhile (\<lambda>c. c \<noteq> SLASH) ?p) name)"
    using p(1) by (simp add: skipelem_def Let_def)
  have h: "?r \<noteq> [] \<longrightarrow> hd ?r \<noteq> SLASH" using hd_dropWhile by blast
  have "?r = [] \<longleftrightarrow> path_elems ?r = []"
  proof
    assume "path_elems ?r = []"
    then have "\<forall>c\<in>set ?r. c = SLASH" using path_elems_empty[of ?r] by blast
    then show "?r = []" using h hd_in_set[of ?r] by blast
  next
    assume "?r = []"
    then show "path_elems ?r = []" by (simp only: path_elems_Nil)
  qed
  then show ?thesis using e s h by simp
qed


section \<open>Looking up a name\<close>

definition dent :: "(u32 \<Rightarrow> u8 list) \<Rightarrow> inode \<Rightarrow> nat \<Rightarrow> u8 list" where
  "dent v x i = file_bytes v x (DE_SIZE * i) DE_SIZE"

definition names :: "(nat \<Rightarrow> u8) \<Rightarrow> u8 list \<Rightarrow> bool" where
  "names name de \<longleftrightarrow> de_inum de \<noteq> 0 \<and> cstr DIRSIZ name = cstr DIRSIZ (ptr (de_name de))"

definition dir_len :: "inode \<Rightarrow> nat" where
  "dir_len x = unat (i_size x) div DE_SIZE"

text \<open>A directory: its size is a number of whole entries, and its blocks exist.\<close>

definition dir_ok :: "nat \<Rightarrow> 'z fs_state_scheme \<Rightarrow> nat \<Rightarrow> bool" where
  "dir_ok k s dp \<longleftrightarrow> log_inv k s \<and> 0 < k \<and> ic_inv s \<and> dp < NINODE \<and> i_dev (icache s ! dp) = ROOTDEV
     \<and> i_type (icache s ! dp) = T_DIR \<and> unat (i_size (icache s ! dp)) = DE_SIZE * dir_len (icache s ! dp)
     \<and> reach_ok s (icache s ! dp) 0 (unat (i_size (icache s ! dp))) \<and> card (held s) \<le> 1"

lemma dir_ok_fs_to:
  assumes "dir_ok k s dp" "fs_to k s (blk s) t"
  shows "dir_ok k t dp" "icache t = icache s" "blk t = blk s"
proof -
  note f = fs_toD[OF assms(2)]
  show i: "icache t = icache s" by (rule fs_fields(1)[OF f(4)])
  show "blk t = blk s" by (rule f(2))
  then show "dir_ok k t dp" using assms(1) f i ic_inv_fields[OF f(4)]
    by (simp add: dir_ok_def reach_ok_def)
qed

lemma read_dirent_ok:
  assumes d: "dir_ok k s dp" and i: "i < dir_len (icache s ! dp)"
  shows "kwp (read_dirent msg dp (DE_SIZE * i)) (\<lambda>_. False)
    (\<lambda>de t. de = dent (blk s) (icache s ! dp) i \<and> fs_to k s (blk s) t) s"
proof -
  let ?x = "icache s ! dp" let ?off = "of_nat (DE_SIZE * i) :: u64" let ?n = "of_nat DE_SIZE :: u64"
  have inv: "log_inv k s" "0 < k" "ic_inv s" "dp < NINODE" "i_dev ?x = ROOTDEV" "i_type ?x \<noteq> T_DEV"
    and sz: "unat (i_size ?x) = DE_SIZE * dir_len ?x" and ro: "reach_ok s ?x 0 (unat (i_size ?x))"
    and few: "card (held s) \<le> 1"
    using d by (auto simp: dir_ok_def fs_consts)
  have fit: "DE_SIZE * i + DE_SIZE \<le> unat (i_size ?x)"
    using i sz by (metis Suc_leI add.commute mult_Suc_right mult_le_mono2)
  moreover have "unat (i_size ?x) < 2 ^ LENGTH(32)" by (rule unsigned_less)
  ultimately have b: "DE_SIZE * i + DE_SIZE < 2 ^ 32" by simp
  then have uo: "unat ?off = DE_SIZE * i" "unat ?n = DE_SIZE" by (auto simp: unat_of_nat simp del: of_nat_mult)
  have nw: "\<not> ?off + ?n < ?off"
  proof -
    have "unat (?off + ?n) = DE_SIZE * i + DE_SIZE" using b uo by (simp add: unat_word_ariths del: of_nat_mult)
    then show ?thesis using uo by (simp add: word_less_nat_alt del: of_nat_mult)
  qed
  have rl: "read_len ?x ?off ?n = DE_SIZE" using fit uo by (simp add: read_len_def del: of_nat_mult)
  have ok: "unat ?off \<le> unat (i_size ?x)" using fit uo by simp
  have r: "reach_ok s ?x (unat ?off) (read_len ?x ?off ?n)"
    unfolding rl uo by (rule reach_ok_mono[OF ro]) (use fit in simp_all)
  show ?thesis unfolding read_dirent_def kwp_kbind
    by (rule kwp_conseq[OF readi_ok[OF inv ok nw r few]]) (auto simp: rl uo dent_def kwp_kret simp del: of_nat_mult split: prod.split)
qed

definition look_from :: "nat \<Rightarrow> 'z fs_state_scheme \<Rightarrow> nat \<Rightarrow> (nat \<Rightarrow> u8) \<Rightarrow> nat \<Rightarrow> (nat \<times> nat) option \<Rightarrow> 'z fs_state_scheme \<Rightarrow> bool" where
  "look_from k s dp name i r t =
     (case List.find (\<lambda>j. names name (dent (blk s) (icache s ! dp) j)) [i..<dir_len (icache s ! dp)] of
        None \<Rightarrow> r = None \<and> fs_to k s (blk s) t
      | Some j \<Rightarrow> (\<exists>ip u. r = Some (ip, DE_SIZE * j) \<and> fs_to k s (blk s) u
          \<and> iget_post ROOTDEV (ucast (de_inum (dent (blk s) (icache s ! dp) j))) u ip t))"

definition look_fault :: "fault \<Rightarrow> bool" where
  "look_fault e \<longleftrightarrow> e = Panic ''Cannot alloc a inode''"

lemma look_from_same:
  assumes "fs_to k s (blk s) t" "icache t = icache s" "blk t = blk s" "look_from k t dp name i r u"
  shows "look_from k s dp name i r u"
  using assms(2-4) by (auto simp: look_from_def split: option.splits intro: fs_to_trans[OF assms(1)])

lemma dirlookup_from_ok:
  fixes s :: "'z fs_state_scheme"
  assumes "dir_ok k s dp" "i \<le> dir_len (icache s ! dp)"
  shows "kwp (dirlookup_from dp name (DE_SIZE * i)) look_fault (look_from k s dp name i) s"
  using assms
proof (induction "dir_len (icache s ! dp) - i" arbitrary: i s)
  case 0
  let ?x = "icache s ! dp"
  have i: "i = dir_len ?x" using 0 by simp
  have sz: "unat (i_size ?x) = DE_SIZE * i" and len: "dp < length (icache s)" and li: "log_inv k s"
    using 0 i ic_invD(2)[of s] by (auto simp: dir_ok_def)
  have "dirlookup_from dp name (DE_SIZE * i) s = Ok None s"
    by (subst dirlookup_from.simps) (simp add: get_ino_run[OF len] sz)
  then show ?case using i li by (simp add: kwp_Ok look_from_def fs_to_def)
next
  case (Suc m)
  let ?x = "icache s ! dp" let ?de = "dent (blk s) (icache s ! dp) i"
  have i: "i < dir_len ?x" using Suc.hyps(2) by simp
  have sz: "unat (i_size ?x) = DE_SIZE * dir_len ?x" and len: "dp < length (icache s)" and dev: "i_dev ?x = ROOTDEV"
    using Suc.prems(1) ic_invD(2)[of s] by (auto simp: dir_ok_def)
  have lt: "DE_SIZE * i < unat (i_size ?x)" using i sz by (simp add: DE_SIZE_def)
  let ?K = "\<lambda>de. if de_inum de = 0 then dirlookup_from dp name (DE_SIZE * i + DE_SIZE)
       else if namecmp name (ptr (de_name de)) = 0 then
         kbind (iget ROOTDEV (ucast (de_inum de))) (\<lambda>ip. kret (Some (ip, DE_SIZE * i)))
       else dirlookup_from dp name (DE_SIZE * i + DE_SIZE)"
  have run: "dirlookup_from dp name (DE_SIZE * i) s = kbind (read_dirent ''dirlookup read'' dp (DE_SIZE * i)) ?K s"
    by (subst dirlookup_from.simps) (simp add: get_ino_run[OF len] lt dev cong: if_cong)
  have up: "[i..<dir_len ?x] = i # [Suc i..<dir_len ?x]" using i by (simp add: upt_conv_Cons)
  have "kwp (kbind (read_dirent ''dirlookup read'' dp (DE_SIZE * i)) ?K) look_fault (look_from k s dp name i) s"
    unfolding kwp_kbind[of "read_dirent _ _ _"]
  proof (rule kwp_mono[OF read_dirent_ok[OF Suc.prems(1) i]], elim conjE, hypsubst)
    fix t assume t: "fs_to k s (blk s) t"
    note d = dir_ok_fs_to[OF Suc.prems(1) t]
    have nx: "kwp (dirlookup_from dp name (DE_SIZE * i + DE_SIZE)) look_fault (look_from k s dp name i) t"
      if no: "\<not> names name ?de"
    proof -
      have "kwp (dirlookup_from dp name (DE_SIZE * Suc i)) look_fault (look_from k t dp name (Suc i)) t"
        by (rule Suc.hyps(1)) (use Suc.hyps(2) d i in auto)
      moreover have "DE_SIZE * Suc i = DE_SIZE * i + DE_SIZE" by simp
      moreover have "look_from k s dp name i r u" if "look_from k t dp name (Suc i) r u" for r u
        using look_from_same[OF t d(2,3) that] no up by (simp add: look_from_def)
      ultimately show ?thesis using kwp_conseq by metis
    qed
    show "kwp (?K ?de) look_fault (look_from k s dp name i) t"
    proof (cases "names name ?de")
      case True
      then have c: "de_inum ?de \<noteq> 0" "namecmp name (ptr (de_name ?de)) = 0"
        by (simp_all add: names_def namecmp_def strncmp_cstr)
      have it: "ic_inv t" using d(1) by (simp add: dir_ok_def)
      have "kwp (kbind (iget ROOTDEV (ucast (de_inum ?de))) (\<lambda>ip. kret (Some (ip, DE_SIZE * i)))) look_fault
        (look_from k s dp name i) t" unfolding kwp_kbind kwp_kret
        by (rule kwp_mono[OF iget_ok[OF it]]) (use True up t in \<open>auto simp: look_from_def look_fault_def\<close>)
      then show ?thesis using c by simp
    next
      case False
      then have "de_inum ?de = 0 \<or> namecmp name (ptr (de_name ?de)) \<noteq> 0"
        by (simp add: names_def namecmp_def strncmp_cstr)
      then show ?thesis using nx[OF False] by auto
    qed
  qed (simp add: look_fault_def)
  then show ?case unfolding kwp_def run .
qed

lemma dirlookup_ok:
  assumes "dir_ok k s dp"
  shows "kwp (dirlookup dp name) look_fault (look_from k s dp name 0) s"
proof -
  have "dp < length (icache s)" "i_type (icache s ! dp) = T_DIR"
    using assms ic_invD(2)[of s] by (auto simp: dir_ok_def)
  then have run: "dirlookup dp name s = dirlookup_from dp name (DE_SIZE * 0) s"
    by (simp add: dirlookup_def get_ino_run)
  show ?thesis using dirlookup_from_ok[OF assms, of 0 name] unfolding kwp_def run by simp
qed

end
