(* ===== verification/File.thy ===== *)
theory File
  imports Dirs
begin

text \<open>
  Open files, \<^verbatim>\<open>kern/file.c\<close>: the table of \<^verbatim>\<open>struct file\<close> and the operations on a descriptor's
  file. A file pointer is an index of the table; \<^verbatim>\<open>ssize_t\<close> values are integers.
\<close>

section \<open>State and operations\<close>

definition NFILE :: nat where "NFILE = 100"

datatype ftype = FD_NONE | FD_PIPE | FD_INODE

record ofile =
  f_type :: ftype
  f_ref :: int
  f_readable :: bool
  f_writable :: bool
  f_ip :: nat
  f_off :: u64

record file_state = fs_state +
  ft_lock :: spinlock
  ftable :: "ofile list"

definition on_ftlock :: "(nat \<Rightarrow> (spinlock, 'a) kop) \<Rightarrow> ('z file_state_scheme, 'a) kop" where
  "on_ftlock m = kbind (kget this_cpu) (\<lambda>c. zoom ft_lock (\<lambda>x s. s\<lparr>ft_lock := x\<rparr>) (m c))"

definition get_file :: "nat \<Rightarrow> ('z file_state_scheme, ofile) kop" where
  "get_file f = kidx ftable f"

definition upd_file :: "nat \<Rightarrow> (ofile \<Rightarrow> ofile) \<Rightarrow> ('z file_state_scheme, unit) kop" where
  "upd_file f g = kupd ftable (\<lambda>x s. s\<lparr>ftable := x\<rparr>) f g"

definition fileinit :: "('z file_state_scheme, unit) kop" where
  "fileinit = zoom ft_lock (\<lambda>x s. s\<lparr>ft_lock := x\<rparr>) (initlock ''file table'')"

definition filealloc :: "('z file_state_scheme, nat option) kop" where
  "filealloc =
     kthen (on_ftlock acquire)
     (kbind (kget ftable) (\<lambda>ft.
      case List.find (\<lambda>i. f_ref (ft ! i) = 0) [0..<NFILE] of
        Some f \<Rightarrow>
          kthen (upd_file f (\<lambda>x. x\<lparr>f_ref := 1\<rparr>))
          (kthen (on_ftlock release)
          (kret (Some f)))
      | None \<Rightarrow> kthen (on_ftlock release) (kret None)))"

definition filedup :: "nat \<Rightarrow> ('z file_state_scheme, nat) kop" where
  "filedup f =
     kthen (on_ftlock acquire)
     (kthen (upd_file f (\<lambda>x. x\<lparr>f_ref := f_ref x + 1\<rparr>))
     (kthen (on_ftlock release)
     (kret f)))"

text \<open>The type is set to \<^verbatim>\<open>FD_NONE\<close> before the copy \<^verbatim>\<open>fs\<close> is taken, and the copy is then tested.\<close>

definition fileclose :: "nat \<Rightarrow> ('z file_state_scheme, unit) kop" where
  "fileclose f =
     kthen (on_ftlock acquire)
     (kthen (upd_file f (\<lambda>x. x\<lparr>f_ref := f_ref x - 1\<rparr>))
     (kbind (get_file f) (\<lambda>x.
      if f_ref x > 0 then on_ftlock release
      else
        kthen (upd_file f (\<lambda>x. x\<lparr>f_type := FD_NONE\<rparr>))
        (kbind (get_file f) (\<lambda>fs.
         kthen (on_ftlock release)
         (kwhen (f_type fs = FD_PIPE)
           (kthen begin_op
           (kthen (iput (f_ip fs))
           end_op))))))))"

definition filestat :: "nat \<Rightarrow> ('z file_state_scheme, int \<times> stat option) kop" where
  "filestat f =
     kbind (get_file f) (\<lambda>x.
     if f_type x = FD_INODE then
       kthen (ilock (f_ip x))
       (kbind (stati (f_ip x)) (\<lambda>st.
        kthen (iunlock (f_ip x))
        (kret (0, Some st))))
     else kret (-1, None))"

definition fileread :: "nat \<Rightarrow> u64 \<Rightarrow> ('z file_state_scheme, int \<times> u8 list) kop" where
  "fileread f n =
     kbind (get_file f) (\<lambda>x.
     if f_type x \<noteq> FD_INODE then kret (-1, [])
     else
       kthen (ilock (f_ip x))
       (kbind (readi (f_ip x) (f_off x) n) (\<lambda>(r, d).
        kthen (kwhen (r > 0) (upd_file f (\<lambda>y. y\<lparr>f_off := f_off y + of_int r\<rparr>)))
        (kthen (iunlock (f_ip x))
        (kret (r, d))))))"

definition WRITE_LIM :: int where "WRITE_LIM = 1536"

text \<open>
  One turn of \<^verbatim>\<open>filewrite\<close>: the bytes written, or the negative result of \<^verbatim>\<open>writei\<close> on which the loop
  is left, with the inode locked and the operation open.
\<close>

definition filewrite_turn :: "nat \<Rightarrow> u8 list \<Rightarrow> int \<Rightarrow> ('z file_state_scheme, int) kop" where
  "filewrite_turn f addr wtn =
     kthen begin_op
     (kbind (get_file f) (\<lambda>x.
      kthen (ilock (f_ip x))
      (kbind (writei (f_ip x) addr (f_off x) (of_int wtn)) (\<lambda>cur.
       if cur < 0 then kret cur
       else
         kthen (upd_file f (\<lambda>y. y\<lparr>f_off := f_off y + of_int cur\<rparr>))
         (kthen (iunlock (f_ip x))
         (kthen end_op
         (kret cur)))))))"

text \<open>The loop, with the turns it may take as fuel; every turn starts again at \<^verbatim>\<open>addr\<close>.\<close>

fun filewrite_loop :: "nat \<Rightarrow> nat \<Rightarrow> u8 list \<Rightarrow> int \<Rightarrow> int \<Rightarrow> ('z file_state_scheme, int) kop" where
  "filewrite_loop 0 f addr n fin s = Fault Spin"
| "filewrite_loop (Suc fuel) f addr n fin s =
     (if fin < n then
        kbind (filewrite_turn f addr (if n > WRITE_LIM then WRITE_LIM else n)) (\<lambda>cur.
        if cur < 0 then kret (if fin = n then n else -1)
        else filewrite_loop fuel f addr n (fin + cur)) s
      else Ok (if fin = n then n else -1) s)"

definition filewrite :: "nat \<Rightarrow> u8 list \<Rightarrow> int \<Rightarrow> ('z file_state_scheme, int) kop" where
  "filewrite f addr n =
     kbind (get_file f) (\<lambda>x.
     if f_type x \<noteq> FD_INODE then kret 0
     else filewrite_loop (Suc (nat n)) f addr n 0)"


section \<open>The file table\<close>

definition ft_inv :: "'z file_state_scheme \<Rightarrow> bool" where
  "ft_inv s \<longleftrightarrow> spin_free (ft_lock s) \<and> length (ftable s) = NFILE \<and> (\<forall>i<NFILE. 0 \<le> f_ref (ftable s ! i))"

lemmas ft_run_defs = on_ftlock_def get_file_def upd_file_def

lemma ft_invD:
  assumes "ft_inv s"
  shows "spin_free (ft_lock s)" "length (ftable s) = NFILE" "i < NFILE \<Longrightarrow> 0 \<le> f_ref (ftable s ! i)"
  using assms by (auto simp: ft_inv_def)

lemma ft_inv_update:
  "ft_inv s \<Longrightarrow> 0 \<le> f_ref x \<Longrightarrow> ft_inv (s\<lparr>ftable := (ftable s)[i := x]\<rparr>)"
  by (cases "i < NFILE") (auto simp: ft_inv_def nth_list_update)

text \<open>\<^verbatim>\<open>filealloc\<close> takes the first entry without references; none is left, the null pointer.\<close>

lemma filealloc_ok:
  assumes inv: "ft_inv s"
  shows "kok filealloc (\<lambda>r t. ft_inv t \<and> (case r of
      Some f \<Rightarrow> f < NFILE \<and> f_ref (ftable s ! f) = 0 \<and> (\<forall>i<f. f_ref (ftable s ! i) > 0)
        \<and> t = s\<lparr>ftable := (ftable s)[f := (ftable s ! f)\<lparr>f_ref := 1\<rparr>]\<rparr>
    | None \<Rightarrow> t = s \<and> (\<forall>i<NFILE. f_ref (ftable s ! i) > 0))) s"
proof (cases "List.find (\<lambda>i. f_ref (ftable s ! i) = 0) [0..<NFILE]")
  case None
  then have full: "\<forall>i<NFILE. f_ref (ftable s ! i) > 0"
    using ft_invD(3)[OF inv] by (fastforce simp: find_None_iff)
  have "filealloc s = Ok None s"
    using None ft_invD(1)[OF inv] by (simp add: filealloc_def ft_run_defs kop_defs)
  then show ?thesis using inv full by (simp add: kwp_Ok)
next
  case (Some f)
  then have f: "f < NFILE" "f_ref (ftable s ! f) = 0" "\<forall>i<f. f_ref (ftable s ! i) \<noteq> 0"
    by (auto simp: find_upt_Some)
  have "filealloc s = Ok (Some f) (s\<lparr>ftable := (ftable s)[f := (ftable s ! f)\<lparr>f_ref := 1\<rparr>]\<rparr>)"
    using Some f ft_invD(1,2)[OF inv] by (simp add: filealloc_def ft_run_defs kop_defs)
  moreover have "\<forall>i<f. f_ref (ftable s ! i) > 0"
    using f ft_invD(3)[OF inv] by (metis less_trans order_le_less)
  ultimately show ?thesis using f ft_inv_update[OF inv, of "(ftable s ! f)\<lparr>f_ref := 1\<rparr>" f] by (simp add: kwp_Ok)
qed

lemma filedup_run:
  "ft_inv s \<Longrightarrow> f < NFILE \<Longrightarrow>
    filedup f s = Ok f (s\<lparr>ftable := (ftable s)[f := (ftable s ! f)\<lparr>f_ref := f_ref (ftable s ! f) + 1\<rparr>]\<rparr>)"
  using ft_invD(1,2)[of s] by (simp add: filedup_def ft_run_defs kop_defs)

text \<open>The last close of a file leaves the inode cache as it is: no reference is given back.\<close>

lemma fileclose_run:
  assumes "ft_inv s" "f < NFILE"
  shows "fileclose f s = Ok () (s\<lparr>ftable := (ftable s)[f :=
    (if f_ref (ftable s ! f) > 1 then (ftable s ! f)\<lparr>f_ref := f_ref (ftable s ! f) - 1\<rparr>
     else (ftable s ! f)\<lparr>f_ref := f_ref (ftable s ! f) - 1, f_type := FD_NONE\<rparr>)]\<rparr>)"
  using assms ft_invD(1,2)[OF assms(1)] by (simp add: fileclose_def ft_run_defs kop_defs)


section \<open>The write loop\<close>

text \<open>\<open>q\<close> turns that each write the whole of \<open>w\<close> bytes.\<close>

inductive turns :: "nat \<Rightarrow> u8 list \<Rightarrow> int \<Rightarrow> nat \<Rightarrow> 'z file_state_scheme \<Rightarrow> 'z file_state_scheme \<Rightarrow> bool"
  for f addr w where
  none: "turns f addr w 0 s s"
| more: "filewrite_turn f addr w s = Ok w t \<Longrightarrow> turns f addr w q t u \<Longrightarrow> turns f addr w (Suc q) s u"

lemma filewrite_loop_turns:
  assumes "turns f addr WRITE_LIM q s u" "WRITE_LIM < n" "fin + WRITE_LIM * (int q - 1) < n \<or> q = 0"
    "n \<le> fin + WRITE_LIM * int q" "q < fuel"
  shows "filewrite_loop fuel f addr n fin s = Ok (if fin + WRITE_LIM * int q = n then n else -1) u"
  using assms
proof (induction q s u arbitrary: fin fuel rule: turns.induct)
  case (none s)
  then show ?case by (cases fuel) auto
next
  case (more s t q u)
  then obtain fu where fu: "fuel = Suc fu" "q < fu" by (cases fuel) auto
  have lt: "fin < n" using more.prems(2) by (simp add: WRITE_LIM_def algebra_simps)
  have "filewrite_loop fu f addr n (fin + WRITE_LIM) t =
      Ok (if fin + WRITE_LIM + WRITE_LIM * int q = n then n else -1) u"
    by (rule more.IH[OF more.prems(1)]) (use more.prems fu in \<open>auto simp: algebra_simps\<close>)
  then show ?case using more.hyps(1) more.prems(1) lt fu
    by (simp add: algebra_simps WRITE_LIM_def)
qed

text \<open>A write of more than the limit that is no multiple of it reports failure, whatever was
  written.\<close>

lemma filewrite_fails:
  assumes "f < length (ftable s)" "f_type (ftable s ! f) = FD_INODE" "WRITE_LIM < n" "\<not> WRITE_LIM dvd n"
    "turns f addr WRITE_LIM (nat (n div WRITE_LIM + 1)) s u"
  shows "filewrite f addr n s = Ok (-1) u"
proof -
  let ?q = "nat (n div WRITE_LIM + 1)"
  have L: "0 < WRITE_LIM" by (simp add: WRITE_LIM_def)
  have d: "n = WRITE_LIM * (n div WRITE_LIM) + n mod WRITE_LIM" "0 \<le> n mod WRITE_LIM" "n mod WRITE_LIM < WRITE_LIM"
    using L by simp_all
  have m: "n mod WRITE_LIM \<noteq> 0" using assms(4) by (simp add: dvd_eq_mod_eq_0)
  have p: "0 \<le> n div WRITE_LIM" using assms(3) L by (simp add: pos_imp_zdiv_nonneg_iff)
  have q: "int ?q = n div WRITE_LIM + 1" using p by simp
  have "n div WRITE_LIM < n" using assms(3) L by (simp add: WRITE_LIM_def int_div_less_self)
  then have fuel: "?q < Suc (nat n)" using p by simp
  have lo: "WRITE_LIM * (n div WRITE_LIM) < n" and hi: "n \<le> WRITE_LIM * (n div WRITE_LIM) + WRITE_LIM"
    using d m by linarith+
  have "filewrite_loop (Suc (nat n)) f addr n 0 s = Ok (if 0 + WRITE_LIM * int ?q = n then n else -1) u"
  proof (rule filewrite_loop_turns[OF assms(5,3) _ _ fuel], unfold q)
    show "0 + WRITE_LIM * (n div WRITE_LIM + 1 - 1) < n \<or> ?q = 0" using lo by simp
    show "n \<le> 0 + WRITE_LIM * (n div WRITE_LIM + 1)" using hi by (simp add: distrib_left)
  qed
  moreover have "WRITE_LIM * int ?q \<noteq> n" using assms(4) by (metis dvd_triv_left)
  ultimately show ?thesis using assms(1,2) by (simp add: filewrite_def get_file_def)
qed

end
