(* ===== verification/Machine.thy ===== *)
theory Machine
  imports File
begin

text \<open>
  A concrete machine: processor 0 runs process 1 with an empty buffer cache over a card that holds
  a small file system (log at block 2, inodes from block 32, bitmap in block 40 with the first three bits set, one file of five
  bytes in block 50 and one directory of two entries in block 51). The on-disk log header records
  one block, number 60. The examples that accompany the properties are about this machine.
\<close>

definition free_lock :: spinlock where
  "free_lock = \<lparr>spin_locked = False, spin_name = ''lock'', spin_cpu = None\<rparr>"

definition free_slp :: sleeplock where
  "free_slp = \<lparr>slp_locked = False, slp_lk = free_lock, slp_pid = 0, slp_wakeups = 0\<rparr>"

definition zeros :: "nat \<Rightarrow> u8 list" where "zeros n = replicate n 0"

definition empty_buf :: buf where
  "empty_buf = \<lparr>b_flags = 0, b_dev = 0, b_blockno = 0, b_part = 1000, b_refcnt = 0,
     b_data = zeros BSIZE, b_lock = free_slp\<rparr>"

definition ring :: "bnode lheap" where
  "ring n = (case n of
     BHead \<Rightarrow> \<lparr>lnext = Some (BBuf 0), lprev = Some (BBuf 29)\<rparr>
   | BBuf i \<Rightarrow> \<lparr>lnext = Some (if i = 29 then BHead else BBuf (Suc i)),
       lprev = Some (if i = 0 then BHead else BBuf (i - 1))\<rparr>)"

definition dirent_bytes :: "u16 \<Rightarrow> u8 list \<Rightarrow> u8 list" where
  "dirent_bytes n nm = le16 n @ nm @ zeros (14 - length nm)"

definition disk_image :: "u32 \<Rightarrow> u8 list" where
  "disk_image n =
     (if n = 1002 then le32 1 @ le32 60 @ zeros 504
      else if n = 1040 then 7 # zeros 511
      else if n = 1050 then [104, 101, 108, 108, 111] @ zeros 507
      else if n = 1051 then dirent_bytes 1 [46] @ dirent_bytes 2 [97] @ zeros 480
      else zeros BSIZE)"

definition example_sb :: superblock where
  "example_sb = \<lparr>sb_size = 100, sb_nblocks = 50, sb_ninodes = 16, sb_nlog = 30, sb_logstart = 2,
     sb_inodestart = 32, sb_bmapstart = 40\<rparr>"

definition empty_ino :: inode where
  "empty_ino = \<lparr>i_dev = 0, i_inum = 0, i_ref = 0, i_lock = free_slp, i_valid = False, i_type = 0,
     i_major = 0, i_minor = 0, i_nlink = 0, i_size = 0, i_addrs = replicate 13 0\<rparr>"

definition file_ino :: inode where
  "file_ino = empty_ino\<lparr>i_dev := ROOTDEV, i_inum := 2, i_ref := 1, i_valid := True, i_type := T_FILE,
     i_nlink := 1, i_size := 5, i_addrs := 50 # replicate 12 0\<rparr>"

definition dir_ino :: inode where
  "dir_ino = empty_ino\<lparr>i_dev := ROOTDEV, i_inum := 1, i_ref := 1, i_valid := True, i_type := T_DIR,
     i_nlink := 1, i_size := 32, i_addrs := 51 # replicate 12 0\<rparr>"

definition empty_file :: ofile where
  "empty_file = \<lparr>f_type = FD_NONE, f_ref = 0, f_readable = False, f_writable = False, f_ip = 0, f_off = 0\<rparr>"

definition machine :: file_state where
  "machine = \<lparr>this_cpu = 0, this_pid = 1, bufs = replicate NBUF empty_buf, sd_lock = free_lock,
     sd_blist = (\<lambda>_. \<lparr>lnext = Some SdQue, lprev = Some SdQue\<rparr>), sd_woken = {}, sd_type = SD_TYPE_2_HC,
     LBA = 1000, emmc_int = 0, emmc_cmd = (0, 0), card_resp = (\<lambda>_ _. 0), sectors = disk_image,
     bc_lock = free_lock, bc_clist = ring,
     log_lock = free_lock, log_start = 2, log_size = 30, log_outstanding = 0, log_committing = False,
     log_dev = ROOTDEV, lh_n = 0, lh_block = replicate LOGSIZE 0, sb = example_sb,
     ic_lock = free_lock, icache = file_ino # dir_ino # replicate 48 empty_ino, cwd = 1,
     dev_read = (\<lambda>_. None), dev_write = (\<lambda>_. None), dev_out = [],
     ft_lock = free_lock,
     ftable = empty_file\<lparr>f_type := FD_INODE, f_ref := 1\<rparr> # replicate 99 empty_file\<rparr>"

lemma free_lock_free [simp]: "spin_free free_lock" "slp_idle free_slp" "\<not> slp_locked free_slp"
  by (simp_all add: free_lock_def free_slp_def spin_free_def slp_idle_def)

lemma length_zeros [simp]: "length (zeros n) = n"
  by (simp add: zeros_def)

lemma length_disk_image [simp]: "length (disk_image n) = BSIZE"
  by (simp add: disk_image_def dirent_bytes_def BSIZE_def)

lemma ring_dseg:
  "a < b \<Longrightarrow> b \<le> 30 \<Longrightarrow> dseg ring (BBuf a) (map BBuf [Suc a..<b]) (if b = 30 then BHead else BBuf b)"
proof (induction "b - a" arbitrary: a)
  case (Suc n)
  show ?case
  proof (cases "Suc a = b")
    case True
    then show ?thesis using Suc.prems by (auto simp: ring_def)
  next
    case False
    then have "[Suc a..<b] = Suc a # [Suc (Suc a)..<b]" using Suc.prems by (simp add: upt_conv_Cons)
    then show ?thesis using Suc.hyps(1)[of "Suc a"] Suc.hyps(2) Suc.prems False by (auto simp: ring_def)
  qed
qed simp

lemma ring_ok: "lru_ok ring"
proof -
  have "dseg ring (BBuf 0) (map BBuf [Suc 0..<30]) BHead" using ring_dseg[of 0 30] by simp
  moreover have "[0..<30] = 0 # [Suc 0..<30]" by (simp add: upt_conv_Cons)
  ultimately have "dlist ring BHead (map BBuf [0..<30])"
    by (auto simp: dlist_def distinct_map inj_on_def ring_def simp del: upt_Suc)
  then show ?thesis unfolding lru_ok_def NBUF_def by (intro exI[of _ "[0..<30]"]) auto
qed

lemma machine_sd: "sd_idle machine"
  by (simp add: sd_idle_def machine_def dlist_def)


lemma machine_bufs: "i < NBUF \<Longrightarrow> bufs machine ! i = empty_buf" "length (bufs machine) = NBUF"
  by (simp_all add: machine_def)

lemma machine_cached [simp]: "cached machine bn = None"
  using machine_bufs by (auto simp: cached_def find_None_iff empty_buf_def ROOTDEV_def)

lemma machine_blk [simp]: "blk machine bn = disk_image (bn + 1000)" "card_blk machine bn = disk_image (bn + 1000)"
  by (simp_all add: blk_def card_blk_def) (simp_all add: machine_def)

lemma machine_held [simp]: "held machine = {}"
  using machine_bufs by (auto simp: held_def empty_buf_def ROOTDEV_def)

lemma machine_refs [simp]: "refs machine bn = 0"
  by (simp add: refs_def)

lemma machine_log: "k \<le> 26 \<Longrightarrow> log_inv k machine"
proof -
  assume k: "k \<le> 26"
  have "heavy machine = {}" by (simp add: heavy_def)
  moreover have "bc_inv k machine" using k
    by (simp add: bc_inv_def machine_sd) (simp add: machine_def ring_ok buf_ok_def empty_buf_def ROOTDEV_def)
  ultimately show ?thesis using k by (simp add: log_inv_def NBUF_def machine_def)
qed

lemma machine_fields [simp]: "sb machine = example_sb" "log_start machine = 2" "lh_n machine = 0"
    "lh_block machine = replicate LOGSIZE 0" "log_dev machine = ROOTDEV" "LBA machine = 1000" "this_pid machine = 1"
    "log_outstanding machine = 0" "\<not> log_committing machine" "spin_free (log_lock machine)"
    "icache machine ! 0 = file_ino" "icache machine ! Suc 0 = dir_ino" "length (icache machine) = NINODE"
  by (simp_all add: machine_def NINODE_def)

lemma machine_files: "f_ref (ftable machine ! 0) = 1" "f_ref (ftable machine ! 1) = 0" "length (ftable machine) = NFILE"
  by (simp_all add: machine_def empty_file_def NFILE_def)

lemma example_inodes [simp]:
  "i_dev file_ino = ROOTDEV" "i_type file_ino = T_FILE" "i_size file_ino = 5" "i_lock file_ino = free_slp"
  "i_valid file_ino" "i_dev dir_ino = ROOTDEV" "i_type dir_ino = T_DIR" "i_size dir_ino = 32" "i_lock dir_ino = free_slp"
  "i_addrs file_ino = 50 # replicate 12 0" "i_addrs dir_ino = 51 # replicate 12 0" "i_inum file_ino = 2"
  by (simp_all add: file_ino_def dir_ino_def empty_ino_def)

lemma machine_ic: "ic_inv machine"
proof -
  have ix: "icache machine ! i = (if i = 0 then file_ino else if i = 1 then dir_ino else empty_ino)" if "i < NINODE" for i
    using that by (auto simp: machine_def NINODE_def nth_Cons split: nat.split)
  show ?thesis
    unfolding ic_inv_def
    by (auto simp: ix ino_ok_def file_ino_def dir_ino_def empty_ino_def NDIRECT_def split: if_splits)
      (auto simp: machine_def NINODE_def)
qed

lemma machine_ft: "ft_inv machine"
  by (auto simp: ft_inv_def machine_def NFILE_def empty_file_def nth_Cons split: nat.split)


lemma sb_part [simp]:
  fixes s :: "'z log_state_scheme"
  shows "log_inv k (s\<lparr>sb := x\<rparr>) = log_inv k s" "blk (s\<lparr>sb := x\<rparr>) = blk s" "held (s\<lparr>sb := x\<rparr>) = held s"
  by (simp_all add: log_inv_def bc_inv_def sd_idle_def buf_ok_def held_def heavy_def refs_def
      fun_eq_iff blk_def cached_def split: option.split)

end
