(* ===== verification/Storage.thy ===== *)
theory Storage
  imports Machine
begin

text \<open>
  Properties of the storage stack (card, buffer cache, log, blocks, inodes, directories, files),
  each with an example on the machine of theory \<open>Machine\<close>.
\<close>

section \<open>Log\<close>

text \<open>Process 1's machine with block 60 changed in the cache, pinned and recorded in the log.\<close>

definition dirty_buf :: buf where
  "dirty_buf = empty_buf\<lparr>b_flags := B_VALID, b_dev := ROOTDEV, b_blockno := 60, b_refcnt := 1,
     b_data := 7 # zeros 511\<rparr>"

definition logged_machine :: file_state where
  "logged_machine = machine\<lparr>bufs := dirty_buf # replicate 29 empty_buf, lh_n := 1,
     lh_block := 60 # replicate 29 0\<rparr>"

lemma logged_bufs: "i < NBUF \<Longrightarrow> bufs logged_machine ! i = (if i = 0 then dirty_buf else empty_buf)"
  "length (bufs logged_machine) = NBUF"
  by (auto simp: logged_machine_def NBUF_def nth_Cons split: nat.split)

lemma logged_cached: "cached logged_machine bn = (if bn = 60 then Some 0 else None)"
proof -
  have e: "b_dev (bufs logged_machine ! i) = ROOTDEV \<and> b_blockno (bufs logged_machine ! i) = bn
      \<longleftrightarrow> i = 0 \<and> bn = 60" if "i < NBUF" for i
    using logged_bufs(1)[OF that] by (auto simp: dirty_buf_def empty_buf_def ROOTDEV_def)
  have "[0..<NBUF] = 0 # [1..<NBUF]" by (simp add: NBUF_def upt_conv_Cons)
  moreover have "List.find (\<lambda>i. b_dev (bufs logged_machine ! i) = ROOTDEV \<and> b_blockno (bufs logged_machine ! i) = bn)
      [1..<NBUF] = None" using e by (auto simp: find_None_iff)
  ultimately show ?thesis using e[of 0] logged_bufs(2) by (auto simp: cached_def NBUF_def)
qed

lemma logged_held: "held logged_machine = {}"
  using logged_bufs by (auto simp: held_def dirty_buf_def empty_buf_def split: if_splits)

lemma logged_refs: "refs logged_machine bn = (if bn = 60 then 1 else 0)"
  using logged_bufs(1)[of 0] by (simp add: refs_def logged_cached dirty_buf_def NBUF_def)

lemma logged_pinned: "pinned logged_machine = {60}"
  by (auto simp: pinned_def logged_refs split: if_splits)

lemma logged_inv: "bc_inv 1 logged_machine"
proof -
  have "sd_idle logged_machine" using machine_sd by (simp add: logged_machine_def sd_idle_def)
  moreover have "buf_ok 1 logged_machine (bufs logged_machine ! i)" if "i < NBUF" for i
    using logged_bufs(1)[OF that]
    by (auto simp: buf_ok_def dirty_buf_def empty_buf_def BSIZE_def ROOTDEV_def B_VALID_def B_DIRTY_def)
      (simp_all add: logged_machine_def machine_def)
  moreover have "b_dev (bufs logged_machine ! i) = ROOTDEV \<Longrightarrow> i = 0" if "i < NBUF" for i
    using logged_bufs(1)[OF that] by (auto simp: empty_buf_def ROOTDEV_def split: if_splits)
  moreover have "spin_free (bc_lock logged_machine)" "lru_ok (bc_clist logged_machine)"
    "\<And>n. length (sectors logged_machine n) = BSIZE"
    using ring_ok by (simp_all add: logged_machine_def machine_def)
  ultimately show ?thesis using logged_bufs(2) unfolding bc_inv_def by metis
qed

lemma logged_layout: "log_layout logged_machine" "quiet logged_machine" "recorded logged_machine = {60}"
proof -
  have f: "lh_n logged_machine = 1" "lh_block logged_machine = 60 # replicate 29 0" "log_start logged_machine = 2"
    "log_dev logged_machine = ROOTDEV" by (simp_all add: logged_machine_def)
  have sl: "60 \<noteq> slot logged_machine j" if "j < LOGSIZE" for j
  proof
    assume "60 = slot logged_machine j"
    then have "(57 :: u32) = of_nat j" using f(3) by (simp add: slot_def algebra_simps)
    then have "unat (57 :: u32) = j" using that unat_of_nat_u32[of j] by (simp add: LOGSIZE_def)
    then show False using that by (simp add: LOGSIZE_def)
  qed
  show "log_layout logged_machine" using f sl by (auto simp: log_layout_def home_def LOGSIZE_def)
  show "quiet logged_machine" using f by (auto simp: quiet_def home_def logged_held logged_refs)
  show "recorded logged_machine = {60}" using f by (auto simp: recorded_def home_def)
qed

text \<open>
  C1. A commit makes the recorded blocks durable: unless fewer than two buffers of the cache are free, it returns, and after \<^verbatim>\<open>commit\<close> the card holds, at the home of every
  block recorded in the in-memory log header, the cached contents of that block; every other block
  outside the log keeps its contents, on the card and in the cache; the pin of each recorded block is
  given back; and the header on the card is empty.
\<close>

theorem commit_durable:
  assumes "bc_inv k s" "log_layout s" "quiet s" "\<forall>b\<in>recorded s. 0 < refs s b" "card (pinned s) + 2 \<le> NBUF"
  shows "kok commit (\<lambda>_. commit_post k s) s"
  using kwp_mono[OF commit_ok[OF assms(1-3)], where E' = "\<lambda>_. False"] assms(4,5) by (simp add: cramped_def)

theorem commit_durable_witness:
  "recorded logged_machine = {60} \<and> blk logged_machine 60 = 7 # zeros 511
    \<and> kok commit (\<lambda>_. commit_post 1 logged_machine) logged_machine"
  using commit_durable[OF logged_inv logged_layout(1,2)] logged_layout(3) logged_bufs(1)[of 0]
  by (simp add: logged_refs logged_pinned blk_def logged_cached dirty_buf_def valid_buf_def NBUF_def B_VALID_def)


text \<open>
  C2. Recovery replays the log: \<^verbatim>\<open>recover_from_log\<close> copies every log block to the home that the header
  on disk names for it, on the card and in the cache, leaves all other blocks alone and empties the
  header. The reference count of each home goes down by one although nothing pinned it, so that an
  unreferenced block ends with \<open>2 ^ 32 - 1\<close> references (\<open>dec_ref_0\<close>).
\<close>

theorem recovery_replays:
  assumes "bc_inv 0 s" "log_layout (loaded s)" "quiet (loaded s)"
    "card (pinned s \<union> recorded (loaded s)) + 2 \<le> NBUF"
  shows "kok recover_from_log (\<lambda>_. recover_post 0 s) s"
  using kwp_mono[OF recover_ok[OF assms(1-3)], where E' = "\<lambda>_. False"] assms(4) by (simp add: cramped_def)

lemma machine_header: "head_n (disk_image 1002) = 1" "word_at (disk_image 1002) (Suc 0) = 60"
  by (simp_all add: head_n_def word_at_def disk_image_def slice_def)

lemma machine_loaded:
  "log_layout (loaded machine)" "quiet (loaded machine)" "recorded (loaded machine) = {60}" "home (loaded machine) 0 = 60"
proof -
  have f: "lh_n (loaded machine) = 1" "lh_block (loaded machine) = 60 # replicate 29 0"
    by (simp_all add: machine_header) (simp add: loaded_def Let_def machine_header LOGSIZE_def)
  have d: "log_dev (loaded machine) = ROOTDEV" by (simp add: loaded_def Let_def)
  show h: "home (loaded machine) 0 = 60" using f by (simp add: home_def)
  have sl: "60 \<noteq> slot (loaded machine) j" if "j < LOGSIZE" for j
    using logged_layout(1) that by (auto simp: log_layout_def home_def slot_def logged_machine_def)
  show "log_layout (loaded machine)" using f d h sl by (auto simp: log_layout_def LOGSIZE_def)
  show "quiet (loaded machine)" using f by (auto simp: quiet_def)
  show "recorded (loaded machine) = {60}" using f h by (auto simp: recorded_def)
qed

theorem recovery_replays_witness:
  "recorded (loaded machine) = {60} \<and> kok recover_from_log (\<lambda>_. recover_post 0 machine) machine"
proof -
  have "bc_inv 0 machine" using machine_log[of 0] by (simp add: log_inv_def)
  moreover have "pinned machine = {}" by (simp add: pinned_def)
  ultimately show ?thesis using recovery_replays[of machine] machine_loaded by (simp add: NBUF_def)
qed

text \<open>
  The header block that \<^verbatim>\<open>write_head\<close> stores is the one that \<^verbatim>\<open>read_head\<close> reads: the count and
  every block number survive the encoding.
\<close>

theorem log_header_roundtrip:
  assumes "0 \<le> n" "nat n \<le> LOGSIZE" "nat n \<le> length bs" "length d = BSIZE"
  shows "head_n (splice d 0 (head_bytes n bs)) = n
    \<and> map (\<lambda>i. word_at (splice d 0 (head_bytes n bs)) (Suc i)) [0..<nat n] = take (nat n) bs"
  using head_roundtrip(2,3)[OF assms] assms(3) by (auto simp: head_n_def intro: nth_equalityI)

theorem log_header_roundtrip_witness:
  "head_n (splice (zeros 512) 0 (head_bytes 2 [60, 61])) = 2
    \<and> map (\<lambda>i. word_at (splice (zeros 512) 0 (head_bytes 2 [60, 61])) (Suc i)) [0..<nat 2] = take (nat 2) [60, 61]"
  by (rule log_header_roundtrip) (simp_all add: LOGSIZE_def BSIZE_def)

text \<open>
  C26. An update that goes through the log the way every file-system operation does it (\<^verbatim>\<open>begin_op\<close>,
  read, change, \<^verbatim>\<open>log_write\<close>, release, \<^verbatim>\<open>end_op\<close>) changes the cached block and never the block on the
  card: \<^verbatim>\<open>log_write\<close> adds a block to the header only if it is there already, so the header stays
  empty and the commit of \<^verbatim>\<open>end_op\<close> has nothing to write.
\<close>

theorem logged_update_not_durable:
  assumes inv: "log_inv (Suc k) s" "0 < k" "held s = {}"
    and op: "log_outstanding s = 0" "\<not> log_committing s" "length (lh_block s) = LOGSIZE"
    and bn: "bn \<noteq> log_start s" and len: "\<And>d. length (f d) = BSIZE"
  shows "kok (kthen begin_op
      (kthen (kbind (bread ROOTDEV bn) (\<lambda>b. kthen (set_data b f) (kthen (log_write b) (brelse b))))
      end_op)) (\<lambda>_ t. log_inv k t \<and> blk t bn = f (blk s bn) \<and> card_blk t bn = card_blk s bn) s"
proof -
  let ?s = "s\<lparr>log_outstanding := 1\<rparr>"
  have b: "begin_op s = Ok () ?s"
    using begin_op_run[of s] inv(1) op by (simp add: log_inv_def)
  have hv: "heavy ?s = heavy s" by (simp add: heavy_def)
  have i: "log_inv (Suc k) ?s" "held ?s = {}" "log_outstanding ?s = 1" "length (lh_block ?s) = LOGSIZE" "log_start ?s = log_start s"
    using inv op hv by (simp_all add: log_inv_def)
  show ?thesis unfolding kwp_kthen kwp_Ok[of begin_op, OF b]
  proof (rule bread_wp[OF i(1)])
    fix b t assume g: "got (Suc k) ?s bn b t"
    show "kok (kthen (set_data b f) (kthen (log_write b) (brelse b)))
      (\<lambda>_. kok end_op (\<lambda>_ t. log_inv k t \<and> blk t bn = f (blk s bn) \<and> card_blk t bn = card_blk s bn)) t"
    proof (rule update_end_wp[where f = f, OF g inv(2)])
      fix u assume u: "fs_to k ?s ((blk ?s)(bn := f (blk ?s bn))) u"
      then have v: "log_inv k u" "held u = {}" "blk u = (blk s)(bn := f (blk s bn))" "card_blk u = card_blk s" "bio_upd ?s u"
        using i(2) by (simp_all add: fs_to_def)
      note lf = log_fields[OF v(5)]
      show "kok end_op (\<lambda>_ t. log_inv k t \<and> blk t bn = f (blk s bn) \<and> card_blk t bn = card_blk s bn) u"
        by (rule kwp_conseq[OF end_op_last[OF v(1) inv(2)]]) (use v lf i bn in auto)
    qed (use i len in simp_all)
  qed (use i in simp_all)
qed

theorem logged_update_not_durable_witness:
  "kok (kthen begin_op
      (kthen (kbind (bread ROOTDEV 50) (\<lambda>b. kthen (set_data b (\<lambda>_. zeros 512)) (kthen (log_write b) (brelse b))))
      end_op)) (\<lambda>_ t. log_inv 1 t \<and> blk t 50 = zeros 512 \<and> card_blk t 50 = [104, 101, 108, 108, 111] @ zeros 507) machine"
  using logged_update_not_durable[of 1 machine 50 "\<lambda>_. zeros 512"] machine_log[of "Suc 1"]
  by (simp add: disk_image_def BSIZE_def)



section \<open>Card and buffer cache\<close>

text \<open>
  C27. A request on an idle card (\<^verbatim>\<open>sdrw\<close> of a clean buffer, with the interrupt handler that serves it)
  fills the buffer with its sector, marks it valid and leaves the queue empty; nothing else changes.
\<close>

theorem card_read:
  assumes "sd_idle s" "b < length (bufs s)" "b_flags (bufs s ! b) AND B_DIRTY = 0"
  shows "\<exists>bl w cm. sdrw b s = Ok () (s\<lparr>bufs := (bufs s)[b := (bufs s ! b)
      \<lparr>b_data := sectors s (buf_sector (bufs s ! b)),
       b_flags := (b_flags (bufs s ! b) OR B_VALID) AND NOT B_DIRTY\<rparr>],
      sd_blist := bl, sd_woken := w, emmc_cmd := cm\<rparr>) \<and> dlist bl SdQue []"
  by (rule sdrw_read[OF assms])

theorem card_read_witness:
  "\<exists>bl w cm. sdrw 3 machine = Ok () (machine\<lparr>bufs := (bufs machine)[3 := empty_buf
      \<lparr>b_data := disk_image 1000, b_flags := (0 OR B_VALID) AND NOT B_DIRTY\<rparr>],
      sd_blist := bl, sd_woken := w, emmc_cmd := cm\<rparr>) \<and> dlist bl SdQue []"
proof -
  have "3 < length (bufs machine)" "bufs machine ! 3 = empty_buf" "sectors machine = disk_image"
    using machine_bufs by (simp_all add: NBUF_def) (simp add: machine_def)
  then show ?thesis using card_read[OF machine_sd, of 3] by (simp add: empty_buf_def buf_sector_def)
qed

text \<open>
  A request for a dirty buffer stores its data in its sector, and only there, and clears the
  dirty flag.
\<close>

theorem card_write:
  assumes "sd_idle s" "b < length (bufs s)" "b_flags (bufs s ! b) AND B_DIRTY \<noteq> 0"
  shows "\<exists>bl w cm. sdrw b s = Ok () (s\<lparr>bufs := (bufs s)[b := (bufs s ! b)
      \<lparr>b_flags := (b_flags (bufs s ! b) OR B_VALID) AND NOT B_DIRTY\<rparr>],
      sectors := (sectors s)(buf_sector (bufs s ! b) := b_data (bufs s ! b)),
      sd_blist := bl, sd_woken := w, emmc_cmd := cm\<rparr>) \<and> dlist bl SdQue []"
  by (rule sdrw_write[OF assms])

theorem card_write_witness:
  "\<exists>s :: file_state. \<exists>bl w cm. sectors s 1000 \<noteq> 9 # zeros 511
    \<and> sdrw 0 s = Ok () (s\<lparr>bufs := (bufs s)[0 := (bufs s ! 0)\<lparr>b_flags := (b_flags (bufs s ! 0) OR B_VALID) AND NOT B_DIRTY\<rparr>],
      sectors := (sectors s)(1000 := 9 # zeros 511), sd_blist := bl, sd_woken := w, emmc_cmd := cm\<rparr>)
    \<and> dlist bl SdQue []"
proof -
  let ?b = "empty_buf\<lparr>b_flags := B_DIRTY, b_data := 9 # zeros 511\<rparr>"
  let ?s = "machine\<lparr>bufs := ?b # replicate 29 empty_buf\<rparr>"
  have "sd_idle ?s" using machine_sd by (simp add: sd_idle_def)
  then have "\<exists>bl w cm. sdrw 0 ?s = Ok () (?s\<lparr>bufs := (bufs ?s)[0 := (bufs ?s ! 0)
      \<lparr>b_flags := (b_flags (bufs ?s ! 0) OR B_VALID) AND NOT B_DIRTY\<rparr>],
      sectors := (sectors ?s)(buf_sector (bufs ?s ! 0) := b_data (bufs ?s ! 0)),
      sd_blist := bl, sd_woken := w, emmc_cmd := cm\<rparr>) \<and> dlist bl SdQue []"
    by (rule card_write) (simp_all add: B_DIRTY_def)
  moreover have "buf_sector (bufs ?s ! 0) = 1000" "b_data (bufs ?s ! 0) = 9 # zeros 511"
    by (simp_all add: buf_sector_def empty_buf_def)
  moreover have "hd (sectors ?s 1000) = 0" by (simp add: machine_def disk_image_def zeros_def BSIZE_def)
  then have "sectors ?s 1000 \<noteq> 9 # zeros 511" by auto
  ultimately show ?thesis by (intro exI[of _ ?s]) simp
qed



text \<open>
  \<^verbatim>\<open>binit\<close> establishes the invariant of the cache from zeroed buffers: every buffer is on the list,
  unlocked and free, and the cache shows the contents of the card.
\<close>

theorem binit_establishes:
  assumes "sd_idle s" "boot_bufs (bufs s)" "\<forall>n. length (sectors s n) = BSIZE" "k < 2 ^ 32"
  shows "kok binit (\<lambda>_ t. bc_inv k t \<and> blk t = card_blk t \<and> held t = {} \<and> sectors t = sectors s
    \<and> LBA t = LBA s \<and> \<not> all_pinned t) s"
  using binit_ok[OF assms(1,2) _ assms(4)] assms(3) by blast

theorem binit_establishes_witness:
  "kok binit (\<lambda>_ t. bc_inv 5 t \<and> blk t = card_blk t \<and> held t = {} \<and> sectors t = sectors machine
    \<and> LBA t = LBA machine \<and> \<not> all_pinned t) machine"
proof (rule binit_establishes[OF machine_sd])
  show "boot_bufs (bufs machine)" by (simp add: boot_bufs_def machine_def empty_buf_def NBUF_def)
  show "\<forall>n. length (sectors machine n) = BSIZE" by (simp add: machine_def)
qed simp



section \<open>Blocks\<close>

text \<open>
  C21. \<^verbatim>\<open>balloc\<close> returns the least block whose bit is clear in the bitmap, sets that bit, zeroes the
  block and changes nothing else. When every bit up to the end of the last bitmap block is set, the
  function ends without a return statement and its value is undefined.
\<close>

theorem balloc_least:
  fixes s :: "'z fs_state_scheme"
  assumes "log_inv (Suc (Suc k)) s" "0 < k" "held s = {}"
  shows "kwp (balloc ROOTDEV)
    (\<lambda>e. e = no_value \<and> (\<forall>n<bitmap_limit (sb_size (sb s)). \<not> block_free (blk s) (sb s) n))
    (\<lambda>a t. \<exists>i j. a = of_nat (i + j) \<and> i + j < bitmap_limit (sb_size (sb s)) \<and> block_free (blk s) (sb s) (i + j)
      \<and> (\<forall>n<i + j. \<not> block_free (blk s) (sb s) n) \<and> fs_to k s (allocated (blk s) (sb s) i j) t) s"
  unfolding balloc_def kwp_kbind[of "kget sb"] kwp_kget
proof (rule kwp_mono[OF balloc_from_ok[OF assms(1,2)]])
  fix e assume "first_free (blk s) (sb s) (bitmap_firsts (sb_size (sb s))) = None \<and> e = no_value"
  then show "e = no_value \<and> (\<forall>n<bitmap_limit (sb_size (sb s)). \<not> block_free (blk s) (sb s) n)"
    using first_free_full by blast
qed (use assms(3) first_free_least in \<open>fastforce+\<close>)

lemma machine_bits:
  assumes "sb_bmapstart b = 40"
  shows "block_free (blk machine) b 3" "n < 3 \<Longrightarrow> \<not> block_free (blk machine) b n"
proof -
  have z: "disk_image 1040 ! 0 = 7" by (simp add: disk_image_def)
  show "block_free (blk machine) b 3"
    using z assms by (simp add: block_free_def BBLOCK_def BPB_def bit_set_def)
  assume "n < 3"
  then have "n = 0 \<or> n = 1 \<or> n = 2" by auto
  then show "\<not> block_free (blk machine) b n"
    using z assms by (auto simp: block_free_def BBLOCK_def BPB_def bit_set_def)
qed

theorem balloc_least_witness: "kok (balloc ROOTDEV) (\<lambda>a _. a = 3) machine"
proof -
  have b: "block_free (blk machine) (sb machine) 3" "n < 3 \<Longrightarrow> \<not> block_free (blk machine) (sb machine) n" for n
    using machine_bits by (simp_all add: example_sb_def)
  show ?thesis
  proof (rule kwp_mono[OF balloc_least[of 1 machine]], goal_cases)
    case (4 a t)
    then obtain i j where ij: "a = of_nat (i + j)" "block_free (blk machine) (sb machine) (i + j)"
      "\<forall>n<i + j. \<not> block_free (blk machine) (sb machine) n" by blast
    have "i + j = 3" using b ij(2,3) by (metis nat_neq_iff)
    then show ?case using ij(1) by simp
  next
    case (5 e)
    have "3 < bitmap_limit (sb_size (sb machine))" by (simp add: bitmap_limit_def example_sb_def BPB_def)
    then show ?case using 5 b(1) by blast
  qed (use machine_log[of "Suc (Suc 1)"] in simp_all)
qed

text \<open>
  The bitmap covers whole blocks of bits, and \<^verbatim>\<open>balloc\<close> does not compare with the size of the file
  system: when all blocks below \<^verbatim>\<open>sb.size\<close> are in use and the bit after them is clear, it hands out
  block \<^verbatim>\<open>sb.size\<close>, which lies outside the file system.
\<close>

theorem balloc_past_end:
  fixes s :: "'z fs_state_scheme"
  assumes "log_inv (Suc (Suc k)) s" "0 < k" "held s = {}"
    and full: "\<forall>n<unat (sb_size (sb s)). \<not> block_free (blk s) (sb s) n"
    and clear: "block_free (blk s) (sb s) (unat (sb_size (sb s)))" "unat (sb_size (sb s)) < bitmap_limit (sb_size (sb s))"
  shows "kok (balloc ROOTDEV) (\<lambda>a _. a = sb_size (sb s)) s"
proof -
  let ?n = "unat (sb_size (sb s))"
  have nh: "\<And>i. BBLOCK (of_nat i) (sb s) \<notin> held s" "\<And>a. a \<notin> held s" "card (held s) \<le> 1" using assms(3) by simp_all
  have eq: "m = ?n" if "block_free (blk s) (sb s) m" "\<forall>n<m. \<not> block_free (blk s) (sb s) n" for m
    using that full clear(1) by (metis linorder_neqE_nat)
  show ?thesis
    unfolding balloc_def kwp_kbind[of "kget sb"] kwp_kget
  proof (rule kwp_mono[OF balloc_from_ok[OF assms(1,2) nh(1,2,3)]])
    fix a :: u32 and t assume "\<exists>i j. first_free (blk s) (sb s) (bitmap_firsts (sb_size (sb s))) = Some (i, j) \<and> a = of_nat (i + j)
      \<and> fs_to k s (allocated (blk s) (sb s) i j) t"
    then obtain i j where "first_free (blk s) (sb s) (bitmap_firsts (sb_size (sb s))) = Some (i, j)" "a = of_nat (i + j)" by blast
    moreover from this have "i + j = ?n" using eq[of "i + j"] first_free_least by blast
    ultimately show "a = sb_size (sb s)" by (simp del: of_nat_add)
  qed (use first_free_full clear in blast)
qed


theorem balloc_past_end_witness:
  "kok (balloc ROOTDEV) (\<lambda>a _. a = 3) (machine\<lparr>sb := example_sb\<lparr>sb_size := 3\<rparr>\<rparr>)"
proof -
  let ?s = "machine\<lparr>sb := example_sb\<lparr>sb_size := 3\<rparr>\<rparr>"
  have "log_inv (Suc (Suc 1)) ?s" "held ?s = {}" using machine_log[of "Suc (Suc 1)"] by simp_all
  moreover have "block_free (blk ?s) (sb ?s) 3" "\<forall>n<3. \<not> block_free (blk ?s) (sb ?s) n"
    using machine_bits by (simp_all add: example_sb_def)
  ultimately show ?thesis using balloc_past_end[of 1 ?s] by (simp add: bitmap_limit_def BPB_def)
qed

text \<open>
  C23. \<^verbatim>\<open>bfree\<close> of a block in use clears its bit and changes no other bit; freeing a block that is
  already free panics.
\<close>

theorem bfree_clears:
  fixes s :: "'z fs_state_scheme"
  assumes "log_inv (Suc k) s" "0 < k" "held s = {}"
  shows "if block_free (blk s) (sb s) (unat bn) then bfree ROOTDEV bn s = Fault (Panic ''Free block has been freed'')
    else kok (bfree ROOTDEV bn) (\<lambda>_ t. block_free (blk t) (sb s) (unat bn)
      \<and> (\<forall>n. n div BPB = unat bn div BPB \<longrightarrow> n \<noteq> unat bn \<longrightarrow> block_free (blk t) (sb s) n = block_free (blk s) (sb s) n)
      \<and> (\<forall>b. b \<noteq> BBLOCK bn (sb s) \<longrightarrow> blk t b = blk s b) \<and> log_inv k t) s"
proof (cases "block_free (blk s) (sb s) (unat bn)")
  case True
  then have "\<not> bit_set (blk s (BBLOCK bn (sb s))) (unat bn mod BPB)" by (simp add: block_free_def)
  then have "kwp (bfree ROOTDEV bn) (\<lambda>e. e = Panic ''Free block has been freed'') (\<lambda>_ _. False) s"
    using assms by (intro bfree_panics[where k = "Suc k"]) simp_all
  then show ?thesis using True by (auto simp: kwp_def split: outcome.splits)
next
  case False
  let ?b = "BBLOCK bn (sb s)"
  have st: "bit_set (blk s ?b) (unat bn mod BPB)" using False by (simp add: block_free_def)
  have len: "length (blk s ?b) = BSIZE" using assms(1) length_blk by (auto simp: log_inv_def)
  have j: "unat bn mod BPB < BPB" by (simp add: BPB_def)
  have bb: "BBLOCK (of_nat n) (sb s) = ?b \<and> n mod BPB \<noteq> unat bn mod BPB"
    if "n div BPB = unat bn div BPB" "n \<noteq> unat bn" "n < 2 ^ 32" for n
  proof -
    have "(of_nat n :: 32 word) div 4096 = bn div 4096"
      using that(1,3) by (simp add: word_unat_eq_iff unat_div unat_of_nat_u32 BPB_def)
    moreover have "n mod BPB \<noteq> unat bn mod BPB"
      using that(1,2) div_mult_mod_eq[of n BPB] div_mult_mod_eq[of "unat bn" BPB] by metis
    ultimately show ?thesis by (simp add: BBLOCK_def BPB_def)
  qed
  have big: "n < 2 ^ 32" if "n div BPB = unat bn div BPB" for n
  proof -
    have "unat bn < 2 ^ 32" using unsigned_less[of bn] by simp
    then have "unat bn div 4096 < 1048576" by simp
    moreover have "n div 4096 = unat bn div 4096" using that by (simp add: BPB_def)
    ultimately have "n div 4096 < 1048576" by simp
    then show ?thesis by simp
  qed
  show ?thesis unfolding if_not_P[OF False]
  proof (rule kwp_conseq[OF bfree_ok[OF assms(1,2) _ st]])
    fix t assume t: "fs_to k s ((blk s)(?b := flip_bit_at (unat bn mod BPB) (blk s ?b))) t"
    note f = fs_toD[OF t] and fl = bit_set_flip(2)[OF len j]
    have "block_free (blk t) (sb s) (unat bn)" using f(2) fl[OF j] st by (simp add: block_free_def)
    moreover have "block_free (blk t) (sb s) n = block_free (blk s) (sb s) n"
      if "n div BPB = unat bn div BPB" "n \<noteq> unat bn" for n
      using bb[OF that big[OF that(1)]] f(2) fl[of "n mod BPB"] by (simp add: block_free_def BPB_def)
    ultimately show "block_free (blk t) (sb s) (unat bn)
      \<and> (\<forall>n. n div BPB = unat bn div BPB \<longrightarrow> n \<noteq> unat bn \<longrightarrow> block_free (blk t) (sb s) n = block_free (blk s) (sb s) n)
      \<and> (\<forall>b. b \<noteq> ?b \<longrightarrow> blk t b = blk s b) \<and> log_inv k t" using f by simp
  qed (use assms(3) in simp_all)
qed


theorem bfree_clears_witness:
  "bfree ROOTDEV 3 machine = Fault (Panic ''Free block has been freed'')
   \<and> kok (bfree ROOTDEV 2) (\<lambda>_ t. block_free (blk t) (sb machine) 2) machine"
proof -
  have b: "block_free (blk machine) (sb machine) 3" "\<not> block_free (blk machine) (sb machine) 2"
    using machine_bits by (simp_all add: example_sb_def)
  note c = bfree_clears[of 1 machine] 
  have "bfree ROOTDEV 3 machine = Fault (Panic ''Free block has been freed'')"
    using c[of 3] machine_log[of "Suc 1"] b(1) by simp
  moreover have "kok (bfree ROOTDEV 2) (\<lambda>_ t. block_free (blk t) (sb machine) 2) machine"
    using c[of 2] machine_log[of "Suc 1"] b(2) kwp_conseq[of "bfree ROOTDEV 2" _ _ machine] by simp
  ultimately show ?thesis by simp
qed

end
