(* ===== verification/Filesystem.thy ===== *)
theory Filesystem
  imports Machine
begin

text \<open>
  Properties of the file system above the log: inodes, file contents, directories, path names and
  open files.
\<close>

section \<open>Inodes\<close>

text \<open>
  The on-disk encoding of an inode: decoding the 64 bytes that \<^verbatim>\<open>iupdate\<close> stores gives the inode
  back, in the block where \<^verbatim>\<open>ilock\<close> looks for it, and storing one inode leaves every other inode of
  the disk as it was.
\<close>

theorem inode_roundtrip:
  assumes "length (di_addrs d) = Suc NDIRECT" "\<forall>b. length (v b) = BSIZE"
  shows "disk_ino (store_ino v b0 i d) b0 j = (if j = i then d else disk_ino v b0 j)"
  using disk_ino_store[OF assms(1)] disk_ino_store_other[OF _ assms(1)] assms(2) by auto

theorem inode_roundtrip_witness:
  "disk_ino (store_ino disk_image example_sb 9 (dino_of file_ino)) example_sb 9 = dino_of file_ino
   \<and> disk_ino (store_ino disk_image example_sb 9 (dino_of file_ino)) example_sb 8 = disk_ino disk_image example_sb 8"
  using inode_roundtrip[of "dino_of file_ino" disk_image example_sb 9 9]
    inode_roundtrip[of "dino_of file_ino" disk_image example_sb 9 8]
  by (simp add: dino_of_def file_ino_def NDIRECT_def)

text \<open>
  \<^verbatim>\<open>iget\<close> keeps the inode cache well formed (one entry per inode in use): it returns an entry for the
  inode, adds one to the references of that inode and of no other, and panics only when no entry is
  free and the inode is not cached.
\<close>

theorem iget_counts:
  assumes "ic_inv s"
  shows "kwp (iget dev inum)
    (\<lambda>e. e = Panic ''Cannot alloc a inode'' \<and> ino_refs s dev inum = 0 \<and> (\<forall>i<NINODE. 0 < i_ref (icache s ! i)))
    (iget_post dev inum s) s"
  by (rule iget_ok[OF assms])

theorem iget_counts_witness:
  "kok (iget ROOTDEV 2) (\<lambda>i t. i < NINODE \<and> ino_refs t ROOTDEV 2 = ino_refs machine ROOTDEV 2 + 1) machine"
proof -
  have "\<not> (\<forall>i<NINODE. 0 < i_ref (icache machine ! i))"
    by (auto simp: machine_def NINODE_def empty_ino_def intro!: exI[of _ 5])
  then show ?thesis by (intro kwp_mono[OF iget_counts[OF machine_ic]]) (auto simp: iget_post_def)
qed

text \<open>
  \<^verbatim>\<open>ilock\<close> takes the sleep lock of an unlocked entry and, the first time, loads the inode from its
  place on disk; it changes no block.
\<close>

theorem ilock_loads:
  assumes "log_inv k s" "0 < k" "ic_inv s" "ip < NINODE" "\<not> slp_locked (i_lock (icache s ! ip))"
    "i_dev (icache s ! ip) = ROOTDEV" "held s = {}"
  shows "kok (ilock ip) (\<lambda>_ t. icache t = (icache s)[ip := locked_ino s ip] \<and> blk t = blk s \<and> log_inv k t) s"
  by (rule kwp_conseq[OF ilock_ok[OF assms(1-6)]])
    (use assms(7) fs_toD fs_fields(1) in \<open>fastforce+\<close>)

theorem ilock_loads_witness:
  "kok (ilock 0) (\<lambda>_ t. slp_locked (i_lock (icache t ! 0)) \<and> i_size (icache t ! 0) = 5) machine"
proof -
  have "kok (ilock 0) (\<lambda>_ t. icache t = (icache machine)[0 := locked_ino machine 0]
      \<and> blk t = blk machine \<and> log_inv 1 t) machine"
    by (rule ilock_loads[OF machine_log _ machine_ic]) (simp_all add: NINODE_def)
  then show ?thesis
    by (rule kwp_conseq) (simp add: NINODE_def locked_ino_def taken_def Let_def)
qed


section \<open>File contents\<close>

text \<open>
  C24. \<^verbatim>\<open>readi\<close> of a file whose blocks exist: past the end of the file, or when the end of the range
  wraps around, the result is -1 and nothing changes; otherwise it returns exactly the bytes of the
  file from the offset on, cut at the size of the file, and changes no block.
\<close>

theorem readi_contents:
  assumes "log_inv k s" "0 < k" "ic_inv s" "ip < NINODE" "i_dev (icache s ! ip) = ROOTDEV"
    "i_type (icache s ! ip) \<noteq> T_DEV" "card (held s) \<le> 1"
    "reach_ok s (icache s ! ip) 0 (unat (i_size (icache s ! ip)))"
  shows "if unat (i_size (icache s ! ip)) < unat off \<or> off + n < off then readi ip off n s = Ok (-1, []) s
    else kok (readi ip off n) (\<lambda>(c, d) t. c = int (length d)
      \<and> d = file_bytes (blk s) (icache s ! ip) (unat off) (min (unat n) (unat (i_size (icache s ! ip)) - unat off))
      \<and> blk t = blk s \<and> icache t = icache s \<and> log_inv k t) s"
proof (cases "unat (i_size (icache s ! ip)) < unat off \<or> off + n < off")
  case True
  then show ?thesis using readi_beyond[OF _ assms(6)] assms(4) ic_invD(2)[OF assms(3)] by auto
next
  case False
  let ?x = "icache s ! ip"
  have r: "reach_ok s ?x (unat off) (read_len ?x off n)"
    by (rule reach_ok_mono[OF assms(8)]) (use False in \<open>auto simp: read_len_def\<close>)
  show ?thesis unfolding if_not_P[OF False]
    by (rule kwp_conseq[OF readi_ok[OF assms(1-6) _ _ r assms(7)]])
      (use False in \<open>auto simp: read_len_def file_bytes_def dest: fs_toD(1,2) fs_fields(1)[OF fs_toD(4)]\<close>)
qed

lemma machine_file_reach: "reach_ok machine file_ino 0 5"
  by (auto simp: reach_ok_def Inode.mapped_def addr_of_def fs_consts BSIZE_def)

theorem readi_contents_witness:
  "kok (readi 0 1 100) (\<lambda>(c, d) t. c = 4 \<and> d = [101, 108, 108, 111]) machine"
proof -
  have "if unat (i_size (icache machine ! 0)) < unat (1 :: u64) \<or> (1 :: u64) + 100 < 1 then readi 0 1 100 machine = Ok (-1, []) machine
    else kok (readi 0 1 100) (\<lambda>(c, d) t. c = int (length d)
      \<and> d = file_bytes (blk machine) (icache machine ! 0) (unat (1 :: u64)) (min (unat (100 :: u64)) (unat (i_size (icache machine ! 0)) - unat (1 :: u64)))
      \<and> blk t = blk machine \<and> icache t = icache machine \<and> log_inv 1 t) machine"
    by (rule readi_contents[OF machine_log _ machine_ic])
      (simp_all add: NINODE_def machine_file_reach, simp_all add: fs_consts)
  then have "kok (readi 0 1 100) (\<lambda>(c, d) t. c = int (length d) \<and> d = file_bytes (blk machine) file_ino 1 4) machine"
    by (simp add: NINODE_def) (rule kwp_conseq, assumption, auto)
  moreover have "file_bytes (blk machine) file_ino 1 4 = [101, 108, 108, 111]"
    by (simp add: file_bytes_def file_byte_def addr_of_def fs_consts BSIZE_def disk_image_def upt_rec)
  ultimately show ?thesis by (auto elim!: kwp_conseq)
qed





section \<open>Directories and paths\<close>

text \<open>
  C20. \<^verbatim>\<open>dirlookup\<close> returns the first entry in use whose name agrees with the given one up to the
  terminator and at most 14 characters, with its offset and a new reference to its inode; without
  such an entry it returns the null pointer. It panics only when the inode cache is full.
\<close>

theorem dirlookup_first:
  assumes "dir_ok k s dp"
  shows "kwp (dirlookup dp name) look_fault (\<lambda>r t.
    case List.find (\<lambda>j. names name (dent (blk s) (icache s ! dp) j)) [0..<dir_len (icache s ! dp)] of
      None \<Rightarrow> r = None \<and> icache t = icache s \<and> blk t = blk s
    | Some j \<Rightarrow> (\<exists>ip u. r = Some (ip, DE_SIZE * j) \<and> icache u = icache s \<and> blk u = blk s
        \<and> iget_post ROOTDEV (ucast (de_inum (dent (blk s) (icache s ! dp) j))) u ip t)) s"
  by (rule kwp_conseq[OF dirlookup_ok[OF assms]])
    (auto simp: look_from_def split: option.splits dest: fs_toD(2) fs_fields(1)[OF fs_toD(4)])

lemma machine_dir: "dir_ok 1 machine 1"
  using machine_log[of 1] machine_ic
  by (auto simp: dir_ok_def NINODE_def dir_len_def DE_SIZE_def reach_ok_def Inode.mapped_def addr_of_def fs_consts BSIZE_def)

theorem dirlookup_first_witness:
  "kwp (dirlookup 1 (ptr [97])) look_fault (\<lambda>r t. \<exists>ip. r = Some (ip, 16) \<and> ip < NINODE) machine"
proof -
  have d: "dent (blk machine) dir_ino 0 = dirent_bytes 1 [46]" "dent (blk machine) dir_ino 1 = dirent_bytes 2 [97]"
    using file_bytes_chunk[of "blk machine" dir_ino 0 16] file_bytes_chunk[of "blk machine" dir_ino 16 16] length_disk_image[of 1051]
    by (simp_all add: dent_def DE_SIZE_def addr_of_def fs_consts chunk_def BSIZE_def slice_def disk_image_def
        dirent_bytes_def zeros_def le16_def)
  have n: "\<not> names (ptr [97]) (dirent_bytes 1 [46])" "names (ptr [97]) (dirent_bytes 2 [97])"
    by (simp_all add: names_def de_inum_def de_name_def dirent_bytes_def slice_def le16_def unle16_def zeros_def ptr_def DIRSIZ_def cstr_def upt_rec)
  show ?thesis
    by (rule kwp_conseq[OF dirlookup_first[OF machine_dir]])
      (use d n in \<open>auto simp: NINODE_def dir_len_def DE_SIZE_def upt_rec iget_post_def\<close>)
qed

text \<open>
  C36. \<^verbatim>\<open>skipelem\<close> splits a path as its list of components says: it fails exactly on a path without
  components, and otherwise puts the first one, cut at 14 characters, in the buffer and returns a
  path with the other components and no leading slash.
\<close>

theorem skipelem_first:
  "case path_elems path of
     [] \<Rightarrow> skipelem path name = None
   | e # es \<Rightarrow> \<exists>rest. skipelem path name = Some (rest, put_name e name) \<and> path_elems rest = es
       \<and> (rest = [] \<longleftrightarrow> es = []) \<and> (rest = [] \<or> hd rest \<noteq> SLASH)"
  using skipelem_elems[of path name] by (auto split: list.splits)

theorem skipelem_first_witness:
  "\<exists>rest. skipelem [47, 97, 47, 47, 98] (replicate 14 0) = Some (rest, put_name [97] (replicate 14 0)) \<and> path_elems rest = [[98]]"
  using skipelem_first[of "[47, 97, 47, 47, 98]" "replicate 14 0"] by (auto simp: path_elems_def SLASH_def)


section \<open>Open files\<close>

text \<open>
  \<^verbatim>\<open>filealloc\<close> keeps the table well formed and hands out the first entry without references, with
  one reference; it returns the null pointer exactly when every entry is in use.
\<close>

lemma filealloc_first:
  assumes "ft_inv s"
  shows "kok filealloc (\<lambda>r t. ft_inv t \<and> (case r of
      Some f \<Rightarrow> f < NFILE \<and> f_ref (ftable s ! f) = 0 \<and> (\<forall>i<f. f_ref (ftable s ! i) > 0)
        \<and> t = s\<lparr>ftable := (ftable s)[f := (ftable s ! f)\<lparr>f_ref := 1\<rparr>]\<rparr>
    | None \<Rightarrow> t = s \<and> (\<forall>i<NFILE. f_ref (ftable s ! i) > 0))) s"
  by (rule filealloc_ok[OF assms])

text \<open>
  The last \<^verbatim>\<open>fileclose\<close> of a file frees its table entry but gives no inode reference back: the
  type is tested after it has been set to \<^verbatim>\<open>FD_NONE\<close>, so \<^verbatim>\<open>iput\<close> is never reached and the inode
  cache, the log and the card are as before.
\<close>

theorem fileclose_keeps_inode:
  assumes "ft_inv s" "f < NFILE" "f_ref (ftable s ! f) = 1"
  shows "fileclose f s = Ok () (s\<lparr>ftable := (ftable s)[f := (ftable s ! f)\<lparr>f_ref := 0, f_type := FD_NONE\<rparr>]\<rparr>)"
  using fileclose_run[OF assms(1,2)] assms(3) by simp

theorem fileclose_keeps_inode_witness:
  "fileclose 0 machine = Ok () (machine\<lparr>ftable := replicate 100 empty_file\<rparr>)"
  using fileclose_keeps_inode[OF machine_ft, of 0] by (simp add: machine_def NFILE_def empty_file_def numeral_nat)

end
