(* ===== verification/Proc.thy ===== *)
theory Proc
  imports Linked_List File Vm
begin

text \<open>
  Processes, \<^verbatim>\<open>kern/proc.c\<close>: the process table, the run queues \<^verbatim>\<open>prioque\<close>, the sleep queues \<^verbatim>\<open>hashmp\<close>
  and the scheduler. The \<^verbatim>\<open>list_head\<close> nodes of both kinds of queue and of the processes live in one
  heap of \<open>Linked_List\<close>; memory and files are the states of \<open>Vm\<close> and \<open>File\<close>.

  \<^verbatim>\<open>swtch\<close> is modelled by the code on its two sides: \<open>sched\<close> runs the rest of the scheduler's turn on
  the same processor, and a process that is switched to runs \<open>resumed\<close>, the code after the call of
  \<^verbatim>\<open>sched\<close> in which it gave up the processor, which the ghost field \<open>resumes\<close> records (it is what the
  saved return address on the process's kernel stack says).
\<close>

section \<open>State\<close>

definition NCPU :: nat where "NCPU = 4"
definition NPROC :: nat where "NPROC = 64"
definition NOFILE :: nat where "NOFILE = 16"
definition HASHENTRIES :: nat where "HASHENTRIES = 17"
definition PRIOENTRIES :: nat where "PRIOENTRIES = 4"

datatype procstate = UNUSED | EMBRYO | SLEEPING | RUNNABLE | RUNNING | ZOMBIE

text \<open>A process pointer is an index of the table; trap frame and context are addresses.\<close>

record proc =
  p_sz :: u64
  p_pgdir :: u64
  p_kstack :: u64
  p_state :: procstate
  p_pid :: int
  p_parent :: "nat option"
  p_tf :: u64
  p_context :: u64
  p_chan :: u64
  p_killed :: int
  p_name :: "u8 list"
  p_ofile :: "nat option list"
  p_cwd :: "nat option"
  p_prio :: nat

datatype pnode = Hash nat | Prio nat | Clist nat | Plist nat

text \<open>
  The lock argument of \<^verbatim>\<open>sleep\<close>: null, the lock of the table (the call in \<^verbatim>\<open>wait\<close>), or another one; and
  the place where a process that is not running resumes, with the lock \<^verbatim>\<open>sleep\<close> takes again.
\<close>

datatype lockref = NoLock | PtableLock | OtherLock nat

datatype resume = InForkret | InYield | InSleep "nat option" | InWait

record proc_sys =
  p_cpu :: nat
  ptable :: "proc list"
  plists :: "pnode lheap"
  ptablelock :: spinlock
  klocks :: "nat \<Rightarrow> spinlock"
  initproc :: "nat option"
  nextpid :: int
  cpus :: "nat option list"
  resumes :: "nat \<Rightarrow> resume"
  ptable_at :: u64
  trapret_at :: u64
  forkret_at :: u64
  kmem :: vm_state
  kfs :: file_state

definition proc_addr :: "u64 \<Rightarrow> nat option \<Rightarrow> u64" where
  "proc_addr base p = (case p of None \<Rightarrow> 0 | Some i \<Rightarrow> base + 264 * of_nat i)"


section \<open>Access\<close>

definition get_proc :: "nat \<Rightarrow> ('z proc_sys_scheme, proc) kop" where
  "get_proc p = kidx ptable p"

definition upd_proc :: "nat \<Rightarrow> (proc \<Rightarrow> proc) \<Rightarrow> ('z proc_sys_scheme, unit) kop" where
  "upd_proc p f = kupd ptable (\<lambda>x s. s\<lparr>ptable := x\<rparr>) p f"

definition on_lists :: "(pnode lheap, 'a) kop \<Rightarrow> ('z proc_sys_scheme, 'a) kop" where
  "on_lists m = zoom plists (\<lambda>x s. s\<lparr>plists := x\<rparr>) m"

definition on_ptable :: "(nat \<Rightarrow> (spinlock, 'a) kop) \<Rightarrow> ('z proc_sys_scheme, 'a) kop" where
  "on_ptable m = kbind (kget p_cpu) (\<lambda>c. zoom ptablelock (\<lambda>x s. s\<lparr>ptablelock := x\<rparr>) (m c))"

definition on_klock :: "nat \<Rightarrow> (nat \<Rightarrow> (spinlock, 'a) kop) \<Rightarrow> ('z proc_sys_scheme, 'a) kop" where
  "on_klock l m = kbind (kget p_cpu) (\<lambda>c.
     zoom (\<lambda>s. klocks s l) (\<lambda>x s. s\<lparr>klocks := (klocks s)(l := x)\<rparr>) (m c))"

definition on_mem :: "(vm_state, 'a) kop \<Rightarrow> ('z proc_sys_scheme, 'a) kop" where
  "on_mem m = zoom (\<lambda>s. (kmem s)\<lparr>km_cpu := p_cpu s\<rparr>) (\<lambda>x s. s\<lparr>kmem := x\<rparr>) m"

text \<open>
  The file system sees the executing processor and the running process; a null working directory is
  the index past the end of the inode cache.
\<close>

definition fs_view :: "'z proc_sys_scheme \<Rightarrow> file_state" where
  "fs_view s = (case cpus s ! p_cpu s of
       None \<Rightarrow> (kfs s)\<lparr>this_cpu := p_cpu s\<rparr>
     | Some p \<Rightarrow> (kfs s)\<lparr>this_cpu := p_cpu s, this_pid := of_int (p_pid (ptable s ! p)),
         cwd := (case p_cwd (ptable s ! p) of None \<Rightarrow> NINODE | Some i \<Rightarrow> i)\<rparr>)"

definition on_fs :: "(file_state, 'a) kop \<Rightarrow> ('z proc_sys_scheme, 'a) kop" where
  "on_fs m = zoom fs_view (\<lambda>x s. s\<lparr>kfs := x\<rparr>) m"

definition thisproc :: "('z proc_sys_scheme, nat) kop" where
  "thisproc = kbind (kget p_cpu) (\<lambda>c. kbind (kidx cpus c) (\<lambda>r.
     case r of None \<Rightarrow> kfault (Undef ''null process'') | Some p \<Rightarrow> kret p))"

definition set_cpu :: "nat option \<Rightarrow> ('z proc_sys_scheme, unit) kop" where
  "set_cpu r = kbind (kget p_cpu) (\<lambda>c. kupd cpus (\<lambda>x s. s\<lparr>cpus := x\<rparr>) c (\<lambda>_. r))"

definition push_runnable :: "nat \<Rightarrow> ('z proc_sys_scheme, unit) kop" where
  "push_runnable p = kbind (get_proc p) (\<lambda>x. on_lists (list_push_back (Prio (p_prio x)) (Plist p)))"


section \<open>Initialisation and allocation\<close>

text \<open>
  \<^verbatim>\<open>proc_init\<close>; \<open>h\<close> and \<open>q\<close> are the addresses of \<^verbatim>\<open>hashmp\<close> and \<^verbatim>\<open>prioque\<close> in units of one \<^verbatim>\<open>list_head\<close>.
  The second loop compares a pointer into \<^verbatim>\<open>prioque\<close> with \<^verbatim>\<open>hashmp + PRIOENTRIES\<close>; what lies between
  the two arrays is other memory.
\<close>

definition node_at :: "nat \<Rightarrow> nat \<Rightarrow> nat \<Rightarrow> pnode option" where
  "node_at h q a =
     (if h \<le> a \<and> a < h + HASHENTRIES then Some (Hash (a - h))
      else if q \<le> a \<and> a < q + PRIOENTRIES then Some (Prio (a - q))
      else None)"

definition init_at :: "nat \<Rightarrow> nat \<Rightarrow> nat \<Rightarrow> ('z proc_sys_scheme, unit) kop" where
  "init_at h q a = (case node_at h q a of
     Some n \<Rightarrow> on_lists (list_init n) | None \<Rightarrow> kfault (Undef ''write between arrays''))"

definition proc_init :: "nat \<Rightarrow> nat \<Rightarrow> ('z proc_sys_scheme, unit) kop" where
  "proc_init h q =
     kthen (kfor [h..<h + HASHENTRIES] (init_at h q))
     (kthen (kfor [q..<h + PRIOENTRIES] (init_at h q))
     (zoom ptablelock (\<lambda>x s. s\<lparr>ptablelock := x\<rparr>) (initlock ''ptable'')))"

definition cleanproc :: "nat \<Rightarrow> ('z proc_sys_scheme, unit) kop" where
  "cleanproc p =
     kthen (upd_proc p (\<lambda>x. x\<lparr>p_pid := 0, p_parent := None, p_killed := 0, p_name := (p_name x)[0 := 0],
       p_kstack := 0, p_sz := 0\<rparr>))
     (kbind (get_proc p) (\<lambda>x.
      kthen (on_mem (vm_free (p_pgdir x) 0))
      (upd_proc p (\<lambda>x. x\<lparr>p_state := UNUSED\<rparr>))))"

text \<open>\<^verbatim>\<open>struct trapframe\<close> has 38 words (\<^verbatim>\<open>sp\<close> 4, \<^verbatim>\<open>pc\<close> 5, \<^verbatim>\<open>r0\<close> 7), \<^verbatim>\<open>struct context\<close> 24 (\<^verbatim>\<open>r30\<close> 23).\<close>

definition word_of_struct :: "u64 \<Rightarrow> nat \<Rightarrow> u64" where
  "word_of_struct a i = a + 8 * of_nat i"

definition zero_words :: "u64 \<Rightarrow> nat \<Rightarrow> ('z mem_state_scheme, unit) kop" where
  "zero_words a n = kfor [0..<n] (\<lambda>i. store64 (word_of_struct a i) 0)"

definition tf_words :: nat where "tf_words = 38"
definition context_words :: nat where "context_words = 24"

text \<open>The parts of \<^verbatim>\<open>proc_alloc\<close>: the kernel stack of the entry, the entry, and the search for it.\<close>

definition proc_setup :: "nat \<Rightarrow> u64 \<Rightarrow> ('z proc_sys_scheme, nat option) kop" where
  "proc_setup p ks =
     (let top = ks + PGSIZE; tf = top - 8 * of_nat tf_words; cx = tf - 16 - 8 * of_nat context_words in
      kbind (kget trapret_at) (\<lambda>tr.
      kbind (kget forkret_at) (\<lambda>fr.
      kthen (on_mem (zero_words tf tf_words))
      (kthen (on_mem (store64 (tf - 8) tr))
      (kthen (on_mem (store64 (tf - 16) top))
      (kthen (on_mem (zero_words cx context_words))
      (kthen (on_mem (store64 (word_of_struct cx 23) (fr + 8)))
      (kthen (upd_proc p (\<lambda>x. x\<lparr>p_tf := tf, p_context := cx, p_chan := 0,
         p_prio := PRIOENTRIES - 1, p_ofile := replicate NOFILE None, p_cwd := None\<rparr>))
      (kthen (on_lists (kmod (\<lambda>h. h(Clist p := \<lparr>lnext = None, lprev = None\<rparr>,
         Plist p := \<lparr>lnext = None, lprev = None\<rparr>))))
      (kthen (kmod (\<lambda>s. s\<lparr>resumes := (resumes s)(p := InForkret)\<rparr>))
      (kthen (on_ptable release)
      (kret (Some p)))))))))))))"

definition proc_claim :: "nat \<Rightarrow> ('z proc_sys_scheme, nat option) kop" where
  "proc_claim p =
     kbind (kget nextpid) (\<lambda>pid.
     kthen (upd_proc p (\<lambda>x. x\<lparr>p_state := EMBRYO, p_pid := pid\<rparr>))
     (kthen (kmod (\<lambda>s. s\<lparr>nextpid := nextpid s + 1\<rparr>))
     (kbind (on_mem kalloc) (\<lambda>ks.
      kthen (upd_proc p (\<lambda>x. x\<lparr>p_kstack := ks\<rparr>))
      (if ks = 0 then
         kthen (upd_proc p (\<lambda>x. x\<lparr>p_state := UNUSED\<rparr>))
         (kthen (on_ptable release) (kret None))
       else proc_setup p ks)))))"

definition proc_alloc :: "('z proc_sys_scheme, nat option) kop" where
  "proc_alloc =
     kthen (on_ptable acquire)
     (kbind (kget ptable) (\<lambda>pt.
      case List.find (\<lambda>p. p_state (pt ! p) = UNUSED) [0..<NPROC] of
        None \<Rightarrow> kthen (on_ptable release) (kret None)
      | Some p \<Rightarrow> proc_claim p))"

text \<open>
  \<^verbatim>\<open>user_init\<close>: \<open>bin\<close> is the embedded init code, \<open>behind\<close> the 11 bytes that follow the name literal in
  memory, which the \<^verbatim>\<open>memcpy\<close> of 16 bytes also reads.
\<close>

definition name_literal :: "bool \<Rightarrow> u8 list" where
  "name_literal loop = (if loop then [108, 111, 111, 112, 0] else [105, 110, 105, 116, 0])"

definition user_init :: "u8 list \<Rightarrow> u8 list \<Rightarrow> bool \<Rightarrow> ('z proc_sys_scheme, unit) kop" where
  "user_init bin behind loop =
     kbind proc_alloc (\<lambda>r.
     case r of None \<Rightarrow> kfault (Undef ''null process'')
     | Some p \<Rightarrow>
         kbind (on_mem kalloc) (\<lambda>pg.
         kthen (upd_proc p (\<lambda>x. x\<lparr>p_pgdir := pg\<rparr>))
         (if pg = 0 then panic ''userinit''
          else
            kthen (on_mem (uvm_init pg bin))
            (kbind (get_proc p) (\<lambda>x.
             kthen (on_mem (store64 (word_of_struct (p_tf x) 4) PGSIZE))
             (kthen (on_mem (store64 (word_of_struct (p_tf x) 5) (if loop then 0 else 8)))
             (kthen (kwhen (\<not> loop) (kmod (\<lambda>s. s\<lparr>initproc := Some p\<rparr>)))
             (kthen (upd_proc p (\<lambda>x. x\<lparr>p_sz := PGSIZE, p_name := take 16 (name_literal loop @ behind)\<rparr>))
             (kthen (on_ptable acquire)
             (kthen (upd_proc p (\<lambda>x. x\<lparr>p_state := RUNNABLE\<rparr>))
             (kthen (push_runnable p)
             (on_ptable release))))))))))))"


section \<open>Scheduling\<close>

definition plist_owner :: "pnode option \<Rightarrow> ('z proc_sys_scheme, nat) kop" where
  "plist_owner n = (case n of Some (Plist p) \<Rightarrow> kret p | _ \<Rightarrow> kfault (Undef ''container_of''))"

text \<open>The loop over the queues, from the highest priority on, up to the \<^verbatim>\<open>swtch\<close>.\<close>

primrec scheduler_scan :: "nat list \<Rightarrow> ('z proc_sys_scheme, nat option) kop" where
  "scheduler_scan [] = kret None"
| "scheduler_scan (i # is) =
     kbind (on_lists (list_empty (Prio i))) (\<lambda>e.
     if e then scheduler_scan is
     else
       kbind (on_lists (list_front (Prio i))) (\<lambda>pl.
       kbind (plist_owner pl) (\<lambda>p.
       kthen (set_cpu (Some p))
       (kbind (get_proc p) (\<lambda>x.
        kthen (on_mem (uvm_switch (p_pgdir x)))
        (kthen (upd_proc p (\<lambda>x. x\<lparr>p_state := RUNNING\<rparr>))
        (kthen (on_lists (list_delete (Plist p)))
        (kret (Some p)))))))))"

text \<open>The two halves of a turn of \<^verbatim>\<open>scheduler\<close>; the first one ends in the process chosen.\<close>

definition scheduler_enter :: "('z proc_sys_scheme, nat option) kop" where
  "scheduler_enter =
     kthen (on_ptable acquire)
     (kbind (scheduler_scan (rev [0..<PRIOENTRIES])) (\<lambda>r.
      case r of
        None \<Rightarrow> kthen (on_ptable release) (kret None)
      | Some p \<Rightarrow> kret (Some p)))"

definition scheduler_leave :: "('z proc_sys_scheme, unit) kop" where
  "scheduler_leave = kthen (set_cpu None) (on_ptable release)"

definition sched :: "('z proc_sys_scheme, unit) kop" where
  "sched = kbind (kget (\<lambda>s. holding (p_cpu s) (ptablelock s))) (\<lambda>h.
     if \<not> h then panic ''sched'' else scheduler_leave)"

definition forkret :: "('z proc_sys_scheme, unit) kop" where
  "forkret = on_ptable release"

text \<open>\<^verbatim>\<open>yield\<close> up to \<^verbatim>\<open>sched\<close>, and after it.\<close>

definition yield :: "('z proc_sys_scheme, unit) kop" where
  "yield =
     kthen (on_ptable acquire)
     (kbind thisproc (\<lambda>p.
      kthen (upd_proc p (\<lambda>x. x\<lparr>p_state := RUNNABLE\<rparr>))
      (kthen (push_runnable p)
      (kthen (kmod (\<lambda>s. s\<lparr>resumes := (resumes s)(p := InYield)\<rparr>))
      sched))))"

definition yield_return :: "('z proc_sys_scheme, unit) kop" where
  "yield_return = on_ptable release"

text \<open>\<^verbatim>\<open>sleep\<close> with the lock of the table held, and the code after its \<^verbatim>\<open>sched\<close>.\<close>

definition sleep_locked :: "u64 \<Rightarrow> resume \<Rightarrow> ('z proc_sys_scheme, unit) kop" where
  "sleep_locked chan back =
     kbind thisproc (\<lambda>p.
     kthen (upd_proc p (\<lambda>x. x\<lparr>p_chan := chan\<rparr>))
     (kbind (get_proc p) (\<lambda>x.
      kthen (kwhen (p_state x = RUNNABLE) (on_lists (list_delete (Plist p))))
      (kthen (upd_proc p (\<lambda>x. x\<lparr>p_state := SLEEPING\<rparr>))
      (kthen (on_lists (list_push_back (Hash (unat chan mod HASHENTRIES)) (Clist p)))
      (kthen (kmod (\<lambda>s. s\<lparr>resumes := (resumes s)(p := back)\<rparr>))
      sched))))))"

definition sleep :: "u64 \<Rightarrow> lockref \<Rightarrow> ('z proc_sys_scheme, unit) kop" where
  "sleep chan lk =
     (case lk of
        PtableLock \<Rightarrow> sleep_locked chan InWait
      | NoLock \<Rightarrow> kthen (on_ptable acquire) (sleep_locked chan (InSleep None))
      | OtherLock l \<Rightarrow>
          kthen (on_ptable acquire)
          (kthen (on_klock l release)
          (sleep_locked chan (InSleep (Some l)))))"

definition sleep_return :: "nat \<Rightarrow> lockref \<Rightarrow> ('z proc_sys_scheme, unit) kop" where
  "sleep_return p lk =
     kthen (upd_proc p (\<lambda>x. x\<lparr>p_chan := 0\<rparr>))
     (case lk of
        PtableLock \<Rightarrow> kret ()
      | NoLock \<Rightarrow> on_ptable release
      | OtherLock l \<Rightarrow> kthen (on_ptable release) (on_klock l acquire))"

text \<open>
  The loop of \<^verbatim>\<open>wakeup1\<close>, which reads the successor before it moves a node. A bucket holds at most
  \<open>NPROC\<close> nodes, so that \<open>NPROC + 1\<close> turns are enough.
\<close>

fun wakeup1_loop :: "nat \<Rightarrow> u64 \<Rightarrow> pnode \<Rightarrow> pnode option \<Rightarrow> ('z proc_sys_scheme, unit) kop" where
  "wakeup1_loop 0 chan ery l s = Fault Spin"
| "wakeup1_loop (Suc k) chan ery l s =
     (case l of
        None \<Rightarrow> Fault (Undef ''null pointer'')
      | Some a \<Rightarrow>
          if a = ery then Ok () s
          else
            (case a of
               Clist p \<Rightarrow>
                 kbind (kget (\<lambda>s. lnext (plists s a))) (\<lambda>nxt.
                 kbind (get_proc p) (\<lambda>x.
                 kthen (kwhen (p_chan x = chan \<and> p_state x = SLEEPING)
                   (kthen (upd_proc p (\<lambda>x. x\<lparr>p_state := RUNNABLE, p_chan := 0\<rparr>))
                   (kthen (on_lists (list_delete a))
                   (push_runnable p))))
                 (wakeup1_loop k chan ery nxt))) s
             | _ \<Rightarrow> Fault (Undef ''container_of'')))"

definition wakeup1 :: "u64 \<Rightarrow> ('z proc_sys_scheme, unit) kop" where
  "wakeup1 chan =
     (let ery = Hash (unat chan mod HASHENTRIES) in
      kbind (kget (\<lambda>s. lnext (plists s ery))) (\<lambda>l. wakeup1_loop (Suc NPROC) chan ery l))"

definition wakeup :: "u64 \<Rightarrow> ('z proc_sys_scheme, unit) kop" where
  "wakeup chan = kthen (on_ptable acquire) (kthen (wakeup1 chan) (on_ptable release))"


section \<open>Creation and end of processes\<close>

definition exit_files :: "nat \<Rightarrow> ('z proc_sys_scheme, unit) kop" where
  "exit_files p =
     kthen (kfor [0..<NOFILE] (\<lambda>i.
       kbind (get_proc p) (\<lambda>x.
       case p_ofile x ! i of
         None \<Rightarrow> kret ()
       | Some f \<Rightarrow>
           kthen (on_fs (fileclose f))
           (upd_proc p (\<lambda>x. x\<lparr>p_ofile := (p_ofile x)[i := None]\<rparr>)))))
     (kbind (get_proc p) (\<lambda>x.
      case p_cwd x of
        None \<Rightarrow> kret ()
      | Some ip \<Rightarrow>
          kthen (on_fs begin_op)
          (kthen (on_fs (iput ip))
          (kthen (on_fs end_op)
          (upd_proc p (\<lambda>x. x\<lparr>p_cwd := None\<rparr>))))))"

definition exit :: "('z proc_sys_scheme, unit) kop" where
  "exit =
     kbind thisproc (\<lambda>p.
     kthen (exit_files p)
     (kthen (on_ptable acquire)
     (kbind (kget ptable_at) (\<lambda>base.
      kbind (get_proc p) (\<lambda>x.
      kthen (wakeup1 (proc_addr base (p_parent x)))
      (kthen (kfor [0..<NPROC] (\<lambda>pc.
         kbind (get_proc pc) (\<lambda>y.
         kwhen (p_parent y = Some p)
           (kbind (kget initproc) (\<lambda>ini.
            kthen (upd_proc pc (\<lambda>y. y\<lparr>p_parent := ini\<rparr>))
            (kwhen (p_state y = ZOMBIE) (wakeup1 (proc_addr base ini))))))))
      (kbind (get_proc p) (\<lambda>x.
       kthen (kwhen (p_state x = RUNNABLE) (on_lists (list_delete (Plist p))))
       (kthen (upd_proc p (\<lambda>x. x\<lparr>p_state := ZOMBIE\<rparr>))
       sched)))))))))"

definition dup_files :: "nat \<Rightarrow> nat \<Rightarrow> ('z proc_sys_scheme, unit) kop" where
  "dup_files par np =
     kfor [0..<NOFILE] (\<lambda>i.
       kbind (get_proc par) (\<lambda>x.
       kthen (upd_proc np (\<lambda>y. y\<lparr>p_ofile := (p_ofile y)[i := p_ofile x ! i]\<rparr>))
       (case p_ofile x ! i of
          None \<Rightarrow> kret ()
        | Some f \<Rightarrow> kbind (on_fs (filedup f)) (\<lambda>g.
            upd_proc np (\<lambda>y. y\<lparr>p_ofile := (p_ofile y)[i := Some g]\<rparr>)))))"

definition copy_words :: "u64 \<Rightarrow> u64 \<Rightarrow> nat \<Rightarrow> ('z mem_state_scheme, unit) kop" where
  "copy_words d a n = kfor [0..<n] (\<lambda>i.
     kbind (load64 (word_of_struct a i)) (\<lambda>w. store64 (word_of_struct d i) w))"

definition name_len :: "u8 list \<Rightarrow> nat" where
  "name_len nm = length (takeWhile (\<lambda>c. c \<noteq> 0) nm)"

text \<open>The two parts of \<^verbatim>\<open>fork\<close>: everything up to the second critical section, and that one.\<close>

definition fork_copy :: "nat \<Rightarrow> nat \<Rightarrow> ('z proc_sys_scheme, int) kop" where
  "fork_copy par np =
     kthen (upd_proc np (\<lambda>y. y\<lparr>p_parent := Some par\<rparr>))
     (kthen (dup_files par np)
     (kbind (get_proc par) (\<lambda>x.
      case p_cwd x of
        None \<Rightarrow> kfault (Undef ''null inode'')
      | Some ip \<Rightarrow>
          kbind (on_fs (idup ip)) (\<lambda>ip.
          kthen (upd_proc np (\<lambda>y. y\<lparr>p_cwd := Some ip\<rparr>))
          (kbind (on_mem (uvm_copy (p_pgdir x) (p_sz x))) (\<lambda>pg.
           kthen (upd_proc np (\<lambda>y. y\<lparr>p_pgdir := pg\<rparr>))
           (if pg = 0 then panic ''fork''
            else
              kthen (upd_proc np (\<lambda>y. y\<lparr>p_sz := p_sz x\<rparr>))
              (kbind (get_proc np) (\<lambda>y.
               kthen (on_mem (copy_words (p_tf y) (p_tf x) tf_words))
               (kthen (on_mem (store64 (word_of_struct (p_tf y) 7) 0))
               (kthen (upd_proc np (\<lambda>y. y\<lparr>p_name := splice (p_name y) 0 (take (name_len (p_name y)) (p_name x))\<rparr>))
               (kret (p_pid y)))))))))))))"

definition fork_publish :: "nat \<Rightarrow> nat \<Rightarrow> ('z proc_sys_scheme, unit) kop" where
  "fork_publish par np =
     kbind (get_proc par) (\<lambda>x.
     kthen (upd_proc np (\<lambda>y. y\<lparr>p_state := RUNNABLE, p_prio := p_prio x\<rparr>))
     (push_runnable np))"

definition fork :: "('z proc_sys_scheme, int) kop" where
  "fork =
     kbind thisproc (\<lambda>par.
     kbind proc_alloc (\<lambda>r.
     case r of None \<Rightarrow> panic ''fork''
     | Some np \<Rightarrow>
         kbind (fork_copy par np) (\<lambda>cpid.
         kthen (on_ptable acquire)
         (kthen (fork_publish par np)
         (kthen (on_ptable release)
         (kret cpid))))))"

text \<open>
  One turn of the loop of \<^verbatim>\<open>wait\<close>, with the lock of the table held: the result, or \<open>None\<close> when the
  process sleeps; it runs the next turn when it is resumed.
\<close>

definition wait_turn :: "nat \<Rightarrow> ('z proc_sys_scheme, int option) kop" where
  "wait_turn par =
     kbind (kget ptable) (\<lambda>pt.
     case List.find (\<lambda>p. p_parent (pt ! p) = Some par \<and> p_state (pt ! p) = ZOMBIE) [0..<NPROC] of
       Some p \<Rightarrow>
         kthen (cleanproc p)
         (kthen (on_ptable release)
         (kret (Some (p_pid (pt ! p)))))
     | None \<Rightarrow>
         if \<not> (\<exists>p<NPROC. p_parent (pt ! p) = Some par) then
           kthen (on_ptable release) (kret (Some (-1)))
         else
           kbind (kget ptable_at) (\<lambda>base.
           kthen (sleep (proc_addr base (Some par)) PtableLock)
           (kret None)))"

definition wait :: "('z proc_sys_scheme, int option) kop" where
  "wait = kthen (on_ptable acquire) (kbind thisproc wait_turn)"

text \<open>What a process runs when the scheduler switches to it.\<close>

definition resumed :: "nat \<Rightarrow> ('z proc_sys_scheme, int option) kop" where
  "resumed p =
     kbind (kget (\<lambda>s. resumes s p)) (\<lambda>r.
     case r of
       InForkret \<Rightarrow> kthen forkret (kret None)
     | InYield \<Rightarrow> kthen yield_return (kret None)
     | InSleep None \<Rightarrow> kthen (sleep_return p NoLock) (kret None)
     | InSleep (Some l) \<Rightarrow> kthen (sleep_return p (OtherLock l)) (kret None)
     | InWait \<Rightarrow> kthen (sleep_return p PtableLock) (wait_turn p))"

definition dispatch :: "('z proc_sys_scheme, int option) kop" where
  "dispatch = kbind scheduler_enter (\<lambda>r. case r of None \<Rightarrow> kret None | Some p \<Rightarrow> resumed p)"

definition procdump :: "('z proc_sys_scheme, unit) kop" where
  "procdump = panic ''unimplemented''"

end
