(* ===== verification/Sched.thy ===== *)
theory Sched
  imports Proc
begin

text \<open>
  The invariant of the process table and its queues. \<open>C\<close> gives the contents of every queue: a process
  is in the run queue of its priority exactly while it is \<^verbatim>\<open>RUNNABLE\<close>, in the sleep queue of its
  channel exactly while it is \<^verbatim>\<open>SLEEPING\<close>, and on exactly one processor while it is \<^verbatim>\<open>RUNNING\<close>. The
  lemmas give the effect of each operation on \<open>C\<close>; the step relation at the end interleaves the
  operations of all processors.
\<close>

lemma kok_unitE:
  assumes "kok m Q s"
  obtains s' where "m s = Ok () s'" "Q () s'"
  using assms by (auto simp: kwp_def split: outcome.splits)


section \<open>Queues\<close>

definition heads :: "pnode set" where
  "heads = Prio ` {..<PRIOENTRIES} \<union> Hash ` {..<HASHENTRIES}"

definition lists_ok :: "pnode lheap \<Rightarrow> (pnode \<Rightarrow> pnode list) \<Rightarrow> bool" where
  "lists_ok h C \<longleftrightarrow> (\<forall>q\<in>heads. dlist h q (C q) \<and> set (C q) \<inter> heads = {})
     \<and> (\<forall>q\<in>heads. \<forall>r\<in>heads. q \<noteq> r \<longrightarrow> set (C q) \<inter> set (C r) = {})"

lemma lists_okD:
  assumes "lists_ok h C" "q \<in> heads"
  shows "dlist h q (C q)" "set (C q) \<inter> heads = {}" "r \<in> heads \<Longrightarrow> q \<noteq> r \<Longrightarrow> set (C q) \<inter> set (C r) = {}"
  using assms by (auto simp: lists_ok_def)

lemma lists_ok_frame:
  assumes ok: "lists_ok h C" and q: "q \<in> heads" and new: "dlist h' q xs" "set xs \<inter> heads = {}"
    "\<And>r. r \<in> heads \<Longrightarrow> r \<noteq> q \<Longrightarrow> set xs \<inter> set (C r) = {}"
    and fr: "\<forall>a. a \<notin> insert q (A \<union> set (C q)) \<longrightarrow> h' a = h a"
    and A: "A \<inter> heads = {}" "\<And>r. r \<in> heads \<Longrightarrow> r \<noteq> q \<Longrightarrow> A \<inter> set (C r) = {}"
  shows "lists_ok h' (C(q := xs))"
proof -
  have "dlist h' r (C r)" if r: "r \<in> heads" "r \<noteq> q" for r
  proof (rule dlist_frame[OF lists_okD(1)[OF ok r(1)]])
    fix a assume "a \<in> set (r # C r)"
    then have "a \<noteq> q" "a \<notin> A" "a \<notin> set (C q)"
      using r q A lists_okD(2)[OF ok r(1)] lists_okD(2)[OF ok q] lists_okD(3)[OF ok q r(1)] by auto
    then show "h' a = h a" using fr by simp
  qed
  then show ?thesis using ok q new unfolding lists_ok_def by (auto simp: Int_commute)
qed

lemma push_queue:
  assumes ok: "lists_ok h C" and q: "q \<in> heads" and n: "n \<notin> heads" "\<And>r. r \<in> heads \<Longrightarrow> n \<notin> set (C r)"
  shows "kok (list_push_back q n) (\<lambda>_ h'. lists_ok h' (C(q := C q @ [n]))) h"
proof (rule kwp_conseq[OF lh.push_back_ok[OF lists_okD(1)[OF ok q]]])
  show "n \<notin> set (q # C q)" using n q by auto
  fix h' assume "dlist h' q (C q @ [n]) \<and> (\<forall>a. a \<notin> set (q # n # C q) \<longrightarrow> h' a = h a)"
  then show "lists_ok h' (C(q := C q @ [n]))"
    using n lists_okD(2,3)[OF ok q] by (intro lists_ok_frame[OF ok q, where A = "{n}"]) (auto simp: Int_commute)
qed

lemma delete_queue:
  assumes ok: "lists_ok h C" and q: "q \<in> heads" and n: "C q = as @ n # bs"
  shows "kok (list_delete n) (\<lambda>_ h'. lists_ok h' (C(q := as @ bs))) h"
proof (rule kwp_conseq[OF lh.delete_ok])
  show "dlist h q (as @ n # bs)" using lists_okD(1)[OF ok q] n by simp
  fix h' assume "dlist h' q (as @ bs) \<and> (\<forall>a. a \<notin> set (q # as @ n # bs) \<longrightarrow> h' a = h a)"
  then show "lists_ok h' (C(q := as @ bs))"
    using lists_okD(2,3)[OF ok q] n by (intro lists_ok_frame[OF ok q, where A = "{}"]) (auto simp: Int_commute)
qed


section \<open>The table\<close>

text \<open>The queue a process belongs to, and its node there.\<close>

definition home :: "nat \<Rightarrow> proc \<Rightarrow> (pnode \<times> pnode) option" where
  "home p x = (case p_state x of
       RUNNABLE \<Rightarrow> Some (Prio (p_prio x), Plist p)
     | SLEEPING \<Rightarrow> Some (Hash (unat (p_chan x) mod HASHENTRIES), Clist p)
     | _ \<Rightarrow> None)"

primrec owner :: "pnode \<Rightarrow> nat option" where
  "owner (Hash i) = None"
| "owner (Prio i) = None"
| "owner (Clist p) = Some p"
| "owner (Plist p) = Some p"

definition tab_ok :: "proc list \<Rightarrow> (pnode \<Rightarrow> pnode list) \<Rightarrow> bool" where
  "tab_ok pt C \<longleftrightarrow> length pt = NPROC \<and> (\<forall>p<NPROC. p_prio (pt ! p) < PRIOENTRIES)
     \<and> (\<forall>q\<in>heads. set (C q) = {n. \<exists>p<NPROC. home p (pt ! p) = Some (q, n)})"

definition cpu_ok :: "proc list \<Rightarrow> nat option list \<Rightarrow> bool" where
  "cpu_ok pt cs \<longleftrightarrow> length cs = NCPU
     \<and> (\<forall>c<NCPU. \<forall>p. cs ! c = Some p \<longrightarrow> p < NPROC \<and> p_state (pt ! p) = RUNNING)
     \<and> (\<forall>c<NCPU. \<forall>d<NCPU. \<forall>p. cs ! c = Some p \<longrightarrow> cs ! d = Some p \<longrightarrow> c = d)
     \<and> (\<forall>p<NPROC. p_state (pt ! p) = RUNNING \<longrightarrow> (\<exists>c<NCPU. cs ! c = Some p))"

definition sched_inv :: "'z proc_sys_scheme \<Rightarrow> (pnode \<Rightarrow> pnode list) \<Rightarrow> bool" where
  "sched_inv s C \<longleftrightarrow> lists_ok (plists s) C \<and> tab_ok (ptable s) C \<and> cpu_ok (ptable s) (cpus s) \<and> p_cpu s < NCPU"

lemma sched_invD:
  assumes "sched_inv s C"
  shows "lists_ok (plists s) C" "tab_ok (ptable s) C" "cpu_ok (ptable s) (cpus s)" "p_cpu s < NCPU"
    "length (ptable s) = NPROC" "length (cpus s) = NCPU"
  using assms by (auto simp: sched_inv_def tab_ok_def cpu_ok_def)

lemma home_owner: "home p x = Some (q, n) \<Longrightarrow> owner n = Some p \<and> n \<notin> heads"
  by (auto simp: home_def heads_def split: procstate.splits)

lemma home_head: "p_prio x < PRIOENTRIES \<Longrightarrow> home p x = Some (q, n) \<Longrightarrow> q \<in> heads"
  by (auto simp: home_def heads_def HASHENTRIES_def split: procstate.splits)

lemma tab_mem: "tab_ok pt C \<Longrightarrow> q \<in> heads \<Longrightarrow> n \<in> set (C q) \<longleftrightarrow> (\<exists>p<NPROC. home p (pt ! p) = Some (q, n))"
  by (auto simp: tab_ok_def)

lemma tab_owner:
  assumes "tab_ok pt C" "q \<in> heads" "n \<in> set (C q)" "owner n = Some p"
  shows "p < NPROC \<and> home p (pt ! p) = Some (q, n)"
  using assms home_owner by (fastforce simp: tab_mem)

lemma tab_move:
  assumes ok: "tab_ok pt C" and p: "p < NPROC" "p_prio x < PRIOENTRIES"
    and C': "\<And>q. q \<in> heads \<Longrightarrow> set (C' q) = {n \<in> set (C q). owner n \<noteq> Some p} \<union> {n. home p x = Some (q, n)}"
  shows "tab_ok (pt[p := x]) C'"
proof -
  have l: "length pt = NPROC" using ok by (simp add: tab_ok_def)
  have "n \<in> set (C' q) \<longleftrightarrow> (\<exists>r<NPROC. home r (pt[p := x] ! r) = Some (q, n))" if q: "q \<in> heads" for q n
  proof
    assume "n \<in> set (C' q)"
    then consider "n \<in> set (C q)" "owner n \<noteq> Some p" | "home p x = Some (q, n)" using C'[OF q] by auto
    then show "\<exists>r<NPROC. home r (pt[p := x] ! r) = Some (q, n)"
    proof cases
      case 1
      then obtain r where "r < NPROC" "home r (pt ! r) = Some (q, n)" using tab_mem[OF ok q] by blast
      then show ?thesis using 1 home_owner l p(1) by (metis nth_list_update_neq)
    next
      case 2
      then show ?thesis using p(1) l by auto
    qed
  next
    assume "\<exists>r<NPROC. home r (pt[p := x] ! r) = Some (q, n)"
    then obtain r where r: "r < NPROC" "home r (pt[p := x] ! r) = Some (q, n)" by blast
    show "n \<in> set (C' q)"
    proof (cases "r = p")
      case True then show ?thesis using r l p(1) C'[OF q] by simp
    next
      case False
      then have "n \<in> set (C q)" using r tab_mem[OF ok q] by auto
      then show ?thesis using False r home_owner C'[OF q] by fastforce
    qed
  qed
  then have "\<forall>q\<in>heads. set (C' q) = {n. \<exists>r<NPROC. home r (pt[p := x] ! r) = Some (q, n)}" by blast
  moreover have "\<forall>r<NPROC. p_prio (pt[p := x] ! r) < PRIOENTRIES"
    using ok p by (simp add: tab_ok_def nth_list_update)
  ultimately show ?thesis using l unfolding tab_ok_def length_list_update by blast
qed

text \<open>An update that keeps the place of a process in the queues.\<close>

lemma tab_same:
  assumes "tab_ok pt C" "p < NPROC" "p_prio x < PRIOENTRIES" "home p x = home p (pt ! p)"
  shows "tab_ok (pt[p := x]) C"
proof (rule tab_move[OF assms(1-3)])
  fix q assume q: "q \<in> heads"
  show "set (C q) = {n \<in> set (C q). owner n \<noteq> Some p} \<union> {n. home p x = Some (q, n)}"
  proof (intro equalityI subsetI)
    fix n assume n: "n \<in> set (C q)"
    show "n \<in> {n \<in> set (C q). owner n \<noteq> Some p} \<union> {n. home p x = Some (q, n)}"
      using n tab_owner[OF assms(1) q n, of p] assms(4) by (cases "owner n = Some p") simp_all
  next
    fix n assume "n \<in> {n \<in> set (C q). owner n \<noteq> Some p} \<union> {n. home p x = Some (q, n)}"
    then show "n \<in> set (C q)" using tab_mem[OF assms(1) q] assms(2,4) by auto
  qed
qed

text \<open>A process that is in no queue joins one; one that is in a queue leaves it.\<close>

lemma tab_join:
  assumes "tab_ok pt C" "p < NPROC" "p_prio x < PRIOENTRIES" "home p (pt ! p) = None" "home p x = Some (q, n)"
  shows "tab_ok (pt[p := x]) (C(q := C q @ [n]))"
proof (rule tab_move[OF assms(1-3)])
  fix r assume r: "r \<in> heads"
  have "owner m \<noteq> Some p" if "m \<in> set (C r)" for m using tab_owner[OF assms(1) r that] assms(4) by auto
  then show "set ((C(q := C q @ [n])) r) = {n \<in> set (C r). owner n \<noteq> Some p} \<union> {n. home p x = Some (r, n)}"
    using assms(5) by auto
qed

lemma tab_leave:
  assumes "tab_ok pt C" "p < NPROC" "p_prio x < PRIOENTRIES" "home p (pt ! p) = Some (q, n)" "home p x = None"
    and C: "C q = as @ n # bs" and d: "distinct (C q)"
  shows "tab_ok (pt[p := x]) (C(q := as @ bs))"
proof (rule tab_move[OF assms(1-3)])
  fix r assume r: "r \<in> heads"
  have o: "owner m = Some p \<longleftrightarrow> r = q \<and> m = n" if "m \<in> set (C r)" for m
    using tab_owner[OF assms(1) r that, of p] assms(4) home_owner by auto
  have "n \<notin> set (as @ bs)" using C d by auto
  then show "set ((C(q := as @ bs)) r) = {n \<in> set (C r). owner n \<noteq> Some p} \<union> {n. home p x = Some (r, n)}"
    using o assms(5) C by (cases "r = q") auto
qed

lemma not_queued:
  assumes "tab_ok pt C" "p < NPROC" "home p (pt ! p) = None" "owner n = Some p" "q \<in> heads"
  shows "n \<notin> set (C q)"
  using tab_owner[OF assms(1,5)] assms by fastforce

lemma cpu_okD:
  assumes "cpu_ok pt cs"
  shows "length cs = NCPU" "c < NCPU \<Longrightarrow> cs ! c = Some p \<Longrightarrow> p < NPROC" "c < NCPU \<Longrightarrow> cs ! c = Some p \<Longrightarrow> p_state (pt ! p) = RUNNING"
    "c < NCPU \<Longrightarrow> d < NCPU \<Longrightarrow> cs ! c = Some p \<Longrightarrow> cs ! d = Some p \<Longrightarrow> c = d"
    "p < NPROC \<Longrightarrow> p_state (pt ! p) = RUNNING \<Longrightarrow> \<exists>c<NCPU. cs ! c = Some p"
  using assms unfolding cpu_ok_def by blast+

lemma cpu_leave:
  assumes ok: "cpu_ok pt cs" and c: "c < NCPU" "cs ! c = Some p" and x: "p_state x \<noteq> RUNNING" and l: "length pt = NPROC"
  shows "cpu_ok (pt[p := x]) (cs[c := None])"
proof -
  note K = cpu_okD[OF ok]
  have d: "d \<noteq> c \<and> cs ! d = Some r \<and> r \<noteq> p" if "d < NCPU" "cs[c := None] ! d = Some r" for d r
    using that K(1) K(4)[OF that(1) c(1)] c by (auto simp: nth_list_update split: if_splits)
  show ?thesis unfolding cpu_ok_def
  proof (intro conjI allI impI)
    show "length (cs[c := None]) = NCPU" using K(1) by simp
    fix d r assume dr: "d < NCPU" "cs[c := None] ! d = Some r"
    then show "r < NPROC" "p_state (pt[p := x] ! r) = RUNNING" using d[OF dr] K(2,3)[of d r] by auto
    fix e assume "e < NCPU" "cs[c := None] ! e = Some r"
    then show "d = e" using d[OF dr] d[of e r] K(4)[of d e r] dr by auto
  next
    fix r assume r: "r < NPROC" "p_state (pt[p := x] ! r) = RUNNING"
    then have "r \<noteq> p" using x l by auto
    then obtain d where "d < NCPU" "cs ! d = Some r" using r K(5)[of r] by auto
    then show "\<exists>d<NCPU. cs[c := None] ! d = Some r" using \<open>r \<noteq> p\<close> c by (intro exI[of _ d]) (cases "d = c", auto)
  qed
qed

lemma cpu_enter:
  assumes ok: "cpu_ok pt cs" and c: "c < NCPU" "cs ! c = None" and p: "p < NPROC" "p_state (pt ! p) \<noteq> RUNNING"
    and x: "p_state x = RUNNING" and l: "length pt = NPROC"
  shows "cpu_ok (pt[p := x]) (cs[c := Some p])"
proof -
  note K = cpu_okD[OF ok]
  have np: "cs ! d \<noteq> Some p" if "d < NCPU" for d using K(3)[OF that] p by auto
  have d: "(d = c \<and> r = p) \<or> (d \<noteq> c \<and> r \<noteq> p \<and> cs ! d = Some r)" if "d < NCPU" "cs[c := Some p] ! d = Some r" for d r
    using that K(1) np[OF that(1)] by (cases "d = c") auto
  show ?thesis unfolding cpu_ok_def
  proof (intro conjI allI impI)
    show "length (cs[c := Some p]) = NCPU" using K(1) by simp
    fix d r assume dr: "d < NCPU" "cs[c := Some p] ! d = Some r"
    then show "r < NPROC" "p_state (pt[p := x] ! r) = RUNNING" using d[OF dr] K(2,3)[of d r] p x l by auto
    fix e assume "e < NCPU" "cs[c := Some p] ! e = Some r"
    then show "d = e" using d[OF dr] d[of e r] K(4)[of d e r] dr by auto
  next
    fix r assume r: "r < NPROC" "p_state (pt[p := x] ! r) = RUNNING"
    show "\<exists>d<NCPU. cs[c := Some p] ! d = Some r"
    proof (cases "r = p")
      case True then show ?thesis using c K(1) by (intro exI[of _ c]) simp
    next
      case False
      then obtain d where "d < NCPU" "cs ! d = Some r" using r K(5)[of r] by auto
      then show ?thesis using c by (intro exI[of _ d]) (cases "d = c", auto)
    qed
  qed
qed

lemma cpu_same:
  assumes ok: "cpu_ok pt cs" and l: "length pt = NPROC" "p < NPROC"
    and x: "p_state x = RUNNING \<longleftrightarrow> p_state (pt ! p) = RUNNING"
  shows "cpu_ok (pt[p := x]) cs"
proof -
  have "p_state (pt[p := x] ! r) = RUNNING \<longleftrightarrow> p_state (pt ! r) = RUNNING" for r
    using x l by (simp add: nth_list_update)
  then show ?thesis using ok by (simp add: cpu_ok_def)
qed


section \<open>The scheduler\<close>

lemmas proc_run_defs = get_proc_def upd_proc_def on_lists_def on_ptable_def on_mem_def thisproc_def set_cpu_def

lemma on_lists_wp: "kwp (on_lists m) E Q s = kwp m E (\<lambda>a h. Q a (s\<lparr>plists := h\<rparr>)) (plists s)"
  by (simp add: on_lists_def kwp_zoom)

lemma upd_proc_wp: "p < length (ptable s) \<Longrightarrow>
    kwp (upd_proc p f) E Q s = Q () (s\<lparr>ptable := (ptable s)[p := f (ptable s ! p)]\<rparr>)"
  by (simp add: upd_proc_def kwp_kupd)

lemma get_proc_wp: "p < length (ptable s) \<Longrightarrow> kwp (get_proc p) E Q s = Q (ptable s ! p) s"
  by (simp add: get_proc_def kwp_kidx)

lemma ptl_acquire_wp: "spin_free (ptablelock s) \<Longrightarrow>
    kwp (on_ptable acquire) E Q s = Q () (s\<lparr>ptablelock := spin_held (p_cpu s) (ptablelock s)\<rparr>)"
  by (simp add: on_ptable_def kwp_def kop_defs)

lemma ptl_release_wp: "spin_free lk \<Longrightarrow> ptablelock s = spin_held (p_cpu s) lk \<Longrightarrow>
    kwp (on_ptable release) E Q s = Q () (s\<lparr>ptablelock := lk\<rparr>)"
  by (simp add: on_ptable_def kwp_def kop_defs)

lemma holding_held [simp]: "holding c (spin_held c lk)"
  by (simp add: holding_def spin_held_def)

lemma set_cpu_wp: "p_cpu s < length (cpus s) \<Longrightarrow> kwp (set_cpu r) E Q s = Q () (s\<lparr>cpus := (cpus s)[p_cpu s := r]\<rparr>)"
  by (simp add: set_cpu_def kwp_def kop_defs)

lemma thisproc_wp: "p_cpu s < length (cpus s) \<Longrightarrow> cpus s ! p_cpu s = Some p \<Longrightarrow> kwp thisproc E Q s = Q p s"
  by (simp add: thisproc_def kwp_def kop_defs)

lemma sched_wp:
  "spin_free lk \<Longrightarrow> ptablelock s = spin_held (p_cpu s) lk \<Longrightarrow> p_cpu s < length (cpus s) \<Longrightarrow>
    kwp sched E Q s = Q () (s\<lparr>cpus := (cpus s)[p_cpu s := None], ptablelock := lk\<rparr>)"
  by (simp add: sched_def scheduler_leave_def wp_simps set_cpu_wp ptl_release_wp[of lk])

lemmas proc_wps = wp_simps on_lists_wp upd_proc_wp get_proc_wp ptl_acquire_wp ptl_release_wp set_cpu_wp thisproc_wp

lemma prio_head [simp]: "Prio i \<in> heads \<longleftrightarrow> i < PRIOENTRIES" "Hash j \<in> heads \<longleftrightarrow> j < HASHENTRIES"
    "Plist p \<notin> heads" "Clist p \<notin> heads"
  by (auto simp: heads_def)

lemma home_simps [simp]:
  "p_state x = RUNNABLE \<Longrightarrow> home p x = Some (Prio (p_prio x), Plist p)"
  "p_state x = SLEEPING \<Longrightarrow> home p x = Some (Hash (unat (p_chan x) mod HASHENTRIES), Clist p)"
  "p_state x = RUNNING \<Longrightarrow> home p x = None" "p_state x = ZOMBIE \<Longrightarrow> home p x = None"
  "p_state x = EMBRYO \<Longrightarrow> home p x = None" "p_state x = UNUSED \<Longrightarrow> home p x = None"
  by (simp_all add: home_def)

definition running :: "'z proc_sys_scheme \<Rightarrow> nat \<Rightarrow> bool" where
  "running s p \<longleftrightarrow> cpus s ! p_cpu s = Some p"

lemma runningD:
  assumes "sched_inv s C" "running s p"
  shows "p < NPROC" "p_state (ptable s ! p) = RUNNING" "p_prio (ptable s ! p) < PRIOENTRIES" "home p (ptable s ! p) = None"
proof -
  show p: "p < NPROC" and st: "p_state (ptable s ! p) = RUNNING"
    using assms cpu_okD(2,3)[OF sched_invD(3)[OF assms(1)] sched_invD(4)[OF assms(1)]] by (auto simp: running_def)
  show "p_prio (ptable s ! p) < PRIOENTRIES" using p sched_invD(2)[OF assms(1)] by (simp add: tab_ok_def)
  show "home p (ptable s ! p) = None" using st by simp
qed

text \<open>A running process that leaves its processor for a queue, or for none.\<close>

lemma leave_join:
  assumes inv: "sched_inv s C" "running s p" and x: "p_state x \<noteq> RUNNING" "p_prio x < PRIOENTRIES"
    and h: "home p x = Some (q, n)"
  shows "kok (list_push_back q n) (\<lambda>_ l. sched_inv (s\<lparr>ptable := (ptable s)[p := x], plists := l,
    cpus := (cpus s)[p_cpu s := None]\<rparr>) (C(q := C q @ [n]))) (plists s)"
proof -
  note D = sched_invD[OF inv(1)] and R = runningD[OF inv]
  have q: "q \<in> heads" by (rule home_head[OF x(2) h])
  have n: "n \<notin> heads" "owner n = Some p" using home_owner[OF h] by auto
  have c: "cpu_ok ((ptable s)[p := x]) ((cpus s)[p_cpu s := None])"
    using cpu_leave[OF D(3,4) _ x(1) D(5)] inv(2) by (simp add: running_def)
  have "tab_ok ((ptable s)[p := x]) (C(q := C q @ [n]))" by (rule tab_join[OF D(2) R(1) x(2) R(4) h])
  then show ?thesis
    using push_queue[OF D(1) q n(1) not_queued[OF D(2) R(1,4) n(2)]] c D(4)
    by (auto elim!: kwp_conseq simp: sched_inv_def)
qed

lemma yield_ok:
  assumes inv: "sched_inv s C" "running s p" and lk: "spin_free (ptablelock s)"
  shows "kok yield (\<lambda>_ t. sched_inv t (C(Prio (p_prio (ptable s ! p)) := C (Prio (p_prio (ptable s ! p))) @ [Plist p]))
    \<and> ptable t = (ptable s)[p := (ptable s ! p)\<lparr>p_state := RUNNABLE\<rparr>] \<and> cpus t = (cpus s)[p_cpu s := None]
    \<and> ptablelock t = ptablelock s \<and> resumes t = (resumes s)(p := InYield) \<and> p_cpu t = p_cpu s \<and> ptable_at t = ptable_at s) s"
proof -
  note D = sched_invD[OF inv(1)] and R = runningD[OF inv]
  let ?x = "(ptable s ! p)\<lparr>p_state := RUNNABLE\<rparr>"
  have "home p ?x = Some (Prio (p_prio (ptable s ! p)), Plist p)" by simp
  note L = leave_join[OF inv _ _ this]
  show ?thesis
    using R D(4-6) inv(2) lk unfolding yield_def push_runnable_def
    apply (simp add: proc_wps running_def sched_wp[OF lk])
    apply (rule kwp_conseq[OF L])
    apply (simp_all add: sched_inv_def sched_wp[OF lk])
    done
qed

text \<open>Sleeping, with the lock of the table held.\<close>

lemma sleep_locked_ok:
  assumes inv: "sched_inv s C" "running s p" and lk: "spin_free lk" "ptablelock s = spin_held (p_cpu s) lk"
  shows "kok (sleep_locked chan back) (\<lambda>_ t. sched_inv t (C(Hash (unat chan mod HASHENTRIES) := C (Hash (unat chan mod HASHENTRIES)) @ [Clist p]))
    \<and> ptable t = (ptable s)[p := (ptable s ! p)\<lparr>p_chan := chan, p_state := SLEEPING\<rparr>] \<and> cpus t = (cpus s)[p_cpu s := None]
    \<and> ptablelock t = lk \<and> resumes t = (resumes s)(p := back) \<and> p_cpu t = p_cpu s \<and> klocks t = klocks s) s"
proof -
  note D = sched_invD[OF inv(1)] and R = runningD[OF inv]
  let ?x = "(ptable s ! p)\<lparr>p_chan := chan, p_state := SLEEPING\<rparr>"
  have "home p ?x = Some (Hash (unat chan mod HASHENTRIES), Clist p)" by simp
  note L = leave_join[OF inv _ _ this]
  show ?thesis
    using R D(4-6) inv(2) lk unfolding sleep_locked_def
    apply (simp add: proc_wps running_def sched_wp[OF lk(1)])
    apply (rule kwp_conseq[OF L])
    apply (simp_all add: sched_inv_def sched_wp[OF lk(1)])
    done
qed

text \<open>The first process of the first queue that is not empty, in the order of the scan.\<close>

definition first_ready :: "(pnode \<Rightarrow> pnode list) \<Rightarrow> nat list \<Rightarrow> nat option" where
  "first_ready C is = List.find (\<lambda>i. C (Prio i) \<noteq> []) is"

definition enter_cpu :: "'z proc_sys_scheme \<Rightarrow> nat \<Rightarrow> 'z proc_sys_scheme \<Rightarrow> bool" where
  "enter_cpu s p t \<longleftrightarrow> ptable t = (ptable s)[p := (ptable s ! p)\<lparr>p_state := RUNNING\<rparr>]
     \<and> cpus t = (cpus s)[p_cpu s := Some p] \<and> ptablelock t = ptablelock s \<and> resumes t = resumes s
     \<and> p_cpu t = p_cpu s \<and> ttbr0 (kmem t) = V2P (p_pgdir (ptable s ! p)) \<and> klocks t = klocks s \<and> ptable_at t = ptable_at s"

lemma scheduler_pick:
  assumes inv: "sched_inv s C" and idle: "cpus s ! p_cpu s = None" and i: "i < PRIOENTRIES" "C (Prio i) = n # ns"
  obtains p where "n = Plist p" "p < NPROC" "p_state (ptable s ! p) = RUNNABLE" "p_prio (ptable s ! p) = i"
    "kok (scheduler_scan (i # is)) (\<lambda>r t. r = Some p \<and> sched_inv t (C(Prio i := ns)) \<and> enter_cpu s p t) s"
proof -
  note D = sched_invD[OF inv]
  have q: "Prio i \<in> heads" using i by simp
  have dl: "dlist (plists s) (Prio i) (n # ns)" using lists_okD(1)[OF D(1) q] i by simp
  obtain p where p: "p < NPROC" "home p (ptable s ! p) = Some (Prio i, n)" using tab_mem[OF D(2) q, of n] i by auto
  then have st: "p_state (ptable s ! p) = RUNNABLE" "p_prio (ptable s ! p) = i" "n = Plist p"
    by (auto simp: home_def split: procstate.splits)
  have pr: "p_prio (ptable s ! p) < PRIOENTRIES" using st i by simp
  let ?x = "(ptable s ! p)\<lparr>p_state := RUNNING\<rparr>"
  have tab: "tab_ok ((ptable s)[p := ?x]) (C(Prio i := ns))"
    using tab_leave[OF D(2) p(1) _ p(2), of ?x "[]" ns] i lists_okD(1)[OF D(1) q] pr dlist_distinct by fastforce
  have cp: "cpu_ok ((ptable s)[p := ?x]) ((cpus s)[p_cpu s := Some p])"
    using cpu_enter[OF D(3,4) idle p(1) _ _ D(5)] st by simp
  have del: "kok (list_delete (Plist p)) (\<lambda>_ h. lists_ok h (C(Prio i := ns))) (plists s)"
    using delete_queue[OF D(1) q, of "[]" n ns] i st by simp
  have "kok (scheduler_scan (i # is)) (\<lambda>r t. r = Some p \<and> sched_inv t (C(Prio i := ns)) \<and> enter_cpu s p t) s"
    unfolding scheduler_scan.simps kwp_kbind[of "on_lists _"] on_lists_wp
    apply (rule kwp_conseq[OF list_empty_dlist[OF dl]])
    apply (simp add: proc_wps)
    apply (rule kwp_conseq[OF list_front_dlist[OF dl]])
    using st p D del tab cp
    apply (auto simp: proc_wps plist_owner_def on_mem_def uvm_switch_def sched_inv_def enter_cpu_def elim!: kwp_conseq)
    done
  then show ?thesis using that st p by blast
qed

lemma scheduler_scan_ok:
  assumes inv: "sched_inv s C" and idle: "cpus s ! p_cpu s = None" and sub: "set is \<subseteq> {..<PRIOENTRIES}"
  shows "kok (scheduler_scan is) (\<lambda>r t. case first_ready C is of
      None \<Rightarrow> r = None \<and> t = s
    | Some i \<Rightarrow> \<exists>p ns. r = Some p \<and> C (Prio i) = Plist p # ns \<and> sched_inv t (C(Prio i := ns)) \<and> enter_cpu s p t) s"
  using sub
proof (induction "is")
  case Nil
  then show ?case by (simp add: wp_simps first_ready_def)
next
  case (Cons i "is")
  have i: "i < PRIOENTRIES" using Cons.prems by simp
  show ?case
  proof (cases "C (Prio i)")
    case Nil
    have dl: "dlist (plists s) (Prio i) []" using lists_okD(1)[OF sched_invD(1)[OF inv], of "Prio i"] i Nil by simp
    show ?thesis
      unfolding scheduler_scan.simps kwp_kbind[of "on_lists _"] on_lists_wp
      by (rule kwp_conseq[OF list_empty_dlist[OF dl]]) (use Cons Nil in \<open>simp add: first_ready_def\<close>)
  next
    case (Cons n ns)
    obtain p where "n = Plist p"
      "kok (scheduler_scan (i # is)) (\<lambda>r t. r = Some p \<and> sched_inv t (C(Prio i := ns)) \<and> enter_cpu s p t) s"
      by (rule scheduler_pick[OF inv idle i Cons, of "is"]) blast
    then show ?thesis using Cons by (auto simp: first_ready_def elim!: kwp_conseq)
  qed
qed


section \<open>Waking up\<close>

lemma tab_transfer:
  assumes ok: "tab_ok pt C" and p: "p < NPROC" "p_prio x < PRIOENTRIES" "home p (pt ! p) = Some (q, n)" "home p x = Some (q', n')"
    and ne: "q \<noteq> q'" and C: "C q = as @ n # bs" and d: "distinct (C q)"
  shows "tab_ok (pt[p := x]) (C(q := as @ bs, q' := C q' @ [n']))"
proof -
  let ?x = "x\<lparr>p_state := UNUSED\<rparr>"
  have l: "length pt = NPROC" using ok by (simp add: tab_ok_def)
  have "tab_ok (pt[p := ?x]) (C(q := as @ bs))" by (rule tab_leave[OF ok p(1) _ p(3) _ C d]) (simp_all add: p(2))
  from tab_join[OF this p(1,2) _ p(4)] show ?thesis using l p(1) ne by simp
qed

definition waits_on :: "'z proc_sys_scheme \<Rightarrow> u64 \<Rightarrow> nat \<Rightarrow> bool" where
  "waits_on s chan p \<longleftrightarrow> p_state (ptable s ! p) = SLEEPING \<and> p_chan (ptable s ! p) = chan"

text \<open>The processes of a list of \<open>clist\<close> nodes that wait on the channel, in their order.\<close>

definition sleepers :: "'z proc_sys_scheme \<Rightarrow> u64 \<Rightarrow> pnode list \<Rightarrow> nat list" where
  "sleepers s chan ns = filter (waits_on s chan) (map (\<lambda>n. the (owner n)) ns)"

definition woken_proc :: "proc \<Rightarrow> proc" where
  "woken_proc x = x\<lparr>p_state := RUNNABLE, p_chan := 0\<rparr>"

definition woken :: "u64 \<Rightarrow> pnode list \<Rightarrow> 'z proc_sys_scheme \<Rightarrow> (pnode \<Rightarrow> pnode list) \<Rightarrow> 'z proc_sys_scheme \<Rightarrow> (pnode \<Rightarrow> pnode list) \<Rightarrow> bool" where
  "woken chan ns s C t C' \<longleftrightarrow> sched_inv t C'
     \<and> t = s\<lparr>ptable := ptable t, plists := plists t\<rparr>
     \<and> (\<forall>p<NPROC. ptable t ! p = (if p \<in> set (sleepers s chan ns) then woken_proc (ptable s ! p) else ptable s ! p))
     \<and> (\<forall>i<PRIOENTRIES. C' (Prio i) = C (Prio i) @ map Plist (filter (\<lambda>p. p_prio (ptable s ! p) = i) (sleepers s chan ns)))"

lemma bucket_node:
  assumes "sched_inv s C" "j < HASHENTRIES" "n \<in> set (C (Hash j))"
  obtains p where "n = Clist p" "p < NPROC" "p_state (ptable s ! p) = SLEEPING" "unat (p_chan (ptable s ! p)) mod HASHENTRIES = j"
    "p_prio (ptable s ! p) < PRIOENTRIES"
proof -
  note D = sched_invD[OF assms(1)]
  obtain p where p: "p < NPROC" "home p (ptable s ! p) = Some (Hash j, n)" using tab_mem[OF D(2), of "Hash j" n] assms(2,3) by auto
  moreover have "p_prio (ptable s ! p) < PRIOENTRIES" using D(2) p(1) by (simp add: tab_ok_def)
  ultimately show ?thesis using that by (auto simp: home_def split: procstate.splits)
qed

text \<open>Moving one sleeper to the run queue of its priority.\<close>

lemma wake_one:
  assumes inv: "sched_inv s C" and j: "j < HASHENTRIES" "C (Hash j) = as @ Clist p # bs"
    and p: "p < NPROC" "p_state (ptable s ! p) = SLEEPING" "unat (p_chan (ptable s ! p)) mod HASHENTRIES = j" "p_prio (ptable s ! p) = i"
  shows "kok (kthen (upd_proc p (\<lambda>x. x\<lparr>p_state := RUNNABLE, p_chan := 0\<rparr>))
      (kthen (on_lists (list_delete (Clist p))) (push_runnable p)))
    (\<lambda>_ t. sched_inv t (C(Hash j := as @ bs, Prio i := C (Prio i) @ [Plist p])) \<and>
      (\<exists>h. t = s\<lparr>ptable := (ptable s)[p := woken_proc (ptable s ! p)], plists := h\<rparr>)) s"
proof -
  note D = sched_invD[OF inv]
  let ?x = "woken_proc (ptable s ! p)"
  have q: "Hash j \<in> heads" using j by simp
  have i: "i < PRIOENTRIES" using D(2) p by (auto simp: tab_ok_def)
  have dl: "dlist (plists s) (Hash j) (C (Hash j))" by (rule lists_okD(1)[OF D(1) q])
  have hm: "home p (ptable s ! p) = Some (Hash j, Clist p)" using p by simp
  have tab: "tab_ok ((ptable s)[p := ?x]) (C(Hash j := as @ bs, Prio i := C (Prio i) @ [Plist p]))"
    by (rule tab_transfer[OF D(2) p(1) _ hm _ _ j(2)]) (use p i dlist_distinct[OF dl] in \<open>simp_all add: woken_proc_def\<close>)
  have cpu: "cpu_ok ((ptable s)[p := ?x]) (cpus s)" using cpu_same[OF D(3,5) p(1)] p by (simp add: woken_proc_def)
  have nq: "Plist p \<notin> set ((C(Hash j := as @ bs)) r)" if r: "r \<in> heads" for r
  proof -
    have "Plist p \<notin> set (C r)" using tab_owner[OF D(2) r, of "Plist p" p] hm by auto
    then show ?thesis using j by auto
  qed
  have lists: "kok (list_delete (Clist p)) (\<lambda>_ h. kok (list_push_back (Prio i) (Plist p))
      (\<lambda>_ h'. lists_ok h' (C(Hash j := as @ bs, Prio i := C (Prio i) @ [Plist p]))) h) (plists s)"
  proof (rule kwp_conseq[OF delete_queue[OF D(1) q j(2)]])
    fix h assume "lists_ok h (C(Hash j := as @ bs))"
    from push_queue[OF this, of "Prio i" "Plist p"] show "kok (list_push_back (Prio i) (Plist p))
      (\<lambda>_ h'. lists_ok h' (C(Hash j := as @ bs, Prio i := C (Prio i) @ [Plist p]))) h" using nq i by simp
  qed
  show ?thesis
    using p D(4,5) unfolding push_runnable_def
    apply (simp add: proc_wps)
    apply (rule kwp_conseq[OF lists])
    apply (simp add: proc_wps)
    apply (erule kwp_conseq)
    using tab cpu
    apply (auto simp: sched_inv_def woken_proc_def)
    done
qed

lemma wakeup1_loop_ok:
  fixes s :: "'z proc_sys_scheme"
  assumes "sched_inv s C" "C (Hash j) = done @ ns" "j = unat chan mod HASHENTRIES" "length ns < fuel"
    "l = Some (hd (ns @ [Hash j]))"
  shows "kok (wakeup1_loop fuel chan (Hash j) l) (\<lambda>_ t. \<exists>C'. woken chan ns s C t C') s"
  using assms
proof (induction ns arbitrary: s C "done" fuel l)
  case Nil
  obtain k where "fuel = Suc k" using Nil by (cases fuel) auto
  moreover have "woken chan [] s C s C" unfolding woken_def
    using Nil(1) by (simp add: sleepers_def)
  ultimately show ?case using Nil by (auto simp: kwp_def)
next
  case (Cons n ns)
  obtain k where k: "fuel = Suc k" "length ns < k" using Cons.prems(4) by (cases fuel) auto
  have j: "j < HASHENTRIES" using Cons.prems(3) by (simp add: HASHENTRIES_def)
  note D = sched_invD[OF Cons.prems(1)]
  have dl: "dlist (plists s) (Hash j) (done @ n # ns)" using lists_okD(1)[OF D(1), of "Hash j"] j Cons.prems(2) by simp
  obtain p where p: "n = Clist p" "p < NPROC" "p_state (ptable s ! p) = SLEEPING" "unat (p_chan (ptable s ! p)) mod HASHENTRIES = j"
    "p_prio (ptable s ! p) < PRIOENTRIES"
    using bucket_node[OF Cons.prems(1) j, of n] Cons.prems(2) by auto
  have nx: "lnext (plists s n) = Some (hd (ns @ [Hash j]))"
    using dl by (auto simp: dlist_def dseg_append dest: dseg_first)
  show ?case
  proof (cases "p_chan (ptable s ! p) = chan")
    case False
    have "kok (wakeup1_loop k chan (Hash j) (Some (hd (ns @ [Hash j])))) (\<lambda>_ t. \<exists>C'. woken chan ns s C t C') s"
      by (rule Cons.IH[of _ _ "done @ [n]"]) (use Cons.prems k in auto)
    moreover have "sleepers s chan (n # ns) = sleepers s chan ns" using False p by (simp add: sleepers_def waits_on_def)
    ultimately show ?thesis using Cons.prems(5) k p nx False D(5) by (simp add: kwp_def get_proc_def woken_def)
  next
    case True
    let ?M = "kthen (upd_proc p (\<lambda>x. x\<lparr>p_state := RUNNABLE, p_chan := 0\<rparr>)) (kthen (on_lists (list_delete (Clist p))) (push_runnable p))"
    let ?i = "p_prio (ptable s ! p)"
    let ?C = "C(Hash j := done @ ns, Prio ?i := C (Prio ?i) @ [Plist p])"
    have "C (Hash j) = done @ Clist p # ns" using Cons.prems(2) p by simp
    from wake_one[OF Cons.prems(1) j this p(2-4) refl]
    obtain t where t: "?M s = Ok () t" "sched_inv t ?C" "\<exists>h. t = s\<lparr>ptable := (ptable s)[p := woken_proc (ptable s ! p)], plists := h\<rparr>"
      by (rule kok_unitE) blast
    have pt: "ptable t = (ptable s)[p := woken_proc (ptable s ! p)]" using t(3) by auto
    have np: "p \<notin> set (map (\<lambda>n. the (owner n)) ns)"
    proof
      assume "p \<in> set (map (\<lambda>n. the (owner n)) ns)"
      then obtain m where m: "m \<in> set ns" "p = the (owner m)" by auto
      then obtain r where "m = Clist r" using bucket_node[OF Cons.prems(1) j, of m] Cons.prems(2) by auto
      then have "m = n" using m p by simp
      then show False using m dl by (auto simp: dlist_def)
    qed
    have sl: "sleepers t chan ns = sleepers s chan ns"
    proof -
      have "waits_on t chan r = waits_on s chan r" if "r \<in> set (map (\<lambda>n. the (owner n)) ns)" for r
      proof -
        have "r \<noteq> p" using that np by blast
        then show ?thesis using pt by (simp add: waits_on_def)
      qed
      then show ?thesis unfolding sleepers_def by (intro filter_cong) auto
    qed
    have sc: "sleepers s chan (n # ns) = p # sleepers s chan ns" using True p by (simp add: sleepers_def waits_on_def)
    have npn: "p \<notin> set (sleepers s chan ns)" using np by (auto simp: sleepers_def)
    have "kok (wakeup1_loop k chan (Hash j) (Some (hd (ns @ [Hash j])))) (\<lambda>_ u. \<exists>C'. woken chan ns t ?C u C') t"
      by (rule Cons.IH[OF t(2) _ Cons.prems(3) k(2) refl]) simp
    moreover have "woken chan (n # ns) s C u C'" if u: "woken chan ns t ?C u C'" for u C'
    proof -
      have "p_prio (ptable t ! r) = p_prio (ptable s ! r)" for r
        using pt D(5) p(2) by (cases "r = p") (simp_all add: woken_proc_def)
      moreover have "u = s\<lparr>ptable := ptable u, plists := plists u\<rparr>"
      proof -
        have "u = t\<lparr>ptable := ptable u, plists := plists u\<rparr>" using u by (simp add: woken_def)
        moreover obtain h where "t = s\<lparr>ptable := (ptable s)[p := woken_proc (ptable s ! p)], plists := h\<rparr>" using t(3) by blast
        ultimately show ?thesis by simp
      qed
      moreover have "\<forall>r<NPROC. ptable u ! r = (if r \<in> set (sleepers s chan (n # ns)) then woken_proc (ptable s ! r) else ptable s ! r)"
        using u npn D(5) p(2) unfolding woken_def sl sc pt by (auto simp: nth_list_update)
      ultimately show ?thesis using u unfolding woken_def sl sc by (auto simp: pt)
    qed
    ultimately have "kok (wakeup1_loop k chan (Hash j) (Some (hd (ns @ [Hash j])))) (\<lambda>_ u. \<exists>C'. woken chan (n # ns) s C u C') t"
      by (auto elim!: kwp_conseq)
    then show ?thesis using Cons.prems(5) k p nx True D(5) t(1) by (simp add: kwp_def get_proc_def)
  qed
qed

lemma bucket_short:
  assumes "sched_inv s C" "j < HASHENTRIES"
  shows "length (C (Hash j)) \<le> NPROC"
proof -
  have "distinct (C (Hash j))"
    using dlist_distinct[OF lists_okD(1)[OF sched_invD(1)[OF assms(1)], of "Hash j"]] assms(2) by simp
  moreover have "set (C (Hash j)) \<subseteq> Clist ` {..<NPROC}"
    using bucket_node[OF assms] by (metis imageI lessThan_iff subsetI)
  ultimately show ?thesis
    using card_mono[of "Clist ` {..<NPROC}" "set (C (Hash j))"] card_image_le[of "{..<NPROC}" Clist]
    by (simp add: distinct_card)
qed

lemma wakeup1_ok:
  assumes inv: "sched_inv s C"
  shows "kok (wakeup1 chan) (\<lambda>_ t. \<exists>C'. woken chan (C (Hash (unat chan mod HASHENTRIES))) s C t C') s"
proof -
  let ?j = "unat chan mod HASHENTRIES"
  have j: "?j < HASHENTRIES" by (simp add: HASHENTRIES_def)
  have "lnext (plists s (Hash ?j)) = Some (hd (C (Hash ?j) @ [Hash ?j]))"
    using dlist_next[OF lists_okD(1)[OF sched_invD(1)[OF inv], of "Hash ?j"]] j by simp
  then show ?thesis unfolding wakeup1_def Let_def kwp_kbind kwp_kget
    using bucket_short[OF inv j] by (intro wakeup1_loop_ok[OF inv, of _ "[]"]) auto
qed

text \<open>The sleepers of the bucket are all processes that sleep on the channel.\<close>

lemma sleepers_bucket:
  assumes "sched_inv s C"
  shows "set (sleepers s chan (C (Hash (unat chan mod HASHENTRIES)))) = {p. p < NPROC \<and> waits_on s chan p}"
proof -
  let ?q = "Hash (unat chan mod HASHENTRIES)"
  have q: "?q \<in> heads" by (simp add: HASHENTRIES_def)
  note D = sched_invD[OF assms]
  have "p \<in> set (map (\<lambda>n. the (owner n)) (C ?q))" if "p < NPROC" "waits_on s chan p" for p
  proof -
    have "home p (ptable s ! p) = Some (?q, Clist p)" using that by (simp add: waits_on_def)
    then have "Clist p \<in> set (C ?q)" using tab_mem[OF D(2) q] that(1) by blast
    then show ?thesis by force
  qed
  moreover have "p < NPROC" if pm: "p \<in> set (map (\<lambda>n. the (owner n)) (C ?q))" for p
  proof -
    obtain n where n: "n \<in> set (C ?q)" "p = the (owner n)" using pm by auto
    show ?thesis by (rule bucket_node[OF assms _ n(1)]) (use q n(2) in simp_all)
  qed
  ultimately show ?thesis by (auto simp: sleepers_def)
qed


section \<open>Preservation by the other operations\<close>

text \<open>
  Between operations the lock of the table is free. The postcondition of the operations that also use
  memory and the file system, which may fault there.
\<close>

definition pinv :: "'z proc_sys_scheme \<Rightarrow> bool" where
  "pinv s \<longleftrightarrow> (\<exists>C. sched_inv s C) \<and> spin_free (ptablelock s)"

abbreviation maintains :: "('z proc_sys_scheme, 'a) kop \<Rightarrow> ('a \<Rightarrow> 'z proc_sys_scheme \<Rightarrow> bool) \<Rightarrow> 'z proc_sys_scheme \<Rightarrow> bool" where
  "maintains m Q s \<equiv> kwp m (\<lambda>_. True) Q s"

text \<open>Inside an operation: the lock is held, and process \<open>me\<close> is running here.\<close>

definition inside :: "spinlock \<Rightarrow> nat \<Rightarrow> 'z proc_sys_scheme \<Rightarrow> bool" where
  "inside lk me s \<longleftrightarrow> (\<exists>C. sched_inv s C) \<and> running s me \<and> spin_free lk \<and> ptablelock s = spin_held (p_cpu s) lk"

definition outside :: "nat \<Rightarrow> 'z proc_sys_scheme \<Rightarrow> bool" where
  "outside me s \<longleftrightarrow> (\<exists>C. sched_inv s C) \<and> running s me \<and> spin_free (ptablelock s)"

lemma sched_inv_parts: "sched_inv (s\<lparr>kmem := k\<rparr>) C = sched_inv s C" "sched_inv (s\<lparr>kfs := f\<rparr>) C = sched_inv s C"
    "sched_inv (s\<lparr>nextpid := n\<rparr>) C = sched_inv s C" "sched_inv (s\<lparr>resumes := r\<rparr>) C = sched_inv s C"
    "sched_inv (s\<lparr>ptablelock := l\<rparr>) C = sched_inv s C" "sched_inv (s\<lparr>klocks := ks\<rparr>) C = sched_inv s C"
    "sched_inv (s\<lparr>initproc := i\<rparr>) C = sched_inv s C"
  by (simp_all add: sched_inv_def)

lemma inside_parts: "inside lk me (s\<lparr>kmem := k\<rparr>) = inside lk me s" "inside lk me (s\<lparr>kfs := f\<rparr>) = inside lk me s"
    "inside lk me (s\<lparr>nextpid := n\<rparr>) = inside lk me s" "inside lk me (s\<lparr>resumes := r\<rparr>) = inside lk me s"
    "inside lk me (s\<lparr>klocks := ks\<rparr>) = inside lk me s"
  by (simp_all add: inside_def sched_inv_parts running_def)

lemma outside_parts: "outside me (s\<lparr>kmem := k\<rparr>) = outside me s" "outside me (s\<lparr>kfs := f\<rparr>) = outside me s"
    "outside me (s\<lparr>nextpid := n\<rparr>) = outside me s" "outside me (s\<lparr>resumes := r\<rparr>) = outside me s"
    "outside me (s\<lparr>klocks := ks\<rparr>) = outside me s"
  by (simp_all add: outside_def sched_inv_parts running_def)

lemma zoom_true: "(\<And>a t. Q a (p t s)) \<Longrightarrow> kwp (zoom g p m) (\<lambda>_. True) Q s"
  by (simp add: kwp_def zoom_def split: outcome.split)

lemma on_mem_true: "(\<And>a k. Q a (s\<lparr>kmem := k\<rparr>)) \<Longrightarrow> maintains (on_mem m) Q s"
  unfolding on_mem_def by (rule zoom_true)

lemma on_fs_true: "(\<And>a k. Q a (s\<lparr>kfs := k\<rparr>)) \<Longrightarrow> maintains (on_fs m) Q s"
  unfolding on_fs_def by (rule zoom_true)

lemma sched_inv_keep:
  assumes "sched_inv s C" "p < NPROC" "p_state x = p_state (ptable s ! p)" "p_prio x = p_prio (ptable s ! p)" "p_chan x = p_chan (ptable s ! p)"
  shows "sched_inv (s\<lparr>ptable := (ptable s)[p := x]\<rparr>) C"
proof -
  note D = sched_invD[OF assms(1)]
  have "tab_ok ((ptable s)[p := x]) C"
  proof (rule tab_same[OF D(2) assms(2)])
    show "p_prio x < PRIOENTRIES" using D(2) assms(2,4) by (simp add: tab_ok_def)
    show "home p x = home p (ptable s ! p)" using assms(3-5) by (simp add: home_def split: procstate.split)
  qed
  moreover have "cpu_ok ((ptable s)[p := x]) (cpus s)" by (rule cpu_same[OF D(3,5) assms(2)]) (simp add: assms(3))
  ultimately show ?thesis using D by (simp add: sched_inv_def)
qed

text \<open>A process in no queue and on no processor may change in any way that keeps it so.\<close>

lemma sched_inv_offline:
  assumes "sched_inv s C" "p < NPROC" "home p (ptable s ! p) = None" "p_state (ptable s ! p) \<noteq> RUNNING"
    "home p x = None" "p_state x \<noteq> RUNNING" "p_prio x < PRIOENTRIES"
  shows "sched_inv (s\<lparr>ptable := (ptable s)[p := x]\<rparr>) C"
proof -
  note D = sched_invD[OF assms(1)]
  have "tab_ok ((ptable s)[p := x]) C" by (rule tab_same[OF D(2) assms(2,7)]) (simp add: assms)
  moreover have "cpu_ok ((ptable s)[p := x]) (cpus s)" by (rule cpu_same[OF D(3,5) assms(2)]) (simp add: assms)
  ultimately show ?thesis using D by (simp add: sched_inv_def)
qed

lemma upd_keep:
  assumes "sched_inv s C" "\<And>x. p_state (f x) = p_state x \<and> p_prio (f x) = p_prio x \<and> p_chan (f x) = p_chan x"
    and Q: "p < NPROC \<Longrightarrow> sched_inv (s\<lparr>ptable := (ptable s)[p := f (ptable s ! p)]\<rparr>) C \<Longrightarrow>
      Q () (s\<lparr>ptable := (ptable s)[p := f (ptable s ! p)]\<rparr>)"
  shows "maintains (upd_proc p f) Q s"
  using Q sched_inv_keep[OF assms(1), of p "f (ptable s ! p)"] assms(2) sched_invD(5)[OF assms(1)]
  by (auto simp: kwp_def upd_proc_def kupd_def)

lemma get_true: "(\<And>x. Q x s) \<Longrightarrow> maintains (get_proc p) Q s"
  by (simp add: kwp_def get_proc_def kidx_def)

text \<open>Routines that keep a predicate whenever they return; compositional.\<close>

definition keeps :: "('s \<Rightarrow> bool) \<Rightarrow> ('s, 'a) kop \<Rightarrow> bool" where
  "keeps I m \<longleftrightarrow> (\<forall>s. I s \<longrightarrow> kwp m (\<lambda>_. True) (\<lambda>_ t. I t) s)"

named_theorems keeps_intros \<open>rules for routines that keep a predicate\<close>

lemma keepsI: "(\<And>s. I s \<Longrightarrow> kwp m (\<lambda>_. True) (\<lambda>_ t. I t) s) \<Longrightarrow> keeps I m"
  by (simp add: keeps_def)

lemma keepsD: "keeps I m \<Longrightarrow> I s \<Longrightarrow> kwp m (\<lambda>_. True) (\<lambda>_ t. I t) s"
  by (simp add: keeps_def)

lemma keeps_basic [keeps_intros]: "keeps I (kret a)" "keeps I (kget f)" "keeps I (kfault e)"
  by (simp_all add: keeps_def kwp_def)

lemma keeps_get [keeps_intros]: "keeps I (get_proc p)"
  by (simp add: keeps_def kwp_def get_proc_def kidx_def)

lemma keeps_bind [keeps_intros]: "keeps I m \<Longrightarrow> (\<And>a. keeps I (f a)) \<Longrightarrow> keeps I (kbind m f)"
  by (auto simp: keeps_def kwp_kbind elim!: kwp_conseq)

lemma keeps_then [keeps_intros]: "keeps I m \<Longrightarrow> keeps I n \<Longrightarrow> keeps I (kthen m n)"
  unfolding kthen_def by (rule keeps_bind)

lemma keeps_when [keeps_intros]: "(b \<Longrightarrow> keeps I m) \<Longrightarrow> keeps I (kwhen b m)"
  by (simp add: kwhen_def keeps_basic)

lemma keeps_for [keeps_intros]: "(\<And>x. x \<in> set xs \<Longrightarrow> keeps I (f x)) \<Longrightarrow> keeps I (kfor xs f)"
  by (induction xs) (auto intro!: keeps_intros)

lemma keeps_if [keeps_intros]: "(b \<Longrightarrow> keeps I m) \<Longrightarrow> (\<not> b \<Longrightarrow> keeps I n) \<Longrightarrow> keeps I (if b then m else n)"
  by simp

lemma keeps_option [keeps_intros]:
  "(r = None \<Longrightarrow> keeps I m) \<Longrightarrow> (\<And>a. r = Some a \<Longrightarrow> keeps I (f a)) \<Longrightarrow> keeps I (case r of None \<Rightarrow> m | Some a \<Rightarrow> f a)"
  by (cases r) simp_all

lemma keeps_mem: "(\<And>s k. I (s\<lparr>kmem := k\<rparr>) = I s) \<Longrightarrow> keeps I (on_mem m)"
  by (rule keepsI, rule on_mem_true) simp

lemma keeps_fs: "(\<And>s k. I (s\<lparr>kfs := k\<rparr>) = I s) \<Longrightarrow> keeps I (on_fs m)"
  by (rule keepsI, rule on_fs_true) simp

definition forking :: "nat \<Rightarrow> nat \<Rightarrow> 'z proc_sys_scheme \<Rightarrow> bool" where
  "forking me np s \<longleftrightarrow> outside me s \<and> np < NPROC \<and> p_state (ptable s ! np) = EMBRYO"

lemma outside_upd:
  assumes "outside me s" "p < NPROC" "\<And>x. p_state (f x) = p_state x \<and> p_prio (f x) = p_prio x \<and> p_chan (f x) = p_chan x"
  shows "outside me (s\<lparr>ptable := (ptable s)[p := f (ptable s ! p)]\<rparr>)"
  using assms sched_inv_keep by (fastforce simp: outside_def running_def)

lemma inside_upd:
  assumes "inside lk me s" "p < NPROC" "\<And>x. p_state (f x) = p_state x \<and> p_prio (f x) = p_prio x \<and> p_chan (f x) = p_chan x"
  shows "inside lk me (s\<lparr>ptable := (ptable s)[p := f (ptable s ! p)]\<rparr>)"
  using assms sched_inv_keep by (fastforce simp: inside_def running_def)

lemma upd_proc_true:
  assumes "length (ptable s) = NPROC" "p < NPROC \<Longrightarrow> Q () (s\<lparr>ptable := (ptable s)[p := f (ptable s ! p)]\<rparr>)"
  shows "maintains (upd_proc p f) Q s"
  using assms by (simp add: kwp_def upd_proc_def kupd_def)

lemma length_ptable: "outside me s \<Longrightarrow> length (ptable s) = NPROC" "inside lk me s \<Longrightarrow> length (ptable s) = NPROC"
  using sched_invD(5) by (auto simp: outside_def inside_def)

lemma keeps_upd [keeps_intros]:
  fixes f :: "proc \<Rightarrow> proc"
  assumes f: "\<And>x. p_state (f x) = p_state x \<and> p_prio (f x) = p_prio x \<and> p_chan (f x) = p_chan x"
  shows keeps_upd_outside: "keeps (outside me) (upd_proc p f)"
    and keeps_upd_inside: "keeps (inside lk me) (upd_proc p f)"
    and keeps_upd_forking: "keeps (forking me np) (upd_proc p f)"
proof -
  show "keeps (outside me) (upd_proc p f)"
    by (rule keepsI, rule upd_proc_true[OF length_ptable(1)]) (auto intro: outside_upd[OF _ _ f])
  show "keeps (inside lk me) (upd_proc p f)"
    by (rule keepsI, rule upd_proc_true[OF length_ptable(2)]) (auto intro: inside_upd[OF _ _ f])
  show "keeps (forking me np) (upd_proc p f)"
  proof (rule keepsI, rule upd_proc_true)
    fix s :: "'e proc_sys_scheme" assume s: "forking me np s"
    then show l: "length (ptable s) = NPROC" using length_ptable(1) by (auto simp: forking_def)
    assume "p < NPROC"
    then show "forking me np (s\<lparr>ptable := (ptable s)[p := f (ptable s ! p)]\<rparr>)"
      using s l outside_upd[OF _ _ f, of me s p] f by (auto simp: forking_def nth_list_update)
  qed
qed

lemma keeps_parts [keeps_intros]:
  "keeps (outside me) (on_mem m)" "keeps (outside me) (on_fs n)" "keeps (inside lk me) (on_mem m)"
  "keeps (forking me np) (on_mem m)" "keeps (forking me np) (on_fs n)"
  by (rule keeps_mem keeps_fs, simp add: outside_parts inside_parts forking_def)+

lemma exit_files_keeps: "keeps (outside me) (exit_files p)"
  unfolding exit_files_def by (intro keeps_intros) simp_all

lemma fork_copy_keeps: "keeps (forking me np) (fork_copy par np)"
  unfolding fork_copy_def dup_files_def by (intro keeps_intros) simp_all

lemma acquire_inside:
  "outside me s \<Longrightarrow> kok (on_ptable acquire) (\<lambda>_ t. inside (ptablelock s) me t
     \<and> t = s\<lparr>ptablelock := spin_held (p_cpu s) (ptablelock s)\<rparr>) s"
  by (auto simp: outside_def inside_def ptl_acquire_wp running_def) (metis sched_inv_parts(5))

lemma release_outside: "inside lk me s \<Longrightarrow> kok (on_ptable release) (\<lambda>_ t. outside me t \<and> t = s\<lparr>ptablelock := lk\<rparr>) s"
  by (auto simp: outside_def inside_def ptl_release_wp running_def) (metis sched_inv_parts(5))

lemma wakeup1_inside: "inside lk me s \<Longrightarrow> kok (wakeup1 chan) (\<lambda>_ t. inside lk me t) s"
proof -
  assume i: "inside lk me s"
  then obtain C where C: "sched_inv s C" by (auto simp: inside_def)
  show ?thesis
  proof (rule kwp_conseq[OF wakeup1_ok[OF C]], elim exE)
    fix t C' assume w: "woken chan (C (Hash (unat chan mod HASHENTRIES))) s C t C'"
    have "cpus t = cpus s" "p_cpu t = p_cpu s" "ptablelock t = ptablelock s"
      using w by (auto simp: woken_def) (metis proc_sys.select_convs proc_sys.surjective proc_sys.update_convs)+
    then show "inside lk me t" using w i by (auto simp: inside_def running_def woken_def)
  qed
qed

end
