(* ===== verification/Kstep.thy ===== *)
theory Kstep
  imports Sched
begin

text \<open>
  The operations of all processors interleaved. A step is one kernel call of the process that runs on
  a processor, or the scheduler of an idle processor with the code that the process it picks resumes
  in; the accesses to the table in each are under its lock. \<open>pinv\<close> holds in every reachable state.
\<close>

section \<open>Operations\<close>

lemma kwp_then_cases:
  "kwp m E P s \<Longrightarrow> (\<And>t. P () t \<Longrightarrow> kwp n E Q t) \<Longrightarrow> kwp (kthen m n) E Q s"
  by (auto simp: kwp_kthen elim!: kwp_conseq)

lemma kwp_bind_cases:
  "kwp m E P s \<Longrightarrow> (\<And>a t. P a t \<Longrightarrow> kwp (f a) E Q t) \<Longrightarrow> kwp (kbind m f) E Q s"
  by (auto simp: kwp_kbind elim!: kwp_conseq)

lemma kwp_ifI: "(b \<Longrightarrow> kwp m E Q s) \<Longrightarrow> (\<not> b \<Longrightarrow> kwp n E Q s) \<Longrightarrow> kwp (if b then m else n) E Q s"
  by simp

lemma keeps_then_cases:
  "keeps I m \<Longrightarrow> I s \<Longrightarrow> (\<And>t. I t \<Longrightarrow> maintains n Q t) \<Longrightarrow> maintains (kthen m n) Q s"
  by (rule kwp_then_cases[OF keepsD])

lemma keeps_bind_cases:
  "keeps I m \<Longrightarrow> I s \<Longrightarrow> (\<And>a t. I t \<Longrightarrow> maintains (f a) Q t) \<Longrightarrow> maintains (kbind m f) Q s"
  by (rule kwp_bind_cases[OF keepsD])

lemma kok_true: "kok m Q s \<Longrightarrow> (\<And>a t. Q a t \<Longrightarrow> R a t) \<Longrightarrow> kwp m (\<lambda>_. True) R s"
  by (rule kok_E)

lemma outside_pinv: "outside me s \<Longrightarrow> pinv s"
  by (auto simp: outside_def pinv_def)

lemma pinv_outside: "pinv s \<Longrightarrow> running s me \<Longrightarrow> outside me s"
  by (auto simp: outside_def pinv_def)

lemma thisproc_outside: "outside me s \<Longrightarrow> kwp thisproc E (\<lambda>p t. p = me \<and> t = s) s"
proof -
  assume o: "outside me s"
  then obtain C where "sched_inv s C" by (auto simp: outside_def)
  then show ?thesis using thisproc_wp[of s me] sched_invD(4,6)[of s C] o by (simp add: outside_def running_def)
qed

lemma thisproc_inside: "inside lk me s \<Longrightarrow> kwp thisproc E (\<lambda>p t. p = me \<and> t = s) s"
proof -
  assume o: "inside lk me s"
  then obtain C where "sched_inv s C" by (auto simp: inside_def)
  then show ?thesis using thisproc_wp[of s me] sched_invD(4,6)[of s C] o by (simp add: inside_def running_def)
qed

lemma yield_pinv: "outside me s \<Longrightarrow> kok yield (\<lambda>_ t. pinv t) s"
  by (auto simp: outside_def pinv_def intro: kwp_conseq[OF yield_ok])

lemma wakeup_outside: "outside me s \<Longrightarrow> kok (wakeup chan) (\<lambda>_ t. outside me t) s"
  unfolding wakeup_def
  by (rule kwp_then_cases[OF acquire_inside], assumption, rule kwp_then_cases[OF wakeup1_inside], blast)
    (auto intro: kwp_conseq[OF release_outside])

lemma sleep_locked_pinv: "inside lk me s \<Longrightarrow> kok (sleep_locked chan back) (\<lambda>_ t. pinv t) s"
  by (auto simp: inside_def pinv_def intro: kwp_conseq[OF sleep_locked_ok])

lemma on_klock_true: "(\<And>a k. Q a (s\<lparr>klocks := k\<rparr>)) \<Longrightarrow> maintains (on_klock l m) Q s"
  by (simp add: on_klock_def wp_simps) (simp add: kwp_def split: outcome.split)

lemma keeps_klock [keeps_intros]: "keeps (outside me) (on_klock l m)" "keeps (inside lk me) (on_klock l m)"
  by (rule keepsI, rule on_klock_true, simp add: outside_parts inside_parts)+

lemma sleep_pinv: "outside me s \<Longrightarrow> maintains (sleep chan lk) (\<lambda>_ t. pinv t) s"
proof (cases lk)
  case NoLock
  assume o: "outside me s"
  show ?thesis unfolding sleep_def NoLock lockref.case
    by (rule kwp_then_cases[OF kok_true[OF acquire_inside[OF o]]], assumption)
      (blast intro: kok_true[OF sleep_locked_pinv])
next
  case PtableLock
  assume o: "outside me s"
  have "\<not> holding (p_cpu s) (ptablelock s)" using o by (auto simp: outside_def holding_def spin_free_def)
  then show ?thesis
    unfolding sleep_def PtableLock lockref.case sleep_locked_def sched_def
    by (auto simp: kwp_def kbind_def kthen_def kret_def kget_def kmod_def kwhen_def kfault_def thisproc_def upd_proc_def
        get_proc_def on_lists_def zoom_def kupd_def kidx_def holding_def split: outcome.splits option.splits if_splits)
next
  case (OtherLock l)
  assume o: "outside me s"
  show ?thesis unfolding sleep_def OtherLock lockref.case
    by (rule kwp_then_cases[OF kok_true[OF acquire_inside[OF o]]], assumption,
      rule kwp_then_cases[OF keepsD[OF keeps_klock(2)]], blast)
      (blast intro: kok_true[OF sleep_locked_pinv])
qed

text \<open>\<^verbatim>\<open>exit\<close>: the last part takes the process off its processor.\<close>

lemma end_process_state:
  assumes i: "inside lk me s"
  shows "pinv (s\<lparr>ptable := (ptable s)[me := (ptable s ! me)\<lparr>p_state := ZOMBIE\<rparr>], cpus := (cpus s)[p_cpu s := None], ptablelock := lk\<rparr>)"
proof -
  obtain C where inv: "sched_inv s C" and r: "running s me" and lk: "spin_free lk"
    using i by (auto simp: inside_def)
  note D = sched_invD[OF inv] and R = runningD[OF inv r]
  let ?x = "(ptable s ! me)\<lparr>p_state := ZOMBIE\<rparr>"
  have "tab_ok ((ptable s)[me := ?x]) C" by (rule tab_same[OF D(2) R(1)]) (use R in simp_all)
  moreover have "cpu_ok ((ptable s)[me := ?x]) ((cpus s)[p_cpu s := None])"
    using cpu_leave[OF D(3,4) _ _ D(5)] r by (simp add: running_def)
  ultimately have "sched_inv (s\<lparr>ptable := (ptable s)[me := ?x], cpus := (cpus s)[p_cpu s := None], ptablelock := lk\<rparr>) C"
    using D by (simp add: sched_inv_def)
  then show ?thesis using lk by (auto simp: pinv_def)
qed

lemma end_process_wp:
  assumes i: "inside lk me s"
    and Q: "Q () (s\<lparr>ptable := (ptable s)[me := (ptable s ! me)\<lparr>p_state := ZOMBIE\<rparr>], cpus := (cpus s)[p_cpu s := None], ptablelock := lk\<rparr>)"
  shows "kwp (kbind (get_proc me) (\<lambda>x. kthen (kwhen (p_state x = RUNNABLE) (on_lists (list_delete (Plist me))))
      (kthen (upd_proc me (\<lambda>x. x\<lparr>p_state := ZOMBIE\<rparr>)) sched))) E Q s"
proof -
  obtain C where inv: "sched_inv s C" and r: "running s me" and lk: "spin_free lk" "ptablelock s = spin_held (p_cpu s) lk"
    using i by (auto simp: inside_def)
  show ?thesis using sched_invD[OF inv] runningD[OF inv r] lk Q by (simp add: proc_wps sched_wp[OF lk(1)])
qed

lemmas end_process = end_process_wp[where Q = "\<lambda>_ t. pinv t", OF _ end_process_state]

lemma wakeup1_keeps [keeps_intros]: "keeps (inside lk me) (wakeup1 chan)"
  by (rule keepsI, rule kok_true[OF wakeup1_inside])

lemma exit_pinv:
  assumes "outside me s"
  shows "maintains exit (\<lambda>_ t. pinv t) s"
  unfolding exit_def
proof (rule kwp_bind_cases[OF thisproc_outside[OF assms]], elim conjE, hypsubst,
    rule kwp_then_cases[OF keepsD[OF exit_files_keeps assms]])
  fix t assume "outside me t"
  from kok_true[OF acquire_inside[OF this]]
  have acq: "maintains (on_ptable acquire) (\<lambda>_ u. inside (ptablelock t) me u) t" by simp
  let ?lk = "ptablelock t"
  let ?loop = "\<lambda>base. kfor [0..<NPROC] (\<lambda>pc. kbind (get_proc pc) (\<lambda>y.
         kwhen (p_parent y = Some me)
           (kbind (kget initproc) (\<lambda>ini.
            kthen (upd_proc pc (\<lambda>y. y\<lparr>p_parent := ini\<rparr>))
            (kwhen (p_state y = ZOMBIE) (wakeup1 (proc_addr base ini)))))))"
  have loop: "keeps (inside ?lk me) (?loop base)" for base by (intro keeps_intros) simp_all
  show "maintains (kthen (on_ptable acquire)
     (kbind (kget ptable_at) (\<lambda>base.
      kbind (get_proc me) (\<lambda>x.
      kthen (wakeup1 (proc_addr base (p_parent x)))
      (kthen (?loop base)
      (kbind (get_proc me) (\<lambda>x.
       kthen (kwhen (p_state x = RUNNABLE) (on_lists (list_delete (Plist me))))
       (kthen (upd_proc me (\<lambda>x. x\<lparr>p_state := ZOMBIE\<rparr>))
       sched)))))))) (\<lambda>_ t. pinv t) t"
  proof (rule kwp_then_cases[OF acq])
    fix u assume u: "inside ?lk me u"
    show "maintains (kbind (kget ptable_at) (\<lambda>base.
      kbind (get_proc me) (\<lambda>x.
      kthen (wakeup1 (proc_addr base (p_parent x)))
      (kthen (?loop base)
      (kbind (get_proc me) (\<lambda>x.
       kthen (kwhen (p_state x = RUNNABLE) (on_lists (list_delete (Plist me))))
       (kthen (upd_proc me (\<lambda>x. x\<lparr>p_state := ZOMBIE\<rparr>))
       sched))))))) (\<lambda>_ t. pinv t) u"
      by (intro keeps_bind_cases[where I = "inside ?lk me"] keeps_then_cases[where I = "inside ?lk me", OF wakeup1_keeps]
          keeps_then_cases[where I = "inside ?lk me", OF loop] keeps_basic keeps_get u end_process)
  qed
qed

text \<open>\<^verbatim>\<open>proc_alloc\<close> takes an unused entry, which is in no queue and on no processor.\<close>

lemma lists_ok_reset:
  assumes "lists_ok h C" "\<And>q n. q \<in> heads \<Longrightarrow> n \<in> set (C q) \<Longrightarrow> owner n \<noteq> Some p"
  shows "lists_ok (h(Clist p := a, Plist p := b)) C"
proof -
  have "dlist (h(Clist p := a, Plist p := b)) q (C q)" if q: "q \<in> heads" for q
  proof (rule dlist_frame[OF lists_okD(1)[OF assms(1) q]])
    fix n assume "n \<in> set (q # C q)"
    then have "n \<noteq> Clist p" "n \<noteq> Plist p" using assms(2)[OF q, of n] q by auto
    then show "(h(Clist p := a, Plist p := b)) n = h n" by simp
  qed
  then show ?thesis using assms(1) by (simp add: lists_ok_def)
qed

text \<open>The lock is held and the entry \<open>np\<close> is in the state \<open>st\<close>, in no queue and on no processor.\<close>

definition offline :: "procstate \<Rightarrow> bool" where
  "offline st \<longleftrightarrow> st = UNUSED \<or> st = EMBRYO \<or> st = ZOMBIE"

definition entry :: "spinlock \<Rightarrow> nat \<Rightarrow> procstate \<Rightarrow> nat \<Rightarrow> 'z proc_sys_scheme \<Rightarrow> bool" where
  "entry lk me st np s \<longleftrightarrow> inside lk me s \<and> np < NPROC \<and> p_state (ptable s ! np) = st"

lemma offlineD: "offline (p_state x) \<Longrightarrow> home p x = None \<and> p_state x \<noteq> RUNNING"
  by (auto simp: offline_def)

lemma entry_mem [keeps_intros]: "keeps (entry lk me st np) (on_mem m)"
  by (rule keeps_mem) (simp add: entry_def inside_parts)

lemma inside_offline:
  assumes "inside lk me s" "p < NPROC" "offline (p_state (ptable s ! p))" "offline (p_state x)" "p_prio x < PRIOENTRIES"
  shows "inside lk me (s\<lparr>ptable := (ptable s)[p := x]\<rparr>)"
proof -
  obtain C where "sched_inv s C" using assms(1) by (auto simp: inside_def)
  then have "sched_inv (s\<lparr>ptable := (ptable s)[p := x]\<rparr>) C"
    using sched_inv_offline[of s C p x] offlineD[OF assms(3)] offlineD[OF assms(4)] assms(2,5) by simp
  then show ?thesis using assms(1) by (auto simp: inside_def running_def)
qed

lemma entry_upd:
  assumes st: "offline st" "offline st'" and e: "entry lk me st np s"
    and f: "\<And>x. p_state x = st \<Longrightarrow> p_prio x < PRIOENTRIES \<Longrightarrow> p_state (f x) = st' \<and> p_prio (f x) < PRIOENTRIES"
  shows "kok (upd_proc np f) (\<lambda>_ t. entry lk me st' np t) s"
proof -
  have i: "inside lk me s" "np < NPROC" "p_state (ptable s ! np) = st" using e by (auto simp: entry_def)
  have l: "length (ptable s) = NPROC" by (rule length_ptable(2)[OF i(1)])
  have pr: "p_prio (ptable s ! np) < PRIOENTRIES" using i sched_invD(2) by (auto simp: inside_def tab_ok_def)
  have "inside lk me (s\<lparr>ptable := (ptable s)[np := f (ptable s ! np)]\<rparr>)"
    by (rule inside_offline[OF i(1,2)]) (use f[OF i(3) pr] i st in simp_all)
  then show ?thesis using f[OF i(3) pr] l i by (simp add: upd_proc_wp entry_def)
qed

lemma entry_reset:
  assumes "offline st" "entry lk me st np s"
  shows "kok (on_lists (kmod (\<lambda>h. h(Clist np := a, Plist np := b)))) (\<lambda>_ t. entry lk me st np t) s"
proof -
  obtain C where C: "sched_inv s C" using assms(2) by (auto simp: entry_def inside_def)
  have "home np (ptable s ! np) = None" "np < NPROC" using assms offlineD by (auto simp: entry_def)
  then have "lists_ok ((plists s)(Clist np := a, Plist np := b)) C"
    using lists_ok_reset[OF sched_invD(1)[OF C]] not_queued[OF sched_invD(2)[OF C]] by blast
  then have "sched_inv (s\<lparr>plists := (plists s)(Clist np := a, Plist np := b)\<rparr>) C" using C by (simp add: sched_inv_def)
  then show ?thesis using assms(2) by (auto simp: on_lists_wp wp_simps entry_def inside_def running_def)
qed

lemma entry_release:
  "entry lk me st np s \<Longrightarrow> kok (on_ptable release) (\<lambda>_ t. outside me t \<and> np < NPROC \<and> p_state (ptable t ! np) = st) s"
  by (auto simp: entry_def intro: kwp_conseq[OF release_outside])

lemmas entry_rules = kwp_then_cases[OF kok_true[OF entry_upd]] kwp_then_cases[OF kok_true[OF entry_reset]]

lemma off_states [simp]: "offline UNUSED" "offline EMBRYO" "offline ZOMBIE"
  by (simp_all add: offline_def)

lemma keeps_resumes [keeps_intros]: "keeps (entry lk me st np) (kmod (\<lambda>s. s\<lparr>resumes := r s\<rparr>))"
    "keeps (entry lk me st np) (kmod (\<lambda>s. s\<lparr>nextpid := n s\<rparr>))"
  by (simp_all add: keeps_def wp_simps entry_def inside_parts)

lemma keeps_entry_upd [keeps_intros]:
  assumes "offline st" "\<And>x. p_state x = st \<Longrightarrow> p_prio x < PRIOENTRIES \<Longrightarrow> p_state (f x) = st \<and> p_prio (f x) < PRIOENTRIES"
  shows "keeps (entry lk me st np) (upd_proc np f)"
  by (rule keepsI, rule kok_true[OF entry_upd[OF assms(1,1) _ assms(2)]])

lemma keeps_entry_reset [keeps_intros]:
  "offline st \<Longrightarrow> keeps (entry lk me st np) (on_lists (kmod (\<lambda>h. h(Clist np := a, Plist np := b))))"
  by (rule keepsI, rule kok_true[OF entry_reset])

text \<open>The result of \<^verbatim>\<open>proc_alloc\<close>: an entry in the state \<^verbatim>\<open>EMBRYO\<close>, which only its creator touches.\<close>

definition allocated_proc :: "nat \<Rightarrow> nat option \<Rightarrow> 'z proc_sys_scheme \<Rightarrow> bool" where
  "allocated_proc me r t \<longleftrightarrow> outside me t \<and> (case r of None \<Rightarrow> True | Some np \<Rightarrow> forking me np t)"

lemma release_None:
  fixes s :: "'z proc_sys_scheme"
  shows "inside lk me s \<Longrightarrow> maintains (kthen (on_ptable release) (kret None)) (allocated_proc me) s"
  by (rule kwp_then_cases[OF kok_true[OF release_outside]], assumption, assumption)
    (simp add: wp_simps allocated_proc_def)

lemma proc_setup_keeps:
  fixes s :: "'z proc_sys_scheme"
  assumes "entry lk me EMBRYO np s"
  shows "maintains (proc_setup np ks) (allocated_proc me) s"
proof -
  have rel: "maintains (kthen (on_ptable release) (kret (Some np))) (allocated_proc me) t" if "entry lk me EMBRYO np t" for t :: "'z proc_sys_scheme"
    by (rule kwp_then_cases[OF kok_true[OF entry_release[OF that]]], assumption)
      (simp add: wp_simps allocated_proc_def forking_def)
  show ?thesis unfolding proc_setup_def Let_def
    by (intro keeps_bind_cases[where I = "entry lk me EMBRYO np"] keeps_then_cases[where I = "entry lk me EMBRYO np"]
        keeps_intros assms rel) (simp_all add: PRIOENTRIES_def)
qed

lemma proc_claim_keeps:
  fixes s :: "'z proc_sys_scheme"
  assumes e: "entry lk me UNUSED np s"
  shows "maintains (proc_claim np) (allocated_proc me) s"
proof -
  have undo: "maintains (kthen (upd_proc np (\<lambda>x. x\<lparr>p_state := UNUSED\<rparr>)) (kthen (on_ptable release) (kret None))) (allocated_proc me) t"
    if "entry lk me EMBRYO np t" for t :: "'z proc_sys_scheme"
  proof (rule kwp_then_cases[OF kok_true[OF entry_upd[OF _ _ that, of UNUSED]]])
    fix u :: "'z proc_sys_scheme" assume "entry lk me UNUSED np u"
    then have "inside lk me u" by (simp add: entry_def)
    from release_None[OF this] show "maintains (kthen (on_ptable release) (kret None)) (allocated_proc me) u" .
  qed simp_all
  have tail: "maintains (if ks = 0 then
         kthen (upd_proc np (\<lambda>x. x\<lparr>p_state := UNUSED\<rparr>))
         (kthen (on_ptable release) (kret None))
       else proc_setup np ks) (allocated_proc me) t"
    if "entry lk me EMBRYO np t" for ks and t :: "'z proc_sys_scheme"
    using undo[OF that] proc_setup_keeps[OF that] by simp
  show ?thesis unfolding proc_claim_def kwp_kbind[of "kget _"] kwp_kget
  proof (rule kwp_then_cases[OF kok_true[OF entry_upd[OF _ _ e, of EMBRYO]]])
    fix t :: "'z proc_sys_scheme" assume "entry lk me EMBRYO np t"
    then show "maintains (kthen (kmod (\<lambda>s. s\<lparr>nextpid := nextpid s + 1\<rparr>))
     (kbind (on_mem kalloc) (\<lambda>ks.
      kthen (upd_proc np (\<lambda>x. x\<lparr>p_kstack := ks\<rparr>))
      (if ks = 0 then
         kthen (upd_proc np (\<lambda>x. x\<lparr>p_state := UNUSED\<rparr>))
         (kthen (on_ptable release) (kret None))
       else proc_setup np ks)))) (allocated_proc me) t"
      by (intro keeps_bind_cases[where I = "entry lk me EMBRYO np"] keeps_then_cases[where I = "entry lk me EMBRYO np"]
          tail keeps_intros) simp_all
  qed simp_all
qed

lemma proc_alloc_keeps:
  fixes s :: "'z proc_sys_scheme"
  assumes "outside me s"
  shows "maintains proc_alloc (allocated_proc me) s"
  unfolding proc_alloc_def
proof (rule kwp_then_cases[OF kok_true[OF acquire_inside[OF assms]]], assumption, elim conjE, simp only: kwp_kbind kwp_kget)
  fix t assume t: "inside (ptablelock s) me t"
  show "maintains (case List.find (\<lambda>p. p_state (ptable t ! p) = UNUSED) [0..<NPROC] of
        None \<Rightarrow> kthen (on_ptable release) (kret None) | Some p \<Rightarrow> proc_claim p) (allocated_proc me) t"
  proof (cases "List.find (\<lambda>p. p_state (ptable t ! p) = UNUSED) [0..<NPROC]")
    case None
    then show ?thesis using release_None[OF t] by simp
  next
    case (Some p)
    then have "entry (ptablelock s) me UNUSED p t" using t by (auto simp: entry_def find_upt_Some)
    from proc_claim_keeps[OF this] show ?thesis using Some by simp
  qed
qed

text \<open>\<^verbatim>\<open>fork\<close> publishes the new process in the run queue of its parent's priority.\<close>

lemma publish:
  assumes i: "inside lk me s" and np: "np < NPROC" "p_state (ptable s ! np) = EMBRYO"
  shows "kok (fork_publish me np) (\<lambda>_ t. inside lk me t) s"
proof -
  obtain C where inv: "sched_inv s C" and r: "running s me" using i by (auto simp: inside_def)
  note D = sched_invD[OF inv] and R = runningD[OF inv r]
  let ?q = "Prio (p_prio (ptable s ! me))"
  let ?x = "(ptable s ! np)\<lparr>p_state := RUNNABLE, p_prio := p_prio (ptable s ! me)\<rparr>"
  have h: "home np (ptable s ! np) = None" "home np ?x = Some (?q, Plist np)" using np by simp_all
  have tab: "tab_ok ((ptable s)[np := ?x]) (C(?q := C ?q @ [Plist np]))" by (rule tab_join[OF D(2) np(1) _ h]) (simp add: R)
  have cpu: "cpu_ok ((ptable s)[np := ?x]) (cpus s)" by (rule cpu_same[OF D(3,5) np(1)]) (simp add: np)
  have "kok (list_push_back ?q (Plist np)) (\<lambda>_ h'. lists_ok h' (C(?q := C ?q @ [Plist np]))) (plists s)"
    by (rule push_queue[OF D(1)]) (use R not_queued[OF D(2) np(1) h(1)] in simp_all)
  then show ?thesis
    using R np D(4,5) unfolding push_runnable_def fork_publish_def
    apply (simp add: proc_wps)
    apply (erule kwp_conseq)
    using tab cpu i
    apply (auto simp: sched_inv_def inside_def running_def intro!: exI[of _ "C(?q := C ?q @ [Plist np])"])
    done
qed

lemma fork_keeps:
  fixes s :: "'z proc_sys_scheme"
  assumes "outside me s"
  shows "maintains fork (\<lambda>_ t. outside me t) s"
  unfolding fork_def
proof (rule kwp_bind_cases[OF thisproc_outside[OF assms]], elim conjE, hypsubst, rule kwp_bind_cases[OF proc_alloc_keeps[OF assms]])
  fix r and t :: "'z proc_sys_scheme" assume rt: "allocated_proc me r t"
  let ?pub = "\<lambda>np cpid. kthen (on_ptable acquire) (kthen (fork_publish me np) (kthen (on_ptable release) (kret cpid)))"
  have pub: "maintains (?pub np cpid) (\<lambda>_ t. outside me t) u" if u: "forking me np u" for np cpid and u :: "'z proc_sys_scheme"
  proof -
    have o: "outside me u" "np < NPROC" "p_state (ptable u ! np) = EMBRYO" using u by (auto simp: forking_def)
    have rel: "maintains (kthen (on_ptable release) (kret cpid)) (\<lambda>_ t. outside me t) v" if "inside lk me v" for lk and v :: "'z proc_sys_scheme"
      by (rule kwp_then_cases[OF kok_true[OF release_outside[OF that]]], assumption) (simp add: wp_simps)
    show ?thesis
    proof (rule kwp_then_cases[OF kok_true[OF acquire_inside[OF o(1)]]], assumption, elim conjE)
      fix v assume v: "inside (ptablelock u) me v" "v = u\<lparr>ptablelock := spin_held (p_cpu u) (ptablelock u)\<rparr>"
      have "p_state (ptable v ! np) = EMBRYO" using v(2) o(3) by simp
      from kwp_then_cases[OF kok_true[OF publish[OF v(1) o(2) this]] rel]
      show "maintains (kthen (fork_publish me np) (kthen (on_ptable release) (kret cpid))) (\<lambda>_ t. outside me t) v" .
    qed
  qed
  show "maintains (case r of None \<Rightarrow> panic ''fork'' | Some np \<Rightarrow> kbind (fork_copy me np) (?pub np)) (\<lambda>_ t. outside me t) t"
  proof (cases r)
    case None then show ?thesis by (simp add: wp_simps)
  next
    case (Some np)
    then have "forking me np t" using rt by (simp add: allocated_proc_def)
    then show ?thesis unfolding Some option.case
      by (intro keeps_bind_cases[where I = "forking me np", OF fork_copy_keeps] pub)
  qed
qed

text \<open>\<^verbatim>\<open>wait\<close> frees the entry of a zombie child, or sleeps.\<close>

lemma cleanproc_inside:
  fixes s :: "'z proc_sys_scheme"
  assumes "entry lk me ZOMBIE p s"
  shows "maintains (cleanproc p) (\<lambda>_ t. inside lk me t) s"
  unfolding cleanproc_def
  by (intro keeps_then_cases[where I = "entry lk me ZOMBIE p"] keeps_bind_cases[where I = "entry lk me ZOMBIE p"] keeps_intros assms
      kok_true[OF entry_upd[where st = ZOMBIE and st' = UNUSED and lk = lk and me = me]])
    (simp_all add: entry_def)

lemma wait_turn_pinv:
  fixes s :: "'z proc_sys_scheme"
  assumes i: "inside lk me s"
  shows "maintains (wait_turn me) (\<lambda>_ t. pinv t) s"
proof -
  have rel: "maintains (kthen (on_ptable release) (kret a)) (\<lambda>_ t. pinv t) t" if "inside lk me t" for a and t :: "'z proc_sys_scheme"
    by (rule kwp_then_cases[OF kok_true[OF release_outside[OF that]]], assumption) (auto simp: wp_simps intro: outside_pinv)
  show ?thesis
  proof (cases "List.find (\<lambda>p. p_parent (ptable s ! p) = Some me \<and> p_state (ptable s ! p) = ZOMBIE) [0..<NPROC]")
    case None
    have sl: "maintains (kthen (sleep c PtableLock) (kret None)) (\<lambda>_ t. pinv t) s" for c
      unfolding sleep_def lockref.case
      by (rule kwp_then_cases[OF kok_true[OF sleep_locked_pinv[OF i]]], assumption) (simp add: wp_simps)
    have "maintains (kbind (kget ptable_at) (\<lambda>base. kthen (sleep (proc_addr base (Some me)) PtableLock) (kret None))) (\<lambda>_ t. pinv t) s"
      unfolding kwp_kbind[of "kget _"] kwp_kget by (rule sl)
    then show ?thesis unfolding wait_turn_def kwp_kbind[of "kget ptable"] kwp_kget None option.case kwp_if
      using rel[OF i] by (cases "\<exists>p<NPROC. p_parent (ptable s ! p) = Some me")
        (simp_all only: not_True_eq_False not_False_eq_True if_True if_False)
  next
    case (Some p)
    then have e: "entry lk me ZOMBIE p s" using i by (auto simp: entry_def find_upt_Some)
    show ?thesis unfolding wait_turn_def kwp_kbind[of "kget ptable"] kwp_kget Some option.case
      by (rule kwp_then_cases[OF cleanproc_inside[OF e] rel])
  qed
qed

lemma wait_pinv:
  fixes s :: "'z proc_sys_scheme"
  assumes "outside me s"
  shows "maintains wait (\<lambda>_ t. pinv t) s"
  unfolding wait_def
proof (rule kwp_then_cases[OF kok_true[OF acquire_inside[OF assms]]], assumption, elim conjE)
  fix t :: "'z proc_sys_scheme" assume t: "inside (ptablelock s) me t"
  show "maintains (kbind thisproc wait_turn) (\<lambda>_ t. pinv t) t"
    by (rule kwp_bind_cases[OF thisproc_inside[OF t]]) (use wait_turn_pinv[OF t] in simp)
qed


section \<open>The scheduler's turn\<close>

lemma resumed_pinv:
  fixes s :: "'z proc_sys_scheme"
  assumes i: "inside lk p s"
  shows "maintains (resumed p) (\<lambda>_ t. pinv t) s"
proof -
  have rel: "maintains (kthen (on_ptable release) m) (\<lambda>_ t. pinv t) t"
    if "inside lk p t" "keeps (outside p) m" for t :: "'z proc_sys_scheme" and m :: "('z proc_sys_scheme, 'b) kop"
    by (rule kwp_then_cases[OF kok_true[OF release_outside[OF that(1)]]], assumption)
      (auto intro: kwp_conseq[OF keepsD[OF that(2)]] outside_pinv)
  have ch: "inside lk p (s\<lparr>ptable := (ptable s)[p := (ptable s ! p)\<lparr>p_chan := 0\<rparr>]\<rparr>)"
  proof -
    obtain C where inv: "sched_inv s C" and r: "running s p" using i by (auto simp: inside_def)
    note D = sched_invD[OF inv] and R = runningD[OF inv r]
    have "tab_ok ((ptable s)[p := (ptable s ! p)\<lparr>p_chan := 0\<rparr>]) C" by (rule tab_same[OF D(2) R(1)]) (use R in simp_all)
    moreover have "cpu_ok ((ptable s)[p := (ptable s ! p)\<lparr>p_chan := 0\<rparr>]) (cpus s)" by (rule cpu_same[OF D(3,5) R(1)]) simp
    ultimately show ?thesis using i D by (auto simp: inside_def running_def sched_inv_def)
  qed
  have up: "maintains (kthen (upd_proc p (\<lambda>x. x\<lparr>p_chan := 0\<rparr>)) m) (\<lambda>_ t. pinv t) s"
    if "\<And>t. inside lk p t \<Longrightarrow> maintains m (\<lambda>_ t. pinv t) t" for m :: "('z proc_sys_scheme, 'b) kop"
  proof -
    have "maintains (upd_proc p (\<lambda>x. x\<lparr>p_chan := 0\<rparr>)) (\<lambda>_. maintains m (\<lambda>_ t. pinv t)) s"
      by (rule upd_proc_true[OF length_ptable(2)[OF i]]) (rule that[OF ch])
    then show ?thesis by (simp only: kwp_kthen)
  qed
  show ?thesis unfolding resumed_def kwp_kbind[of "kget _"] kwp_kget
  proof (cases "resumes s p", goal_cases)
    case 1 then show ?case by (simp only: resume.case forkret_def) (rule rel[OF i keeps_basic(1)])
  next
    case 2 then show ?case by (simp only: resume.case yield_return_def) (rule rel[OF i keeps_basic(1)])
  next
    case (3 r)
    then show ?case
    proof (cases r)
      case None
      show ?thesis unfolding 3 None resume.case option.case sleep_return_def lockref.case kthen_assoc
        by (rule up) (rule rel[OF _ keeps_basic(1)])
    next
      case (Some l)
      show ?thesis unfolding 3 Some resume.case option.case sleep_return_def lockref.case kthen_assoc
        by (rule up, rule rel, assumption) (intro keeps_intros)
    qed
  next
    case 4
    show ?case unfolding 4 resume.case sleep_return_def lockref.case kthen_assoc
      by (rule up) (simp add: kthen_def kbind_def wait_turn_pinv)
  qed
qed

lemma dispatch_pinv:
  fixes s :: "'z proc_sys_scheme"
  assumes inv: "pinv s" and c: "p_cpu s < NCPU" "cpus s ! p_cpu s = None"
  shows "maintains dispatch (\<lambda>_ t. pinv t) s"
proof -
  obtain C where C: "sched_inv s C" and lk: "spin_free (ptablelock s)" using inv by (auto simp: pinv_def)
  let ?s = "s\<lparr>ptablelock := spin_held (p_cpu s) (ptablelock s)\<rparr>"
  have i: "sched_inv ?s C" using C by (simp add: sched_inv_parts)
  have scan: "kok (scheduler_scan (rev [0..<PRIOENTRIES])) (\<lambda>r t. case r of None \<Rightarrow> t = ?s | Some p \<Rightarrow> inside (ptablelock s) p t) ?s"
  proof (rule kwp_conseq[OF scheduler_scan_ok[OF i]])
    show "cpus ?s ! p_cpu ?s = None" using c by simp
    show "set (rev [0..<PRIOENTRIES]) \<subseteq> {..<PRIOENTRIES}" by auto
    fix r t assume "case first_ready C (rev [0..<PRIOENTRIES]) of None \<Rightarrow> r = None \<and> t = ?s
      | Some i \<Rightarrow> \<exists>p ns. r = Some p \<and> C (Prio i) = Plist p # ns \<and> sched_inv t (C(Prio i := ns)) \<and> enter_cpu ?s p t"
    then show "case r of None \<Rightarrow> t = ?s | Some p \<Rightarrow> inside (ptablelock s) p t"
      using lk sched_invD(4,6)[OF C] by (auto simp: inside_def enter_cpu_def running_def split: option.splits)
  qed
  have fin: "maintains (case r of None \<Rightarrow> kthen (on_ptable release) (kret None) | Some p \<Rightarrow> kret (Some p))
      (\<lambda>r t. case r of None \<Rightarrow> pinv t | Some p \<Rightarrow> inside (ptablelock s) p t) t"
    if "case r of None \<Rightarrow> t = ?s | Some p \<Rightarrow> inside (ptablelock s) p t" for r t
    using that lk inv by (auto simp: wp_simps ptl_release_wp split: option.splits)
  show ?thesis unfolding dispatch_def scheduler_enter_def
    apply (simp only: kwp_kbind kwp_kthen ptl_acquire_wp[OF lk])
    apply (rule kok_true[OF scan])
    apply (rule kwp_conseq[OF fin])
     apply assumption
    apply (auto split: option.splits simp: wp_simps intro: resumed_pinv)
    done
qed


section \<open>Reachable states\<close>

datatype kcall = Yield | Sleep u64 lockref | Wakeup u64 | Exit | Fork | Wait

fun run_call :: "kcall \<Rightarrow> ('z proc_sys_scheme, unit) kop" where
  "run_call Yield = yield"
| "run_call (Sleep chan lk) = sleep chan lk"
| "run_call (Wakeup chan) = wakeup chan"
| "run_call Exit = exit"
| "run_call Fork = kbind fork (\<lambda>_. kret ())"
| "run_call Wait = kbind wait (\<lambda>_. kret ())"

inductive kstep :: "proc_sys \<Rightarrow> proc_sys \<Rightarrow> bool" where
  idle: "c < NCPU \<Longrightarrow> cpus s ! c = None \<Longrightarrow> dispatch (s\<lparr>p_cpu := c\<rparr>) = Ok r t \<Longrightarrow> kstep s t"
| busy: "c < NCPU \<Longrightarrow> cpus s ! c = Some p \<Longrightarrow> run_call k (s\<lparr>p_cpu := c\<rparr>) = Ok () t \<Longrightarrow> kstep s t"

inductive kreach :: "proc_sys \<Rightarrow> proc_sys \<Rightarrow> bool" for s where
  here: "kreach s s"
| more: "kreach s t \<Longrightarrow> kstep t u \<Longrightarrow> kreach s u"

inductive_cases kstepE: "kstep s t"

lemma run_call_pinv:
  fixes s :: "'z proc_sys_scheme"
  assumes "outside me s"
  shows "maintains (run_call k) (\<lambda>_ t. pinv t) s"
proof (cases k)
  case Yield then show ?thesis using kok_true[OF yield_pinv[OF assms]] by simp
next
  case (Sleep c l) then show ?thesis using sleep_pinv[OF assms] by simp
next
  case (Wakeup c)
  have "maintains (wakeup c) (\<lambda>_ t. pinv t) s" by (rule kok_true[OF wakeup_outside[OF assms]]) (rule outside_pinv)
  then show ?thesis using Wakeup by simp
next
  case Exit then show ?thesis using exit_pinv[OF assms] by simp
next
  case Fork
  have "maintains (kbind fork (\<lambda>_. kret ())) (\<lambda>_ t. pinv t) s"
    by (rule kwp_bind_cases[OF fork_keeps[OF assms]]) (auto simp: wp_simps intro: outside_pinv)
  then show ?thesis using Fork by simp
next
  case Wait
  have "maintains (kbind wait (\<lambda>_. kret ())) (\<lambda>_ t. pinv t) s"
    by (rule kwp_bind_cases[OF wait_pinv[OF assms]]) (simp add: kwp_def kret_def)
  then show ?thesis using Wait by simp
qed

lemma pinv_cpu: "pinv s \<Longrightarrow> c < NCPU \<Longrightarrow> pinv (s\<lparr>p_cpu := c\<rparr>)"
  by (auto simp: pinv_def sched_inv_def)

lemma kstep_pinv: "kstep s t \<Longrightarrow> pinv s \<Longrightarrow> pinv t"
proof (induction rule: kstep.induct)
  case (idle c s r t)
  have "maintains dispatch (\<lambda>_ t. pinv t) (s\<lparr>p_cpu := c\<rparr>)"
    by (rule dispatch_pinv[OF pinv_cpu]) (use idle in simp_all)
  then show ?case using idle(3) by (simp add: kwp_def)
next
  case (busy c s p k t)
  have "outside p (s\<lparr>p_cpu := c\<rparr>)"
    using pinv_outside[OF pinv_cpu[OF busy(4,1)]] busy(2) by (simp add: running_def)
  from run_call_pinv[OF this, of k] show ?case using busy(3) by (simp add: kwp_def)
qed

lemma kreach_pinv: "kreach s t \<Longrightarrow> pinv s \<Longrightarrow> pinv t"
  by (induction rule: kreach.induct) (auto intro: kstep_pinv)

end
