(* ===== verification/Processes.thy ===== *)
theory Processes
  imports Kstep Machine
begin

text \<open>
  Properties of the process table and the scheduler, over the queues of \<open>Sched\<close> and the interleavings
  of \<open>Kstep\<close>.
\<close>

section \<open>An example\<close>

text \<open>
  Process 1 runs on processor 0, process 2 is runnable, processes 3, 4 and 5 sleep in one bucket, 3
  and 4 on the same channel, 5 in \<^verbatim>\<open>wait\<close>. Process 1 is the parent of 3, the child of 5, and has no open file.
\<close>

definition plain_proc :: proc where
  "plain_proc = \<lparr>p_sz = 0, p_pgdir = 0, p_kstack = 0, p_state = UNUSED, p_pid = 0, p_parent = None,
     p_tf = 0, p_context = 0, p_chan = 0, p_killed = 0, p_name = replicate 16 0,
     p_ofile = replicate NOFILE None, p_cwd = None, p_prio = 3\<rparr>"

definition example_proc :: "nat \<Rightarrow> proc" where
  "example_proc p =
     (if p = 1 then plain_proc\<lparr>p_state := RUNNING, p_pid := 1, p_parent := Some 5\<rparr>
      else if p = 2 then plain_proc\<lparr>p_state := RUNNABLE, p_pid := 2\<rparr>
      else if p = 3 then plain_proc\<lparr>p_state := SLEEPING, p_pid := 3, p_chan := 16, p_parent := Some 1\<rparr>
      else if p = 4 then plain_proc\<lparr>p_state := SLEEPING, p_pid := 4, p_chan := 16\<rparr>
      else if p = 5 then plain_proc\<lparr>p_state := SLEEPING, p_pid := 5, p_chan := 0xFFFF000000100550\<rparr>
      else plain_proc)"

definition example_queue :: "pnode \<Rightarrow> pnode list" where
  "example_queue q = (if q = Prio 3 then [Plist 2] else if q = Hash 16 then [Clist 4, Clist 5, Clist 3] else [])"

definition example_lists :: "pnode lheap" where
  "example_lists =
     ((\<lambda>n. \<lparr>lnext = Some n, lprev = Some n\<rparr>)
       (Prio 3 := \<lparr>lnext = Some (Plist 2), lprev = Some (Plist 2)\<rparr>,
        Plist 2 := \<lparr>lnext = Some (Prio 3), lprev = Some (Prio 3)\<rparr>,
        Hash 16 := \<lparr>lnext = Some (Clist 4), lprev = Some (Clist 3)\<rparr>,
        Clist 4 := \<lparr>lnext = Some (Clist 5), lprev = Some (Hash 16)\<rparr>,
        Clist 5 := \<lparr>lnext = Some (Clist 3), lprev = Some (Clist 4)\<rparr>,
        Clist 3 := \<lparr>lnext = Some (Hash 16), lprev = Some (Clist 5)\<rparr>))"

definition example_memory :: vm_state where
  "example_memory = \<lparr>km_cpu = 0, kend = 0, km_free = 0, kmeminitcnt = 1, kmemcslock = free_lock,
     kmeminitlock = free_lock, mem = (\<lambda>_. 0), ttbr0 = 0\<rparr>"

definition processes :: proc_sys where
  "processes = \<lparr>p_cpu = 0, ptable = map example_proc [0..<NPROC], plists = example_lists,
     ptablelock = free_lock, klocks = (\<lambda>_. spin_held 0 free_lock), initproc = Some 2, nextpid = 6,
     cpus = [Some 1, None, None, None], resumes = (\<lambda>_. InYield), ptable_at = 0xFFFF000000100028,
     trapret_at = 0, forkret_at = 0, kmem = example_memory, kfs = machine\<rparr>"

lemma processes_ptable [simp]: "p < NPROC \<Longrightarrow> ptable processes ! p = example_proc p" "length (ptable processes) = NPROC"
  by (simp_all add: processes_def)

lemma example_home: "home p (example_proc p) =
    (if p = 2 then Some (Prio 3, Plist 2) else if p = 3 then Some (Hash 16, Clist 3)
     else if p = 4 then Some (Hash 16, Clist 4) else if p = 5 then Some (Hash 16, Clist 5) else None)"
  by (simp add: example_proc_def plain_proc_def HASHENTRIES_def)

lemma example_dlists: "lists_ok example_lists example_queue"
  by (auto simp: lists_ok_def dlist_def example_lists_def example_queue_def heads_def PRIOENTRIES_def HASHENTRIES_def)

lemma processes_inv: "sched_inv processes example_queue"
proof -
  have "tab_ok (ptable processes) example_queue"
  proof -
    have hm: "(\<exists>p<NPROC. home p (ptable processes ! p) = Some (q, n)) \<longleftrightarrow>
        (q = Prio 3 \<and> n = Plist 2) \<or> (q = Hash 16 \<and> n \<in> {Clist 3, Clist 4, Clist 5})" for q n
    proof
      assume "(q = Prio 3 \<and> n = Plist 2) \<or> (q = Hash 16 \<and> n \<in> {Clist 3, Clist 4, Clist 5})"
      then have "\<exists>p\<in>{2, 3, 4, 5}. home p (ptable processes ! p) = Some (q, n)"
        by (auto simp: example_home NPROC_def)
      moreover have "\<forall>p\<in>{2, 3, 4, 5}. p < NPROC" by (simp add: NPROC_def)
      ultimately show "\<exists>p<NPROC. home p (ptable processes ! p) = Some (q, n)" by blast
    qed (auto simp: example_home split: if_splits)
    have "p_prio (example_proc p) < PRIOENTRIES" for p by (simp add: example_proc_def plain_proc_def PRIOENTRIES_def)
    then show ?thesis unfolding tab_ok_def hm by (auto simp: example_queue_def)
  qed
  moreover have "cpu_ok (ptable processes) (cpus processes)"
  proof -
    have at: "cpus processes ! c = Some p \<longleftrightarrow> c = 0 \<and> p = 1" if "c < NCPU" for c p
      using that by (auto simp: processes_def NCPU_def nth_Cons split: nat.split)
    have st: "p_state (example_proc p) = RUNNING \<longleftrightarrow> p = 1" for p by (simp add: example_proc_def plain_proc_def)
    have "length (cpus processes) = NCPU" "1 < NPROC" "0 < NCPU" by (simp_all add: processes_def NCPU_def NPROC_def)
    then show ?thesis unfolding cpu_ok_def by (auto simp: st at)
  qed
  ultimately show ?thesis using example_dlists by (simp add: sched_inv_def processes_def NCPU_def)
qed

lemma processes_pinv: "pinv processes"
  using processes_inv by (auto simp: pinv_def processes_def)

lemma processes_running: "running processes 1"
  by (simp add: running_def processes_def)


section \<open>Queues and states\<close>

lemma queue_states:
  assumes inv: "sched_inv t C" and p: "p < NPROC"
  shows "p_state (ptable t ! p) = RUNNABLE \<longleftrightarrow> (\<exists>i<PRIOENTRIES. Plist p \<in> set (C (Prio i)))"
    "i < PRIOENTRIES \<Longrightarrow> Plist p \<in> set (C (Prio i)) \<Longrightarrow> p_prio (ptable t ! p) = i"
    "p_state (ptable t ! p) = SLEEPING \<longleftrightarrow> (\<exists>j<HASHENTRIES. Clist p \<in> set (C (Hash j)))"
    "j < HASHENTRIES \<Longrightarrow> Clist p \<in> set (C (Hash j)) \<Longrightarrow> unat (p_chan (ptable t ! p)) mod HASHENTRIES = j"
    "p_state (ptable t ! p) = RUNNING \<longleftrightarrow> (\<exists>!c. c < NCPU \<and> cpus t ! c = Some p)"
proof -
  note D = sched_invD[OF inv]
  have mem: "n \<in> set (C q) \<longleftrightarrow> home p (ptable t ! p) = Some (q, n)" if "q \<in> heads" "owner n = Some p" for q n
    using tab_mem[OF D(2) that(1)] that(2) p home_owner by (metis option.inject)
  have prio: "p_prio (ptable t ! p) < PRIOENTRIES" using D(2) p by (simp add: tab_ok_def)
  have hash: "unat (p_chan (ptable t ! p)) mod HASHENTRIES < HASHENTRIES" by (simp add: HASHENTRIES_def)
  show "p_state (ptable t ! p) = RUNNABLE \<longleftrightarrow> (\<exists>i<PRIOENTRIES. Plist p \<in> set (C (Prio i)))"
    "i < PRIOENTRIES \<Longrightarrow> Plist p \<in> set (C (Prio i)) \<Longrightarrow> p_prio (ptable t ! p) = i"
    "p_state (ptable t ! p) = SLEEPING \<longleftrightarrow> (\<exists>j<HASHENTRIES. Clist p \<in> set (C (Hash j)))"
    "j < HASHENTRIES \<Longrightarrow> Clist p \<in> set (C (Hash j)) \<Longrightarrow> unat (p_chan (ptable t ! p)) mod HASHENTRIES = j"
    using prio hash by (auto simp: mem home_def split: procstate.splits)
  show "p_state (ptable t ! p) = RUNNING \<longleftrightarrow> (\<exists>!c. c < NCPU \<and> cpus t ! c = Some p)"
    using D(3) p unfolding cpu_ok_def by metis
qed

lemma first_ready_Some:
  "first_ready C (rev [0..<n]) = Some i \<Longrightarrow> i < n \<and> C (Prio i) \<noteq> [] \<and> (\<forall>k<n. C (Prio k) \<noteq> [] \<longrightarrow> k \<le> i)"
  by (induction n) (auto simp: first_ready_def less_Suc_eq split: if_splits)

lemma first_ready_None: "first_ready C (rev [0..<n]) = None \<longleftrightarrow> (\<forall>k<n. C (Prio k) = [])"
  by (auto simp: first_ready_def find_None_iff)

text \<open>The first half of a turn of the scheduler, on an idle processor.\<close>

lemma scheduler_enter_ok:
  assumes inv: "sched_inv s C" and lk: "spin_free (ptablelock s)" and idle: "cpus s ! p_cpu s = None"
  shows "kok scheduler_enter (\<lambda>r t. case r of
      None \<Rightarrow> t = s \<and> (\<forall>q<NPROC. p_state (ptable s ! q) \<noteq> RUNNABLE)
    | Some p \<Rightarrow> p < NPROC \<and> p_state (ptable s ! p) = RUNNABLE
       \<and> (\<forall>q<NPROC. p_state (ptable s ! q) = RUNNABLE \<longrightarrow> p_prio (ptable s ! q) \<le> p_prio (ptable s ! p))
       \<and> C (Prio (p_prio (ptable s ! p))) = Plist p # tl (C (Prio (p_prio (ptable s ! p))))
       \<and> enter_cpu (s\<lparr>ptablelock := spin_held (p_cpu s) (ptablelock s)\<rparr>) p t
       \<and> sched_inv t (C(Prio (p_prio (ptable s ! p)) := tl (C (Prio (p_prio (ptable s ! p))))))) s"
proof -
  let ?s = "s\<lparr>ptablelock := spin_held (p_cpu s) (ptablelock s)\<rparr>"
  have inv': "sched_inv ?s C" using inv by (simp add: sched_inv_parts)
  have q: "\<exists>i<PRIOENTRIES. C (Prio i) \<noteq> [] \<and> p_prio (ptable s ! p) = i" if "p < NPROC" "p_state (ptable s ! p) = RUNNABLE" for p
    using queue_states(1,2)[OF inv that(1)] that(2) by fastforce
  show ?thesis unfolding scheduler_enter_def
  proof (simp only: kwp_kthen ptl_acquire_wp[OF lk], rule kwp_bind_cases[OF scheduler_scan_ok[OF inv']])
    show "cpus ?s ! p_cpu ?s = None" using idle by simp
    show "set (rev [0..<PRIOENTRIES]) \<subseteq> {..<PRIOENTRIES}" by auto
    fix r t
    assume r: "case first_ready C (rev [0..<PRIOENTRIES]) of None \<Rightarrow> r = None \<and> t = ?s
      | Some i \<Rightarrow> \<exists>p ns. r = Some p \<and> C (Prio i) = Plist p # ns \<and> sched_inv t (C(Prio i := ns)) \<and> enter_cpu ?s p t"
    show "kok (case r of None \<Rightarrow> kthen (on_ptable release) (kret None) | Some p \<Rightarrow> kret (Some p)) (\<lambda>r t. case r of
      None \<Rightarrow> t = s \<and> (\<forall>q<NPROC. p_state (ptable s ! q) \<noteq> RUNNABLE)
    | Some p \<Rightarrow> p < NPROC \<and> p_state (ptable s ! p) = RUNNABLE
       \<and> (\<forall>q<NPROC. p_state (ptable s ! q) = RUNNABLE \<longrightarrow> p_prio (ptable s ! q) \<le> p_prio (ptable s ! p))
       \<and> C (Prio (p_prio (ptable s ! p))) = Plist p # tl (C (Prio (p_prio (ptable s ! p))))
       \<and> enter_cpu ?s p t
       \<and> sched_inv t (C(Prio (p_prio (ptable s ! p)) := tl (C (Prio (p_prio (ptable s ! p))))))) t"
    proof (cases "first_ready C (rev [0..<PRIOENTRIES])")
      case None
      then have "p_state (ptable s ! p) \<noteq> RUNNABLE" if "p < NPROC" for p using q[OF that] first_ready_None by blast
      then show ?thesis using None r lk by (simp add: proc_wps ptl_release_wp[OF lk])
    next
      case (Some i)
      then obtain p ns where p: "r = Some p" "C (Prio i) = Plist p # ns" "sched_inv t (C(Prio i := ns))" "enter_cpu ?s p t"
        using r by auto
      have i: "i < PRIOENTRIES" "\<And>k. k < PRIOENTRIES \<Longrightarrow> C (Prio k) \<noteq> [] \<Longrightarrow> k \<le> i"
        using first_ready_Some[OF Some] by auto
      have "home p (ptable s ! p) = Some (Prio i, Plist p)" "p < NPROC"
        using tab_mem[OF sched_invD(2)[OF inv], of "Prio i" "Plist p"] i(1) p(2) home_owner by fastforce+
      then have st: "p < NPROC" "p_state (ptable s ! p) = RUNNABLE" "p_prio (ptable s ! p) = i"
        by (auto simp: home_def split: procstate.splits)
      have "p_prio (ptable s ! k) \<le> i" if "k < NPROC" "p_state (ptable s ! k) = RUNNABLE" for k
        using q[OF that] i(2) by blast
      then show ?thesis using p st by (simp add: wp_simps)
    qed
  qed
qed


lemma wakeup_ok:
  assumes "sched_inv s C" "spin_free (ptablelock s)"
  shows "kok (wakeup chan) (\<lambda>_ t. t = s\<lparr>ptable := ptable t, plists := plists t\<rparr>
    \<and> (\<forall>p<NPROC. ptable t ! p = (if waits_on s chan p then woken_proc (ptable s ! p) else ptable s ! p))
    \<and> (\<exists>C'. sched_inv t C' \<and> (\<forall>i<PRIOENTRIES. C' (Prio i) = C (Prio i) @
        map Plist (filter (\<lambda>p. p_prio (ptable s ! p) = i) (sleepers s chan (C (Hash (unat chan mod HASHENTRIES)))))))) s"
proof -
  let ?s = "s\<lparr>ptablelock := spin_held (p_cpu s) (ptablelock s)\<rparr>"
  let ?ns = "C (Hash (unat chan mod HASHENTRIES))"
  have inv: "sched_inv ?s C" using assms(1) by (simp add: sched_inv_parts)
  have "waits_on ?s c = waits_on s c" for c by (simp add: waits_on_def fun_eq_iff)
  then have sl: "sleepers ?s c ns = sleepers s c ns" for c ns by (simp add: sleepers_def)
  show ?thesis unfolding wakeup_def
  proof (simp only: kwp_kthen ptl_acquire_wp[OF assms(2)], rule kwp_conseq[OF wakeup1_ok[OF inv]], elim exE)
    fix a :: unit and t C'
    assume w: "woken chan ?ns ?s C t C'"
    then have t: "t = ?s\<lparr>ptable := ptable t, plists := plists t\<rparr>" by (simp add: woken_def)
    let ?t = "t\<lparr>ptablelock := ptablelock s\<rparr>"
    have "ptablelock t = spin_held (p_cpu t) (ptablelock s)" by (subst t, subst (2) t, simp)
    note rel = ptl_release_wp[OF assms(2) this]
    have "?t = s\<lparr>ptable := ptable ?t, plists := plists ?t\<rparr>" by (subst t) simp
    moreover have "\<forall>p<NPROC. ptable t ! p = (if waits_on s chan p then woken_proc (ptable s ! p) else ptable s ! p)"
      using w sleepers_bucket[OF assms(1), of chan] unfolding woken_def sl by auto
    moreover have "sched_inv ?t C'" "\<forall>i<PRIOENTRIES. C' (Prio i) = C (Prio i) @
        map Plist (filter (\<lambda>p. p_prio (ptable s ! p) = i) (sleepers s chan ?ns))"
      using w unfolding woken_def sl by (simp_all add: sched_inv_parts)
    ultimately show "kok (on_ptable release) (\<lambda>_ t. t = s\<lparr>ptable := ptable t, plists := plists t\<rparr>
    \<and> (\<forall>p<NPROC. ptable t ! p = (if waits_on s chan p then woken_proc (ptable s ! p) else ptable s ! p))
    \<and> (\<exists>C'. sched_inv t C' \<and> (\<forall>i<PRIOENTRIES. C' (Prio i) = C (Prio i) @
        map Plist (filter (\<lambda>p. p_prio (ptable s ! p) = i) (sleepers s chan ?ns))))) t"
      unfolding rel by auto
  qed
qed


section \<open>The table and the queues\<close>

text \<open>
  On every interleaving of kernel calls and scheduler turns on all processors: a process is
  runnable exactly if it is in the run queue of its priority, sleeping exactly if it is in the sleep
  queue of its channel, running exactly if one processor runs it, and that is the only one; each queue
  is a well-formed list and holds a process at most once; between the steps the table's lock is free.
\<close>

theorem scheduler_invariant:
  assumes "kreach s t" "pinv s"
  shows "\<exists>C. lists_ok (plists t) C \<and> spin_free (ptablelock t) \<and> (\<forall>p<NPROC. let x = ptable t ! p in
      (p_state x = RUNNABLE \<longleftrightarrow> (\<exists>i<PRIOENTRIES. Plist p \<in> set (C (Prio i))))
    \<and> (\<forall>i<PRIOENTRIES. Plist p \<in> set (C (Prio i)) \<longrightarrow> p_prio x = i)
    \<and> (p_state x = SLEEPING \<longleftrightarrow> (\<exists>j<HASHENTRIES. Clist p \<in> set (C (Hash j))))
    \<and> (\<forall>j<HASHENTRIES. Clist p \<in> set (C (Hash j)) \<longrightarrow> unat (p_chan x) mod HASHENTRIES = j)
    \<and> (p_state x = RUNNING \<longleftrightarrow> (\<exists>!c. c < NCPU \<and> cpus t ! c = Some p)))"
proof -
  obtain C where inv: "sched_inv t C" and lk: "spin_free (ptablelock t)"
    using kreach_pinv[OF assms] by (auto simp: pinv_def)
  show ?thesis
    by (rule exI[of _ C]) (use lk sched_invD(1)[OF inv] queue_states[OF inv] in \<open>auto simp: Let_def\<close>)
qed

theorem scheduler_invariant_witness:
  "\<exists>t C. kreach processes t \<and> cpus t ! 0 = None \<and> p_state (ptable t ! 1) = RUNNABLE \<and> Plist 1 \<in> set (C (Prio 3))"
proof -
  obtain t where y: "yield processes = Ok () t" "ptable t = (ptable processes)[1 := (ptable processes ! 1)\<lparr>p_state := RUNNABLE\<rparr>]"
      "cpus t = (cpus processes)[p_cpu processes := None]"
    by (rule kok_unitE[OF yield_ok[OF processes_inv processes_running]]) (auto simp: processes_def)
  have p: "processes\<lparr>p_cpu := 0\<rparr> = processes" by (simp add: processes_def)
  have "kstep processes t"
    by (rule kstep.busy[of 0 _ 1 Yield]) (use y(1) p in \<open>simp_all add: processes_def NCPU_def\<close>)
  then have r: "kreach processes t" by (rule kreach.more[OF kreach.here])
  have st: "p_state (ptable t ! 1) = RUNNABLE" "p_prio (ptable t ! 1) = 3" "1 < NPROC"
    using y(2) by (simp_all add: NPROC_def example_proc_def plain_proc_def)
  have "cpus t ! 0 = None" using y(3) by (simp add: processes_def)
  then show ?thesis using scheduler_invariant[OF r processes_pinv] r st unfolding Let_def by metis
qed

text \<open>
  C8. The scheduler of an idle processor finds a process if and only if one is runnable; it takes one of
  the highest priority, the one that has been in the queue of that priority the longest, and leaves it
  running on this processor with its page table installed and the table's lock held for it.
\<close>

theorem scheduler_choice:
  assumes "sched_inv s C" "spin_free (ptablelock s)" "cpus s ! p_cpu s = None"
  shows "kok scheduler_enter (\<lambda>r t. case r of
      None \<Rightarrow> t = s \<and> (\<forall>q<NPROC. p_state (ptable s ! q) \<noteq> RUNNABLE)
    | Some p \<Rightarrow> p < NPROC \<and> p_state (ptable s ! p) = RUNNABLE
       \<and> (\<forall>q<NPROC. p_state (ptable s ! q) = RUNNABLE \<longrightarrow> p_prio (ptable s ! q) \<le> p_prio (ptable s ! p))
       \<and> hd (C (Prio (p_prio (ptable s ! p)))) = Plist p
       \<and> ptable t = (ptable s)[p := (ptable s ! p)\<lparr>p_state := RUNNING\<rparr>]
       \<and> cpus t = (cpus s)[p_cpu s := Some p] \<and> ttbr0 (kmem t) = V2P (p_pgdir (ptable s ! p))
       \<and> holding (p_cpu t) (ptablelock t)
       \<and> sched_inv t (C(Prio (p_prio (ptable s ! p)) := tl (C (Prio (p_prio (ptable s ! p))))))) s"
  by (rule kwp_conseq[OF scheduler_enter_ok[OF assms]])
    (auto simp: enter_cpu_def split: option.splits, metis list.sel(1))

theorem scheduler_choice_witness:
  "kok scheduler_enter (\<lambda>r t. cpus t = [Some 1, Some 2, None, None] \<and> p_state (ptable t ! 2) = RUNNING) (processes\<lparr>p_cpu := 1\<rparr>)"
proof -
  let ?s = "processes\<lparr>p_cpu := 1\<rparr>"
  have inv: "sched_inv ?s example_queue" using processes_inv by (simp add: sched_inv_def NCPU_def)
  have two: "2 < NPROC" "p_state (ptable ?s ! 2) = RUNNABLE" by (simp_all add: NPROC_def example_proc_def plain_proc_def)
  have only: "p = 2" if "p < NPROC" "p_state (ptable ?s ! p) = RUNNABLE" for p
    using that by (auto simp: example_proc_def plain_proc_def split: if_splits)
  have lk: "spin_free (ptablelock ?s)" "cpus ?s ! p_cpu ?s = None" "cpus ?s = [Some 1, None, None, None]" "p_cpu ?s = 1"
    by (simp_all add: processes_def)
  show ?thesis
  proof (rule kwp_conseq[OF scheduler_choice[OF inv lk(1,2)]], goal_cases)
    case (1 r t)
    then obtain p where "r = Some p" using two by (cases r) auto
    then show ?case using 1 only[of p] lk two by auto
  qed
qed

text \<open>
  C9. \<^verbatim>\<open>wakeup(chan)\<close> makes exactly the processes that sleep on the channel runnable, also when others
  sleep in the same bucket; they join the run queues of their priorities behind those who wait there,
  in the order of the bucket; no other process, no processor and no lock changes.
\<close>

theorem wakeup_exact:
  assumes "sched_inv s C" "spin_free (ptablelock s)"
  shows "kok (wakeup chan) (\<lambda>_ t. ptablelock t = ptablelock s \<and> cpus t = cpus s \<and> klocks t = klocks s
    \<and> (\<forall>p<NPROC. ptable t ! p = (let x = ptable s ! p in
        if p_state x = SLEEPING \<and> p_chan x = chan then x\<lparr>p_state := RUNNABLE, p_chan := 0\<rparr> else x))
    \<and> (\<exists>C'. sched_inv t C' \<and> (\<forall>i<PRIOENTRIES. C' (Prio i) = C (Prio i) @
        map Plist (filter (\<lambda>p. p_prio (ptable s ! p) = i) (sleepers s chan (C (Hash (unat chan mod HASHENTRIES)))))))) s"
  using wakeup_ok[OF assms, of chan]
proof (rule kwp_conseq, elim conjE)
  fix a :: unit and t :: "'a proc_sys_scheme"
  assume t: "t = s\<lparr>ptable := ptable t, plists := plists t\<rparr>"
  have "ptablelock t = ptablelock s" "cpus t = cpus s" "klocks t = klocks s" by (subst t, simp)+
  moreover assume "\<forall>p<NPROC. ptable t ! p = (if waits_on s chan p then woken_proc (ptable s ! p) else ptable s ! p)"
    "\<exists>C'. sched_inv t C' \<and> (\<forall>i<PRIOENTRIES. C' (Prio i) = C (Prio i) @
        map Plist (filter (\<lambda>p. p_prio (ptable s ! p) = i) (sleepers s chan (C (Hash (unat chan mod HASHENTRIES))))))"
  ultimately show "ptablelock t = ptablelock s \<and> cpus t = cpus s \<and> klocks t = klocks s
    \<and> (\<forall>p<NPROC. ptable t ! p = (let x = ptable s ! p in
        if p_state x = SLEEPING \<and> p_chan x = chan then x\<lparr>p_state := RUNNABLE, p_chan := 0\<rparr> else x))
    \<and> (\<exists>C'. sched_inv t C' \<and> (\<forall>i<PRIOENTRIES. C' (Prio i) = C (Prio i) @
        map Plist (filter (\<lambda>p. p_prio (ptable s ! p) = i) (sleepers s chan (C (Hash (unat chan mod HASHENTRIES)))))))"
    by (simp add: woken_proc_def waits_on_def Let_def)
qed

theorem wakeup_exact_witness:
  "kok (wakeup 16) (\<lambda>_ t. p_state (ptable t ! 3) = RUNNABLE \<and> p_state (ptable t ! 4) = RUNNABLE
     \<and> p_state (ptable t ! 5) = SLEEPING \<and> (\<exists>C'. sched_inv t C' \<and> C' (Prio 3) = [Plist 2, Plist 4, Plist 3])) processes"
proof -
  have n: "3 < NPROC" "4 < NPROC" "5 < NPROC" "3 < PRIOENTRIES" "unat (16 :: u64) mod HASHENTRIES = 16"
    by (simp_all add: NPROC_def PRIOENTRIES_def HASHENTRIES_def)
  have "spin_free (ptablelock processes)" by (simp add: processes_def)
  from wakeup_exact[OF processes_inv this, of 16] show ?thesis
    by (rule kwp_conseq)
      (use n in \<open>auto simp: Let_def example_proc_def plain_proc_def sleepers_def waits_on_def example_queue_def\<close>)
qed




section \<open>Taking turns\<close>

text \<open>
  A whole turn on an idle processor: the scheduler switches to a process, which returns from the kernel,
  computes, and comes back through \<^verbatim>\<open>yield\<close> on the next timer interrupt.
\<close>

definition scheduler_turn :: "('z proc_sys_scheme, nat option) kop" where
  "scheduler_turn = kbind scheduler_enter (\<lambda>r.
     case r of None \<Rightarrow> kret None | Some p \<Rightarrow> kbind (resumed p) (\<lambda>_. kthen yield (kret (Some p))))"

definition idle_with :: "'z proc_sys_scheme \<Rightarrow> nat \<Rightarrow> (pnode \<Rightarrow> pnode list) \<Rightarrow> bool" where
  "idle_with s i C \<longleftrightarrow> sched_inv s C \<and> spin_free (ptablelock s) \<and> cpus s ! p_cpu s = None
     \<and> (\<forall>k<PRIOENTRIES. C (Prio k) \<noteq> [] \<longrightarrow> k \<le> i)"

lemma resumed_plain:
  assumes "spin_free lk" "ptablelock s = spin_held (p_cpu s) lk" "resumes s p = InForkret \<or> resumes s p = InYield"
  shows "kwp (resumed p) E Q s = Q None (s\<lparr>ptablelock := lk\<rparr>)"
  using assms(3)
  by (auto simp: resumed_def forkret_def yield_return_def wp_simps ptl_release_wp[OF assms(1,2)])

lemma head_runnable:
  assumes "sched_inv s C" "i < PRIOENTRIES" "C (Prio i) = Plist p # ns"
  shows "p < NPROC" "p_state (ptable s ! p) = RUNNABLE" "p_prio (ptable s ! p) = i"
proof -
  obtain r where "r < NPROC" "home r (ptable s ! r) = Some (Prio i, Plist p)"
    using tab_mem[OF sched_invD(2)[OF assms(1)], of "Prio i" "Plist p"] assms(2,3) by auto
  then show "p < NPROC" "p_state (ptable s ! p) = RUNNABLE" "p_prio (ptable s ! p) = i"
    by (auto simp: home_def split: procstate.splits)
qed

lemma turn_ok:
  assumes i: "idle_with s i C" "i < PRIOENTRIES" and C: "C (Prio i) = Plist p # ns"
    and r: "resumes s p = InForkret \<or> resumes s p = InYield"
  shows "kok scheduler_turn (\<lambda>r t. r = Some p \<and> idle_with t i (C(Prio i := ns @ [Plist p]))
    \<and> resumes t = (resumes s)(p := InYield)) s"
proof -
  note I = i(1)[unfolded idle_with_def]
  have inv: "sched_inv s C" and lk: "spin_free (ptablelock s)" and idle: "cpus s ! p_cpu s = None" using I by auto
  note P = head_runnable[OF inv i(2) C] and D = sched_invD[OF inv]
  let ?s = "s\<lparr>ptablelock := spin_held (p_cpu s) (ptablelock s)\<rparr>"
  show ?thesis unfolding scheduler_turn_def
  proof (rule kwp_bind_cases[OF scheduler_enter_ok[OF inv lk idle]], goal_cases)
    case (1 r' t)
    then obtain q where q: "r' = Some q" "p_state (ptable s ! q) = RUNNABLE" "q < NPROC" using P by (cases r') auto
    have "p_prio (ptable s ! q) = i" using 1 q P queue_states(1,2)[OF inv q(3)] I by fastforce
    then have e: "q = p" "enter_cpu ?s p t" "sched_inv t (C(Prio i := ns))" using 1 q C by auto
    let ?t = "t\<lparr>ptablelock := ptablelock s\<rparr>"
    have t: "ptablelock t = spin_held (p_cpu t) (ptablelock s)" "resumes t = resumes s" "cpus t = (cpus s)[p_cpu s := Some p]"
        "p_cpu t = p_cpu s" "p_prio (ptable t ! p) = i"
      using e(2) P D by (simp_all add: enter_cpu_def)
    have inv': "sched_inv ?t (C(Prio i := ns))" "running ?t p" using e(3) t D by (simp_all add: sched_inv_parts running_def)
    have "resumes t p = InForkret \<or> resumes t p = InYield" using t(2) r by simp
    note res = resumed_plain[OF lk t(1) this]
    have "kok (kthen yield (kret (Some p))) (\<lambda>r t. r = Some p \<and> idle_with t i (C(Prio i := ns @ [Plist p]))
      \<and> resumes t = (resumes s)(p := InYield)) ?t"
    proof (rule kwp_then_cases[OF yield_ok[OF inv']])
      show "spin_free (ptablelock ?t)" using lk by simp
      fix u assume u: "sched_inv u ((C(Prio i := ns)) (Prio (p_prio (ptable ?t ! p)) := (C(Prio i := ns)) (Prio (p_prio (ptable ?t ! p))) @ [Plist p]))
        \<and> ptable u = (ptable ?t)[p := (ptable ?t ! p)\<lparr>p_state := RUNNABLE\<rparr>] \<and> cpus u = (cpus ?t)[p_cpu ?t := None]
        \<and> ptablelock u = ptablelock ?t \<and> resumes u = (resumes ?t)(p := InYield) \<and> p_cpu u = p_cpu ?t \<and> ptable_at u = ptable_at ?t"
      then show "kok (kret (Some p)) (\<lambda>r t. r = Some p \<and> idle_with t i (C(Prio i := ns @ [Plist p]))
        \<and> resumes t = (resumes s)(p := InYield)) u"
        using t lk I D by (simp add: wp_simps idle_with_def)
    qed
    then show ?case using q(1) e(1) by (simp add: kwp_kbind res)
  qed
qed

lemma turns_ok:
  fixes s :: "'z proc_sys_scheme"
  assumes "idle_with s i C" "i < PRIOENTRIES" "C (Prio i) = map Plist (ps @ qs)" "distinct ps"
    "\<forall>p\<in>set ps. resumes s p = InForkret \<or> resumes s p = InYield"
  shows "kok (krepeat (length ps) scheduler_turn) (\<lambda>r t. r = map Some ps \<and> idle_with t i (C(Prio i := map Plist (qs @ ps)))) s"
  using assms
proof (induction ps arbitrary: s C qs)
  case Nil then show ?case by (simp add: wp_simps fun_upd_idem)
next
  case (Cons p ps)
  let ?C = "C(Prio i := map Plist (ps @ (qs @ [p])))"
  have head: "C (Prio i) = Plist p # map Plist (ps @ qs)" using Cons.prems(3) by simp
  have rp: "resumes s p = InForkret \<or> resumes s p = InYield" using Cons.prems(5) by simp
  show ?case unfolding list.size krepeat.simps add_0_right add_Suc_right
  proof (rule kwp_bind_cases[OF turn_ok[OF Cons.prems(1,2) head rp]], elim conjE, hypsubst)
    fix t :: "'z proc_sys_scheme"
    assume t: "idle_with t i (C(Prio i := map Plist (ps @ qs) @ [Plist p]))" "resumes t = (resumes s)(p := InYield)"
    then have t': "idle_with t i ?C" by simp
    have "kok (krepeat (length ps) scheduler_turn) (\<lambda>r t. r = map Some ps \<and> idle_with t i (?C(Prio i := map Plist ((qs @ [p]) @ ps)))) t"
      by (rule Cons.IH[OF t' Cons.prems(2)]) (use Cons.prems(4,5) t(2) in auto)
    then show "kok (kbind (krepeat (length ps) scheduler_turn) (\<lambda>as. kret (Some p # as)))
      (\<lambda>r t. r = map Some (p # ps) \<and> idle_with t i (C(Prio i := map Plist (qs @ p # ps)))) t"
      by (rule kwp_bind_cases) (simp add: wp_simps)
  qed
qed

text \<open>
  C11. Processes of the highest priority take turns: if the run queue of the highest non-empty priority
  holds \<open>ps\<close>, then an idle processor runs each of them exactly once, in that order, in the next
  \<open>length ps\<close> turns, after which the queue is the same again. None of them starves.
\<close>

theorem round_robin:
  assumes "idle_with s i C" "i < PRIOENTRIES" "C (Prio i) = map Plist ps"
    "\<forall>p\<in>set ps. resumes s p = InForkret \<or> resumes s p = InYield"
  shows "kok (krepeat (length ps) scheduler_turn) (\<lambda>r t. r = map Some ps \<and> idle_with t i C) s"
proof -
  have "distinct (map Plist ps)"
    using lists_okD(1)[OF sched_invD(1), of s C "Prio i"] assms(1-3) dlist_distinct[of "plists s" "Prio i" "C (Prio i)"]
    by (simp add: idle_with_def)
  then have "distinct ps" by (simp add: distinct_map)
  moreover have "C(Prio i := map Plist ps) = C" using assms(3) by (simp add: fun_upd_idem)
  ultimately show ?thesis using turns_ok[OF assms(1,2), of ps "[]"] assms(3,4) by simp
qed

theorem round_robin_witness:
  "kok (krepeat 1 scheduler_turn) (\<lambda>r t. r = [Some 2] \<and> idle_with t 3 example_queue) (processes\<lparr>p_cpu := 1\<rparr>)"
proof -
  let ?s = "processes\<lparr>p_cpu := 1\<rparr>"
  have "sched_inv ?s example_queue" using processes_inv by (simp add: sched_inv_def NCPU_def)
  then have "idle_with ?s 3 example_queue" by (simp add: idle_with_def example_queue_def) (simp add: processes_def)
  from round_robin[OF this, of "[2]"] show ?thesis
    by (simp add: PRIOENTRIES_def example_queue_def) (simp add: processes_def)
qed


section \<open>The end of a process\<close>










section \<open>Start\<close>

lemma init_at_wp:
  assumes "node_at h q a = Some n"
  shows "kwp (init_at h q a) E Q s = Q () (s\<lparr>plists := (plists s)(n := \<lparr>lnext = Some n, lprev = Some n\<rparr>)\<rparr>)"
proof -
  have "list_init n l = Ok () (l(n := \<lparr>lnext = Some n, lprev = Some n\<rparr>))" for l :: "pnode lheap"
    by (cases "l n") (simp add: list_init_def list_op_defs kop_defs)
  then show ?thesis using assms by (simp add: init_at_def on_lists_wp) (simp add: kwp_def)
qed

definition emptied :: "pnode set \<Rightarrow> 'z proc_sys_scheme \<Rightarrow> 'z proc_sys_scheme \<Rightarrow> bool" where
  "emptied N s t \<longleftrightarrow> t = s\<lparr>plists := (\<lambda>n. if n \<in> N then \<lparr>lnext = Some n, lprev = Some n\<rparr> else plists s n)\<rparr>"

lemma init_loop:
  assumes "\<And>a. a \<in> set as \<Longrightarrow> node_at h q a \<noteq> None"
  shows "kok (kfor as (init_at h q)) (\<lambda>_ t. emptied ((\<lambda>a. the (node_at h q a)) ` set as) s t) s"
  using assms
proof (induction "as" arbitrary: s)
  case Nil then show ?case by (simp add: wp_simps emptied_def)
next
  case (Cons a "as")
  then obtain n where n: "node_at h q a = Some n" by (metis list.set_intros(1) not_None_eq)
  have "kok (kfor as (init_at h q)) (\<lambda>_ t. emptied ((\<lambda>a. the (node_at h q a)) ` set as)
    (s\<lparr>plists := (plists s)(n := \<lparr>lnext = Some n, lprev = Some n\<rparr>)\<rparr>) t) (s\<lparr>plists := (plists s)(n := \<lparr>lnext = Some n, lprev = Some n\<rparr>)\<rparr>)"
    by (rule Cons.IH) (use Cons.prems in simp)
  then show ?case unfolding kfor.simps kwp_kthen init_at_wp[OF n]
    by (rule kwp_conseq) (auto simp: emptied_def n fun_eq_iff intro!: proc_sys.equality)
qed

lemma emptied_trans: "emptied N s t \<Longrightarrow> emptied M t u \<Longrightarrow> emptied (N \<union> M) s u"
  by (auto simp: emptied_def fun_eq_iff intro!: proc_sys.equality)

lemma hash_nodes: "(\<lambda>a. the (node_at h q a)) ` set [h..<h + HASHENTRIES] = Hash ` {..<HASHENTRIES}"
proof -
  have "(\<lambda>a. the (node_at h q a)) ` set [h..<h + HASHENTRIES] = (\<lambda>a. Hash (a - h)) ` {h..<h + HASHENTRIES}"
    by (auto simp: node_at_def)
  also have "\<dots> = Hash ` {..<HASHENTRIES}" 
  proof (rule set_eqI)
    fix n show "n \<in> (\<lambda>a. Hash (a - h)) ` {h..<h + HASHENTRIES} \<longleftrightarrow> n \<in> Hash ` {..<HASHENTRIES}"
      by (auto simp: image_iff) (metis add_diff_cancel_left' atLeastLessThan_iff le_add1 nat_add_left_cancel_less)
  qed
  finally show ?thesis .
qed

text \<open>
  C16. \<^verbatim>\<open>proc_init\<close>, whose second loop is bounded by the end of the other array: if \<^verbatim>\<open>prioque\<close> lies
  directly below \<^verbatim>\<open>hashmp\<close>, all queues are empty afterwards and the scheduler's invariant holds on a
  cleared table; if \<^verbatim>\<open>prioque\<close> lies above, no run queue is initialised.
\<close>

theorem proc_init_layout:
  "(q + PRIOENTRIES = h \<longrightarrow> length (ptable s) = NPROC \<longrightarrow> (\<forall>x\<in>set (ptable s). p_state x = UNUSED \<and> p_prio x = 0)
      \<longrightarrow> cpus s = replicate NCPU None \<longrightarrow> p_cpu s < NCPU
      \<longrightarrow> kok (proc_init h q) (\<lambda>_ t. (\<forall>n\<in>heads. dlist (plists t) n []) \<and> pinv t) s)
   \<and> (h + HASHENTRIES \<le> q \<longrightarrow> kok (proc_init h q) (\<lambda>_ t. \<forall>i. plists t (Prio i) = plists s (Prio i)) s)"
proof (intro conjI impI)
  have hash: "kok (kfor [h..<h + HASHENTRIES] (init_at h q)) (\<lambda>_ t. emptied (Hash ` {..<HASHENTRIES}) s t) s"
    using init_loop[of "[h..<h + HASHENTRIES]" h q s] unfolding hash_nodes by (simp add: node_at_def)
  have lock: "kwp (zoom ptablelock (\<lambda>x s. s\<lparr>ptablelock := x\<rparr>) (initlock nm)) (\<lambda>_. False) Q t"
    if "\<And>l. spin_free l \<Longrightarrow> Q () (t\<lparr>ptablelock := l\<rparr>)" for nm Q and t :: "'a proc_sys_scheme"
    using that initlock_free[of nm "ptablelock t"] by (simp add: kwp_zoom) (simp add: kwp_def initlock_def kop_defs)
  {
    assume q: "q + PRIOENTRIES = h" and s: "length (ptable s) = NPROC" "\<forall>x\<in>set (ptable s). p_state x = UNUSED \<and> p_prio x = 0"
      "cpus s = replicate NCPU None" "p_cpu s < NCPU"
    let ?N = "(\<lambda>a. the (node_at h q a)) ` set [q..<h + PRIOENTRIES]"
    have at: "node_at h q a = Some (if a < h then Prio (a - q) else Hash (a - h))" if "q \<le> a" "a < h + PRIOENTRIES" for a
      using that q by (auto simp: node_at_def PRIOENTRIES_def HASHENTRIES_def)
    have "Prio i \<in> ?N" if "i < PRIOENTRIES" for i
      using at[of "q + i"] that q by (force simp: image_iff intro: bexI[of _ "q + i"])
    moreover have "?N \<subseteq> heads" using at q by (auto simp: PRIOENTRIES_def HASHENTRIES_def)
    ultimately have N: "Hash ` {..<HASHENTRIES} \<union> ?N = heads" by (auto simp: heads_def)
    have prio: "kok (kfor [q..<h + PRIOENTRIES] (init_at h q)) (\<lambda>_ u. emptied ?N t u) t" for t :: "'a proc_sys_scheme"
      by (rule init_loop) (use at in simp)
    show "kok (proc_init h q) (\<lambda>_ t. (\<forall>n\<in>heads. dlist (plists t) n []) \<and> pinv t) s"
      unfolding proc_init_def
    proof (rule kwp_then_cases[OF hash], rule kwp_then_cases[OF prio], rule lock)
      fix t u l assume "emptied (Hash ` {..<HASHENTRIES}) s t" "emptied ?N t u" and l: "spin_free l"
      then have u: "emptied heads s u" using emptied_trans[of _ s t _ u] N by metis
      then have d: "\<forall>n\<in>heads. dlist (plists u) n []" by (simp add: emptied_def dlist_def)
      have "ptable u = ptable s" "cpus u = cpus s" "p_cpu u = p_cpu s" using u by (simp_all add: emptied_def)
      then have "sched_inv u (\<lambda>_. [])"
        using s d by (auto simp: sched_inv_def lists_ok_def tab_ok_def cpu_ok_def home_def PRIOENTRIES_def all_set_conv_all_nth)
      then show "(\<forall>n\<in>heads. dlist (plists (u\<lparr>ptablelock := l\<rparr>)) n []) \<and> pinv (u\<lparr>ptablelock := l\<rparr>)"
        using d l by (auto simp: pinv_def sched_inv_parts)
    qed
  next
    assume q: "h + HASHENTRIES \<le> q"
    then have e: "[q..<h + PRIOENTRIES] = []" by (simp add: PRIOENTRIES_def HASHENTRIES_def)
    show "kok (proc_init h q) (\<lambda>_ t. \<forall>i. plists t (Prio i) = plists s (Prio i)) s"
      unfolding proc_init_def e
      by (rule kwp_then_cases[OF hash]) (auto simp: kwp_kthen kwp_kret emptied_def image_iff intro!: lock)
  }
qed

theorem proc_init_layout_witness:
  "kok (proc_init 104 100) (\<lambda>_ t. pinv t) (processes\<lparr>ptable := replicate NPROC (plain_proc\<lparr>p_prio := 0\<rparr>), cpus := replicate NCPU None\<rparr>)
   \<and> kok (proc_init 100 117) (\<lambda>_ t. plists t (Prio 3) = plists processes (Prio 3)) processes"
proof -
  let ?s = "processes\<lparr>ptable := replicate NPROC (plain_proc\<lparr>p_prio := 0\<rparr>), cpus := replicate NCPU None\<rparr>"
  have p: "p_cpu ?s < NCPU" by (simp add: processes_def NCPU_def)
  have "kok (proc_init 104 100) (\<lambda>_ t. pinv t) ?s"
    using conjunct1[OF proc_init_layout[of 100 104 ?s]] p
    by (auto simp: PRIOENTRIES_def plain_proc_def elim!: kwp_conseq)
  moreover have "kok (proc_init 100 117) (\<lambda>_ t. plists t (Prio 3) = plists processes (Prio 3)) processes"
    using conjunct2[OF proc_init_layout[of 117 100 processes]] by (auto simp: HASHENTRIES_def elim!: kwp_conseq)
  ultimately show ?thesis by simp
qed

end
