(* ===== verification/Console.thy ===== *)
theory Console
  imports File
begin

text \<open>
  The console, \<^verbatim>\<open>kern/console.c\<close>: the input ring with its line editing, formatted output and \<^verbatim>\<open>panic\<close>.
  What \<^verbatim>\<open>uart_putchar\<close> sends is appended to \<open>uart_out\<close>; \<open>cons_wakeups\<close> counts the calls of
  \<^verbatim>\<open>wakeup(&input.r)\<close>, and a reader that has to sleep is the fault \<open>Block\<close>.

  The specification of the input side is \<open>line_step\<close>, on the committed bytes and the line that is
  edited; the ring implements it.
\<close>

section \<open>State\<close>

definition INPUT_BUF :: nat where "INPUT_BUF = 128"
definition NEWLINE :: u8 where "NEWLINE = 10"
definition CTRL_D :: u8 where "CTRL_D = 4"

record cons_state = file_state +
  conslock :: spinlock
  panicked :: int
  in_buf :: "u8 list"
  in_r :: u64
  in_w :: u64
  in_e :: u64
  uart_out :: "u8 list"
  cons_wakeups :: nat

definition on_conslock :: "(nat \<Rightarrow> (spinlock, 'a) kop) \<Rightarrow> ('z cons_state_scheme, 'a) kop" where
  "on_conslock m = kbind (kget this_cpu) (\<lambda>c. zoom conslock (\<lambda>x s. s\<lparr>conslock := x\<rparr>) (m c))"

definition uart_putchar :: "u8 \<Rightarrow> ('z cons_state_scheme, unit) kop" where
  "uart_putchar c = kmod (\<lambda>s. s\<lparr>uart_out := uart_out s @ [c]\<rparr>)"

text \<open>\<^verbatim>\<open>consputc\<close>; \<open>None\<close> is \<^verbatim>\<open>BACKSPACE\<close>, which is no byte.\<close>

definition consputc :: "u8 option \<Rightarrow> ('z cons_state_scheme, unit) kop" where
  "consputc c = (case c of
     None \<Rightarrow> kthen (uart_putchar 8) (kthen (uart_putchar 32) (uart_putchar 8))
   | Some c \<Rightarrow> uart_putchar c)"

definition ring_at :: "u8 list \<Rightarrow> u64 \<Rightarrow> u8" where
  "ring_at b i = b ! (unat i mod INPUT_BUF)"


section \<open>The device\<close>

definition console_write :: "nat \<Rightarrow> u8 list \<Rightarrow> ('z cons_state_scheme, int) kop" where
  "console_write ip src =
     kthen (iunlock ip)
     (kthen (on_conslock acquire)
     (kthen (kfor src (\<lambda>c. consputc (Some c)))
     (kthen (on_conslock release)
     (kthen (ilock ip)
     (kret (int (length src)))))))"

text \<open>
  The loop of \<^verbatim>\<open>console_read\<close> with \<open>n\<close> bytes still wanted out of \<open>target\<close>: the bytes stored from here on,
  or \<open>None\<close> for a reader that was killed.
\<close>

primrec read_loop :: "bool \<Rightarrow> nat \<Rightarrow> nat \<Rightarrow> ('z cons_state_scheme, u8 list option) kop" where
  "read_loop killed target 0 = kret (Some [])"
| "read_loop killed target (Suc n) =
     kbind (kget (\<lambda>s. in_r s = in_w s)) (\<lambda>none.
     if none then (if killed then kret None else kfault Block)
     else
       kbind (kget (\<lambda>s. ring_at (in_buf s) (in_r s))) (\<lambda>c.
       kthen (kmod (\<lambda>s. s\<lparr>in_r := in_r s + 1\<rparr>))
       (if c = CTRL_D then
          kthen (kwhen (Suc n < target) (kmod (\<lambda>s. s\<lparr>in_r := in_r s - 1\<rparr>))) (kret (Some []))
        else if c = NEWLINE then kret (Some [c])
        else kbind (read_loop killed target n) (\<lambda>r. kret (map_option (Cons c) r)))))"

definition console_read :: "bool \<Rightarrow> nat \<Rightarrow> nat \<Rightarrow> ('z cons_state_scheme, int \<times> u8 list) kop" where
  "console_read killed ip n =
     kthen (iunlock ip)
     (kthen (on_conslock acquire)
     (kbind (read_loop killed n n) (\<lambda>r.
      kthen (on_conslock release)
      (kthen (ilock ip)
      (kret (case r of None \<Rightarrow> (-1, []) | Some d \<Rightarrow> (int (length d), d)))))))"


section \<open>Formatted output\<close>

text \<open>The digits of \<^verbatim>\<open>printint\<close>, the least one first.\<close>

definition digit_char :: "nat \<Rightarrow> u8" where
  "digit_char d = of_nat (if d < 10 then 48 + d else 87 + d)"

function digits :: "nat \<Rightarrow> nat \<Rightarrow> u8 list" where
  "digits base t = (if base < 2 then [] else
     digit_char (t mod base) # (if t div base = 0 then [] else digits base (t div base)))"
  by pat_completeness auto
termination
  by (relation "measure snd") (auto simp: div_greater_zero_iff intro!: div_less_dividend)

declare digits.simps [simp del]

definition printint :: "u64 \<Rightarrow> nat \<Rightarrow> bool \<Rightarrow> u8 list" where
  "printint x base sign =
     (if sign \<and> sint x < 0 then 45 # rev (digits base (unat (- x)))
      else rev (digits base (unat x)))"

text \<open>
  A variadic argument: an integer or pointer as the 64-bit value passed, or a string. The conversions
  read it as \<^verbatim>\<open>uint32_t\<close>, \<^verbatim>\<open>int\<close> or \<^verbatim>\<open>int64_t\<close>.
\<close>

datatype va = VInt u64 | VStr "u8 list option"

definition as_u32 :: "u64 \<Rightarrow> u64" where "as_u32 x = ucast (ucast x :: u32)"
definition as_s32 :: "u64 \<Rightarrow> u64" where "as_s32 x = scast (ucast x :: u32)"

definition convert :: "nat \<Rightarrow> u8 \<Rightarrow> va list \<Rightarrow> (u8 list \<times> va list) option" where
  "convert l c ap =
     (if c = 37 then Some ([37], ap)
      else if c \<in> {117, 100, 120, 112, 99} then
        (case ap of
           VInt x # ap \<Rightarrow> Some
             (if c = 117 then printint (if l = 2 then x else as_u32 x) 10 False
              else if c = 100 then printint (if l = 2 then x else as_s32 x) 10 True
              else if c = 120 then printint (if l = 2 then x else as_s32 x) 16 False
              else if c = 112 then printint x 16 False
              else [ucast x], ap)
         | _ \<Rightarrow> None)
      else if c = 115 then
        (case ap of
           VStr s # ap \<Rightarrow> Some (case s of None \<Rightarrow> [40, 110, 117, 108, 108, 41] | Some s \<Rightarrow> s, ap)
         | _ \<Rightarrow> None)
      else Some ([37, c], ap))"

text \<open>The output of \<^verbatim>\<open>vprintfmt\<close>; \<open>None\<close> when an argument is missing or has the wrong type.\<close>

function vprintfmt :: "u8 list \<Rightarrow> va list \<Rightarrow> u8 list option" where
  "vprintfmt [] ap = Some []"
| "vprintfmt (c # cs) ap =
     (if c \<noteq> 37 then map_option (Cons c) (vprintfmt cs ap)
      else
        (let l = length (takeWhile (\<lambda>d. d = 108) cs) in
         case drop l cs of [] \<Rightarrow> Some []
         | d # rest \<Rightarrow>
             Option.bind (convert l d ap) (\<lambda>(out, ap). map_option ((@) out) (vprintfmt rest ap))))"
  by pat_completeness auto
termination
  by (relation "measure (\<lambda>(f, ap). length f)") (auto dest!: arg_cong[of _ _ length])

definition put_all :: "u8 list \<Rightarrow> ('z cons_state_scheme, unit) kop" where
  "put_all out = kfor out uart_putchar"

definition format_out :: "u8 list \<Rightarrow> va list \<Rightarrow> ('z cons_state_scheme, unit) kop" where
  "format_out fmt ap = (case vprintfmt fmt ap of None \<Rightarrow> kfault (Undef ''va_arg'') | Some out \<Rightarrow> put_all out)"

definition cprintf :: "u8 list \<Rightarrow> va list \<Rightarrow> ('z cons_state_scheme, unit) kop" where
  "cprintf fmt ap =
     kthen (on_conslock acquire)
     (kbind (kget (\<lambda>s. panicked s \<ge> 0 \<and> panicked s \<noteq> int (this_cpu s))) (\<lambda>stop.
      if stop then kthen (on_conslock release) (kfault Spin)
      else
        kthen (format_out fmt ap)
        (on_conslock release)))"

text \<open>
  \<^verbatim>\<open>panic\<close> up to its final loop; \<open>file\<close> and \<open>line\<close> are \<^verbatim>\<open>__FILE__\<close> and \<^verbatim>\<open>__LINE__\<close>, and the format is that of
  \<^verbatim>\<open>"%s:%d: kernel panic at cpu %d.\n"\<close>.
\<close>

definition panic_format :: "u8 list" where
  "panic_format = [37, 115, 58, 37, 100, 58, 32, 107, 101, 114, 110, 101, 108, 32, 112, 97, 110, 105, 99,
     32, 97, 116, 32, 99, 112, 117, 32, 37, 100, 46, 10]"

definition panic_print :: "u8 list \<Rightarrow> u64 \<Rightarrow> u8 list \<Rightarrow> va list \<Rightarrow> ('z cons_state_scheme, unit) kop" where
  "panic_print file line fmt ap =
     kthen (on_conslock acquire)
     (kbind (kget panicked) (\<lambda>p.
      if p \<ge> 0 then kthen (on_conslock release) (kfault Spin)
      else
        kthen (kmod (\<lambda>s. s\<lparr>panicked := int (this_cpu s)\<rparr>))
        (kthen (format_out fmt ap)
        (kthen (on_conslock release)
        (kbind (kget this_cpu) (\<lambda>c.
         cprintf panic_format [VStr (Some file), VInt line, VInt (of_nat c)]))))))"


section \<open>Input\<close>

text \<open>The loop that kills a line.\<close>

function kill_line :: "('z cons_state_scheme, unit) kop" where
  "kill_line s =
     (if in_e s \<noteq> in_w s \<and> ring_at (in_buf s) (in_e s - 1) \<noteq> NEWLINE then
        kthen (kmod (\<lambda>s. s\<lparr>in_e := in_e s - 1\<rparr>)) (kthen (consputc None) kill_line) s
      else Ok () s)"
  by pat_completeness auto
termination
proof (relation "measure (\<lambda>s. unat (in_e s - in_w s))", goal_cases)
  case (2 s t u)
  have "in_e s - in_w s \<noteq> 0" using 2(1) by simp
  then have "unat (in_e s - 1 - in_w s) < unat (in_e s - in_w s)"
    by (metis diff_right_commute measure_unat)
  moreover have "in_e u = in_e s - 1" "in_w u = in_w s"
    using 2(2,3) by (auto simp: consputc_def uart_putchar_def kop_defs)
  ultimately show ?case by simp
qed simp

declare kill_line.simps [simp del]

text \<open>One character, an \<^verbatim>\<open>int\<close> from 0 to 255; the result says whether a listing is asked for.\<close>

definition console_char :: "u8 \<Rightarrow> ('z cons_state_scheme, bool) kop" where
  "console_char c =
     (if c = 0x10 then kret True
      else if c = 0x15 then kthen kill_line (kret False)
      else if c = 8 \<or> c = 0x7F then
        kbind (kget (\<lambda>s. in_e s \<noteq> in_w s)) (\<lambda>b.
        kthen (kwhen b (kthen (kmod (\<lambda>s. s\<lparr>in_e := in_e s - 1\<rparr>)) (consputc None)))
        (kret False))
      else
        kbind (kget (\<lambda>s. in_e s - in_r s < of_nat INPUT_BUF)) (\<lambda>room.
        kthen (kwhen (c \<noteq> 0 \<and> room)
          (let c = (if c = 13 then NEWLINE else c) in
           kthen (kmod (\<lambda>s. s\<lparr>in_buf := (in_buf s)[unat (in_e s) mod INPUT_BUF := c], in_e := in_e s + 1\<rparr>))
           (kthen (consputc (Some c))
           (kbind (kget (\<lambda>s. c = NEWLINE \<or> c = CTRL_D \<or> in_e s = in_r s + of_nat INPUT_BUF)) (\<lambda>full.
            kwhen full (kmod (\<lambda>s. s\<lparr>in_w := in_e s, cons_wakeups := Suc (cons_wakeups s)\<rparr>)))))))
        (kret False)))"

primrec console_chars :: "u8 list \<Rightarrow> bool \<Rightarrow> ('z cons_state_scheme, bool) kop" where
  "console_chars [] dump = kret dump"
| "console_chars (c # cs) dump = kbind (console_char c) (\<lambda>d. console_chars cs (dump \<or> d))"

text \<open>\<^verbatim>\<open>console_intr\<close>, with the characters that \<^verbatim>\<open>getc\<close> returns until it has none.\<close>

definition console_intr :: "u8 list \<Rightarrow> ('z cons_state_scheme, unit) kop" where
  "console_intr cs =
     kthen (on_conslock acquire)
     (kbind (kget panicked) (\<lambda>p.
      if p \<ge> 0 then kthen (on_conslock release) (kfault Spin)
      else
        kbind (console_chars cs False) (\<lambda>dump.
        kthen (on_conslock release)
        (kwhen dump (panic ''unimplemented'')))))"


section \<open>The ring\<close>

text \<open>The bytes of the ring from \<open>in_r\<close> on: committed up to \<open>in_w\<close>, then the line being edited.\<close>

definition ring_list :: "u8 list \<Rightarrow> u64 \<Rightarrow> nat \<Rightarrow> u8 list" where
  "ring_list b i n = map (\<lambda>k. ring_at b (i + of_nat k)) [0..<n]"

definition pending :: "'z cons_state_scheme \<Rightarrow> u8 list" where
  "pending s = ring_list (in_buf s) (in_r s) (unat (in_e s - in_r s))"

definition ready :: "'z cons_state_scheme \<Rightarrow> u8 list" where
  "ready s = take (unat (in_w s - in_r s)) (pending s)"

definition edited :: "'z cons_state_scheme \<Rightarrow> u8 list" where
  "edited s = drop (unat (in_w s - in_r s)) (pending s)"

definition cons_inv :: "'z cons_state_scheme \<Rightarrow> bool" where
  "cons_inv s \<longleftrightarrow> length (in_buf s) = INPUT_BUF \<and> unat (in_w s - in_r s) \<le> unat (in_e s - in_r s)
     \<and> unat (in_e s - in_r s) \<le> INPUT_BUF \<and> NEWLINE \<notin> set (edited s)"

text \<open>The specification of one character, on the committed bytes and the edited line.\<close>

definition line_step :: "u8 \<Rightarrow> u8 list \<times> u8 list \<Rightarrow> u8 list \<times> u8 list" where
  "line_step c l = (case l of (rd, ed) \<Rightarrow>
     if c = 0x10 then (rd, ed)
     else if c = 0x15 then (rd, [])
     else if c = 8 \<or> c = 0x7F then (rd, butlast ed)
     else if c = 0 \<or> length rd + length ed = INPUT_BUF then (rd, ed)
     else
       (let c = (if c = 13 then NEWLINE else c) in
        if c = NEWLINE \<or> c = CTRL_D \<or> length rd + length ed + 1 = INPUT_BUF then (rd @ ed @ [c], [])
        else (rd, ed @ [c])))"

lemma ring_index: "unat (i + of_nat k :: u64) mod INPUT_BUF = (unat i + k) mod INPUT_BUF"
proof -
  have "(unat i + k) mod 2 ^ 64 mod 128 = (unat i + k) mod 128" by (rule mod_mod_cancel) simp
  moreover have "unat (i + of_nat k :: u64) = (unat i + k) mod 2 ^ 64"
    by (simp add: unat_word_ariths unat_of_nat mod_simps)
  ultimately show ?thesis by (simp add: INPUT_BUF_def)
qed

lemma length_ring_list [simp]: "length (ring_list b i n) = n"
  by (simp add: ring_list_def)

lemma length_pending [simp]: "length (pending s) = unat (in_e s - in_r s)"
  by (simp add: pending_def)

lemma ring_list_Suc: "ring_list b i (Suc n) = ring_list b i n @ [ring_at b (i + of_nat n)]"
  by (simp add: ring_list_def)

lemma ring_put:
  assumes "length b = INPUT_BUF" "n < INPUT_BUF"
  shows "ring_list (b[unat (i + of_nat n :: u64) mod INPUT_BUF := c]) i (Suc n) = ring_list b i n @ [c]"
proof -
  have "(unat i + n) mod INPUT_BUF \<noteq> (unat i + k) mod INPUT_BUF" if "k < n" for k
  proof
    assume "(unat i + n) mod INPUT_BUF = (unat i + k) mod INPUT_BUF"
    then have "INPUT_BUF dvd (unat i + n) - (unat i + k)" by (metis mod_eq_dvd_iff_nat nat_add_left_cancel_le less_imp_le that)
    then have "INPUT_BUF dvd n - k" by simp
    then show False using that assms(2) by (metis dvd_imp_le less_imp_diff_less not_le zero_less_diff)
  qed
  moreover have "0 < INPUT_BUF" by (simp add: INPUT_BUF_def)
  ultimately show ?thesis using assms(1)
    by (auto simp: ring_list_Suc ring_index ring_at_def) (auto simp: ring_list_def ring_at_def ring_index)
qed

lemma parts [simp]: "ready s @ edited s = pending s"
  by (simp add: ready_def edited_def)

lemma cons_invD:
  assumes "cons_inv s"
  shows "length (ready s) = unat (in_w s - in_r s)" "length (edited s) = unat (in_e s - in_r s) - unat (in_w s - in_r s)"
    "length (ready s) + length (edited s) \<le> INPUT_BUF" "edited s = [] \<longleftrightarrow> in_e s = in_w s"
proof -
  have w: "unat (in_w s - in_r s) \<le> unat (in_e s - in_r s)" "unat (in_e s - in_r s) \<le> INPUT_BUF" using assms by (auto simp: cons_inv_def)
  show "length (ready s) = unat (in_w s - in_r s)" using w by (simp add: ready_def)
  show l: "length (edited s) = unat (in_e s - in_r s) - unat (in_w s - in_r s)" by (simp add: edited_def)
  show "length (ready s) + length (edited s) \<le> INPUT_BUF" using w by (metis length_append length_pending parts)
  have "edited s = [] \<longleftrightarrow> unat (in_e s - in_r s) = unat (in_w s - in_r s)" using l w by (metis diff_is_0_eq le_antisym length_0_conv order_refl)
  then show "edited s = [] \<longleftrightarrow> in_e s = in_w s" by (metis word_unat_eq_iff diff_add_cancel)
qed

text \<open>Taking the last character of the edited line back.\<close>

lemma rub_out:
  assumes inv: "cons_inv s" and ne: "in_e s \<noteq> in_w s"
  shows "cons_inv (s\<lparr>in_e := in_e s - 1\<rparr>)" "ready (s\<lparr>in_e := in_e s - 1\<rparr>) = ready s"
    "edited (s\<lparr>in_e := in_e s - 1\<rparr>) = butlast (edited s)" "ring_at (in_buf s) (in_e s - 1) \<noteq> NEWLINE"
proof -
  let ?s = "s\<lparr>in_e := in_e s - 1\<rparr>"
  have w: "unat (in_w s - in_r s) < unat (in_e s - in_r s)"
    using cons_invD(2,4)[OF inv] ne by (metis length_greater_0_conv zero_less_diff)
  have nz: "in_e s - in_r s \<noteq> 0" using w by auto
  have u: "Suc (unat (in_e ?s - in_r ?s)) = unat (in_e s - in_r s)"
    using nz unat_minus_one[OF nz] by (simp add: algebra_simps unat_gt_0)
  have e: "in_r s + of_nat (unat (in_e ?s - in_r ?s)) = in_e s - 1" by simp
  have p: "pending s = pending ?s @ [ring_at (in_buf s) (in_e s - 1)]"
    using ring_list_Suc[of "in_buf s" "in_r s" "unat (in_e ?s - in_r ?s)"] unfolding u e by (simp add: pending_def)
  have w2: "unat (in_w s - in_r s) \<le> length (pending ?s)" using w u by simp
  show r: "ready ?s = ready s" unfolding ready_def p using w2 by simp
  have ed: "edited s = edited ?s @ [ring_at (in_buf s) (in_e s - 1)]" unfolding edited_def p using w2 by simp
  then show "edited ?s = butlast (edited s)" by simp
  show "ring_at (in_buf s) (in_e s - 1) \<noteq> NEWLINE" using ed inv by (auto simp: cons_inv_def)
  show "cons_inv ?s" using inv w2 u ed by (auto simp: cons_inv_def)
qed

text \<open>Only the ring and its counters change.\<close>

definition beyond_ring :: "'z cons_state_scheme \<Rightarrow> 'z cons_state_scheme" where
  "beyond_ring s = s\<lparr>in_buf := [], in_w := 0, in_e := 0, uart_out := [], cons_wakeups := 0\<rparr>"

definition only_ring :: "'z cons_state_scheme \<Rightarrow> 'z cons_state_scheme \<Rightarrow> bool" where
  "only_ring s t \<longleftrightarrow> beyond_ring t = beyond_ring s"

lemma only_ring_refl [simp]: "only_ring s s"
  by (simp add: only_ring_def)

lemma only_ring_trans: "only_ring s t \<Longrightarrow> only_ring t u \<Longrightarrow> only_ring s u"
  by (simp add: only_ring_def)

lemma only_ringD:
  assumes "only_ring s t"
  shows "conslock t = conslock s" "in_r t = in_r s" "panicked t = panicked s" "this_cpu t = this_cpu s"
    "this_pid t = this_pid s" "icache t = icache s"
  using assms[unfolded only_ring_def, THEN arg_cong, of conslock] assms[unfolded only_ring_def, THEN arg_cong, of in_r]
    assms[unfolded only_ring_def, THEN arg_cong, of panicked] assms[unfolded only_ring_def, THEN arg_cong, of this_cpu]
    assms[unfolded only_ring_def, THEN arg_cong, of this_pid] assms[unfolded only_ring_def, THEN arg_cong, of icache]
  by (simp_all add: beyond_ring_def)

lemma consputc_wp: "kwp (consputc c) E Q s = Q () (s\<lparr>uart_out := uart_out s @ (case c of None \<Rightarrow> [8, 32, 8] | Some c \<Rightarrow> [c])\<rparr>)"
  by (cases c) (simp_all add: consputc_def uart_putchar_def wp_simps)

lemma parts_out [simp]: "pending (s\<lparr>uart_out := x\<rparr>) = pending s" "ready (s\<lparr>uart_out := x\<rparr>) = ready s" "edited (s\<lparr>uart_out := x\<rparr>) = edited s"
    "cons_inv (s\<lparr>uart_out := x\<rparr>) = cons_inv s"
  by (simp_all add: pending_def ready_def edited_def cons_inv_def)

lemma only_ring_rub: "only_ring s (s\<lparr>in_e := e, uart_out := x\<rparr>)"
  by (simp add: only_ring_def beyond_ring_def)

lemma kill_line_ok:
  "cons_inv s \<Longrightarrow> kok kill_line (\<lambda>_ t. cons_inv t \<and> ready t = ready s \<and> edited t = [] \<and> only_ring s t) s"
proof (induction "length (edited s)" arbitrary: s)
  case 0
  then have "in_e s = in_w s" using cons_invD(4)[OF 0(2)] by simp
  then show ?case using 0 kill_line.simps[of s] by (simp add: kwp_def)
next
  case (Suc n)
  then have ne: "in_e s \<noteq> in_w s" using cons_invD(4)[OF Suc(3)] by force
  let ?t = "s\<lparr>in_e := in_e s - 1, uart_out := uart_out s @ [8, 32, 8]\<rparr>"
  note R = rub_out[OF Suc(3) ne]
  have "kill_line s = kill_line ?t"
    using ne R(4) by (subst kill_line.simps) (simp add: kthen_def kbind_def consputc_def uart_putchar_def)
  moreover have "kok kill_line (\<lambda>_ u. cons_inv u \<and> ready u = ready ?t \<and> edited u = [] \<and> only_ring ?t u) ?t"
    by (rule Suc(1)) (use R Suc(2) in simp_all)
  ultimately show ?case using R(2) only_ring_trans[OF only_ring_rub[of s]] by (auto simp: kwp_def split: outcome.splits)
qed

text \<open>Storing a character behind the edited line, and committing the line.\<close>

definition typed :: "u8 \<Rightarrow> 'z cons_state_scheme \<Rightarrow> 'z cons_state_scheme" where
  "typed c s = s\<lparr>in_buf := (in_buf s)[unat (in_e s) mod INPUT_BUF := c], in_e := in_e s + 1, uart_out := uart_out s @ [c]\<rparr>"

lemma typed_parts:
  assumes inv: "cons_inv s" and room: "length (ready s) + length (edited s) < INPUT_BUF"
  shows "ready (typed c s) = ready s" "edited (typed c s) = edited s @ [c]"
    "unat (in_e (typed c s) - in_r (typed c s)) = Suc (unat (in_e s - in_r s))" "length (in_buf (typed c s)) = INPUT_BUF"
proof -
  let ?n = "unat (in_e s - in_r s)"
  have n: "?n < INPUT_BUF" using room by (metis length_append length_pending parts)
  have e: "in_r s + of_nat ?n = in_e s" by simp
  have "Suc ?n < 2 ^ 64" using n by (simp add: INPUT_BUF_def)
  then have "unat ((in_e s - in_r s) + 1) = Suc ?n" by (simp add: unat_word_ariths)
  then show u: "unat (in_e (typed c s) - in_r (typed c s)) = Suc ?n" by (simp add: typed_def algebra_simps)
  show l: "length (in_buf (typed c s)) = INPUT_BUF" using inv by (simp add: typed_def cons_inv_def)
  have "pending (typed c s) = pending s @ [c]"
    using ring_put[of "in_buf s" ?n "in_r s" c] n inv unfolding pending_def u e by (simp add: typed_def cons_inv_def)
  moreover have "in_w (typed c s) - in_r (typed c s) = in_w s - in_r s" by (simp add: typed_def)
  moreover have "unat (in_w s - in_r s) \<le> length (pending s)" using inv by (simp add: cons_inv_def)
  ultimately show "ready (typed c s) = ready s" "edited (typed c s) = edited s @ [c]"
    by (simp_all add: ready_def edited_def)
qed

lemma typed_inv:
  assumes "cons_inv s" "length (ready s) + length (edited s) < INPUT_BUF" "c \<noteq> NEWLINE"
  shows "cons_inv (typed c s)"
proof -
  have "in_w (typed c s) - in_r (typed c s) = in_w s - in_r s" by (simp add: typed_def)
  moreover have "unat (in_e s - in_r s) < INPUT_BUF" using assms(2) by (metis length_append length_pending parts)
  ultimately show ?thesis using typed_parts[OF assms(1,2), of c] assms(1,3) by (simp add: cons_inv_def)
qed

lemma commit_line:
  assumes "length (in_buf s) = INPUT_BUF" "unat (in_e s - in_r s) \<le> INPUT_BUF"
  shows "cons_inv (s\<lparr>in_w := in_e s, cons_wakeups := k\<rparr>)" "ready (s\<lparr>in_w := in_e s, cons_wakeups := k\<rparr>) = pending s"
    "edited (s\<lparr>in_w := in_e s, cons_wakeups := k\<rparr>) = []"
  using assms by (simp_all add: cons_inv_def ready_def edited_def pending_def)

lemma only_ring_typed: "only_ring s (typed c s)" "only_ring s ((typed c s)\<lparr>in_w := w, cons_wakeups := k\<rparr>)"
  by (simp_all add: only_ring_def beyond_ring_def typed_def)

lemma pending_split: "unat (in_e s - in_r s) = length (ready s) + length (edited s)"
  by (metis length_append length_pending parts)

lemma room_test: "in_e s - in_r s < of_nat INPUT_BUF \<longleftrightarrow> length (ready s) + length (edited s) < INPUT_BUF"
  using pending_split[of s] by (simp add: word_less_nat_alt INPUT_BUF_def)

lemma console_char_ok:
  assumes inv: "cons_inv s"
  shows "kok (console_char c) (\<lambda>d t. cons_inv t \<and> (ready t, edited t) = line_step c (ready s, edited s)
    \<and> d = (c = 0x10) \<and> only_ring s t) s"
proof -
  consider "c = 0x10" | "c = 0x15" | "c = 8 \<or> c = 0x7F" | "c \<notin> {0x10, 0x15, 8, 0x7F}" by auto
  then show ?thesis
  proof cases
    case 1 then show ?thesis using inv by (simp add: console_char_def wp_simps line_step_def)
  next
    case 2
    then show ?thesis using kill_line_ok[OF inv]
      by (auto simp: console_char_def wp_simps line_step_def elim!: kwp_conseq)
  next
    case 3
    show ?thesis
    proof (cases "in_e s = in_w s")
      case True
      then show ?thesis using 3 inv cons_invD(4)[OF inv] by (auto simp: console_char_def wp_simps line_step_def)
    next
      case False
      show ?thesis using 3 False rub_out[OF inv False] only_ring_rub[of s]
        by (auto simp: console_char_def wp_simps line_step_def consputc_wp)
    qed
  next
    case 4
    let ?c = "if c = 13 then NEWLINE else c"
    show ?thesis
    proof (cases "c \<noteq> 0 \<and> length (ready s) + length (edited s) < INPUT_BUF")
      case False
      then show ?thesis using 4 inv room_test[of s] cons_invD(3)[OF inv]
        by (auto simp: console_char_def wp_simps line_step_def)
    next
      case room: True
      note T = typed_parts[OF inv conjunct2[OF room], of ?c]
      note n = pending_split[of s]
      have lim: "unat (in_e (typed ?c s) - in_r (typed ?c s)) \<le> INPUT_BUF" using T(3) n room by simp
      have full: "in_e (typed ?c s) = in_r s + of_nat INPUT_BUF \<longleftrightarrow> Suc (length (ready s) + length (edited s)) = INPUT_BUF"
      proof -
        have "in_e (typed ?c s) = in_r s + of_nat INPUT_BUF \<longleftrightarrow> in_e (typed ?c s) - in_r (typed ?c s) = of_nat INPUT_BUF"
          by (auto simp: typed_def algebra_simps)
        also have "\<dots> \<longleftrightarrow> Suc (length (ready s) + length (edited s)) = INPUT_BUF"
          using T(3) n by (simp add: word_unat_eq_iff INPUT_BUF_def)
        finally show ?thesis .
      qed
      have run: "kok (console_char c) Q s = Q False (if ?c = NEWLINE \<or> ?c = CTRL_D \<or> in_e (typed ?c s) = in_r s + of_nat INPUT_BUF
          then (typed ?c s)\<lparr>in_w := in_e (typed ?c s), cons_wakeups := Suc (cons_wakeups s)\<rparr> else typed ?c s)" for Q
        using 4 room room_test[of s] by (simp add: console_char_def wp_simps consputc_wp Let_def typed_def)
      have p: "pending (typed ?c s) = ready s @ edited s @ [?c]" using parts[of "typed ?c s"] T(1,2) by simp
      show ?thesis
      proof (cases "?c = NEWLINE \<or> ?c = CTRL_D \<or> in_e (typed ?c s) = in_r s + of_nat INPUT_BUF")
        case True
        have "line_step c (ready s, edited s) = (ready s @ edited s @ [?c], [])"
          using 4 room True full by (auto simp: line_step_def Let_def)
        then show ?thesis unfolding run using True commit_line[OF T(4) lim] p only_ring_typed(2)[of s] 4 by simp
      next
        case False
        then have "line_step c (ready s, edited s) = (ready s, edited s @ [?c])"
          using 4 room full by (auto simp: line_step_def Let_def)
        then show ?thesis unfolding run using False typed_inv[OF inv conjunct2[OF room], of ?c] T(1,2) only_ring_typed(1)[of s ?c] 4 by simp
      qed
    qed
  qed
qed

lemma console_chars_ok:
  "cons_inv s \<Longrightarrow> kok (console_chars cs dump) (\<lambda>d t. cons_inv t \<and> (ready t, edited t) = fold line_step cs (ready s, edited s)
    \<and> d = (dump \<or> 0x10 \<in> set cs) \<and> only_ring s t) s"
proof (induction cs arbitrary: s dump)
  case (Cons c cs)
  show ?case unfolding console_chars.simps kwp_kbind
  proof (rule kwp_conseq[OF console_char_ok[OF Cons.prems, of c]], elim conjE, hypsubst)
    fix t assume t: "cons_inv t" "(ready t, edited t) = line_step c (ready s, edited s)" "only_ring s t"
    show "kok (console_chars cs (dump \<or> c = 0x10)) (\<lambda>d t. cons_inv t \<and> (ready t, edited t) = fold line_step (c # cs) (ready s, edited s)
      \<and> d = (dump \<or> 0x10 \<in> set (c # cs)) \<and> only_ring s t) t"
      by (rule kwp_conseq[OF Cons.IH[OF t(1)]]) (use t(2) only_ring_trans[OF t(3)] in auto)
  qed
qed (simp add: wp_simps)

lemma cons_acquire: "spin_free (conslock s) \<Longrightarrow>
    kwp (on_conslock acquire) E Q s = Q () (s\<lparr>conslock := spin_held (this_cpu s) (conslock s)\<rparr>)"
  by (simp add: on_conslock_def kwp_def kop_defs)

lemma cons_release: "spin_free lk \<Longrightarrow> conslock s = spin_held (this_cpu s) lk \<Longrightarrow>
    kwp (on_conslock release) E Q s = Q () (s\<lparr>conslock := lk\<rparr>)"
  by (simp add: on_conslock_def kwp_def kop_defs)

lemma parts_lock [simp]: "pending (s\<lparr>conslock := l\<rparr>) = pending s" "ready (s\<lparr>conslock := l\<rparr>) = ready s"
    "edited (s\<lparr>conslock := l\<rparr>) = edited s" "cons_inv (s\<lparr>conslock := l\<rparr>) = cons_inv s"
  by (simp_all add: pending_def ready_def edited_def cons_inv_def)

lemma beyond_lock: "beyond_ring (s\<lparr>conslock := l\<rparr>) = (beyond_ring s)\<lparr>conslock := l\<rparr>"
  by (cases s) (simp add: beyond_ring_def)

lemma console_intr_ok:
  assumes "cons_inv s" "spin_free (conslock s)" "panicked s < 0" "0x10 \<notin> set cs"
  shows "kok (console_intr cs) (\<lambda>_ t. cons_inv t \<and> (ready t, edited t) = fold line_step cs (ready s, edited s) \<and> only_ring s t) s"
proof -
  let ?s = "s\<lparr>conslock := spin_held (this_cpu s) (conslock s)\<rparr>"
  show ?thesis unfolding console_intr_def
    using assms(2,3)
  proof (simp add: cons_acquire wp_simps, intro kwp_conseq[OF console_chars_ok[of ?s cs False]], goal_cases)
    case 1 then show ?case using assms(1) by simp
  next
    case (2 d t)
    then have t: "cons_inv t" "(ready t, edited t) = fold line_step cs (ready s, edited s)" "\<not> d" "only_ring ?s t"
      using assms(4) by auto
    have "conslock t = spin_held (this_cpu t) (conslock s)" using only_ringD(1,4)[OF t(4)] by simp
    moreover have "only_ring s (t\<lparr>conslock := conslock s\<rparr>)"
      using t(4) by (simp add: only_ring_def beyond_lock) (simp add: beyond_ring_def)
    ultimately show ?case using t assms(2) by (simp add: cons_release[OF assms(2)] wp_simps)
  qed
qed


section \<open>Reading\<close>

lemma ring_list_Cons: "ring_list b i (Suc n) = ring_at b i # ring_list b (i + 1) n"
  unfolding ring_list_def by (subst upt_conv_Cons) (simp_all add: map_Suc_upt[symmetric] add.assoc del: upt_Suc)

lemma consume:
  assumes inv: "cons_inv s" and rd: "ready s = c # cs"
  shows "in_r s \<noteq> in_w s" "ring_at (in_buf s) (in_r s) = c" "cons_inv (s\<lparr>in_r := in_r s + 1\<rparr>)"
    "ready (s\<lparr>in_r := in_r s + 1\<rparr>) = cs" "edited (s\<lparr>in_r := in_r s + 1\<rparr>) = edited s"
proof -
  let ?s = "s\<lparr>in_r := in_r s + 1\<rparr>"
  have pos: "0 < unat (in_w s - in_r s)" using cons_invD(1)[OF inv] rd by simp
  then show ne: "in_r s \<noteq> in_w s" by auto
  have step: "Suc (unat (x - (in_r s + 1))) = unat (x - in_r s)" if "x - in_r s \<noteq> 0" for x
  proof -
    have "x - (in_r s + 1) = x - in_r s - 1" by simp
    then show ?thesis using unat_minus_one[OF that] that by (metis One_nat_def Suc_pred unat_gt_0)
  qed
  have w: "Suc (unat (in_w ?s - in_r ?s)) = unat (in_w s - in_r s)" using step[of "in_w s"] ne by auto
  have "in_e s - in_r s \<noteq> 0" using pos inv by (auto simp: cons_inv_def)
  then have e: "Suc (unat (in_e ?s - in_r ?s)) = unat (in_e s - in_r s)" using step[of "in_e s"] by auto
  have p: "pending s = ring_at (in_buf s) (in_r s) # pending ?s"
    unfolding pending_def e[symmetric] by (simp add: ring_list_Cons)
  show "ring_at (in_buf s) (in_r s) = c" and r: "ready ?s = cs"
    using rd p unfolding ready_def w[symmetric] by simp_all
  show ed: "edited ?s = edited s" unfolding edited_def w[symmetric] p by simp
  show "cons_inv ?s" using inv ed w e by (auto simp: cons_inv_def)
qed

lemma read_step:
  assumes "in_r s \<noteq> in_w s" "ring_at (in_buf s) (in_r s) = c" "c \<noteq> CTRL_D"
  shows "kwp (read_loop killed target (Suc n)) E Q s = (if c = NEWLINE then Q (Some [c]) (s\<lparr>in_r := in_r s + 1\<rparr>)
    else kwp (read_loop killed target n) E (\<lambda>r. Q (map_option (Cons c) r)) (s\<lparr>in_r := in_r s + 1\<rparr>))"
proof -
  have ret: "kwp (kret r) E Q = Q r" for r by (simp add: fun_eq_iff kwp_kret)
  show ?thesis using assms by (simp only: read_loop.simps kwp_kbind kwp_kget kwp_kthen kwp_kmod kwp_if ret if_False)
qed

lemma read_loop_line:
  assumes "cons_inv s" "ready s = ln @ NEWLINE # rest" "NEWLINE \<notin> set ln" "CTRL_D \<notin> set ln" "length ln < n"
  shows "kok (read_loop killed target n) (\<lambda>r t. r = Some (ln @ [NEWLINE]) \<and> cons_inv t \<and> ready t = rest
    \<and> edited t = edited s \<and> t = s\<lparr>in_r := in_r t\<rparr>) s"
  using assms
proof (induction ln arbitrary: s n)
  case Nil
  then obtain m where "n = Suc m" by (cases n) auto
  moreover have "NEWLINE \<noteq> CTRL_D" by (simp add: NEWLINE_def CTRL_D_def)
  ultimately show ?case using consume[of s NEWLINE rest] Nil by (simp add: read_step del: read_loop.simps)
next
  case (Cons c ln)
  then obtain m where m: "n = Suc m" "length ln < m" by (cases n) auto
  have c: "c \<noteq> NEWLINE" "c \<noteq> CTRL_D" using Cons.prems by auto
  note C = consume[OF Cons.prems(1), of c "ln @ NEWLINE # rest"]
  let ?s = "s\<lparr>in_r := in_r s + 1\<rparr>"
  have rd: "ready s = c # ln @ NEWLINE # rest" using Cons.prems(2) by simp
  have "kok (read_loop killed target m) (\<lambda>r t. r = Some (ln @ [NEWLINE]) \<and> cons_inv t \<and> ready t = rest
    \<and> edited t = edited ?s \<and> t = ?s\<lparr>in_r := in_r t\<rparr>) ?s"
    by (rule Cons.IH) (use C[OF rd] Cons.prems m in auto)
  then show ?case unfolding m(1) read_step[OF C(1,2)[OF rd] c(2)] using c C(5)[OF rd] by (auto elim!: kwp_conseq)
qed

text \<open>The inode of the device, which the caller has locked, is unlocked while the reader may sleep.\<close>

definition free_ino :: "inode \<Rightarrow> inode" where
  "free_ino x = x\<lparr>i_lock := (i_lock x)\<lparr>slp_locked := False, slp_pid := 0, slp_wakeups := Suc (slp_wakeups (i_lock x))\<rparr>\<rparr>"

lemma iunlock_wp:
  "ip < length (icache s) \<Longrightarrow> slp_idle (i_lock (icache s ! ip)) \<Longrightarrow>
    kwp (iunlock ip) E Q s = Q () (s\<lparr>icache := (icache s)[ip := free_ino (icache s ! ip)]\<rparr>)"
  by (simp add: iunlock_def on_ilock_def get_ino_def wp_simps) (simp add: kwp_def releasesleep_run free_ino_def)

lemma ilock_valid_wp:
  assumes "ip < length (icache s)" "slp_idle (i_lock (icache s ! ip))" "\<not> slp_locked (i_lock (icache s ! ip))" "i_valid (icache s ! ip)"
  shows "kwp (ilock ip) E Q s = Q () (s\<lparr>icache := (icache s)[ip := (icache s ! ip)\<lparr>i_lock := taken (this_pid s) (i_lock (icache s ! ip))\<rparr>]\<rparr>)"
  using assms by (simp add: ilock_def on_ilock_def get_ino_def wp_simps) (simp add: kwp_def acquiresleep_free taken_def)

definition dev_locked :: "'z fs_state_scheme \<Rightarrow> nat \<Rightarrow> bool" where
  "dev_locked s ip \<longleftrightarrow> ip < length (icache s) \<and> slp_idle (i_lock (icache s ! ip)) \<and> i_valid (icache s ! ip)"

lemma parts_icache [simp]: "pending (s\<lparr>icache := x\<rparr>) = pending s" "ready (s\<lparr>icache := x\<rparr>) = ready s"
    "edited (s\<lparr>icache := x\<rparr>) = edited s" "cons_inv (s\<lparr>icache := x\<rparr>) = cons_inv s"
  by (simp_all add: pending_def ready_def edited_def cons_inv_def)

lemma console_read_line:
  assumes "cons_inv s" "ready s = ln @ NEWLINE # rest" "NEWLINE \<notin> set ln" "CTRL_D \<notin> set ln" "length ln < n"
    and lk: "spin_free (conslock s)" and d: "dev_locked s ip"
  shows "kok (console_read killed ip n) (\<lambda>r t. r = (int (length ln) + 1, ln @ [NEWLINE]) \<and> cons_inv t \<and> ready t = rest
    \<and> edited t = edited s \<and> conslock t = conslock s) s"
proof -
  let ?s = "s\<lparr>icache := (icache s)[ip := free_ino (icache s ! ip)]\<rparr>"
  let ?t = "?s\<lparr>conslock := spin_held (this_cpu s) (conslock s)\<rparr>"
  have R: "kok (read_loop killed n n) (\<lambda>r t. r = Some (ln @ [NEWLINE]) \<and> cons_inv t \<and> ready t = rest
    \<and> edited t = edited ?t \<and> t = ?t\<lparr>in_r := in_r t\<rparr>) ?t"
    by (rule read_loop_line) (use assms(1-5) in simp_all)
  have D: "ip < length (icache s)" "slp_idle (i_lock (icache s ! ip))" "i_valid (icache s ! ip)" using d by (auto simp: dev_locked_def)
  have f: "slp_idle (i_lock (free_ino (icache s ! ip)))" "\<not> slp_locked (i_lock (free_ino (icache s ! ip)))" "i_valid (free_ino (icache s ! ip))"
    using D by (simp_all add: free_ino_def)
  show ?thesis unfolding console_read_def kwp_kthen iunlock_wp[OF D(1,2)]
  proof (simp add: cons_acquire lk kwp_kbind kwp_kthen, rule kwp_conseq[OF R[simplified]], elim conjE, goal_cases)
    case (1 a t)
    have "this_cpu t = this_cpu s" "conslock t = spin_held (this_cpu s) (conslock s)" "icache t = icache ?s"
      by (subst 1(5), simp)+
    then show ?case using 1(1-4) D f
      by (simp add: kwp_kthen cons_release[OF lk] ilock_valid_wp kwp_kret)
  qed
qed

lemma plain_line:
  assumes "set ln \<inter> {0, 4, 8, 10, 13, 0x10, 0x15, 0x7F} = {}" "length rd + length ed + length ln < INPUT_BUF"
  shows "fold line_step ln (rd, ed) = (rd, ed @ ln)"
  using assms
proof (induction ln arbitrary: ed)
  case (Cons c ln)
  then have "line_step c (rd, ed) = (rd, ed @ [c])" by (auto simp: line_step_def NEWLINE_def CTRL_D_def)
  then show ?case using Cons by simp
qed simp

end
