(* ===== verification/Args.thy ===== *)
theory Args
  imports Proc
begin

text \<open>
  The arguments of system calls, the first part of \<^verbatim>\<open>kern/syscall.c\<close>: the registers of the trap frame,
  and words and strings in the memory of the calling process. The kernel reads user addresses
  through \<^verbatim>\<open>TTBR0\<close>, which holds the page table of the process; \<open>user_addr\<close> is that translation, and
  an address that is not mapped is a fault.
\<close>

section \<open>User memory\<close>

definition user_addr :: "u64 \<Rightarrow> (vm_state, u64) kop" where
  "user_addr va =
     kbind (kget ttbr0) (\<lambda>t.
     kbind (pgdir_walk (P2V t) va False) (\<lambda>r.
     case r of None \<Rightarrow> kfault (Undef ''page fault'')
     | Some p \<Rightarrow>
         kbind (load64 p) (\<lambda>e.
         if e AND PTE_P = 0 then kfault (Undef ''page fault'')
         else kret (P2V (page_addr e) + (va AND 0xFFF)))))"

definition load_user8 :: "u64 \<Rightarrow> (vm_state, u8) kop" where
  "load_user8 va = kbind (user_addr va) load8"

definition store_user8 :: "u64 \<Rightarrow> u8 \<Rightarrow> (vm_state, unit) kop" where
  "store_user8 va b = kbind (user_addr va) (\<lambda>a. store8 a b)"

primrec load_user :: "u64 \<Rightarrow> nat \<Rightarrow> (vm_state, u8 list) kop" where
  "load_user va 0 = kret []"
| "load_user va (Suc n) = kbind (load_user8 va) (\<lambda>b. kbind (load_user (va + 1) n) (\<lambda>bs. kret (b # bs)))"

definition store_user :: "u64 \<Rightarrow> u8 list \<Rightarrow> (vm_state, unit) kop" where
  "store_user va bs = kfor [0..<length bs] (\<lambda>i. store_user8 (va + of_nat i) (bs ! i))"

text \<open>A 64-bit word, little endian.\<close>

fun word_of_bytes :: "u8 list \<Rightarrow> u64" where
  "word_of_bytes [] = 0"
| "word_of_bytes (b # bs) = ucast b OR push_bit 8 (word_of_bytes bs)"

definition bytes_of_word :: "u64 \<Rightarrow> u8 list" where
  "bytes_of_word w = map (\<lambda>i. ucast (drop_bit (8 * i) w)) [0..<8]"

definition load_user64 :: "u64 \<Rightarrow> (vm_state, u64) kop" where
  "load_user64 va = kbind (load_user va 8) (\<lambda>bs. kret (word_of_bytes bs))"


section \<open>Arguments\<close>

text \<open>An \<^verbatim>\<open>int\<close> parameter that receives a 64-bit value.\<close>

definition as_int :: "u64 \<Rightarrow> u64" where
  "as_int x = scast (ucast x :: u32)"

text \<open>The process that runs, with its entry of the table.\<close>

definition curproc :: "('z proc_sys_scheme, proc) kop" where
  "curproc = kbind thisproc get_proc"

definition fetchint :: "u64 \<Rightarrow> ('z proc_sys_scheme, u64 option) kop" where
  "fetchint addr =
     kbind curproc (\<lambda>x.
     if addr \<ge> p_sz x \<or> addr + 8 > p_sz x then kret None
     else kbind (on_mem (load_user64 addr)) (\<lambda>v. kret (Some v)))"

text \<open>The loop of \<^verbatim>\<open>fetchstr\<close> from \<open>s\<close> to \<open>ep\<close>: the number of bytes before the first zero byte.\<close>

function find_nul :: "u64 \<Rightarrow> u64 \<Rightarrow> nat \<Rightarrow> ('z proc_sys_scheme, nat option) kop" where
  "find_nul s ep n t =
     (if s < ep then
        kbind (on_mem (load_user8 s)) (\<lambda>b.
        if b = 0 then kret (Some n) else find_nul (s + 1) ep (Suc n)) t
      else Ok None t)"
  by pat_completeness auto
termination
proof (relation "measure (\<lambda>(s, ep, n, t). unat (ep - s))", goal_cases)
  case (2 s ep n t a t')
  then have "unat s < unat ep" by (simp add: word_less_nat_alt)
  moreover have "unat ep < 2 ^ 64" using unsigned_less[of ep, where 'a = nat] by simp
  ultimately have "unat s + 1 < 2 ^ 64" by simp
  then have "unat (s + 1) = unat s + 1" by (simp add: unat_word_ariths)
  then show ?case using 2 by (simp add: unat_sub word_less_nat_alt word_le_nat_alt)
qed simp

definition fetchstr :: "u64 \<Rightarrow> ('z proc_sys_scheme, nat option) kop" where
  "fetchstr addr =
     kbind curproc (\<lambda>x.
     if addr \<ge> p_sz x then kret None else find_nul addr (p_sz x) 0)"

text \<open>Register \<^verbatim>\<open>r0\<close> is word 7 of the trap frame.\<close>

definition argint :: "nat \<Rightarrow> ('z proc_sys_scheme, u64) kop" where
  "argint n =
     (if n > 3 then panic ''argint: too many system call parameters''
      else kbind curproc (\<lambda>x. on_mem (load64 (word_of_struct (p_tf x) (7 + n)))))"

definition argptr :: "nat \<Rightarrow> u64 \<Rightarrow> ('z proc_sys_scheme, u64 option) kop" where
  "argptr n len =
     kbind (argint n) (\<lambda>i.
     kbind curproc (\<lambda>x.
     if i \<ge> p_sz x \<or> i + as_int len > p_sz x then kret None else kret (Some i)))"

text \<open>The pointer and the length.\<close>

definition argstr :: "nat \<Rightarrow> ('z proc_sys_scheme, (u64 \<times> nat) option) kop" where
  "argstr n =
     kbind (argint n) (\<lambda>addr.
     kbind (fetchstr addr) (\<lambda>r. kret (map_option (Pair addr) r)))"

text \<open>The bytes of such a string.\<close>

definition user_string :: "u64 \<times> nat \<Rightarrow> ('z proc_sys_scheme, u8 list) kop" where
  "user_string a = on_mem (load_user (fst a) (snd a))"

text \<open>
  \<^verbatim>\<open>copyinstr\<close> copies up to the first zero byte of \<open>src\<close>, however far that is; \<open>fuel\<close> bounds the
  bytes looked at.
\<close>

primrec copyinstr :: "nat \<Rightarrow> u64 \<Rightarrow> u64 \<Rightarrow> nat \<Rightarrow> ('z mem_state_scheme, nat) kop" where
  "copyinstr 0 d a n = kfault Spin"
| "copyinstr (Suc fuel) d a n =
     kbind (load8 a) (\<lambda>b.
     if b = 0 then kthen (store8 d 0) (kret n)
     else kthen (store8 d b) (copyinstr fuel (d + 1) (a + 1) (Suc n)))"

end
