(* ===== verification/Sysfile.thy ===== *)
theory Sysfile
  imports Args
begin

text \<open>
  The system calls on files, \<^verbatim>\<open>kern/sysfile.c\<close>, without \<^verbatim>\<open>sys_exec\<close>. Results are the values the handlers
  return; the messages that some error paths print are not part of the state. The constants of
  \<^verbatim>\<open>fcntl.h\<close> and the layout of \<^verbatim>\<open>struct stat\<close> belong to the C library, which is a submodule: they are the
  fields of \<open>libc\<close>, which the handlers that use them take as an argument.
\<close>

section \<open>The C library\<close>

record ehdr =
  e_entry :: u64
  e_phoff :: u64
  e_phnum :: u16

record phdr =
  ph_type :: u32
  ph_offset :: u64
  ph_vaddr :: u64
  ph_filesz :: u64
  ph_memsz :: u64

record libc =
  AT_FDCWD :: u64
  O_CREAT :: u64
  O_LARGEFILE :: u64
  O_RDONLY :: u64
  O_WRONLY :: u64
  O_RDWR :: u64
  stat_size :: nat
  put_stat :: "stat \<Rightarrow> u8 list \<Rightarrow> u8 list"
  ehdr_size :: nat
  dec_ehdr :: "u8 list \<Rightarrow> ehdr"
  phdr_size :: nat
  dec_phdr :: "u8 list \<Rightarrow> phdr"
  PT_LOAD :: u32
  AT_PAGESZ :: u64
  AT_NULL :: u64


section \<open>Descriptors\<close>

definition argfd :: "nat \<Rightarrow> ('z proc_sys_scheme, (nat \<times> nat) option) kop" where
  "argfd n =
     kbind (argint n) (\<lambda>fd.
     if sint fd < 0 \<or> sint fd \<ge> int NOFILE then kret None
     else
       kbind curproc (\<lambda>x.
       case p_ofile x ! unat fd of None \<Rightarrow> kret None | Some f \<Rightarrow> kret (Some (unat fd, f))))"

definition set_ofile :: "nat \<Rightarrow> nat option \<Rightarrow> ('z proc_sys_scheme, unit) kop" where
  "set_ofile fd r = kbind thisproc (\<lambda>p. upd_proc p (\<lambda>x. x\<lparr>p_ofile := (p_ofile x)[fd := r]\<rparr>))"

definition fdalloc :: "nat \<Rightarrow> ('z proc_sys_scheme, int) kop" where
  "fdalloc f =
     kbind curproc (\<lambda>x.
     case List.find (\<lambda>fd. p_ofile x ! fd = None) [0..<NOFILE] of
       None \<Rightarrow> kret (-1)
     | Some fd \<Rightarrow> kthen (set_ofile fd (Some f)) (kret (int fd)))"

definition sys_dup :: "('z proc_sys_scheme, int) kop" where
  "sys_dup =
     kbind (argfd 0) (\<lambda>r.
     case r of None \<Rightarrow> kret (-1)
     | Some (_, f) \<Rightarrow>
         kbind (fdalloc f) (\<lambda>fd.
         if fd < 0 then kret (-1)
         else kbind (on_fs (filedup f)) (\<lambda>_. kret fd)))"

text \<open>
  \<^verbatim>\<open>argptr\<close> gets the length as an \<^verbatim>\<open>int\<close>. The bytes to write are read from user memory before
  \<^verbatim>\<open>filewrite\<close>, which looks at no more than the first \<open>WRITE_LIM\<close> of them.
\<close>

definition sys_read :: "('z proc_sys_scheme, int) kop" where
  "sys_read =
     kbind (argfd 0) (\<lambda>r.
     case r of None \<Rightarrow> kret (-1)
     | Some (_, f) \<Rightarrow>
         kbind (argint 2) (\<lambda>n.
         kbind (argptr 1 n) (\<lambda>b.
         case b of None \<Rightarrow> kret (-1)
         | Some base \<Rightarrow>
             kbind (on_fs (fileread f n)) (\<lambda>(rdn, d).
             kthen (on_mem (store_user base d))
             (kret rdn)))))"

definition write_user :: "nat \<Rightarrow> u64 \<Rightarrow> u64 \<Rightarrow> ('z proc_sys_scheme, int) kop" where
  "write_user f base n =
     kbind (on_mem (load_user base (nat (min (sint n) WRITE_LIM)))) (\<lambda>d. on_fs (filewrite f d (sint n)))"

definition sys_write :: "('z proc_sys_scheme, int) kop" where
  "sys_write =
     kbind (argfd 0) (\<lambda>r.
     case r of None \<Rightarrow> kret (-1)
     | Some (_, f) \<Rightarrow>
         kbind (argint 2) (\<lambda>n.
         kbind (argptr 1 n) (\<lambda>b.
         case b of None \<Rightarrow> kret (-1)
         | Some base \<Rightarrow> write_user f base n)))"

text \<open>The loop of \<^verbatim>\<open>sys_writev\<close> over \<open>k\<close> more vectors from \<open>p\<close> on.\<close>

primrec writev_loop :: "nat \<Rightarrow> nat \<Rightarrow> u64 \<Rightarrow> u64 \<Rightarrow> ('z proc_sys_scheme, u64) kop" where
  "writev_loop 0 f p tot = kret tot"
| "writev_loop (Suc k) f p tot =
     kbind (on_mem (load_user64 p)) (\<lambda>base.
     kbind (on_mem (load_user64 (p + 8))) (\<lambda>n.
     kbind (write_user f base n) (\<lambda>w.
     writev_loop k f (p + 16) (tot + of_int w))))"

definition sys_writev :: "('z proc_sys_scheme, int) kop" where
  "sys_writev =
     kbind (argfd 0) (\<lambda>r.
     case r of None \<Rightarrow> kret (-1)
     | Some (_, f) \<Rightarrow>
         kbind (argint 2) (\<lambda>iovcnt.
         kbind (argptr 1 (16 * iovcnt)) (\<lambda>b.
         case b of None \<Rightarrow> kret (-1)
         | Some iov \<Rightarrow>
             kbind (writev_loop (if iov < iov + 16 * iovcnt then unat (16 * iovcnt) div 16 else 0) f iov 0) (\<lambda>tot.
             kret (sint tot)))))"

definition sys_close :: "('z proc_sys_scheme, int) kop" where
  "sys_close =
     kbind (argfd 0) (\<lambda>r.
     case r of None \<Rightarrow> kret (-1)
     | Some (fd, f) \<Rightarrow>
         kthen (set_ofile fd None)
         (kthen (on_fs (fileclose f))
         (kret 0)))"

definition store_stat :: "libc \<Rightarrow> u64 \<Rightarrow> stat \<Rightarrow> ('z proc_sys_scheme, unit) kop" where
  "store_stat lc a st =
     kbind (on_mem (load_user a (stat_size lc))) (\<lambda>old. on_mem (store_user a (put_stat lc st old)))"

definition sys_fstat :: "libc \<Rightarrow> ('z proc_sys_scheme, int) kop" where
  "sys_fstat lc =
     kbind (argfd 0) (\<lambda>r.
     case r of None \<Rightarrow> kret (-1)
     | Some (_, f) \<Rightarrow>
         kbind (argptr 1 (of_nat (stat_size lc))) (\<lambda>b.
         case b of None \<Rightarrow> kret (-1)
         | Some a \<Rightarrow>
             kbind (on_fs (filestat f)) (\<lambda>(r, st).
             kthen (case st of None \<Rightarrow> kret () | Some st \<Rightarrow> store_stat lc a st)
             (kret r))))"

text \<open>
  \<open>junk\<close> is what the uninitialised name buffer of the path routines holds.
\<close>

definition sys_fstatat :: "libc \<Rightarrow> u8 list \<Rightarrow> ('z proc_sys_scheme, int) kop" where
  "sys_fstatat lc junk =
     kbind (argint 0) (\<lambda>dirfd.
     kbind (argstr 1) (\<lambda>pa.
     case pa of None \<Rightarrow> kret (-1)
     | Some path \<Rightarrow>
         kbind (argptr 2 (of_nat (stat_size lc))) (\<lambda>b.
         case b of None \<Rightarrow> kret (-1)
         | Some a \<Rightarrow>
             kbind (argint 3) (\<lambda>flags.
             if dirfd \<noteq> AT_FDCWD lc then kret (-1)
             else if flags \<noteq> 0 then kret (-1)
             else
               kthen (on_fs begin_op)
               (kbind (user_string path) (\<lambda>nm.
                kbind (on_fs (namei nm junk)) (\<lambda>r.
                case r of None \<Rightarrow> kthen (on_fs end_op) (kret (-1))
                | Some ip \<Rightarrow>
                    kthen (on_fs (ilock ip))
                    (kbind (on_fs (stati ip)) (\<lambda>st.
                     kthen (store_stat lc a st)
                     (kthen (on_fs (iunlockput ip))
                     (kthen (on_fs end_op)
                     (kret 0))))))))))))"


section \<open>Creating and opening\<close>

definition new_inode :: "u16 \<Rightarrow> u16 \<Rightarrow> u16 \<Rightarrow> nat \<Rightarrow> u8 list \<Rightarrow> ('z file_state_scheme, nat) kop" where
  "new_inode type maj mnr dp name =
     kbind (get_ino dp) (\<lambda>d.
     kbind (ialloc (i_dev d) type) (\<lambda>ind.
     kthen (ilock ind)
     (kthen (upd_ino ind (\<lambda>x. x\<lparr>i_major := maj, i_minor := mnr, i_nlink := 1\<rparr>))
     (kthen (iupdate ind)
     (kbind (get_ino ind) (\<lambda>x.
      kthen (kwhen (type = T_DIR)
        (kthen (upd_ino dp (\<lambda>y. y\<lparr>i_nlink := i_nlink y + 1\<rparr>))
        (kthen (iupdate dp)
        (kbind (dirlink ind (ptr [46, 0]) (i_inum x)) (\<lambda>_.
         kbind (dirlink ind (ptr [46, 46, 0]) (i_inum d)) (\<lambda>_. kret ()))))))
      (kbind (dirlink dp (ptr name) (i_inum x)) (\<lambda>_.
       kthen (iunlockput dp)
       (kret ind)))))))))"

definition create :: "u8 list \<Rightarrow> u16 \<Rightarrow> u16 \<Rightarrow> u16 \<Rightarrow> u8 list \<Rightarrow> ('z file_state_scheme, nat option) kop" where
  "create path type maj mnr junk =
     kbind (nameiparent path junk) (\<lambda>(dp, name).
     case dp of None \<Rightarrow> kret None
     | Some dp \<Rightarrow>
         kthen (ilock dp)
         (kbind (dirlookup dp (ptr name)) (\<lambda>find.
          case find of
            Some (found, _) \<Rightarrow>
              kthen (iunlock dp)
              (kthen (ilock found)
              (if type = T_FILE then kret (Some found)
               else kthen (iunlock found) (kret None)))
          | None \<Rightarrow> kbind (new_inode type maj mnr dp name) (\<lambda>ind. kret (Some ind)))))"

text \<open>The inode that \<^verbatim>\<open>sys_openat\<close> opens, locked; on failure the operation is ended.\<close>

definition open_inode :: "libc \<Rightarrow> u8 list \<Rightarrow> u64 \<Rightarrow> u8 list \<Rightarrow> ('z file_state_scheme, nat option) kop" where
  "open_inode lc path omode junk =
     (if omode AND O_CREAT lc \<noteq> 0 then
        kbind (create path T_FILE 0 0 junk) (\<lambda>r.
        case r of None \<Rightarrow> kthen end_op (kret None) | Some ip \<Rightarrow> kret (Some ip))
      else
        kbind (namei path junk) (\<lambda>r.
        case r of None \<Rightarrow> kthen end_op (kret None)
        | Some ip \<Rightarrow>
            kthen (ilock ip)
            (kbind (get_ino ip) (\<lambda>x.
             if i_type x = T_DIR \<and> omode \<noteq> (O_RDONLY lc OR O_LARGEFILE lc) then
               kthen (iunlockput ip)
               (kthen end_op
               (kret None))
             else kret (Some ip)))))"

definition open_fail :: "nat \<Rightarrow> ('z proc_sys_scheme, int) kop" where
  "open_fail ip = kthen (on_fs (iunlockput ip)) (kthen (on_fs end_op) (kret (-1)))"

definition open_done :: "libc \<Rightarrow> u64 \<Rightarrow> nat \<Rightarrow> nat \<Rightarrow> int \<Rightarrow> ('z proc_sys_scheme, int) kop" where
  "open_done lc omode ip f fd =
     kthen (on_fs (iunlock ip))
     (kthen (on_fs end_op)
     (kthen (on_fs (upd_file f (\<lambda>y. y\<lparr>f_type := FD_INODE, f_ip := ip, f_off := 0,
        f_readable := (omode AND O_WRONLY lc = 0),
        f_writable := (omode AND O_WRONLY lc \<noteq> 0 \<or> omode AND O_RDWR lc \<noteq> 0)\<rparr>)))
     (kret fd)))"

definition sys_openat :: "libc \<Rightarrow> u8 list \<Rightarrow> ('z proc_sys_scheme, int) kop" where
  "sys_openat lc junk =
     kbind (argint 0) (\<lambda>dirfd.
     kbind (argstr 1) (\<lambda>pa.
     case pa of None \<Rightarrow> kret (-1)
     | Some path \<Rightarrow>
         kbind (argint 2) (\<lambda>omode.
         if dirfd \<noteq> AT_FDCWD lc then kret (-1)
         else if omode AND O_LARGEFILE lc = 0 then kret (-1)
         else
           kthen (on_fs begin_op)
           (kbind (user_string path) (\<lambda>nm.
            kbind (on_fs (open_inode lc nm omode junk)) (\<lambda>r.
            case r of None \<Rightarrow> kret (-1)
            | Some ip \<Rightarrow>
                kbind (on_fs filealloc) (\<lambda>fr.
                case fr of None \<Rightarrow> open_fail ip
                | Some f \<Rightarrow>
                    kbind (fdalloc f) (\<lambda>fd.
                    if fd < 0 then kthen (on_fs (fileclose f)) (open_fail ip)
                    else open_done lc omode ip f fd))))))))"

text \<open>\<^verbatim>\<open>sys_mkdirat\<close> and \<^verbatim>\<open>sys_mknodat\<close> end alike.\<close>

definition create_and_put :: "u64 \<times> nat \<Rightarrow> u16 \<Rightarrow> u16 \<Rightarrow> u16 \<Rightarrow> u8 list \<Rightarrow> ('z proc_sys_scheme, int) kop" where
  "create_and_put path type maj mnr junk =
     kthen (on_fs begin_op)
     (kbind (user_string path) (\<lambda>nm.
      kbind (on_fs (create nm type maj mnr junk)) (\<lambda>r.
      case r of None \<Rightarrow> kthen (on_fs end_op) (kret (-1))
      | Some ip \<Rightarrow> kthen (on_fs (iunlockput ip)) (kthen (on_fs end_op) (kret 0)))))"

definition sys_mkdirat :: "libc \<Rightarrow> u8 list \<Rightarrow> ('z proc_sys_scheme, int) kop" where
  "sys_mkdirat lc junk =
     kbind (argint 0) (\<lambda>dirfd.
     kbind (argstr 1) (\<lambda>pa.
     case pa of None \<Rightarrow> kret (-1)
     | Some path \<Rightarrow>
         kbind (argint 2) (\<lambda>mode.
         if dirfd \<noteq> AT_FDCWD lc then kret (-1)
         else if mode \<noteq> 0 then kret (-1)
         else create_and_put path T_DIR 0 0 junk)))"

definition sys_mknodat :: "libc \<Rightarrow> u8 list \<Rightarrow> ('z proc_sys_scheme, int) kop" where
  "sys_mknodat lc junk =
     kbind (argint 0) (\<lambda>dirfd.
     kbind (argstr 1) (\<lambda>pa.
     case pa of None \<Rightarrow> kret (-1)
     | Some path \<Rightarrow>
         kbind (argint 2) (\<lambda>maj.
         kbind (argint 3) (\<lambda>mnr.
         if dirfd \<noteq> AT_FDCWD lc then kret (-1)
         else create_and_put path T_DEV (ucast maj) (ucast mnr) junk))))"

definition sys_chdir :: "u8 list \<Rightarrow> ('z proc_sys_scheme, int) kop" where
  "sys_chdir junk =
     kbind thisproc (\<lambda>p.
     kthen (on_fs begin_op)
     (kbind (argstr 0) (\<lambda>pa.
      case pa of None \<Rightarrow> kthen (on_fs end_op) (kret (-1))
      | Some path \<Rightarrow>
          kbind (user_string path) (\<lambda>nm.
          kbind (on_fs (namei nm junk)) (\<lambda>r.
          case r of None \<Rightarrow> kthen (on_fs end_op) (kret (-1))
          | Some ip \<Rightarrow>
              kthen (on_fs (ilock ip))
              (kbind (on_fs (get_ino ip)) (\<lambda>x.
               if i_type x \<noteq> T_DIR then
                 kthen (on_fs (iunlockput ip)) (kthen (on_fs end_op) (kret (-1)))
               else
                 kthen (on_fs (iunlock ip))
                 (kbind (get_proc p) (\<lambda>y.
                  case p_cwd y of None \<Rightarrow> kfault (Undef ''null inode'')
                  | Some old \<Rightarrow>
                      kthen (on_fs (iput old))
                      (kthen (on_fs end_op)
                      (kthen (upd_proc p (\<lambda>y. y\<lparr>p_cwd := Some ip\<rparr>))
                      (kret 0))))))))))))"

end
