(* ===== verification/Exec.thy ===== *)
theory Exec
  imports Sysfile
begin

text \<open>
  Loading a program, \<^verbatim>\<open>kern/exec.c\<close> and \<^verbatim>\<open>sys_exec\<close> of \<^verbatim>\<open>kern/sysfile.c\<close>. The \<^verbatim>\<open>int32_t\<close> and \<^verbatim>\<open>uint32_t\<close>
  variables are 32-bit words, sign-extended or zero-extended where the code converts them. The layout
  of the ELF headers and their constants are fields of \<open>libc\<close>.
\<close>

section \<open>Segments\<close>

text \<open>The loop of \<^verbatim>\<open>loadseg\<close>; it takes a turn per page, and one more to end.\<close>

fun loadseg_loop :: "nat \<Rightarrow> u64 \<Rightarrow> u64 \<Rightarrow> nat \<Rightarrow> u32 \<Rightarrow> u32 \<Rightarrow> u32 \<Rightarrow> ('z proc_sys_scheme, int) kop" where
  "loadseg_loop 0 pgdir va ip off sz i s = Fault Spin"
| "loadseg_loop (Suc fuel) pgdir va ip off sz i s =
     (if i < sz then
        (let n = (if sz - i \<ge> 4096 then 4096 else sz - i) in
         kbind (on_mem (pgdir_iwalk pgdir (va + ucast i))) (\<lambda>pa.
         kbind (on_fs (readi ip (ucast (off + i)) (ucast n))) (\<lambda>(r, d).
         kthen (on_mem (store_bytes (P2V pa) d))
         (if r \<noteq> int (unat n) then kret (-1)
          else loadseg_loop fuel pgdir va ip off sz (i + 4096))))) s
      else Ok 0 s)"

definition loadseg :: "u64 \<Rightarrow> u64 \<Rightarrow> nat \<Rightarrow> u32 \<Rightarrow> u32 \<Rightarrow> ('z proc_sys_scheme, int) kop" where
  "loadseg pgdir va ip off sz =
     (let va0 = ROUNDDOWN va PGSIZE; s = ucast (va mod PGSIZE) :: u32;
          n = (if 4096 - s > sz then sz else 4096 - s) in
      kbind (on_mem (pgdir_iwalk pgdir va0)) (\<lambda>pa.
      kbind (on_fs (readi ip (ucast off) (ucast n))) (\<lambda>(r, d).
      kthen (on_mem (store_bytes (P2V (pa + ucast s)) d))
      (if r \<noteq> int (unat n) then kret (-1)
       else loadseg_loop (unat (sz - n) div 4096 + 2) pgdir (va + ucast n) ip (off + n) (sz - n) 0))))"

text \<open>\<^verbatim>\<open>copyout\<close> of the bytes \<open>src\<close>; every turn but the last one fills a page.\<close>

fun copyout_loop :: "nat \<Rightarrow> u64 \<Rightarrow> u32 \<Rightarrow> u8 list \<Rightarrow> ('z mem_state_scheme, unit) kop" where
  "copyout_loop 0 pgdir dstva src s = Fault Spin"
| "copyout_loop (Suc fuel) pgdir dstva src s =
     (if src \<noteq> [] then
        (let d = ucast dstva :: u64; va0 = ROUNDDOWN d PGSIZE;
             n = min (unat (PGSIZE - (d - va0))) (length src) in
         kbind (pgdir_iwalk pgdir va0) (\<lambda>pa0.
         kthen (store_bytes (P2V (pa0 + (d - va0))) (take n src))
         (copyout_loop fuel pgdir (dstva + of_nat n) (drop n src)))) s
      else Ok () s)"

definition copyout :: "u64 \<Rightarrow> u32 \<Rightarrow> u8 list \<Rightarrow> ('z mem_state_scheme, int) kop" where
  "copyout pgdir dstva src = kthen (copyout_loop (length src + 1) pgdir dstva src) (kret 0)"


section \<open>The new image\<close>

text \<open>The loop over \<open>k\<close> more program headers; \<open>None\<close> is the result \<open>-1\<close>.\<close>

definition grow :: "u64 \<Rightarrow> u32 \<Rightarrow> u64 \<Rightarrow> ('z proc_sys_scheme, u32) kop" where
  "grow pgdir sz newsz = kbind (on_mem (uvm_alloc pgdir (scast sz) newsz)) (\<lambda>r. kret (ucast r))"

primrec load_segments :: "nat \<Rightarrow> libc \<Rightarrow> u64 \<Rightarrow> nat \<Rightarrow> u32 \<Rightarrow> u32 \<Rightarrow> ('z proc_sys_scheme, u32 option) kop" where
  "load_segments 0 lc pgdir ip off sz = kret (Some sz)"
| "load_segments (Suc k) lc pgdir ip off sz =
     kbind (on_fs (readi ip (scast off) (of_nat (phdr_size lc)))) (\<lambda>(r, d).
     if r \<noteq> int (phdr_size lc) then kret None
     else
       (let ph = dec_phdr lc d in
        if ph_type ph \<noteq> PT_LOAD lc then load_segments k lc pgdir ip (off + of_nat (phdr_size lc)) sz
        else
          kbind (grow pgdir sz (ph_memsz ph + ph_vaddr ph)) (\<lambda>sz1.
          if sz1 = 0 then kret None
          else
            kbind (if ph_vaddr ph mod PGSIZE \<noteq> 0 then grow pgdir sz1 (scast (sz1 + 4096)) else kret sz1) (\<lambda>sz2.
            if sz2 = 0 then kret None
            else
              kbind (loadseg pgdir (ph_vaddr ph) ip (ucast (ph_offset ph)) (ucast (ph_filesz ph))) (\<lambda>r.
              if r \<noteq> 0 then kret None
              else load_segments k lc pgdir ip (off + of_nat (phdr_size lc)) sz2)))))"

text \<open>The loop over the argument strings, with their addresses in \<open>ustack\<close>.\<close>

definition MAXARG :: nat where "MAXARG = 32"

definition align16 :: "u64 \<Rightarrow> u64" where
  "align16 sp = sp - sp mod 16"

primrec push_args :: "(u64 \<times> nat) list \<Rightarrow> u64 \<Rightarrow> u64 \<Rightarrow> u64 list \<Rightarrow> ('z proc_sys_scheme, u64 \<times> u64 list) kop" where
  "push_args [] pgdir sp us = kret (sp, us)"
| "push_args (a # as) pgdir sp us =
     (let sp1 = align16 (sp - (of_nat (snd a) + 1)) in
      kbind (on_mem (load_user (fst a) (snd a + 1))) (\<lambda>str.
      kbind (on_mem (copyout pgdir (ucast sp1) str)) (\<lambda>_.
      if length us + 1 \<ge> MAXARG then kfault (Undef ''ustack'')
      else push_args as pgdir sp1 (us @ [sp1]))))"

definition ustack_words :: "libc \<Rightarrow> u64 list \<Rightarrow> u64 list" where
  "ustack_words lc us = of_nat (length us) # us @ [0, 0, AT_PAGESZ lc, PGSIZE, AT_NULL lc, 0]"

definition push_ustack :: "libc \<Rightarrow> u64 \<Rightarrow> u64 \<Rightarrow> u64 list \<Rightarrow> ('z proc_sys_scheme, u64) kop" where
  "push_ustack lc pgdir sp us =
     (if length us + 7 > MAXARG then kfault (Undef ''ustack'')
      else
        (let sp1 = align16 (sp - of_nat (length us + 7) * 8) in
         kbind (on_mem (copyout pgdir (ucast sp1) (concat (map bytes_of_word (ustack_words lc us))))) (\<lambda>_.
         kret sp1)))"

text \<open>The switch to the new image; the name is copied over the 16 bytes of \<^verbatim>\<open>proc->name\<close>.\<close>

definition exec_commit :: "nat \<Rightarrow> u8 list \<Rightarrow> u64 \<Rightarrow> u32 \<Rightarrow> u64 \<Rightarrow> u64 \<Rightarrow> nat \<Rightarrow> ('z proc_sys_scheme, int) kop" where
  "exec_commit p path pgdir sz sp entry argc =
     kbind (get_proc p) (\<lambda>x.
     kthen (on_mem (store64 (word_of_struct (p_tf x) 7) (of_nat argc)))
     (kthen (on_mem (store64 (word_of_struct (p_tf x) 8) sp))
     (if length path > 16 then kfault (Undef ''proc->name'')
      else
        kthen (upd_proc p (\<lambda>x. x\<lparr>p_name := splice (p_name x) 0 path, p_sz := scast sz\<rparr>))
        (kthen (on_mem (store64 (word_of_struct (p_tf x) 5) entry))
        (kthen (on_mem (store64 (word_of_struct (p_tf x) 4) sp))
        (kthen (upd_proc p (\<lambda>x. x\<lparr>p_pgdir := pgdir\<rparr>))
        (kthen (on_mem (uvm_switch pgdir))
        (kthen (on_mem (vm_free (p_pgdir x) 0))
        (kret (int argc))))))))))"

definition exec_stack :: "libc \<Rightarrow> nat \<Rightarrow> u8 list \<Rightarrow> (u64 \<times> nat) list \<Rightarrow> u64 \<Rightarrow> u32 \<Rightarrow> u64 \<Rightarrow> ('z proc_sys_scheme, int) kop" where
  "exec_stack lc p path argv pgdir sz entry =
     (let sz1 = ucast (ROUNDUP (scast sz) PGSIZE) :: u32 in
      kbind (grow pgdir sz1 (scast (sz1 + 8192))) (\<lambda>sz2.
      if sz2 = 0 then kret (-1)
      else
        kbind (push_args argv pgdir (scast sz2) []) (\<lambda>(sp, us).
        kbind (push_ustack lc pgdir sp us) (\<lambda>sp1.
        exec_commit p path pgdir sz2 sp1 entry (length us)))))"

text \<open>
  \<^verbatim>\<open>execve\<close>: the failures after \<^verbatim>\<open>ilock\<close> return with the inode locked and the operation open.
\<close>

definition execve :: "libc \<Rightarrow> u8 list \<Rightarrow> u8 list \<Rightarrow> (u64 \<times> nat) list \<Rightarrow> ('z proc_sys_scheme, int) kop" where
  "execve lc junk path argv =
     kbind thisproc (\<lambda>p.
     kthen (on_fs begin_op)
     (kbind (on_fs (namei path junk)) (\<lambda>r.
      case r of None \<Rightarrow> kthen (on_fs end_op) (kret (-1))
      | Some ip \<Rightarrow>
          kthen (on_fs (ilock ip))
          (kbind (on_fs (readi ip 0 (of_nat (ehdr_size lc)))) (\<lambda>(r, d).
           if r \<noteq> int (ehdr_size lc) then kret (-1)
           else
             kbind (on_mem kalloc) (\<lambda>pgdir.
             if pgdir = 0 then kret (-1)
             else
               kthen (on_mem (zero_page pgdir))
               (let eh = dec_ehdr lc d in
                kbind (load_segments (unat (e_phnum eh)) lc pgdir ip (ucast (e_phoff eh)) 0) (\<lambda>sz.
                case sz of None \<Rightarrow> kret (-1)
                | Some sz \<Rightarrow>
                    kthen (on_fs (iunlockput ip))
                    (kthen (on_fs end_op)
                    (exec_stack lc p path argv pgdir sz (e_entry eh)))))))))))"

text \<open>
  The loop of \<^verbatim>\<open>sys_exec\<close>, with \<open>k\<close> free places in the array \<^verbatim>\<open>argv\<close>; \<open>None\<close> is the result \<open>-1\<close>.
\<close>

definition MAXPATH :: nat where "MAXPATH = 128"

primrec fetch_argv :: "nat \<Rightarrow> u64 \<Rightarrow> ('z proc_sys_scheme, (u64 \<times> nat) list option) kop" where
  "fetch_argv 0 uptr =
     kbind (fetchint uptr) (\<lambda>r. case r of None \<Rightarrow> kret None | Some _ \<Rightarrow> kfault (Undef ''argv''))"
| "fetch_argv (Suc k) uptr =
     kbind (fetchint uptr) (\<lambda>r.
     case r of None \<Rightarrow> kret None
     | Some uarg \<Rightarrow>
         if uarg = 0 then kret (Some [])
         else
           kbind (fetchstr uarg) (\<lambda>l.
           case l of None \<Rightarrow> kret None
           | Some n \<Rightarrow>
               kbind (fetch_argv k (uptr + 8)) (\<lambda>rest.
               kret (map_option (Cons (uarg, n)) rest))))"

definition sys_exec :: "libc \<Rightarrow> u8 list \<Rightarrow> ('z proc_sys_scheme, int) kop" where
  "sys_exec lc junk =
     kbind (argstr 0) (\<lambda>pa.
     case pa of None \<Rightarrow> kret (-1)
     | Some path \<Rightarrow>
         kbind (argint 1) (\<lambda>uargv.
         kbind (fetch_argv MAXPATH uargv) (\<lambda>av.
         case av of None \<Rightarrow> kret (-1)
         | Some argv \<Rightarrow>
             kbind (user_string path) (\<lambda>nm.
             execve lc junk nm argv))))"

end
