(* ===== verification/Syscall.thy ===== *)
theory Syscall
  imports Exec
begin

text \<open>
  The system calls on processes, \<^verbatim>\<open>kern/sysproc.c\<close>, and the dispatch of \<^verbatim>\<open>kern/syscall.c\<close>. A handler
  returns \<open>None\<close> when the process has given up its processor; the value that it returns after it has
  been resumed is then the one of \<open>resumed\<close>.
\<close>

section \<open>Processes\<close>

definition sys_yield :: "('z proc_sys_scheme, int option) kop" where
  "sys_yield = kthen yield (kret None)"

text \<open>
  \<^verbatim>\<open>cursz\<close> gets the value of the comparison, in both branches of the test of \<open>n\<close>, which do the same;
  \<^verbatim>\<open>lttbr0\<close> loads the register with the kernel's address of the page table.
\<close>

definition sys_brk :: "('z proc_sys_scheme, int) kop" where
  "sys_brk =
     kbind (argint 0) (\<lambda>n.
     kbind thisproc (\<lambda>p.
     kbind (get_proc p) (\<lambda>x.
     let oldsz = p_sz x in
     kbind (on_mem (uvm_alloc (p_pgdir x) oldsz (oldsz + n))) (\<lambda>r.
     let cursz = (if r = 0 then 1 else 0) in
     if cursz \<noteq> 0 then kret (-1)
     else
       kthen (upd_proc p (\<lambda>x. x\<lparr>p_sz := cursz\<rparr>))
       (kthen (on_mem (kmod (\<lambda>m. m\<lparr>ttbr0 := p_pgdir x\<rparr>)))
       (kret (sint oldsz)))))))"

definition sys_clone :: "('z proc_sys_scheme, int) kop" where
  "sys_clone =
     kbind (argint 0) (\<lambda>flag.
     kbind (argint 1) (\<lambda>childstk.
     if flag \<noteq> 17 then kret (-1) else fork))"

definition sys_wait4 :: "('z proc_sys_scheme, int option) kop" where
  "sys_wait4 =
     kbind (argint 0) (\<lambda>pid.
     kbind (argint 1) (\<lambda>wstatus.
     kbind (argint 2) (\<lambda>opt.
     kbind (argint 3) (\<lambda>rusage.
     if pid \<noteq> -1 \<or> wstatus \<noteq> 0 \<or> opt \<noteq> 0 \<or> rusage \<noteq> 0 then kret (Some (-1)) else wait))))"

definition sys_exit :: "('z proc_sys_scheme, int option) kop" where
  "sys_exit = kthen exit (kret None)"

text \<open>
  \<^verbatim>\<open>sys_test\<close>, without the call of \<^verbatim>\<open>test_file_system\<close> that \<^verbatim>\<open>TEST_FILE_SYSTEM\<close> adds: the test calls \<^verbatim>\<open>dirunlink\<close>, which no
  file defines. The path is \<^verbatim>\<open>"/"\<close>.
\<close>

definition sys_test :: "u8 list \<Rightarrow> ('z proc_sys_scheme, int) kop" where
  "sys_test junk =
     kthen (on_fs binit)
     (kthen (on_fs (iinit 1))
     (kthen (on_fs fileinit)
     (kbind thisproc (\<lambda>p.
      kbind (on_fs (namei [SLASH] junk)) (\<lambda>r.
      kthen (upd_proc p (\<lambda>x. x\<lparr>p_cwd := r\<rparr>))
      (kret 0))))))"

definition sys_rt_sigprocmask :: "('z proc_sys_scheme, int) kop" where
  "sys_rt_sigprocmask = kret 0"


section \<open>Dispatch\<close>

definition SYS_dup :: int where "SYS_dup = 23"
definition SYS_ioctl :: int where "SYS_ioctl = 29"
definition SYS_mknodat :: int where "SYS_mknodat = 33"
definition SYS_mkdirat :: int where "SYS_mkdirat = 34"
definition SYS_chdir :: int where "SYS_chdir = 49"
definition SYS_openat :: int where "SYS_openat = 56"
definition SYS_close :: int where "SYS_close = 57"
definition SYS_read :: int where "SYS_read = 63"
definition SYS_write :: int where "SYS_write = 64"
definition SYS_writev :: int where "SYS_writev = 66"
definition SYS_newfstatat :: int where "SYS_newfstatat = 79"
definition SYS_fstat :: int where "SYS_fstat = 80"
definition SYS_exit :: int where "SYS_exit = 93"
definition SYS_exit_group :: int where "SYS_exit_group = 94"
definition SYS_set_tid_address :: int where "SYS_set_tid_address = 96"
definition SYS_sched_yield :: int where "SYS_sched_yield = 124"
definition SYS_rt_sigprocmask :: int where "SYS_rt_sigprocmask = 135"
definition SYS_gettid :: int where "SYS_gettid = 178"
definition SYS_brk :: int where "SYS_brk = 214"
definition SYS_clone :: int where "SYS_clone = 220"
definition SYS_execve :: int where "SYS_execve = 221"
definition SYS_wait4 :: int where "SYS_wait4 = 260"
definition SYS_test :: int where "SYS_test = 440"

definition returns :: "('z proc_sys_scheme, int) kop \<Rightarrow> ('z proc_sys_scheme, int option) kop" where
  "returns m = kbind m (\<lambda>r. kret (Some r))"

definition handler :: "libc \<Rightarrow> u8 list \<Rightarrow> int \<Rightarrow> ('z proc_sys_scheme, int option) kop" where
  "handler lc junk sysno =
     (if sysno = SYS_set_tid_address \<or> sysno = SYS_gettid then kbind curproc (\<lambda>x. kret (Some (p_pid x)))
      else if sysno = SYS_ioctl then
        kbind curproc (\<lambda>x.
        kbind (on_mem (load64 (word_of_struct (p_tf x) 8))) (\<lambda>r1.
        if r1 = 0x5413 then kret (Some 0) else panic ''ioctl unimplemented. 1''))
      else if sysno = SYS_rt_sigprocmask then returns sys_rt_sigprocmask
      else if sysno = SYS_brk then returns sys_brk
      else if sysno = SYS_execve then returns (sys_exec lc junk)
      else if sysno = SYS_sched_yield then sys_yield
      else if sysno = SYS_clone then returns sys_clone
      else if sysno = SYS_wait4 then sys_wait4
      else if sysno = SYS_exit_group \<or> sysno = SYS_exit then sys_exit
      else if sysno = SYS_dup then returns sys_dup
      else if sysno = SYS_chdir then returns (sys_chdir junk)
      else if sysno = SYS_fstat then returns (sys_fstat lc)
      else if sysno = SYS_newfstatat then returns (sys_fstatat lc junk)
      else if sysno = SYS_mkdirat then returns (sys_mkdirat lc junk)
      else if sysno = SYS_mknodat then returns (sys_mknodat lc junk)
      else if sysno = SYS_openat then returns (sys_openat lc junk)
      else if sysno = SYS_writev then returns sys_writev
      else if sysno = SYS_write then returns sys_write
      else if sysno = SYS_read then returns sys_read
      else if sysno = SYS_close then returns sys_close
      else if sysno = SYS_test then returns (sys_test junk)
      else panic ''Unexpected syscall'')"

text \<open>
  The result is cut to an \<^verbatim>\<open>int\<close> and stored, sign-extended, in \<^verbatim>\<open>r0\<close>; \<^verbatim>\<open>r8\<close> is word 15 of the trap frame.
\<close>

definition to_int :: "int \<Rightarrow> int" where
  "to_int r = sint (of_int r :: u32)"

definition syscall_return :: "u64 \<Rightarrow> int \<Rightarrow> ('z proc_sys_scheme, int) kop" where
  "syscall_return tf r =
     kthen (on_mem (store64 (word_of_struct tf 7) (of_int (to_int r)))) (kret (to_int r))"

definition syscall :: "libc \<Rightarrow> u8 list \<Rightarrow> ('z proc_sys_scheme, int option) kop" where
  "syscall lc junk =
     kbind curproc (\<lambda>x.
     kbind (on_mem (load64 (word_of_struct (p_tf x) 15))) (\<lambda>r8.
     kbind (handler lc junk (sint (ucast r8 :: u32))) (\<lambda>r.
     case r of None \<Rightarrow> kret None
     | Some r \<Rightarrow> returns (syscall_return (p_tf x) r))))"

end
