(* ===== verification/Services.thy ===== *)
theory Services
  imports Console Syscall Processes
begin

text \<open>
  Properties of the console and of the system calls.
\<close>

section \<open>Console input\<close>


definition idle_console :: cons_state where
  "idle_console = file_state.extend machine \<lparr>conslock = free_lock, panicked = -1, in_buf = zeros INPUT_BUF,
     in_r = 0xFFFFFFFFFFFFFFFE, in_w = 0xFFFFFFFFFFFFFFFE, in_e = 0xFFFFFFFFFFFFFFFE, uart_out = [], cons_wakeups = 0\<rparr>"

lemma idle_console_fields: "conslock idle_console = free_lock" "panicked idle_console = -1" "in_r idle_console = in_w idle_console"
    "in_e idle_console = in_w idle_console" "in_buf idle_console = zeros INPUT_BUF"
  by (simp_all add: idle_console_def file_state.extend_def machine_def)

lemma idle_console_inv: "cons_inv idle_console" "ready idle_console = []" "edited idle_console = []"
  by (simp_all add: cons_inv_def ready_def edited_def pending_def ring_list_def idle_console_fields)


text \<open>
  C37. A line typed at an idle console, of at most 127 printable characters and a return, is what the
  next read returns, with a newline at its end, and nothing is left in the ring.
\<close>

theorem console_line:
  assumes "cons_inv s" "ready s = []" "edited s = []" "spin_free (conslock s)" "panicked s < 0" "dev_locked s ip"
    "set ln \<inter> {0, 4, 8, 10, 13, 0x10, 0x15, 0x7F} = {}" "length ln < INPUT_BUF" "length ln < n"
  shows "kok (kthen (console_intr (ln @ [13])) (console_read killed ip n))
    (\<lambda>r t. r = (int (length ln) + 1, ln @ [NEWLINE]) \<and> ready t = [] \<and> edited t = []) s"
proof -
  have "fold line_step (ln @ [13]) ([], []) = (ln @ [NEWLINE], [])"
    using plain_line[OF assms(7), of "[]" "[]"] assms(8) by (simp add: line_step_def)
  moreover have "0x10 \<notin> set (ln @ [13])" using assms(7) by auto
  note I = console_intr_ok[OF assms(1,4,5) this]
  ultimately show ?thesis unfolding kwp_kthen
  proof (intro kwp_conseq[OF I], elim conjE, goal_cases)
    case (1 a t)
    then have t: "cons_inv t" "ready t = ln @ NEWLINE # []" "edited t = []" using assms(2,3) by simp_all
    have o: "only_ring s t" using 1 by simp
    have "NEWLINE \<notin> set ln" "CTRL_D \<notin> set ln" using assms(7) by (auto simp: NEWLINE_def CTRL_D_def)
    moreover have "spin_free (conslock t)" "dev_locked t ip" using only_ringD[OF o] assms(4,6) by (auto simp: dev_locked_def)
    ultimately show ?case using console_read_line[OF t(1,2), of n ip killed] assms(9) t(3) by (auto elim!: kwp_conseq)
  qed
qed

theorem console_line_witness:
  "kok (kthen (console_intr [108, 115, 13]) (console_read False 0 100)) (\<lambda>r t. r = (3, [108, 115, 10])) idle_console"
proof -
  have "dev_locked idle_console 0"
    by (simp add: dev_locked_def idle_console_def file_state.extend_def machine_def)
  from console_line[OF idle_console_inv _ _ this, of "[108, 115]" 100 False] show ?thesis
    by (auto simp: idle_console_fields INPUT_BUF_def NEWLINE_def elim!: kwp_conseq)
qed


section \<open>Numbers printed and read\<close>

lemma signed_value: "uint x = sint x mod 2 ^ 64" "uint (- x) = (- sint (x :: u64)) mod 2 ^ 64"
    "- (2 ^ 63) \<le> sint x" "sint x < 2 ^ 63"
proof -
  show "uint x = sint x mod 2 ^ 64" using uint_sint[of x] by (simp add: take_bit_eq_mod)
  have "uint (word_of_int (- sint x) :: u64) = (- sint x) mod 2 ^ 64" using uint_word_of_int[where 'a = 64, of "- sint x"] by simp
  moreover have "word_of_int (- sint x) = - x" by simp
  ultimately show "uint (- x) = (- sint x) mod 2 ^ 64" by simp
  show "- (2 ^ 63) \<le> sint x" "sint x < 2 ^ 63" using sint_ge[of x] sint_lt[of x] by simp_all
qed

lemma nonneg_value: "0 \<le> sint (x :: u64) \<Longrightarrow> sint x = int (unat x)"
  using signed_value[of x] by simp










section \<open>System calls\<close>

text \<open>The process that calls, and argument \<open>n\<close> in its trap frame.\<close>

definition calls :: "'z proc_sys_scheme \<Rightarrow> nat \<Rightarrow> bool" where
  "calls s p \<longleftrightarrow> p_cpu s < length (cpus s) \<and> cpus s ! p_cpu s = Some p \<and> p < length (ptable s)"

definition arg :: "'z proc_sys_scheme \<Rightarrow> nat \<Rightarrow> nat \<Rightarrow> u64" where
  "arg s p n = mem (kmem s) (word_of_struct (p_tf (ptable s ! p)) (7 + n))"

definition at_cpu :: "'z proc_sys_scheme \<Rightarrow> 'z proc_sys_scheme" where
  "at_cpu s = s\<lparr>kmem := (kmem s)\<lparr>km_cpu := p_cpu s\<rparr>\<rparr>"

lemma at_cpu_simps [simp]: "ptable (at_cpu s) = ptable s" "cpus (at_cpu s) = cpus s" "p_cpu (at_cpu s) = p_cpu s"
    "kfs (at_cpu s) = kfs s" "mem (kmem (at_cpu s)) = mem (kmem s)" "calls (at_cpu s) = calls s" "arg (at_cpu s) = arg s"
    "at_cpu (at_cpu s) = at_cpu s" "ttbr0 (kmem (at_cpu s)) = ttbr0 (kmem s)"
  by (auto simp: at_cpu_def calls_def arg_def fun_eq_iff)

lemma bit_as_int: "n < 64 \<Longrightarrow> bit (as_int x) n \<longleftrightarrow> bit x (min n 31)"
  by (auto simp: as_int_def bit_simps min_def)

lemma as_int_small:
  assumes "unat len < 2 ^ 31"
  shows "as_int len = len"
proof (rule bit_word_eqI)
  have "take_bit 31 len = len" using assms by (simp add: take_bit_eq_mod word_unat_eq_iff unat_mod)
  then have hi: "bit len m \<Longrightarrow> m < 31" for m by (metis bit_take_bit_iff)
  fix n assume "n < LENGTH(64)"
  then show "bit (as_int len) n = bit len n" using bit_as_int[of n len] hi[of 31] hi[of n] by (cases "n \<le> 31") (auto simp: min_def)
qed

lemma as_int_high: "as_int (len + 2 ^ 32 * k) = as_int len"
proof -
  have m: "a mod 2 ^ 64 mod 2 ^ 32 = a mod 2 ^ 32" for a :: nat by (rule mod_mod_cancel) simp
  have "unat (2 ^ 32 * k) = (2 ^ 32 * unat k) mod 2 ^ 64" by (simp add: unat_word_ariths)
  then have "unat (2 ^ 32 * k) mod 2 ^ 32 = 0" by (simp only: m mod_mult_self1_is_0)
  moreover have "unat (len + 2 ^ 32 * k) = (unat len + unat (2 ^ 32 * k)) mod 2 ^ 64" by (simp add: unat_word_ariths)
  ultimately have "unat (len + 2 ^ 32 * k) mod 2 ^ 32 = unat len mod 2 ^ 32" by (metis m add.right_neutral mod_add_right_eq)
  then have "(ucast (len + 2 ^ 32 * k) :: u32) = ucast len"
    by (simp add: word_unat_eq_iff unsigned_ucast_eq take_bit_eq_mod)
  then show ?thesis by (simp add: as_int_def)
qed

lemma curproc_wp: "calls s p \<Longrightarrow> kwp curproc E Q s = Q (ptable s ! p) s"
  by (simp add: curproc_def kwp_kbind thisproc_wp get_proc_wp calls_def)

lemma argint_wp: "calls s p \<Longrightarrow> n \<le> 3 \<Longrightarrow> kwp (argint n) E Q s = Q (arg s p n) (at_cpu s)"
  by (simp add: argint_def kwp_kbind curproc_wp on_mem_def load64_def wp_simps at_cpu_def arg_def)

lemma argptr_wp:
  "calls s p \<Longrightarrow> n \<le> 3 \<Longrightarrow> kwp (argptr n len) E Q s =
    Q (if arg s p n \<ge> p_sz (ptable s ! p) \<or> arg s p n + as_int len > p_sz (ptable s ! p) then None else Some (arg s p n)) (at_cpu s)"
  by (simp add: argptr_def kwp_kbind argint_wp curproc_wp kwp_if kwp_kret)

text \<open>
  C35. For lengths below \<open>2 ^ 31\<close>, and processes smaller than \<open>2 ^ 63\<close> bytes, \<^verbatim>\<open>argptr\<close> accepts a pointer exactly if
  it points into the process and the whole block lies in it; the sum cannot wrap around.
\<close>

theorem argptr_bounds:
  assumes "calls s p" "n \<le> 3" "unat len < 2 ^ 31" "unat (p_sz (ptable s ! p)) < 2 ^ 63"
  shows "kok (argptr n len) (\<lambda>r t. r = (if unat (arg s p n) < unat (p_sz (ptable s ! p))
      \<and> unat (arg s p n) + unat len \<le> unat (p_sz (ptable s ! p)) then Some (arg s p n) else None) \<and> ptable t = ptable s) s"
proof -
  let ?a = "arg s p n" and ?sz = "p_sz (ptable s ! p)"
  have len: "as_int len = len" using assms(3) by (rule as_int_small)
  have "unat (?a + len) = unat ?a + unat len" if "unat ?a < unat ?sz"
    using that assms(3,4) by (simp add: unat_word_ariths)
  then have "(?a \<ge> ?sz \<or> ?a + as_int len > ?sz) \<longleftrightarrow> \<not> (unat ?a < unat ?sz \<and> unat ?a + unat len \<le> unat ?sz)"
    unfolding len word_le_nat_alt word_less_nat_alt by (cases "unat ?a < unat ?sz") (simp_all add: not_le)
  then show ?thesis by (simp add: argptr_wp[OF assms(1,2)])
qed

text \<open>
  \<^verbatim>\<open>argptr\<close> takes the length as an \<^verbatim>\<open>int\<close>: a block whose length is any multiple of 4 GiB passes the check at
  every address of the process, and \<^verbatim>\<open>sys_read\<close> and \<^verbatim>\<open>sys_write\<close> then use the full length.
\<close>

theorem argptr_truncates:
  assumes "calls s p" "n \<le> 3" "arg s p n < p_sz (ptable s ! p)"
  shows "kok (argptr n (2 ^ 32 * k)) (\<lambda>r t. r = Some (arg s p n) \<and> ptable t = ptable s) s"
proof -
  have "as_int (2 ^ 32 * k) = 0" using as_int_high[of 0 k] by (simp add: as_int_def)
  then show ?thesis using assms(3) by (simp add: argptr_wp[OF assms(1,2)] not_le)
qed

text \<open>
  A calling process: process 1 of the example with a page table, 8192 bytes of memory and its trap frame
  in the kernel; \<^verbatim>\<open>r0\<close> holds \<open>a0\<close>.
\<close>

definition caller :: "u64 \<Rightarrow> proc_sys" where
  "caller a0 = processes\<lparr>
     ptable := (ptable processes)[1 := (ptable processes ! 1)\<lparr>p_sz := 8192, p_pgdir := 0xFFFF000000200000,
       p_tf := 0xFFFF000000300000, p_ofile := (replicate NOFILE None)[0 := Some 0]\<rparr>],
     kmem := example_memory\<lparr>mem := (\<lambda>_. 0)(0xFFFF000000300038 := a0)\<rparr>\<rparr>"

lemma caller_calls: "calls (caller a0) 1"
  by (simp add: calls_def caller_def processes_def NPROC_def)

lemma caller_proc: "ptable (caller a0) ! 1 = (example_proc 1)\<lparr>p_sz := 8192, p_pgdir := 0xFFFF000000200000,
    p_tf := 0xFFFF000000300000, p_ofile := (replicate NOFILE None)[0 := Some 0]\<rparr>"
  by (simp add: caller_def NPROC_def)

lemma caller_arg: "arg (caller a0) 1 0 = a0"
  unfolding arg_def caller_proc by (simp add: caller_def word_of_struct_def)

theorem argptr_bounds_witness:
  "kok (argptr 0 92) (\<lambda>r _. r = Some 8100) (caller 8100) \<and> kok (argptr 0 93) (\<lambda>r _. r = None) (caller 8100)"
  using argptr_bounds[OF caller_calls, of 0 92 8100] argptr_bounds[OF caller_calls, of 0 93 8100]
  unfolding caller_arg caller_proc by (auto elim!: kwp_conseq)

theorem argptr_truncates_witness: "kok (argptr 0 (2 ^ 32 * 1)) (\<lambda>r _. r = Some 8100) (caller 8100)"
  using argptr_truncates[OF caller_calls, of 0 8100 1] unfolding caller_arg caller_proc by (auto elim!: kwp_conseq)

text \<open>
  C33. A process that asks for its break with \<^verbatim>\<open>brk(0)\<close>: \<^verbatim>\<open>sys_brk\<close> returns the old size, but it stores the value of
  its comparison, zero, as the size of the process, and loads the kernel's address of the page table into
  \<^verbatim>\<open>TTBR0\<close>; every pointer argument of the process is rejected from then on.
\<close>

theorem brk_clears_size:
  assumes "calls s p" "arg s p 0 = 0" "p_sz (ptable s ! p) \<noteq> 0" "n \<le> 3"
    "unat (p_sz (ptable s ! p)) < 2 ^ 63"
  shows "kok (kbind sys_brk (\<lambda>r. kbind (argptr n len) (\<lambda>a. kret (r, a)))) (\<lambda>(r, a) t.
      r = sint (p_sz (ptable s ! p)) \<and> a = None \<and> p_sz (ptable t ! p) = 0
    \<and> ttbr0 (kmem t) = p_pgdir (ptable s ! p)) s"
proof -
  let ?x = "ptable s ! p" and ?s = "at_cpu s"
  have p: "p < length (ptable s)" using assms(1) by (simp add: calls_def)
  have up: "\<not> ROUNDUP (p_sz ?x) PGSIZE < p_sz ?x" using ROUNDUP_page(2)[of "p_sz ?x"] assms(5) by (simp add: not_less)
  have alloc: "kwp (uvm_alloc (p_pgdir ?x) (p_sz ?x) (p_sz ?x)) E Q m = Q (p_sz ?x) m" for E Q m
    using up by (simp add: uvm_alloc_def Let_def add_2_eq_Suc' kwp_def)
  let ?t = "?s\<lparr>ptable := (ptable s)[p := ?x\<lparr>p_sz := 0\<rparr>], kmem := (kmem ?s)\<lparr>ttbr0 := p_pgdir ?x\<rparr>\<rparr>"
  have c: "calls ?t p" "ptable ?t ! p = ?x\<lparr>p_sz := 0\<rparr>" using assms(1) p by (simp_all add: calls_def)
  have brk: "kok sys_brk (\<lambda>r t. r = sint (p_sz ?x) \<and> t = ?t) s"
    unfolding sys_brk_def kwp_kbind argint_wp[OF assms(1) le0] assms(2)
    using assms(1,3) p
    by (simp add: thisproc_wp get_proc_wp upd_proc_wp on_mem_def wp_simps alloc calls_def Let_def at_cpu_def)
  show ?thesis unfolding kwp_kbind
    by (rule kwp_conseq[OF brk]) (use assms(4) c in \<open>auto simp: argptr_wp kwp_kret\<close>)
qed

theorem brk_clears_size_witness:
  "kok (kbind sys_brk (\<lambda>r. kbind (argptr 1 8) (\<lambda>a. kret (r, a)))) (\<lambda>(r, a) t. r = 8192 \<and> a = None) (caller 0)"
  using brk_clears_size[OF caller_calls, of 0 1 8] unfolding caller_arg caller_proc
  by (auto elim!: kwp_conseq)

lemma small_nonneg: "unat (x :: u64) < 2 ^ 63 \<Longrightarrow> sint x = int (unat x)"
proof -
  assume x: "unat x < 2 ^ 63"
  show ?thesis
  proof (cases "0 \<le> sint x")
    case False
    then have "(sint x + 2 ^ 64) mod 2 ^ 64 = sint x + 2 ^ 64" using signed_value(3)[of x] by (intro mod_pos_pos_trivial) simp_all
    then have "uint x = sint x + 2 ^ 64" using signed_value(1)[of x] by (simp only: mod_add_self2)
    then have "2 ^ 63 \<le> int (unat x)" using signed_value(3)[of x] by simp
    then show ?thesis using x by (metis not_less of_nat_less_iff of_nat_numeral of_nat_power)
  qed (rule nonneg_value)
qed

lemma find_upt_least: "List.find P [0..<n] = Some i \<Longrightarrow> \<forall>j<i. \<not> P j"
  by (auto simp: find_Some_iff)

text \<open>
  C34. \<^verbatim>\<open>sys_dup\<close> of an open descriptor returns the least free descriptor, which then denotes the same open file
  as the old one, with one reference more; when no descriptor is free it returns -1 and changes nothing.
\<close>

theorem dup_least:
  assumes "calls s p" "unat (arg s p 0) < NOFILE" "length (p_ofile (ptable s ! p)) = NOFILE"
    "p_ofile (ptable s ! p) ! unat (arg s p 0) = Some f" "ft_inv (kfs s)" "f < NFILE"
  shows "kok sys_dup (\<lambda>r t. case List.find (\<lambda>fd. p_ofile (ptable s ! p) ! fd = None) [0..<NOFILE] of
      None \<Rightarrow> r = -1 \<and> ptable t = ptable s \<and> kfs t = kfs s
    | Some fd \<Rightarrow> r = int fd \<and> (\<forall>i<fd. p_ofile (ptable s ! p) ! i \<noteq> None)
       \<and> ptable t = (ptable s)[p := (ptable s ! p)\<lparr>p_ofile := (p_ofile (ptable s ! p))[fd := Some f]\<rparr>]
       \<and> f_ref (ftable (kfs t) ! f) = f_ref (ftable (kfs s) ! f) + 1) s"
proof -
  let ?x = "ptable s ! p" and ?s = "at_cpu s"
  have p: "p < length (ptable s)" using assms(1) by (simp add: calls_def)
  have "unat (arg s p 0) < 2 ^ 63" using assms(2) by (simp add: NOFILE_def)
  then have "sint (arg s p 0) = int (unat (arg s p 0))" using small_nonneg by simp
  then have "\<not> (sint (arg s p 0) < 0 \<or> sint (arg s p 0) \<ge> int NOFILE)" using assms(2) by (metis not_less of_nat_0_le_iff of_nat_less_iff)
  then have fd: "kwp (argfd 0) E Q s = Q (Some (unat (arg s p 0), f)) ?s" for E Q
    unfolding argfd_def kwp_kbind argint_wp[OF assms(1) le0]
    using assms(1,4) by (simp only: if_False kwp_kbind) (simp add: curproc_wp kwp_kret)
  have dup: "kok (on_fs (filedup f)) (\<lambda>_ u. ptable u = ptable t
      \<and> f_ref (ftable (kfs u) ! f) = f_ref (ftable (kfs t) ! f) + 1) t" if "kfs t = kfs s" for t
  proof -
    have v: "ft_inv (fs_view t)" "ftable (fs_view t) = ftable (kfs t)"
      using assms(5) that by (simp_all add: fs_view_def ft_inv_def split: option.split)
    then have "length (ftable (kfs t)) = NFILE" using ft_invD(2) by metis
    then show ?thesis using v(2) assms(6) filedup_run[OF v(1) assms(6)] by (simp add: on_fs_def kwp_zoom) (simp add: kwp_def)
  qed
  show ?thesis unfolding sys_dup_def kwp_kbind fd option.case prod.case fdalloc_def
  proof (subst curproc_wp[of ?s p], goal_cases)
    case 1 then show ?case using assms(1) by simp
  next
    case 2
    show ?case
    proof (cases "List.find (\<lambda>fd. p_ofile ?x ! fd = None) [0..<NOFILE]")
      case None then show ?thesis by (simp add: wp_simps)
    next
      case (Some fd)
      have least: "\<forall>i<fd. p_ofile ?x ! i \<noteq> None" using Some find_upt_least by blast
      let ?t = "?s\<lparr>ptable := (ptable s)[p := ?x\<lparr>p_ofile := (p_ofile ?x)[fd := Some f]\<rparr>]\<rparr>"
      have "kwp (set_ofile fd (Some f)) E Q ?s = Q () ?t" for E Q
        using assms(1) p by (simp add: set_ofile_def kwp_kbind thisproc_wp upd_proc_wp calls_def)
      then show ?thesis using Some least dup[of ?t]
        by (auto simp: kwp_kthen kwp_kret kwp_kbind elim!: kwp_conseq)
    qed
  qed
qed

theorem dup_least_witness:
  "kok sys_dup (\<lambda>r t. r = 1 \<and> p_ofile (ptable t ! 1) ! 1 = Some 0 \<and> f_ref (ftable (kfs t) ! 0) = 2) (caller 0)"
proof -
  have x: "p_ofile (ptable (caller 0) ! 1) = Some 0 # replicate 15 None" unfolding caller_proc by (simp add: NOFILE_def numeral_nat)
  have "[0..<NOFILE] = 0 # 1 # [2..<NOFILE]" by (simp add: NOFILE_def upt_conv_Cons)
  then have find: "List.find (\<lambda>fd. p_ofile (ptable (caller 0) ! 1) ! fd = None) [0..<NOFILE] = Some 1" unfolding x by simp
  have fs: "kfs (caller 0) = machine" "length (ptable (caller 0)) = NPROC" by (simp_all add: caller_def processes_def)
  have "0 < NOFILE" "0 < NFILE" "1 < NPROC" by (simp_all add: NOFILE_def NFILE_def NPROC_def)
  then have "kok sys_dup (\<lambda>r t. case List.find (\<lambda>fd. p_ofile (ptable (caller 0) ! 1) ! fd = None) [0..<NOFILE] of
      None \<Rightarrow> r = -1 \<and> ptable t = ptable (caller 0) \<and> kfs t = kfs (caller 0)
    | Some fd \<Rightarrow> r = int fd \<and> (\<forall>i<fd. p_ofile (ptable (caller 0) ! 1) ! i \<noteq> None)
       \<and> ptable t = (ptable (caller 0))[1 := (ptable (caller 0) ! 1)\<lparr>p_ofile := (p_ofile (ptable (caller 0) ! 1))[fd := Some 0]\<rparr>]
       \<and> f_ref (ftable (kfs t) ! 0) = f_ref (ftable (kfs (caller 0)) ! 0) + 1) (caller 0)"
    by (intro dup_least[OF caller_calls]) (simp_all add: x caller_arg fs machine_ft NOFILE_def del: One_nat_def)
  then show ?thesis unfolding find using fs \<open>1 < NPROC\<close> machine_files(1)
    by (auto simp: x simp del: One_nat_def elim!: kwp_conseq) simp
qed

end
