(* ===== verification/Shell.thy ===== *)
theory Shell
  imports Sysfile
begin

text \<open>
  The shell, \<^verbatim>\<open>user/src/sh/main.c\<close>: the recursive-descent parser, which builds its command structures in
  the static array of \<^verbatim>\<open>malloc1\<close> and keeps pointers into the line, and the execution of a command.

  The heap maps the offset in that array to the structure that was allocated there; a pointer to a
  structure is that offset, \<open>None\<close> for the null pointer. Pointers into the line are addresses of \<open>sh_line\<close>.
  \<^verbatim>\<open>panic\<close> of the shell prints its message and exits with status 1: it is the fault \<open>Panic\<close>, as is the
  exit of \<^verbatim>\<open>malloc1\<close>. Sizes of structures are those of AArch64. \<^verbatim>\<open>strchr\<close> and \<^verbatim>\<open>strlen\<close> are the functions of
  the standard library; \<^verbatim>\<open>strchr\<close> also finds the terminating zero.
\<close>

section \<open>Commands\<close>

definition MAXARGS :: nat where "MAXARGS = 10"
definition MAXN :: nat where "MAXN = 10000"

type_synonym cptr = "nat option"

datatype cmd =
    EXEC "nat option list" "nat option list"
  | REDIR cptr nat nat u64 int
  | PIPE cptr cptr
  | LIST cptr cptr
  | BACK cptr

record shell =
  sh_line :: mem
  sh_heap :: "nat \<Rightarrow> cmd"
  sh_used :: nat

definition sizeof_cmd :: "cmd \<Rightarrow> nat" where
  "sizeof_cmd c = (case c of EXEC _ _ \<Rightarrow> 168 | REDIR _ _ _ _ _ \<Rightarrow> 40 | PIPE _ _ \<Rightarrow> 24 | LIST _ _ \<Rightarrow> 24 | BACK _ \<Rightarrow> 16)"

definition malloc1 :: "nat \<Rightarrow> (shell, nat) kop" where
  "malloc1 sz =
     kthen (kmod (\<lambda>s. s\<lparr>sh_used := sh_used s + sz\<rparr>))
     (kbind (kget sh_used) (\<lambda>i.
      if i > MAXN then panic ''malloc1: memory used out'' else kret (i - sz)))"

text \<open>The constructors: allocate a structure, clear it and fill in its fields.\<close>

definition new_cmd :: "cmd \<Rightarrow> (shell, cptr) kop" where
  "new_cmd c = kbind (malloc1 (sizeof_cmd c)) (\<lambda>a.
     kthen (kmod (\<lambda>s. s\<lparr>sh_heap := (sh_heap s)(a := c)\<rparr>)) (kret (Some a)))"

definition execcmd :: "(shell, cptr) kop" where
  "execcmd = new_cmd (EXEC (replicate MAXARGS None) (replicate MAXARGS None))"

definition redircmd :: "cptr \<Rightarrow> nat \<Rightarrow> nat \<Rightarrow> u64 \<Rightarrow> int \<Rightarrow> (shell, cptr) kop" where
  "redircmd subcmd file efile mode fd = new_cmd (REDIR subcmd file efile mode fd)"

definition pipecmd :: "cptr \<Rightarrow> cptr \<Rightarrow> (shell, cptr) kop" where
  "pipecmd l r = new_cmd (PIPE l r)"

definition listcmd :: "cptr \<Rightarrow> cptr \<Rightarrow> (shell, cptr) kop" where
  "listcmd l r = new_cmd (LIST l r)"

definition backcmd :: "cptr \<Rightarrow> (shell, cptr) kop" where
  "backcmd subcmd = new_cmd (BACK subcmd)"


section \<open>Tokens\<close>

definition bytes :: "string \<Rightarrow> u8 list" where
  "bytes = map of_char"

definition whitespace :: "u8 list" where "whitespace = [32, 9, 13, 10, 11]"
definition symbols :: "u8 list" where "symbols = bytes ''<|>&;()''"

definition found :: "u8 list \<Rightarrow> u8 \<Rightarrow> bool" where
  "found str c = (c \<in> set str \<or> c = 0)"

function skip_blanks :: "mem \<Rightarrow> nat \<Rightarrow> nat \<Rightarrow> nat" where
  "skip_blanks m s es = (if s < es \<and> found whitespace (m s) then skip_blanks m (Suc s) es else s)"
  by pat_completeness auto
termination
  by (relation "measure (\<lambda>(m, s, es). es - s)") auto

function word_end :: "mem \<Rightarrow> nat \<Rightarrow> nat \<Rightarrow> nat" where
  "word_end m s es =
     (if s < es \<and> \<not> found whitespace (m s) \<and> \<not> found symbols (m s) then word_end m (Suc s) es else s)"
  by pat_completeness auto
termination
  by (relation "measure (\<lambda>(m, s, es). es - s)") auto

declare skip_blanks.simps [simp del] word_end.simps [simp del]

text \<open>
  The result is the token's code, its first and last address (\<^verbatim>\<open>*q\<close> and \<^verbatim>\<open>*eq\<close>, which some callers do
  not ask for) and the new \<^verbatim>\<open>*ps\<close>.
\<close>

definition token_at :: "mem \<Rightarrow> nat \<Rightarrow> nat \<Rightarrow> u8 \<times> nat" where
  "token_at m s es =
     (if m s = 0 then (0, s)
      else if m s \<in> set (bytes ''|();&<'') then (m s, Suc s)
      else if m s = of_char (CHR ''>'') then
        (if m (Suc s) = of_char (CHR ''>'') then (of_char (CHR ''+''), Suc (Suc s)) else (m s, Suc s))
      else (of_char (CHR ''a''), word_end m s es))"

definition gettoken :: "nat \<Rightarrow> nat \<Rightarrow> (shell, u8 \<times> nat \<times> nat \<times> nat) kop" where
  "gettoken es s =
     kbind (kget sh_line) (\<lambda>m.
     let q = skip_blanks m s es; (ret, eq) = token_at m q es in kret (ret, q, eq, skip_blanks m eq es))"

definition peek :: "nat \<Rightarrow> string \<Rightarrow> nat \<Rightarrow> (shell, bool \<times> nat) kop" where
  "peek es toks s =
     kbind (kget sh_line) (\<lambda>m.
     let s' = skip_blanks m s es in kret (m s' \<noteq> 0 \<and> found (bytes toks) (m s'), s'))"


section \<open>The parser\<close>

text \<open>
  Every routine takes the end of the line and the position \<^verbatim>\<open>*ps\<close> and returns the new position. The
  recursion is bounded by fuel; \<open>parsecmd\<close> gives enough for the length of the line.
\<close>

fun parseredirs :: "libc \<Rightarrow> nat \<Rightarrow> nat \<Rightarrow> cptr \<Rightarrow> nat \<Rightarrow> (shell, cptr \<times> nat) kop" where
  "parseredirs lc 0 es cmd s = kfault Spin"
| "parseredirs lc (Suc k) es cmd s =
     kbind (peek es ''<>'' s) (\<lambda>(b, s).
     if \<not> b then kret (cmd, s)
     else
       kbind (gettoken es s) (\<lambda>(tok, _, _, s).
       kbind (gettoken es s) (\<lambda>(w, q, eq, s).
       if w \<noteq> of_char (CHR ''a'') then panic ''missing file for redirection''
       else
         kbind (if tok = of_char (CHR ''<'') then redircmd cmd q eq (O_RDONLY lc) 0
                else if tok = of_char (CHR ''>'') then redircmd cmd q eq (O_WRONLY lc OR O_CREAT lc) 1
                else if tok = of_char (CHR ''+'') then redircmd cmd q eq (O_WRONLY lc OR O_CREAT lc) 1
                else kret cmd) (\<lambda>cmd.
         parseredirs lc k es cmd s))))"

text \<open>\<open>cmd->argv[i] = q; cmd->eargv[i] = eq;\<close>\<close>

definition set_arg :: "cptr \<Rightarrow> nat \<Rightarrow> nat option \<Rightarrow> nat option \<Rightarrow> (shell, unit) kop" where
  "set_arg cmd i q eq =
     kbind (deref cmd) (\<lambda>a.
     kbind (kget (\<lambda>s. sh_heap s a)) (\<lambda>c.
     case c of
       EXEC av ev \<Rightarrow>
         if i < length av then kmod (\<lambda>s. s\<lparr>sh_heap := (sh_heap s)(a := EXEC (av[i := q]) (ev[i := eq]))\<rparr>)
         else kfault (Undef ''array index'')
     | _ \<Rightarrow> kfault (Undef ''struct execcmd'')))"

text \<open>The loop of \<^verbatim>\<open>parseexec\<close> over the arguments.\<close>

fun parseargs :: "libc \<Rightarrow> nat \<Rightarrow> nat \<Rightarrow> cptr \<Rightarrow> cptr \<Rightarrow> nat \<Rightarrow> nat \<Rightarrow> (shell, cptr \<times> nat \<times> nat) kop" where
  "parseargs lc 0 es cmd ret argc s = kfault Spin"
| "parseargs lc (Suc k) es cmd ret argc s =
     kbind (peek es ''|)&;'' s) (\<lambda>(b, s).
     if b then kret (ret, argc, s)
     else
       kbind (gettoken es s) (\<lambda>(tok, q, eq, s).
       if tok = 0 then kret (ret, argc, s)
       else if tok \<noteq> of_char (CHR ''a'') then panic ''syntax''
       else
         kthen (set_arg cmd argc (Some q) (Some eq))
         (if Suc argc \<ge> MAXARGS then panic ''too many args''
          else kbind (parseredirs lc k es ret s) (\<lambda>(ret, s). parseargs lc k es cmd ret (Suc argc) s))))"

text \<open>The loop of \<^verbatim>\<open>parseline\<close> over the ampersands.\<close>

fun parsebacks :: "nat \<Rightarrow> nat \<Rightarrow> cptr \<Rightarrow> nat \<Rightarrow> (shell, cptr \<times> nat) kop" where
  "parsebacks 0 es cmd s = kfault Spin"
| "parsebacks (Suc k) es cmd s =
     kbind (peek es ''&'' s) (\<lambda>(b, s).
     if \<not> b then kret (cmd, s)
     else
       kbind (gettoken es s) (\<lambda>(_, _, _, s).
       kbind (backcmd cmd) (\<lambda>cmd. parsebacks k es cmd s)))"

fun parseline :: "libc \<Rightarrow> nat \<Rightarrow> nat \<Rightarrow> nat \<Rightarrow> (shell, cptr \<times> nat) kop"
and parsepipe :: "libc \<Rightarrow> nat \<Rightarrow> nat \<Rightarrow> nat \<Rightarrow> (shell, cptr \<times> nat) kop"
and parseexec :: "libc \<Rightarrow> nat \<Rightarrow> nat \<Rightarrow> nat \<Rightarrow> (shell, cptr \<times> nat) kop"
and parseblock :: "libc \<Rightarrow> nat \<Rightarrow> nat \<Rightarrow> nat \<Rightarrow> (shell, cptr \<times> nat) kop" where
  "parseline lc 0 es s = kfault Spin"
| "parseline lc (Suc k) es s =
     kbind (parsepipe lc k es s) (\<lambda>(cmd, s).
     kbind (parsebacks k es cmd s) (\<lambda>(cmd, s).
     kbind (peek es '';'' s) (\<lambda>(b, s).
     if b then
       kbind (gettoken es s) (\<lambda>(_, _, _, s).
       kbind (parseline lc k es s) (\<lambda>(r, s).
       kbind (listcmd cmd r) (\<lambda>cmd. kret (cmd, s))))
     else kret (cmd, s))))"
| "parsepipe lc 0 es s = kfault Spin"
| "parsepipe lc (Suc k) es s =
     kbind (parseexec lc k es s) (\<lambda>(cmd, s).
     kbind (peek es ''|'' s) (\<lambda>(b, s).
     if b then
       kbind (gettoken es s) (\<lambda>(_, _, _, s).
       kbind (parsepipe lc k es s) (\<lambda>(r, s).
       kbind (pipecmd cmd r) (\<lambda>cmd. kret (cmd, s))))
     else kret (cmd, s)))"
| "parseexec lc 0 es s = kfault Spin"
| "parseexec lc (Suc k) es s =
     kbind (peek es ''('' s) (\<lambda>(b, s).
     if b then parseblock lc k es s
     else
       kbind execcmd (\<lambda>cmd.
       kbind (parseredirs lc k es cmd s) (\<lambda>(ret, s).
       kbind (parseargs lc k es cmd ret 0 s) (\<lambda>(ret, argc, s).
       kthen (set_arg cmd argc None None) (kret (ret, s))))))"
| "parseblock lc 0 es s = kfault Spin"
| "parseblock lc (Suc k) es s =
     kbind (peek es ''('' s) (\<lambda>(b, s).
     if \<not> b then panic ''parseblock''
     else
       kbind (gettoken es s) (\<lambda>(_, _, _, s).
       kbind (parseline lc k es s) (\<lambda>(cmd, s).
       kbind (peek es '')'' s) (\<lambda>(b, s).
       if \<not> b then panic ''syntax - missing )''
       else
         kbind (gettoken es s) (\<lambda>(_, _, _, s).
         parseredirs lc k es cmd s)))))"

text \<open>
  \<^verbatim>\<open>nulterminate\<close> follows pointers to structures that were allocated before; its fuel is one more than
  the address. \<open>\<^verbatim>\<open>*p = 0\<close>\<close> for a null pointer is undefined.
\<close>

definition put_nul :: "nat \<Rightarrow> (shell, unit) kop" where
  "put_nul p = kmod (\<lambda>s. s\<lparr>sh_line := (sh_line s)(p := 0)\<rparr>)"

fun nul_args :: "nat option list \<Rightarrow> nat option list \<Rightarrow> (shell, unit) kop" where
  "nul_args (Some q # av) (Some e # ev) = kthen (put_nul e) (nul_args av ev)"
| "nul_args (None # av) ev = kret ()"
| "nul_args _ _ = kfault (Undef ''array index'')"

fun nulterminate :: "nat \<Rightarrow> cptr \<Rightarrow> (shell, unit) kop" where
  "nulterminate k None = kret ()"
| "nulterminate 0 (Some a) = kfault Spin"
| "nulterminate (Suc k) (Some a) =
     kbind (kget (\<lambda>s. sh_heap s a)) (\<lambda>c.
     case c of
       EXEC av ev \<Rightarrow> nul_args av ev
     | REDIR cmd file efile mode fd \<Rightarrow> kthen (nulterminate k cmd) (put_nul efile)
     | PIPE l r \<Rightarrow> kthen (nulterminate k l) (nulterminate k r)
     | LIST l r \<Rightarrow> kthen (nulterminate k l) (nulterminate k r)
     | BACK cmd \<Rightarrow> nulterminate k cmd)"

definition parsecmd :: "libc \<Rightarrow> nat \<Rightarrow> (shell, cptr) kop" where
  "parsecmd lc s =
     kbind (kget sh_line) (\<lambda>m.
     case strlen (at m s) of None \<Rightarrow> kfault (Undef ''strlen'')
     | Some n \<Rightarrow>
         (let es = s + n in
          kbind (parseline lc (4 * n + 4) es s) (\<lambda>(cmd, s).
          kbind (peek es '''' s) (\<lambda>(_, s).
          if s \<noteq> es then panic ''syntax''
          else kthen (nulterminate (Suc MAXN) cmd) (kret cmd)))))"


section \<open>Running commands\<close>

text \<open>
  What a process of the shell does, as a tree of its system calls: a call whose result matters takes the
  function that continues with it. \<open>Fork\<close> continues with 0 in the child and with the process number in the
  parent; \<open>Pipe_call f\<close> with \<open>f r p0 p1\<close>, the result and the two descriptors stored in \<^verbatim>\<open>p\<close>. The strings that
  a call gets are their bytes, \<open>None\<close> if there is no terminating zero. \<open>Stuck\<close> is the model running out of fuel.
\<close>

type_synonym str = "u8 list option"

datatype act =
    Exit int
  | Stuck
  | Undefined
  | Fprintf string "str list" act
  | Execv str "str list" act
  | Close int act
  | Open str u64 "int \<Rightarrow> act"
  | Dup int "int \<Rightarrow> act"
  | Pipe_call "int \<Rightarrow> int \<Rightarrow> int \<Rightarrow> act"
  | Fork "int \<Rightarrow> act"
  | Wait act
  | Chdir str "int \<Rightarrow> act"

definition string_at :: "mem \<Rightarrow> nat \<Rightarrow> str" where
  "string_at m q = map_option (\<lambda>n. map m [q..<q + n]) (strlen (at m q))"

definition strings_at :: "mem \<Rightarrow> nat option list \<Rightarrow> str list" where
  "strings_at m av = map (\<lambda>p. string_at m (the p)) (takeWhile (\<lambda>p. p \<noteq> None) av)"

definition sh_panic :: "string \<Rightarrow> act" where
  "sh_panic s = Fprintf ''%s'' [Some (bytes s)] (Exit 1)"

definition fork1 :: "(int \<Rightarrow> act) \<Rightarrow> act" where
  "fork1 f = Fork (\<lambda>pid. if pid = -1 then sh_panic ''fork'' else f pid)"

fun runcmd :: "nat \<Rightarrow> shell \<Rightarrow> cptr \<Rightarrow> act" where
  "runcmd k st None = Exit 0"
| "runcmd 0 st (Some a) = Stuck"
| "runcmd (Suc k) st (Some a) = (case sh_heap st a of
     EXEC av ev \<Rightarrow> (case av ! 0 of
         None \<Rightarrow> Exit 0
       | Some q \<Rightarrow> Execv (string_at (sh_line st) q) (strings_at (sh_line st) av)
           (Fprintf ''exec %s failed'' [string_at (sh_line st) q] (Exit 0)))
   | REDIR cmd file efile mode fd \<Rightarrow>
       Close fd (Open (string_at (sh_line st) file) mode (\<lambda>r.
         if r < 0 then Fprintf ''open %s failed'' [string_at (sh_line st) file] (Exit 1) else runcmd k st cmd))
   | LIST l r \<Rightarrow> fork1 (\<lambda>pid. if pid = 0 then runcmd k st l else Wait (runcmd k st r))
   | PIPE l r \<Rightarrow>
       Pipe_call (\<lambda>res p0 p1.
         if res < 0 then sh_panic ''pipe''
         else fork1 (\<lambda>pid.
           if pid = 0 then Close 1 (Dup p1 (\<lambda>_. Close p0 (Close p1 (runcmd k st l))))
           else fork1 (\<lambda>pid.
             if pid = 0 then Close 0 (Dup p0 (\<lambda>_. Close p0 (Close p1 (runcmd k st r))))
             else Close p0 (Close p1 (Wait (Wait (Exit 0)))))))
   | BACK cmd \<Rightarrow> fork1 (\<lambda>pid. if pid = 0 then runcmd k st cmd else Exit 0))"

text \<open>
  The main loop reads the lines that \<^verbatim>\<open>fgets\<close> delivers into a cleared buffer; no line is the end of
  the input. The child has its own copy of the memory, so that the parser of one line does not change
  what the parent sees.
\<close>

definition getcmd :: "u8 list \<Rightarrow> shell \<Rightarrow> shell" where
  "getcmd bs st = st\<lparr>sh_line := (\<lambda>i. if i < length bs then bs ! i else 0)\<rparr>"

definition run_line :: "libc \<Rightarrow> shell \<Rightarrow> act" where
  "run_line lc st = (case parsecmd lc 0 st of
       Ok cmd st' \<Rightarrow> runcmd (Suc MAXN) st' cmd
     | Fault (Panic m) \<Rightarrow> sh_panic m
     | Fault _ \<Rightarrow> Undefined)"

fun sh_loop :: "libc \<Rightarrow> shell \<Rightarrow> u8 list list \<Rightarrow> act" where
  "sh_loop lc st [] = Fprintf ''$ '' [] (Exit 0)"
| "sh_loop lc st (bs # lines) = Fprintf ''$ '' []
     (let st = getcmd bs st; m = sh_line st in
      if m 0 = 0 then Exit 0
      else if m 0 = of_char (CHR ''c'') \<and> m 1 = of_char (CHR ''d'') \<and> m 2 = of_char (CHR '' '') then
        (case strlen m of
           None \<Rightarrow> Undefined
         | Some n \<Rightarrow>
             let m = m(n - 1 := 0) in
             Chdir (string_at m 3) (\<lambda>r.
               (if r < 0 then Fprintf ''cannot cd %s'' [string_at m 3] else id)
               (sh_loop lc (st\<lparr>sh_line := m\<rparr>) lines)))
      else fork1 (\<lambda>pid. if pid = 0 then run_line lc st else Wait (sh_loop lc st lines)))"

text \<open>\<^verbatim>\<open>main\<close> first opens the console until the descriptors 0, 1 and 2 are in use; that takes four turns at most.\<close>

fun open_console :: "libc \<Rightarrow> nat \<Rightarrow> act \<Rightarrow> act" where
  "open_console lc 0 rest = Stuck"
| "open_console lc (Suc k) rest = Open (Some (bytes ''console'')) (O_RDWR lc) (\<lambda>fd.
     if fd \<ge> 0 then if fd \<ge> 3 then Close fd rest else open_console lc k rest
     else rest)"

definition sh_main :: "libc \<Rightarrow> shell \<Rightarrow> u8 list list \<Rightarrow> act" where
  "sh_main lc st lines = open_console lc 4 (sh_loop lc st lines)"

end
