(* ===== verification/Shell_Parse.thy ===== *)
theory Shell_Parse
  imports Shell
begin

text \<open>
  Correctness of the shell's parser in two steps. The first abstracts the line to its sequence of tokens and
  the heap of structures to a syntax tree: the parser simulates a parser on tokens, error for error.
  The second is about that one: it always ends, and it inverts the printing of trees as tokens. At the
  end \<^verbatim>\<open>nulterminate\<close> turns every word of the tree into a C string.
\<close>

section \<open>Tokens of a line\<close>

datatype token = Sym u8 | GtGt | Word "u8 list"

definition blank :: "u8 \<Rightarrow> bool" where "blank c = (c \<in> set whitespace)"

definition wordchar :: "u8 \<Rightarrow> bool" where
  "wordchar c = (\<not> found whitespace c \<and> \<not> found symbols c)"

abbreviation gt :: u8 where "gt \<equiv> of_char (CHR ''>'')"

fun lexeme :: "mem \<Rightarrow> nat \<Rightarrow> nat \<Rightarrow> token \<Rightarrow> bool" where
  "lexeme m q e (Sym c) = (m q = c \<and> c \<in> set symbols \<and> e = Suc q \<and> (c = gt \<longrightarrow> m e \<noteq> gt))"
| "lexeme m q e GtGt = (m q = gt \<and> m (Suc q) = gt \<and> e = Suc (Suc q))"
| "lexeme m q e (Word w) = (w \<noteq> [] \<and> list_all wordchar w \<and> (\<forall>i<length w. m (q + i) = w ! i)
     \<and> e = q + length w \<and> \<not> wordchar (m e))"

text \<open>The line from \<open>s\<close> to its end at \<open>es\<close> is the tokens, with blanks before, between and behind them.\<close>

fun spells :: "mem \<Rightarrow> nat \<Rightarrow> nat \<Rightarrow> token list \<Rightarrow> bool" where
  "spells m es s [] = (s \<le> es \<and> (\<forall>i. s \<le> i \<and> i < es \<longrightarrow> blank (m i)) \<and> m es = 0)"
| "spells m es s (t # ts) = (\<exists>q e. s \<le> q \<and> (\<forall>i. s \<le> i \<and> i < q \<longrightarrow> blank (m i)) \<and> lexeme m q e t \<and> spells m es e ts)"

fun tok_first :: "token \<Rightarrow> u8" where
  "tok_first (Sym c) = c"
| "tok_first GtGt = gt"
| "tok_first (Word w) = hd w"

fun tok_code :: "token option \<Rightarrow> u8" where
  "tok_code None = 0"
| "tok_code (Some (Sym c)) = c"
| "tok_code (Some GtGt) = of_char (CHR ''+'')"
| "tok_code (Some (Word w)) = of_char (CHR ''a'')"

lemma symbols_eq: "symbols = [60, 124, 62, 38, 59, 40, 41]"
  by (simp add: symbols_def bytes_def)

lemma lexeme_end: "lexeme m q e t \<Longrightarrow> q < e"
  by (cases t) auto

lemma lexeme_first: "lexeme m q e t \<Longrightarrow> m q = tok_first t"
  by (cases t) (auto simp: hd_conv_nth)

lemma lexeme_not_blank: "lexeme m q e t \<Longrightarrow> \<not> found whitespace (m q)"
  by (cases t) (auto simp: symbols_eq found_def whitespace_def wordchar_def list_all_length)

lemma lexeme_nonzero: "lexeme m q e t \<Longrightarrow> m q \<noteq> 0"
  using lexeme_not_blank by (auto simp: found_def)

lemma spells_le: "spells m es s ts \<Longrightarrow> s \<le> es \<and> m es = 0"
proof (induction ts arbitrary: s)
  case (Cons t ts)
  then show ?case using lexeme_end by fastforce
qed simp

lemma spells_length: "spells m es s ts \<Longrightarrow> length ts \<le> es - s"
proof (induction ts arbitrary: s)
  case (Cons t ts)
  then obtain q e where "s \<le> q" "lexeme m q e t" "spells m es e ts" by auto
  with Cons.IH[of e] lexeme_end[of m q e t] spells_le[of m es e ts] show ?case by auto
qed simp

lemma skip_blanks_eq:
  assumes "s \<le> q" "q \<le> es" "\<forall>i. s \<le> i \<and> i < q \<longrightarrow> blank (m i)" "q = es \<or> \<not> found whitespace (m q)"
  shows "skip_blanks m s es = q"
  using assms
proof (induction "q - s" arbitrary: s)
  case 0
  then show ?case by (subst skip_blanks.simps) auto
next
  case (Suc n)
  then have "blank (m s)" "s < q" by auto
  then have "skip_blanks m s es = skip_blanks m (Suc s) es"
    using Suc.prems by (subst skip_blanks.simps) (auto simp: blank_def found_def)
  also have "\<dots> = q" using Suc by auto
  finally show ?case .
qed

lemma spells_skip:
  assumes "spells m es s ts"
  shows "spells m es (skip_blanks m s es) ts"
    and "case ts of [] \<Rightarrow> skip_blanks m s es = es
         | t # ts' \<Rightarrow> \<exists>e. lexeme m (skip_blanks m s es) e t \<and> spells m es e ts'"
proof -
  have "spells m es (skip_blanks m s es) ts \<and> (case ts of [] \<Rightarrow> skip_blanks m s es = es
    | t # ts' \<Rightarrow> \<exists>e. lexeme m (skip_blanks m s es) e t \<and> spells m es e ts')"
  proof (cases ts)
    case Nil
    then have "skip_blanks m s es = es" using assms by (intro skip_blanks_eq) auto
    then show ?thesis using Nil assms by auto
  next
    case (Cons t ts')
    then obtain q e where q: "s \<le> q" "\<forall>i. s \<le> i \<and> i < q \<longrightarrow> blank (m i)" "lexeme m q e t" "spells m es e ts'"
      using assms by auto
    then have "skip_blanks m s es = q"
      using lexeme_end[OF q(3)] spells_le[OF q(4)] lexeme_not_blank[OF q(3)] by (intro skip_blanks_eq) auto
    then show ?thesis using Cons q by auto
  qed
  then show "spells m es (skip_blanks m s es) ts" "case ts of [] \<Rightarrow> skip_blanks m s es = es
    | t # ts' \<Rightarrow> \<exists>e. lexeme m (skip_blanks m s es) e t \<and> spells m es e ts'" by auto
qed

lemma word_end_eq:
  assumes "\<forall>i<n. wordchar (m (q + i))" "q + n \<le> es" "\<not> wordchar (m (q + n))"
  shows "word_end m q es = q + n"
  using assms
proof (induction n arbitrary: q)
  case 0
  then show ?case by (subst word_end.simps) (auto simp: wordchar_def)
next
  case (Suc n)
  have "wordchar (m q)" "q < es" using Suc.prems by auto
  then have "word_end m q es = word_end m (Suc q) es" by (subst word_end.simps) (auto simp: wordchar_def)
  also have "\<dots> = Suc q + n" using Suc.prems by (intro Suc.IH) force+
  finally show ?case by simp
qed

lemma token_at_lexeme:
  assumes "lexeme m q e t" "e \<le> es"
  shows "token_at m q es = (tok_code (Some t), e)"
proof (cases t)
  case (Sym c)
  then show ?thesis using assms lexeme_nonzero[OF assms(1)] by (auto simp: token_at_def symbols_eq bytes_def)
next
  case GtGt
  then show ?thesis using assms by (simp add: token_at_def bytes_def)
next
  case (Word w)
  then have "wordchar (m q)" using assms by (auto simp: list_all_length)
  then have "m q \<noteq> 0" "m q \<notin> set (bytes ''|();&<'')" "m q \<noteq> gt"
    by (auto simp: wordchar_def found_def symbols_eq bytes_def)
  moreover have "word_end m q es = e"
    using Word assms word_end_eq[of "length w" m q es] by (auto simp: list_all_length)
  ultimately show ?thesis using Word by (simp add: token_at_def)
qed

lemma lexeme_code_nonzero: "lexeme m q e t \<Longrightarrow> tok_code (Some t) \<noteq> 0"
  by (cases t) (auto simp: symbols_eq)

lemma lexeme_code_word: "lexeme m q e t \<Longrightarrow> tok_code (Some t) = of_char (CHR ''a'') \<longleftrightarrow> (\<exists>w. t = Word w)"
  by (cases t) (auto simp: symbols_eq)


lemma peek_spells:
  assumes "spells (sh_line st) es s ts"
  shows "\<exists>s'. peek es toks s st = Ok (case ts of [] \<Rightarrow> False | t # _ \<Rightarrow> tok_first t \<in> set (bytes toks), s') st
    \<and> spells (sh_line st) es s' ts"
proof -
  let ?s = "skip_blanks (sh_line st) s es"
  have "(sh_line st ?s \<noteq> 0 \<and> found (bytes toks) (sh_line st ?s))
    = (case ts of [] \<Rightarrow> False | t # _ \<Rightarrow> tok_first t \<in> set (bytes toks))"
    using spells_skip[OF assms] spells_le[OF assms] lexeme_first lexeme_nonzero
    by (fastforce split: list.splits simp: found_def)
  then show ?thesis using spells_skip(1)[OF assms] by (simp add: peek_def Let_def)
qed

lemma gettoken_end:
  assumes "spells (sh_line st) es s []"
  shows "\<exists>q e s'. gettoken es s st = Ok (0, q, e, s') st \<and> spells (sh_line st) es s' []"
proof -
  have "skip_blanks (sh_line st) s es = es" "skip_blanks (sh_line st) es es = es" "sh_line st es = 0"
    using spells_skip(2)[OF assms] assms by (auto simp: skip_blanks.simps)
  then show ?thesis by (auto simp: gettoken_def token_at_def Let_def)
qed

lemma gettoken_spells:
  assumes "spells (sh_line st) es s (t # ts)"
  shows "\<exists>q e s'. gettoken es s st = Ok (tok_code (Some t), q, e, s') st \<and> lexeme (sh_line st) q e t
    \<and> spells (sh_line st) es s' ts"
proof -
  let ?q = "skip_blanks (sh_line st) s es"
  obtain e where e: "lexeme (sh_line st) ?q e t" "spells (sh_line st) es e ts"
    using spells_skip(2)[OF assms] by auto
  have "token_at (sh_line st) ?q es = (tok_code (Some t), e)"
    using e spells_le by (blast intro: token_at_lexeme)
  then show ?thesis using e spells_skip(1)[OF e(2)] by (simp add: gettoken_def Let_def)
qed


declare lexeme.simps [simp del] spells.simps [simp del]


section \<open>Trees and the parser on tokens\<close>

text \<open>The boolean of a redirection says whether it is one of the output.\<close>

datatype ast = Exec "u8 list list" | Redir ast "u8 list" bool | Pipe ast ast | Seq ast ast | Back ast

type_synonym pstate = "nat \<times> token list"

definition aalloc :: "nat \<Rightarrow> (pstate, unit) kop" where
  "aalloc n = (\<lambda>(u, ts). if u + n > MAXN then Fault (Panic ''malloc1: memory used out'') else Ok () (u + n, ts))"

definition apeek :: "string \<Rightarrow> (pstate, bool) kop" where
  "apeek toks = (\<lambda>(u, ts). Ok (case ts of [] \<Rightarrow> False | t # _ \<Rightarrow> tok_first t \<in> set (bytes toks)) (u, ts))"

definition anext :: "(pstate, token option) kop" where
  "anext = (\<lambda>(u, ts). case ts of [] \<Rightarrow> Ok None (u, []) | t # ts' \<Rightarrow> Ok (Some t) (u, ts'))"

primrec add_arg :: "ast \<Rightarrow> u8 list \<Rightarrow> ast" where
  "add_arg (Exec ws) w = Exec (ws @ [w])"
| "add_arg (Redir c f b) w = Redir (add_arg c w) f b"
| "add_arg (Pipe l r) w = Pipe l r"
| "add_arg (Seq l r) w = Seq l r"
| "add_arg (Back c) w = Back c"

fun aredirs :: "nat \<Rightarrow> ast \<Rightarrow> (pstate, ast) kop" where
  "aredirs 0 c = kfault Spin"
| "aredirs (Suc k) c =
     kbind (apeek ''<>'') (\<lambda>b.
     if \<not> b then kret c
     else
       kbind anext (\<lambda>tok.
       kbind anext (\<lambda>w.
       case w of
         Some (Word f) \<Rightarrow> kthen (aalloc 40) (aredirs k (Redir c f (tok \<noteq> Some (Sym (of_char (CHR ''<''))))))
       | _ \<Rightarrow> panic ''missing file for redirection'')))"

fun aargs :: "nat \<Rightarrow> ast \<Rightarrow> nat \<Rightarrow> (pstate, ast) kop" where
  "aargs 0 c n = kfault Spin"
| "aargs (Suc k) c n =
     kbind (apeek ''|)&;'') (\<lambda>b.
     if b then kret c
     else
       kbind anext (\<lambda>tok.
       case tok of
         None \<Rightarrow> kret c
       | Some (Word w) \<Rightarrow>
           if Suc n \<ge> MAXARGS then panic ''too many args''
           else kbind (aredirs k (add_arg c w)) (\<lambda>c. aargs k c (Suc n))
       | _ \<Rightarrow> panic ''syntax''))"

fun abacks :: "nat \<Rightarrow> ast \<Rightarrow> (pstate, ast) kop" where
  "abacks 0 c = kfault Spin"
| "abacks (Suc k) c =
     kbind (apeek ''&'') (\<lambda>b.
     if \<not> b then kret c else kbind anext (\<lambda>_. kthen (aalloc 16) (abacks k (Back c))))"

fun aline :: "nat \<Rightarrow> (pstate, ast) kop"
and apipe :: "nat \<Rightarrow> (pstate, ast) kop"
and aexec :: "nat \<Rightarrow> (pstate, ast) kop"
and ablock :: "nat \<Rightarrow> (pstate, ast) kop" where
  "aline 0 = kfault Spin"
| "aline (Suc k) =
     kbind (apipe k) (\<lambda>c.
     kbind (abacks k c) (\<lambda>c.
     kbind (apeek '';'') (\<lambda>b.
     if b then kbind anext (\<lambda>_. kbind (aline k) (\<lambda>r. kthen (aalloc 24) (kret (Seq c r))))
     else kret c)))"
| "apipe 0 = kfault Spin"
| "apipe (Suc k) =
     kbind (aexec k) (\<lambda>c.
     kbind (apeek ''|'') (\<lambda>b.
     if b then kbind anext (\<lambda>_. kbind (apipe k) (\<lambda>r. kthen (aalloc 24) (kret (Pipe c r))))
     else kret c))"
| "aexec 0 = kfault Spin"
| "aexec (Suc k) =
     kbind (apeek ''('') (\<lambda>b.
     if b then ablock k
     else kthen (aalloc 168) (kbind (aredirs k (Exec [])) (\<lambda>c. aargs k c 0)))"
| "ablock 0 = kfault Spin"
| "ablock (Suc k) =
     kbind (apeek ''('') (\<lambda>b.
     if \<not> b then panic ''parseblock''
     else
       kbind anext (\<lambda>_.
       kbind (aline k) (\<lambda>c.
       kbind (apeek '')'') (\<lambda>b.
       if \<not> b then panic ''syntax - missing )'' else kbind anext (\<lambda>_. aredirs k c)))))"


section \<open>Simulation\<close>

text \<open>
  \<open>W q e w\<close> says that the word \<open>w\<close> lies from \<open>q\<close> to \<open>e\<close>. A structure is above those it points to; all of
  them are below \<open>u\<close>.
\<close>

definition rmode :: "libc \<Rightarrow> bool \<Rightarrow> u64" where
  "rmode lc out = (if out then O_WRONLY lc OR O_CREAT lc else O_RDONLY lc)"

definition argvec :: "nat list \<Rightarrow> nat option list" where
  "argvec qs = map Some qs @ replicate (MAXARGS - length qs) None"

primrec rep :: "(nat \<Rightarrow> nat \<Rightarrow> u8 list \<Rightarrow> bool) \<Rightarrow> libc \<Rightarrow> (nat \<Rightarrow> cmd) \<Rightarrow> nat \<Rightarrow> cptr \<Rightarrow> ast \<Rightarrow> bool" where
  "rep W lc h u p (Exec ws) = (\<exists>a qs es. p = Some a \<and> a < u \<and> h a = EXEC (argvec qs) (argvec es)
     \<and> length qs = length ws \<and> length es = length ws \<and> length ws < MAXARGS \<and> (\<forall>i<length ws. W (qs ! i) (es ! i) (ws ! i)))"
| "rep W lc h u p (Redir c f out) = (\<exists>a p' q e. p = Some a \<and> a < u \<and> h a = REDIR p' q e (rmode lc out) (of_bool out)
     \<and> W q e f \<and> rep W lc h a p' c)"
| "rep W lc h u p (Pipe l r) = (\<exists>a pl pr. p = Some a \<and> a < u \<and> h a = PIPE pl pr \<and> rep W lc h a pl l \<and> rep W lc h a pr r)"
| "rep W lc h u p (Seq l r) = (\<exists>a pl pr. p = Some a \<and> a < u \<and> h a = LIST pl pr \<and> rep W lc h a pl l \<and> rep W lc h a pr r)"
| "rep W lc h u p (Back c) = (\<exists>a p'. p = Some a \<and> a < u \<and> h a = BACK p' \<and> rep W lc h a p' c)"

lemma rep_mono: "rep W lc h u p t \<Longrightarrow> u \<le> v \<Longrightarrow> rep W lc h v p t"
  by (cases t) fastforce+

lemma rep_frame: "rep W lc h u p t \<Longrightarrow> \<forall>a<u. h' a = h a \<Longrightarrow> rep W lc h' u p t"
proof (induction t arbitrary: u p)
  case (Exec ws)
  then show ?case by (simp add: ex_simps) metis
next
  case (Redir t f out)
  then obtain a p' q e where a: "p = Some a" "a < u" "h a = REDIR p' q e (rmode lc out) (of_bool out)" "W q e f"
    "rep W lc h a p' t" by auto
  moreover have "rep W lc h' a p' t" by (rule Redir.IH[OF a(5)]) (use a Redir.prems in auto)
  ultimately show ?case using Redir.prems by auto
next
  case (Pipe l r)
  then obtain a pl pr where a: "p = Some a" "a < u" "h a = PIPE pl pr" "rep W lc h a pl l" "rep W lc h a pr r" by auto
  have "rep W lc h' a pl l" "rep W lc h' a pr r"
    using a Pipe.prems by (auto intro: Pipe.IH(1)[OF a(4)] Pipe.IH(2)[OF a(5)])
  then show ?case using a Pipe.prems by auto
next
  case (Seq l r)
  then obtain a pl pr where a: "p = Some a" "a < u" "h a = LIST pl pr" "rep W lc h a pl l" "rep W lc h a pr r" by auto
  have "rep W lc h' a pl l" "rep W lc h' a pr r"
    using a Seq.prems by (auto intro: Seq.IH(1)[OF a(4)] Seq.IH(2)[OF a(5)])
  then show ?case using a Seq.prems by auto
next
  case (Back t)
  then obtain a p' where a: "p = Some a" "a < u" "h a = BACK p'" "rep W lc h a p' t" by auto
  moreover have "rep W lc h' a p' t" by (rule Back.IH[OF a(4)]) (use a Back.prems in auto)
  ultimately show ?case using Back.prems by auto
qed

text \<open>The structure at \<open>c\<close> is the innermost one of a chain of redirections, with \<open>n\<close> arguments.\<close>

primrec inner :: "(nat \<Rightarrow> cmd) \<Rightarrow> nat \<Rightarrow> nat \<Rightarrow> cptr \<Rightarrow> ast \<Rightarrow> bool" where
  "inner h c n p (Exec ws) = (p = Some c \<and> n = length ws)"
| "inner h c n p (Redir t f out) = (\<exists>a p' q e md fd. p = Some a \<and> h a = REDIR p' q e md fd \<and> inner h c n p' t)"
| "inner h c n p (Pipe l r) = False"
| "inner h c n p (Seq l r) = False"
| "inner h c n p (Back t) = False"

lemma inner_frame: "inner h c n p t \<Longrightarrow> rep W lc h u p t \<Longrightarrow> \<forall>a<u. h' a = h a \<Longrightarrow> inner h' c n p t"
proof (induction t arbitrary: u p)
  case (Redir t f out)
  from Redir.prems obtain a p' q e where a: "p = Some a" "a < u" "h a = REDIR p' q e (rmode lc out) (of_bool out)"
    "rep W lc h a p' t" "inner h c n p' t" by auto
  have "inner h' c n p' t" by (rule Redir.IH[OF a(5) a(4)]) (use a Redir.prems in auto)
  then show ?case using a Redir.prems by auto
qed auto

lemma rep_inner:
  assumes "rep W lc h u p t" "inner h c n p t"
  shows "c < u \<and> n < MAXARGS \<and> (\<exists>qs es. h c = EXEC (argvec qs) (argvec es) \<and> length qs = n \<and> length es = n)"
  using assms
proof (induction t arbitrary: u p)
  case (Exec ws)
  then show ?case by auto
next
  case (Redir t f out)
  then obtain a p' where "a < u" "rep W lc h a p' t" "inner h c n p' t" by auto
  then show ?case using Redir.IH by fastforce
qed auto

lemma argvec_update: "length qs = n \<Longrightarrow> n < MAXARGS \<Longrightarrow> (argvec qs)[n := Some q] = argvec (qs @ [q])"
  by (auto simp: argvec_def list_update_append Suc_diff_Suc[symmetric])

lemma argvec_update_None: "length qs = n \<Longrightarrow> n < MAXARGS \<Longrightarrow> (argvec qs)[n := None] = argvec qs"
  by (auto simp: argvec_def list_update_append Suc_diff_Suc[symmetric])

lemma length_argvec [simp]: "length qs < MAXARGS \<Longrightarrow> length (argvec qs) = MAXARGS"
  by (simp add: argvec_def)

lemma rep_add_arg:
  assumes "rep W lc h u p t" "inner h c n p t" "h c = EXEC av ev" "W q e w" "Suc n < MAXARGS"
  defines "h' \<equiv> h(c := EXEC (av[n := Some q]) (ev[n := Some e]))"
  shows "rep W lc h' u p (add_arg t w) \<and> inner h' c (Suc n) p (add_arg t w)"
  using assms(1,2)
proof (induction t arbitrary: u p)
  case (Exec ws)
  then have n: "p = Some c" "length ws = n" by simp_all
  then obtain qs es where a: "c < u" "h c = EXEC (argvec qs) (argvec es)" "length qs = n" "length es = n"
    "n < MAXARGS" "\<forall>i<n. W (qs ! i) (es ! i) (ws ! i)"
    using Exec.prems(1) unfolding rep.simps by blast
  note a = a n a(2)[unfolded assms(3), simplified, THEN conjunct1] a(2)[unfolded assms(3), simplified, THEN conjunct2]
  have "h' c = EXEC (argvec (qs @ [q])) (argvec (es @ [e]))" using a by (simp add: h'_def argvec_update)
  moreover have "\<forall>i<Suc n. W ((qs @ [q]) ! i) ((es @ [e]) ! i) ((ws @ [w]) ! i)"
    using a assms(4) by (auto simp: nth_append less_Suc_eq)
  ultimately show ?case using a assms(5) unfolding add_arg.simps rep.simps inner.simps
    by (intro conjI exI[of _ c] exI[of _ "qs @ [q]"] exI[of _ "es @ [e]"]) simp_all
next
  case (Redir t f out)
  then obtain a p' q' e' where a: "p = Some a" "a < u" "h a = REDIR p' q' e' (rmode lc out) (of_bool out)" "W q' e' f"
    "rep W lc h a p' t" "inner h c n p' t" by auto
  have "c < a" using rep_inner[OF a(5,6)] by simp
  then show ?case using a Redir.IH[OF a(5,6)] by (auto simp: h'_def)
qed auto

definition simat :: "('s, 'a) kop \<Rightarrow> 's \<Rightarrow> ('t, 'b) kop \<Rightarrow> 't \<Rightarrow> ('a \<Rightarrow> 's \<Rightarrow> 'b \<Rightarrow> 't \<Rightarrow> bool) \<Rightarrow> bool" where
  "simat c s a t Q = (case c s of
       Ok x s' \<Rightarrow> (case a t of Ok y t' \<Rightarrow> Q x s' y t' | Fault _ \<Rightarrow> False)
     | Fault e \<Rightarrow> a t = Fault e)"

lemma simat_bind:
  assumes "simat c s a t R" "\<And>x s' y t'. R x s' y t' \<Longrightarrow> simat (f x) s' (g y) t' Q"
  shows "simat (kbind c f) s (kbind a g) t Q"
proof (cases "c s")
  case (Ok x s')
  then obtain y t' where "a t = Ok y t'" "R x s' y t'"
    using assms(1) by (auto simp: simat_def split: outcome.splits)
  then show ?thesis using assms(2)[of x s' y t'] Ok by (simp add: simat_def kbind_def split: outcome.splits)
qed (use assms(1) in \<open>simp add: simat_def kbind_def\<close>)

lemma simat_conseq: "simat c s a t R \<Longrightarrow> (\<And>x s' y t'. R x s' y t' \<Longrightarrow> Q x s' y t') \<Longrightarrow> simat c s a t Q"
  by (auto simp: simat_def split: outcome.splits)

lemma simat_left: "c s = Ok x s' \<Longrightarrow> simat (f x) s' a t Q \<Longrightarrow> simat (kbind c f) s a t Q"
  by (simp add: simat_def)

lemma simat_right: "a t = Ok y t' \<Longrightarrow> simat c s (g y) t' Q \<Longrightarrow> simat c s (kbind a g) t Q"
  by (simp add: simat_def kbind_def split: outcome.splits)

lemma simat_ret [simp]: "simat (kret x) s (kret y) t Q = Q x s y t"
  by (simp add: simat_def)

lemma simat_fault [simp]: "simat (kfault e) s (kfault e) t Q"
  by (simp add: simat_def)

text \<open>The line is not changed by the parser; \<open>adds\<close> says that it only adds structures.\<close>

definition at_toks :: "mem \<Rightarrow> nat \<Rightarrow> nat \<Rightarrow> shell \<Rightarrow> pstate \<Rightarrow> bool" where
  "at_toks m es s st ps = (sh_line st = m \<and> sh_used st = fst ps \<and> spells m es s (snd ps))"

definition adds :: "nat \<Rightarrow> shell \<Rightarrow> shell \<Rightarrow> bool" where
  "adds u st st' = (u \<le> sh_used st' \<and> (\<forall>a<u. sh_heap st' a = sh_heap st a))"

abbreviation lexw :: "mem \<Rightarrow> nat \<Rightarrow> nat \<Rightarrow> u8 list \<Rightarrow> bool" where
  "lexw m \<equiv> \<lambda>q e w. lexeme m q e (Word w)"

lemma adds_refl: "u \<le> sh_used st \<Longrightarrow> adds u st st"
  by (simp add: adds_def)

lemma adds_trans: "adds u st st' \<Longrightarrow> adds v st' st'' \<Longrightarrow> u \<le> v \<Longrightarrow> adds u st st''"
  by (auto simp: adds_def)

lemma simat_peek:
  assumes "at_toks m es s st ps"
    "\<And>b s'. at_toks m es s' st ps \<Longrightarrow> b = (case snd ps of [] \<Rightarrow> False | t # _ \<Rightarrow> tok_first t \<in> set (bytes toks))
      \<Longrightarrow> simat (f (b, s')) st (g b) ps Q"
  shows "simat (kbind (peek es toks s) f) st (kbind (apeek toks) g) ps Q"
proof -
  obtain u ts where ps: "ps = (u, ts)" by force
  let ?b = "case ts of [] \<Rightarrow> False | t # _ \<Rightarrow> tok_first t \<in> set (bytes toks)"
  obtain s' where p: "peek es toks s st = Ok (?b, s') st" "spells m es s' ts"
    using peek_spells[of st es s ts toks] assms(1) ps by (auto simp: at_toks_def)
  have a: "apeek toks ps = Ok ?b ps" by (simp add: apeek_def ps)
  show ?thesis
    by (rule simat_left[of "peek es toks s" st, OF p(1)], rule simat_right[of "apeek toks" ps, OF a], rule assms(2))
      (use assms(1) p(2) ps in \<open>auto simp: at_toks_def split: list.splits\<close>)
qed

lemma simat_next:
  assumes "at_toks m es s st ps"
    "\<And>tok q e s' ps'. at_toks m es s' st ps' \<Longrightarrow> fst ps' = fst ps \<Longrightarrow> (case tok of None \<Rightarrow> True | Some t \<Rightarrow> lexeme m q e t)
      \<Longrightarrow> snd ps = (case tok of None \<Rightarrow> [] | Some t \<Rightarrow> t # snd ps')
      \<Longrightarrow> simat (f (tok_code tok, q, e, s')) st (g tok) ps' Q"
  shows "simat (kbind (gettoken es s) f) st (kbind anext g) ps Q"
proof -
  obtain u ts where ps: "ps = (u, ts)" by force
  show ?thesis
  proof (cases ts)
    case Nil
    then obtain q e s' where "gettoken es s st = Ok (0, q, e, s') st" "spells m es s' []"
      using gettoken_end[of st es s] assms(1) ps by (auto simp: at_toks_def)
    then show ?thesis using assms(1) assms(2)[where tok = None and s' = s' and ps' = ps] ps Nil
      by (intro simat_left simat_right) (auto simp: anext_def at_toks_def)
  next
    case (Cons t ts')
    then obtain q e s' where "gettoken es s st = Ok (tok_code (Some t), q, e, s') st" "spells m es s' ts'" "lexeme m q e t"
      using gettoken_spells[of st es s t ts'] assms(1) ps by (auto simp: at_toks_def)
    then show ?thesis using assms(1) assms(2)[where tok = "Some t" and q = q and e = e and s' = s' and ps' = "(u, ts')"] ps Cons
      by (intro simat_left simat_right) (auto simp: anext_def at_toks_def)
  qed
qed

lemma simat_new:
  assumes "at_toks m es s st ps"
    "\<And>ps' st'. at_toks m es s st' ps' \<Longrightarrow> sh_used st < sh_used st' \<Longrightarrow> fst ps' = fst ps + sizeof_cmd c
      \<Longrightarrow> sh_heap st' = (sh_heap st)(sh_used st := c) \<Longrightarrow> simat (f (Some (sh_used st))) st' g ps' Q"
  shows "simat (kbind (new_cmd c) f) st (kthen (aalloc (sizeof_cmd c)) g) ps Q"
proof (cases "fst ps + sizeof_cmd c > MAXN")
  case True
  then have "new_cmd c st = Fault (Panic ''malloc1: memory used out'')" "aalloc (sizeof_cmd c) ps = Fault (Panic ''malloc1: memory used out'')"
    using assms(1) by (auto simp: new_cmd_def malloc1_def at_toks_def aalloc_def split: prod.splits)
  then show ?thesis by (simp add: simat_def)
next
  case False
  let ?st = "st\<lparr>sh_used := sh_used st + sizeof_cmd c, sh_heap := (sh_heap st)(sh_used st := c)\<rparr>"
  have n: "new_cmd c st = Ok (Some (sh_used st)) ?st" "aalloc (sizeof_cmd c) ps = Ok () (fst ps + sizeof_cmd c, snd ps)"
    using False assms(1) by (auto simp: new_cmd_def malloc1_def at_toks_def aalloc_def split: prod.splits)
  have "0 < sizeof_cmd c" by (simp add: sizeof_cmd_def split: cmd.split)
  then show ?thesis unfolding kthen_def
    by (intro simat_left[of "new_cmd c" st, OF n(1)] simat_right[of "aalloc (sizeof_cmd c)" ps, OF n(2)] assms(2)) (use assms(1) in \<open>simp_all add: at_toks_def\<close>)
qed

text \<open>What every parsing routine promises: its pointer represents the tree, older structures are kept.\<close>

definition parsed :: "libc \<Rightarrow> mem \<Rightarrow> nat \<Rightarrow> shell \<Rightarrow> cptr \<times> nat \<Rightarrow> shell \<Rightarrow> ast \<Rightarrow> pstate \<Rightarrow> bool" where
  "parsed lc m es st r st' t ps' = (at_toks m es (snd r) st' ps' \<and> rep (lexw m) lc (sh_heap st') (sh_used st') (fst r) t
     \<and> adds (sh_used st) st st')"

lemma parsed_trans: "parsed lc m es st' r st'' t ps \<Longrightarrow> adds (sh_used st) st st' \<Longrightarrow> parsed lc m es st r st'' t ps"
  unfolding parsed_def by (meson adds_trans adds_def)

lemma rep_adds:
  assumes "rep W lc (sh_heap st) u p t" "adds u st st'" "u \<le> v"
  shows "rep W lc (sh_heap st') v p t"
  by (rule rep_mono[OF rep_frame[OF assms(1)] assms(3)]) (use assms(2) in \<open>auto simp: adds_def\<close>)

lemma adds_new:
  "sh_heap st' = (sh_heap st)(sh_used st := c) \<Longrightarrow> sh_used st < sh_used st' \<Longrightarrow> adds (sh_used st) st st'"
  by (auto simp: adds_def)

lemma redir_choice:
  assumes "lexeme m q0 e0 t" "tok_first t \<in> set (bytes ''<>'')"
  shows "(if tok_code (Some t) = of_char (CHR ''<'') then redircmd cmd q eq (O_RDONLY lc) 0
      else if tok_code (Some t) = of_char (CHR ''>'') then redircmd cmd q eq (O_WRONLY lc OR O_CREAT lc) 1
      else if tok_code (Some t) = of_char (CHR ''+'') then redircmd cmd q eq (O_WRONLY lc OR O_CREAT lc) 1
      else kret cmd)
    = new_cmd (REDIR cmd q eq (rmode lc (Some t \<noteq> Some (Sym (of_char (CHR ''<''))))) (of_bool (Some t \<noteq> Some (Sym (of_char (CHR ''<''))))))"
proof (cases t)
  case (Word w)
  then have "wordchar (hd w)" using assms(1) by (auto simp: lexeme.simps list_all_iff)
  then show ?thesis using assms(2) Word by (auto simp: wordchar_def found_def symbols_eq bytes_def)
qed (use assms in \<open>auto simp: redircmd_def rmode_def bytes_def\<close>)

lemma parseredirs_sim:
  assumes "at_toks m es s st ps" "rep (lexw m) lc (sh_heap st) (sh_used st) cmd t"
  shows "simat (parseredirs lc k es cmd s) st (aredirs k t) ps
    (\<lambda>r st' t' ps'. parsed lc m es st r st' t' ps'
      \<and> (\<forall>c n. inner (sh_heap st) c n cmd t \<longrightarrow> inner (sh_heap st') c n (fst r) t'))"
  using assms
proof (induction k arbitrary: s st ps cmd t)
  case (Suc k)
  show ?case unfolding parseredirs.simps aredirs.simps
  proof (rule simat_peek[OF Suc.prems(1)], goal_cases)
    case (1 b s1)
    show ?case
    proof (cases b)
      case False
      then show ?thesis using 1 Suc.prems by (simp add: parsed_def adds_refl)
    next
      case True
      then obtain tk where tk: "hd (snd ps) = tk" "snd ps \<noteq> []" "tok_first tk \<in> set (bytes ''<>'')"
        using 1(2) by (auto split: list.splits)
      have b: "(\<not> b) = False" using True by simp
      show ?thesis unfolding case_prod_conv b if_False
      proof (rule simat_next[OF 1(1)], goal_cases)
        case (1 tok q0 e0 s2 ps2)
        then have tok: "tok = Some tk" "lexeme m q0 e0 tk" using tk by (auto split: option.splits)
        show ?case unfolding case_prod_conv
        proof (rule simat_next[OF 1(1)], goal_cases)
          case (1 w q e s3 ps3)
          show ?case
          proof (cases "\<exists>f. w = Some (Word f)")
            case False
            then have "tok_code w \<noteq> of_char (CHR ''a'')" using 1(3) lexeme_code_word[of m q e]
              by (cases w) auto
            then show ?thesis using False by (auto split: option.split token.split)
          next
            case True
            then obtain f where f: "w = Some (Word f)" "lexeme m q e (Word f)" using 1(3) by auto
            let ?out = "tok \<noteq> Some (Sym (of_char (CHR ''<'')))"
            let ?c = "REDIR cmd q e (rmode lc ?out) (of_bool ?out)"
            have "simat (kbind (new_cmd ?c) (\<lambda>cmd. parseredirs lc k es cmd s3)) st
              (kthen (aalloc (sizeof_cmd ?c)) (aredirs k (Redir t f ?out))) ps3
              (\<lambda>r st' t' ps'. parsed lc m es st r st' t' ps'
                \<and> (\<forall>c n. inner (sh_heap st) c n cmd t \<longrightarrow> inner (sh_heap st') c n (fst r) t'))"
            proof (rule simat_new[OF 1(1)], goal_cases)
              case (1 ps4 st4)
              have g: "adds (sh_used st) st st4" by (rule adds_new[OF 1(4,2)])
              have "rep (lexw m) lc (sh_heap st4) (sh_used st) cmd t" by (rule rep_adds[OF Suc.prems(2) g]) simp
              then have "rep (lexw m) lc (sh_heap st4) (sh_used st4) (Some (sh_used st)) (Redir t f ?out)"
                using 1 f by simp
              moreover have "inner (sh_heap st4) c n (Some (sh_used st)) (Redir t f ?out)" if "inner (sh_heap st) c n cmd t" for c n
                using inner_frame[OF that Suc.prems(2)] 1 by simp
              ultimately show ?case using 1(1) by (intro simat_conseq[OF Suc.IH]) (auto intro: parsed_trans[OF _ g])
            qed
            then show ?thesis unfolding tok(1) using f redir_choice[OF tok(2) tk(3), of cmd q e lc]
              by (simp add: sizeof_cmd_def)
          qed
        qed
      qed
    qed
  qed
qed simp

lemma set_arg_run:
  "sh_heap st c = EXEC av ev \<Longrightarrow> n < length av \<Longrightarrow>
    set_arg (Some c) n q e st = Ok () (st\<lparr>sh_heap := (sh_heap st)(c := EXEC (av[n := q]) (ev[n := e]))\<rparr>)"
  by (simp add: set_arg_def deref_def)

lemma parseargs_sim:
  assumes "at_toks m es s st ps" "rep (lexw m) lc (sh_heap st) (sh_used st) ret t" "inner (sh_heap st) c n ret t"
  shows "simat (parseargs lc k es (Some c) ret n s) st (aargs k t n) ps
    (\<lambda>(p, argc, s') st' t' ps'. at_toks m es s' st' ps' \<and> rep (lexw m) lc (sh_heap st') (sh_used st') p t'
      \<and> adds c st st' \<and> inner (sh_heap st') c argc p t' \<and> sh_used st \<le> sh_used st')"
  using assms
proof (induction k arbitrary: s st ps ret t n)
  case (Suc k)
  obtain qs rs where c: "c < sh_used st" "n < MAXARGS" "sh_heap st c = EXEC (argvec qs) (argvec rs)" "length qs = n"
    using rep_inner[OF Suc.prems(2,3)] by blast
  show ?case unfolding parseargs.simps aargs.simps
  proof (rule simat_peek[OF Suc.prems(1)], goal_cases)
    case (1 b s1)
    show ?case
    proof (cases b)
      case True
      then show ?thesis using 1 Suc.prems c by (simp add: adds_refl)
    next
      case False
      show ?thesis unfolding case_prod_conv if_not_P[OF False]
      proof (rule simat_next[OF 1(1)], goal_cases)
        case (1 tok q e s2 ps2)
        consider "tok = None" | (err) t where "tok = Some t" "\<nexists>w. t = Word w" | (word) w where "tok = Some (Word w)"
          by (metis option.exhaust)
        then show ?case
        proof cases
          case 1
          then show ?thesis using \<open>at_toks m es s2 st ps2\<close> Suc.prems c by (simp add: adds_refl)
        next
          case (err t)
          then have "tok_code tok \<noteq> 0" "tok_code tok \<noteq> of_char (CHR ''a'')"
            using 1(3) lexeme_code_word[of m q e] lexeme_code_nonzero[of m q e] by auto
          then show ?thesis using err by (auto split: token.split)
        next
          case (word w)
          then have w: "lexeme m q e (Word w)" using 1(3) by simp
          let ?st = "st\<lparr>sh_heap := (sh_heap st)(c := EXEC ((argvec qs)[n := Some q]) ((argvec rs)[n := Some e]))\<rparr>"
          have a: "set_arg (Some c) n (Some q) (Some e) st = Ok () ?st"
            by (rule set_arg_run) (use c in simp_all)
          have "simat (if Suc n \<ge> MAXARGS then panic ''too many args''
              else kbind (parseredirs lc k es ret s2) (\<lambda>(ret, s). parseargs lc k es (Some c) ret (Suc n) s)) ?st
            (if Suc n \<ge> MAXARGS then panic ''too many args''
             else kbind (aredirs k (add_arg t w)) (\<lambda>t. aargs k t (Suc n))) ps2
            (\<lambda>(p, argc, s') st' t' ps'. at_toks m es s' st' ps' \<and> rep (lexw m) lc (sh_heap st') (sh_used st') p t'
              \<and> adds c st st' \<and> inner (sh_heap st') c argc p t' \<and> sh_used st \<le> sh_used st')"
          proof (cases "Suc n \<ge> MAXARGS")
            case False
            then have r: "rep (lexw m) lc (sh_heap ?st) (sh_used ?st) ret (add_arg t w)" "inner (sh_heap ?st) c (Suc n) ret (add_arg t w)"
              using rep_add_arg[OF Suc.prems(2,3) c(3), of q e w] w by simp_all
            have "at_toks m es s2 ?st ps2" using 1(1) by (simp add: at_toks_def)
            then show ?thesis unfolding if_not_P[OF False]
            proof (rule simat_bind[OF parseredirs_sim[OF _ r(1)]], goal_cases)
              case (1 x st3 t3 ps3)
              obtain p s3 where x: "x = (p, s3)" by force
              have g: "adds c st st3" "sh_used st \<le> sh_used st3" using 1 c(1) by (auto simp: parsed_def adds_def)
              have "simat (parseargs lc k es (Some c) p (Suc n) s3) st3 (aargs k t3 (Suc n)) ps3
                (\<lambda>(p, argc, s') st' t' ps'. at_toks m es s' st' ps' \<and> rep (lexw m) lc (sh_heap st') (sh_used st') p t'
                  \<and> adds c st3 st' \<and> inner (sh_heap st') c argc p t' \<and> sh_used st3 \<le> sh_used st')"
                by (rule Suc.IH) (use 1 r(2) x in \<open>auto simp: parsed_def\<close>)
              then show ?case using g unfolding x case_prod_conv
                by (elim simat_conseq) (auto intro: adds_trans)
            qed
          qed simp
          then show ?thesis using word a by (simp add: simat_def)
        qed
      qed
    qed
  qed
qed simp

lemma parsebacks_sim:
  assumes "at_toks m es s st ps" "rep (lexw m) lc (sh_heap st) (sh_used st) cmd t"
  shows "simat (parsebacks k es cmd s) st (abacks k t) ps (parsed lc m es st)"
  using assms
proof (induction k arbitrary: s st ps cmd t)
  case (Suc k)
  show ?case unfolding parsebacks.simps abacks.simps
  proof (rule simat_peek[OF Suc.prems(1)], goal_cases)
    case (1 b s1)
    show ?case
    proof (cases b)
      case False
      then show ?thesis using 1 Suc.prems by (simp add: parsed_def adds_refl)
    next
      case True
      then have b: "(\<not> b) = False" by simp
      show ?thesis unfolding case_prod_conv b if_False
      proof (rule simat_next[OF 1(1)], goal_cases)
        case (1 tok q0 e0 s2 ps2)
        have "simat (kbind (new_cmd (BACK cmd)) (\<lambda>cmd. parsebacks k es cmd s2)) st
          (kthen (aalloc (sizeof_cmd (BACK cmd))) (abacks k (Back t))) ps2 (parsed lc m es st)"
        proof (rule simat_new[OF 1(1)], goal_cases)
          case (1 ps4 st4)
          have g: "adds (sh_used st) st st4" by (rule adds_new[OF 1(4,2)])
          have "rep (lexw m) lc (sh_heap st4) (sh_used st) cmd t" by (rule rep_adds[OF Suc.prems(2) g]) simp
          then have "rep (lexw m) lc (sh_heap st4) (sh_used st4) (Some (sh_used st)) (Back t)" using 1 by simp
          then show ?case using 1(1) by (intro simat_conseq[OF Suc.IH]) (auto intro: parsed_trans[OF _ g])
        qed
        then show ?case by (simp add: sizeof_cmd_def backcmd_def)
      qed
    qed
  qed
qed simp

text \<open>The second half of \<^verbatim>\<open>parsepipe\<close> and \<^verbatim>\<open>parseline\<close>: a separator and the right operand.\<close>

lemma operand_sim:
  assumes "parsed lc m es st (cmd, s) st1 t1 ps"
    and IH: "\<And>s st ps. at_toks m es s st ps \<Longrightarrow> simat (P s) st A ps (parsed lc m es st)"
    and size: "\<And>l r. sizeof_cmd (node l r) = 24"
    and node: "\<And>h u a l r tr. h a = node l r \<Longrightarrow> a < u \<Longrightarrow> rep (lexw m) lc h a l t1 \<Longrightarrow> rep (lexw m) lc h a r tr
      \<Longrightarrow> rep (lexw m) lc h u (Some a) (N t1 tr)"
  shows "simat (kbind (peek es toks s) (\<lambda>(b, s).
      if b then
        kbind (gettoken es s) (\<lambda>(_, _, _, s).
        kbind (P s) (\<lambda>(r, s). kbind (new_cmd (node cmd r)) (\<lambda>cmd. kret (cmd, s))))
      else kret (cmd, s))) st1
    (kbind (apeek toks) (\<lambda>b. if b then kbind anext (\<lambda>_. kbind A (\<lambda>r. kthen (aalloc 24) (kret (N t1 r)))) else kret t1)) ps
    (parsed lc m es st)"
proof -
  note h = assms(1)[unfolded parsed_def fst_conv snd_conv]
  show ?thesis
  proof (rule simat_peek[OF h[THEN conjunct1]], goal_cases)
    case (1 b s2)
    show ?case
    proof (cases b)
      case False
      then show ?thesis using 1 assms(1) by (simp add: parsed_def)
    next
      case True
      show ?thesis unfolding case_prod_conv if_P[OF True]
      proof (rule simat_next[OF 1(1)], goal_cases)
        case (1 tok q e s3 ps3)
        show ?case unfolding case_prod_conv
        proof (rule simat_bind[OF IH[OF 1(1)]], goal_cases)
          case (1 x st4 t4 ps4)
          obtain r s4 where x: "x = (r, s4)" by force
          have x4: "at_toks m es s4 st4 ps4" "rep (lexw m) lc (sh_heap st4) (sh_used st4) r t4" "adds (sh_used st1) st1 st4"
            using 1 by (simp_all add: x parsed_def)
          have l4: "rep (lexw m) lc (sh_heap st4) (sh_used st4) cmd t1"
            by (rule rep_adds[OF _ x4(3)]) (use h x4(3) in \<open>auto simp: adds_def\<close>)
          show ?case unfolding x case_prod_conv size[of cmd r, symmetric]
          proof (rule simat_new[OF x4(1)], goal_cases)
            case (1 ps5 st5)
            have g: "adds (sh_used st4) st4 st5" by (rule adds_new[OF 1(4,2)])
            have "adds (sh_used st) st st5"
              using h x4(3) g by (blast intro: adds_trans dest: adds_def[THEN iffD1])
            moreover have "rep (lexw m) lc (sh_heap st5) (sh_used st5) (Some (sh_used st4)) (N t1 t4)"
              by (rule node[of _ _ cmd r]) (use 1 rep_adds[OF l4 g] rep_adds[OF x4(2) g] in auto)
            ultimately show ?case using 1(1) by (simp add: parsed_def)
          qed
        qed
      qed
    qed
  qed
qed

text \<open>The part of \<^verbatim>\<open>parseexec\<close> for a simple command.\<close>

lemma simple_sim:
  assumes "at_toks m es s1 st ps"
  shows "simat (kbind execcmd (\<lambda>cmd. kbind (parseredirs lc k es cmd s1) (\<lambda>(ret, s).
      kbind (parseargs lc k es cmd ret 0 s) (\<lambda>(ret, argc, s). kthen (set_arg cmd argc None None) (kret (ret, s)))))) st
    (kthen (aalloc 168) (kbind (aredirs k (Exec [])) (\<lambda>c. aargs k c 0))) ps (parsed lc m es st)"
proof -
  let ?c = "EXEC (replicate MAXARGS None) (replicate MAXARGS None)"
  have "simat (kbind (new_cmd ?c) (\<lambda>cmd. kbind (parseredirs lc k es cmd s1) (\<lambda>(ret, s).
      kbind (parseargs lc k es cmd ret 0 s) (\<lambda>(ret, argc, s). kthen (set_arg cmd argc None None) (kret (ret, s)))))) st
    (kthen (aalloc (sizeof_cmd ?c)) (kbind (aredirs k (Exec [])) (\<lambda>c. aargs k c 0))) ps (parsed lc m es st)"
  proof (rule simat_new[OF assms], goal_cases)
    case (1 ps2 st2)
    let ?a = "sh_used st"
    have r: "rep (lexw m) lc (sh_heap st2) (sh_used st2) (Some ?a) (Exec [])" "inner (sh_heap st2) ?a 0 (Some ?a) (Exec [])"
      using 1 by (auto simp: argvec_def MAXARGS_def)
    have g: "adds ?a st st2" by (rule adds_new[OF 1(4,2)])
    show ?case
    proof (rule simat_bind[OF parseredirs_sim[OF 1(1) r(1)]], goal_cases)
      case (1 x st3 t3 ps3)
      obtain p s3 where x: "x = (p, s3)" by force
      have a3: "simat (parseargs lc k es (Some ?a) p 0 s3) st3 (aargs k t3 0) ps3
        (\<lambda>(p, argc, s') st' t' ps'. at_toks m es s' st' ps' \<and> rep (lexw m) lc (sh_heap st') (sh_used st') p t'
          \<and> adds ?a st3 st' \<and> inner (sh_heap st') ?a argc p t' \<and> sh_used st3 \<le> sh_used st')"
        by (rule parseargs_sim) (use 1 r(2) in \<open>auto simp: x parsed_def\<close>)
      have g3: "adds ?a st st3" using 1 g by (auto simp: parsed_def intro: adds_trans dest: adds_def[THEN iffD1])
      have "simat (kbind (parseargs lc k es (Some ?a) p 0 s3) (\<lambda>(ret, argc, s). kthen (set_arg (Some ?a) argc None None) (kret (ret, s)))) st3
        (kbind (aargs k t3 0) kret) ps3 (parsed lc m es st)"
      proof (rule simat_bind[OF a3], goal_cases)
        case (1 y st4 t4 ps4)
        obtain ret argc s4 where y: "y = (ret, argc, s4)" by (metis prod_cases3)
        note h = 1[unfolded y case_prod_conv]
        obtain qs rs where e: "argc < MAXARGS" "sh_heap st4 ?a = EXEC (argvec qs) (argvec rs)" "length qs = argc" "length rs = argc"
          using rep_inner[of _ lc "sh_heap st4" "sh_used st4" ret t4 ?a argc] h by blast
        then have "set_arg (Some ?a) argc None None st4 = Ok () st4"
          by (simp add: set_arg_run[OF e(2)] argvec_update_None fun_upd_idem)
        then show ?case using h adds_trans[OF g3, of ?a st4] unfolding y by (simp add: simat_def parsed_def)
      qed
      then show ?case by (simp add: x)
    qed
  qed
  then show ?thesis by (simp add: execcmd_def sizeof_cmd_def)
qed

lemma parse_sim:
  assumes "at_toks m es s st ps"
  shows "simat (parseline lc k es s) st (aline k) ps (parsed lc m es st)
    \<and> simat (parsepipe lc k es s) st (apipe k) ps (parsed lc m es st)
    \<and> simat (parseexec lc k es s) st (aexec k) ps (parsed lc m es st)
    \<and> simat (parseblock lc k es s) st (ablock k) ps (parsed lc m es st)"
  using assms
proof (induction k arbitrary: s st ps)
  case (Suc k)
  note line = Suc.IH[THEN conjunct1] and pipe = Suc.IH[THEN conjunct2, THEN conjunct1]
    and exec = Suc.IH[THEN conjunct2, THEN conjunct2, THEN conjunct1]
    and block = Suc.IH[THEN conjunct2, THEN conjunct2, THEN conjunct2]
  show ?case
  proof (intro conjI, goal_cases)
    case 1
    show ?case unfolding parseline.simps aline.simps
    proof (rule simat_bind[OF pipe[OF Suc.prems]], goal_cases)
      case (1 x st1 t1 ps1)
      then show ?case unfolding split_beta
        by (intro simat_bind[OF parsebacks_sim] operand_sim[unfolded split_beta, where node = LIST and N = Seq and P = "parseline lc k es", folded listcmd_def])
          (auto simp: parsed_def sizeof_cmd_def line intro: adds_trans dest: adds_def[THEN iffD1])
    qed
  next
    case 2
    show ?case unfolding parsepipe.simps apipe.simps
    proof (rule simat_bind[OF exec[OF Suc.prems]], goal_cases)
      case (1 x st1 t1 ps1)
      then show ?case unfolding split_beta
        by (intro operand_sim[unfolded split_beta, where node = PIPE and N = Pipe and P = "parsepipe lc k es", folded pipecmd_def])
          (auto simp: sizeof_cmd_def pipe)
    qed
  next
    case 3
    show ?case unfolding parseexec.simps aexec.simps
    proof (rule simat_peek[OF Suc.prems], goal_cases)
      case (1 b s1)
      show ?case
      proof (cases b)
        case True
        then show ?thesis using block[OF 1(1)] by simp
      next
        case False
        then show ?thesis using simple_sim[OF 1(1)] by simp
      qed
    qed
  next
    case 4
    show ?case unfolding parseblock.simps ablock.simps
    proof (rule simat_peek[OF Suc.prems], goal_cases)
      case (1 b s1)
      show ?case
      proof (cases b)
        case True
        then have b: "(\<not> b) = False" by simp
        show ?thesis unfolding case_prod_conv b if_False
        proof (rule simat_next[OF 1(1)], goal_cases)
          case (1 tok q e s2 ps2)
          show ?case unfolding case_prod_conv
          proof (rule simat_bind[OF line[OF 1(1)]], goal_cases)
            case (1 x st3 t3 ps3)
            then have h: "at_toks m es (snd x) st3 ps3" "rep (lexw m) lc (sh_heap st3) (sh_used st3) (fst x) t3" "adds (sh_used st) st st3"
              by (auto simp: parsed_def)
            show ?case unfolding split_beta
            proof (rule simat_peek[OF h(1)], goal_cases)
              case (1 b4 s4)
              show ?case
              proof (cases b4)
                case True
                then have b: "(\<not> fst (b4, s4)) = False" "(\<not> b4) = False" by simp_all
                show ?thesis unfolding b if_False snd_conv
                proof (rule simat_next[OF 1(1)], goal_cases)
                  case (1 tok q e s5 ps5)
                  show ?case unfolding snd_conv
                    by (rule simat_conseq[OF parseredirs_sim[OF 1(1) h(2)]]) (auto intro: parsed_trans[OF _ h(3)])
                qed
              qed simp
            qed
          qed
        qed
      qed simp
    qed
  qed
qed simp


section \<open>Terminating the words\<close>

definition nulled :: "nat set \<Rightarrow> shell \<Rightarrow> shell" where
  "nulled E st = st\<lparr>sh_line := \<lambda>i. if i \<in> E then 0 else sh_line st i\<rparr>"

lemma nulled_simps [simp]:
  "sh_heap (nulled E st) = sh_heap st" "nulled E (nulled F st) = nulled (E \<union> F) st" "nulled {} st = st"
  by (simp_all add: nulled_def) (rule arg_cong[where f = "\<lambda>l. st\<lparr>sh_line := l\<rparr>"], auto)

lemma put_nul_run [simp]: "put_nul e st = Ok () (nulled {e} st)"
  by (auto simp: put_nul_def nulled_def fun_upd_def)

lemma nul_args_run:
  "length qs = length es \<Longrightarrow> nul_args (map Some qs @ None # av) (map Some es @ ev) st = Ok () (nulled (set es) st)"
proof (induction qs es arbitrary: st rule: list_induct2')
  case (4 q qs e es)
  then show ?case by (simp add: Un_commute)
qed auto

lemma rep_weaken: "rep W lc h u p t \<Longrightarrow> (\<And>q e w. W q e w \<Longrightarrow> W' q e w) \<Longrightarrow> rep W' lc h u p t"
proof (induction t arbitrary: u p)
  case (Exec ws)
  then show ?case unfolding rep.simps by blast
qed auto

lemma nul_both:
  assumes "nulterminate k l st = Ok () (nulled E st)" "\<forall>e\<in>E. \<exists>q w. W q e w" "rep (\<lambda>q e w. W q e w \<and> e \<in> E) lc (sh_heap st) u l t1"
    and "nulterminate k r (nulled E st) = Ok () (nulled F (nulled E st))" "\<forall>e\<in>F. \<exists>q w. W q e w"
      "rep (\<lambda>q e w. W q e w \<and> e \<in> F) lc (sh_heap st) u r t2"
  shows "\<exists>E. kthen (nulterminate k l) (nulterminate k r) st = Ok () (nulled E st) \<and> (\<forall>e\<in>E. \<exists>q w. W q e w)
    \<and> rep (\<lambda>q e w. W q e w \<and> e \<in> E) lc (sh_heap st) u l t1 \<and> rep (\<lambda>q e w. W q e w \<and> e \<in> E) lc (sh_heap st) u r t2"
proof (intro exI[of _ "F \<union> E"] conjI)
  show "rep (\<lambda>q e w. W q e w \<and> e \<in> F \<union> E) lc (sh_heap st) u l t1" by (rule rep_weaken[OF assms(3)]) auto
  show "rep (\<lambda>q e w. W q e w \<and> e \<in> F \<union> E) lc (sh_heap st) u r t2" by (rule rep_weaken[OF assms(6)]) auto
qed (use assms in auto)

lemma nulterminate_run:
  assumes "rep W lc (sh_heap st) u p t" "u \<le> k"
  shows "\<exists>E. nulterminate k p st = Ok () (nulled E st) \<and> (\<forall>e\<in>E. \<exists>q w. W q e w)
    \<and> rep (\<lambda>q e w. W q e w \<and> e \<in> E) lc (sh_heap st) u p t"
  using assms
proof (induction t arbitrary: st u p k)
  case (Exec ws)
  then obtain a qs es where a: "p = Some a" "a < u" "sh_heap st a = EXEC (argvec qs) (argvec es)"
    "length qs = length ws" "length es = length ws" "length ws < MAXARGS" "\<forall>i<length ws. W (qs ! i) (es ! i) (ws ! i)"
    unfolding rep.simps by blast
  then obtain k' where k: "k = Suc k'" using Exec.prems(2) by (cases k) auto
  obtain n where "MAXARGS - length ws = Suc n" using a(6) by (cases "MAXARGS - length ws") auto
  then have "nul_args (argvec qs) (argvec es) st = Ok () (nulled (set es) st)"
    using a nul_args_run[of qs es] by (simp add: argvec_def)
  moreover have "\<exists>q w. W q e w" if "e \<in> set es" for e
    using that a by (metis in_set_conv_nth)
  moreover have "rep (\<lambda>q e w. W q e w \<and> e \<in> set es) lc (sh_heap st) u p (Exec ws)"
    unfolding rep.simps using a by (metis nth_mem)
  ultimately show ?case using a k by (intro exI[of _ "set es"]) simp
next
  case (Redir t f out)
  then obtain a p' q e where a: "p = Some a" "a < u" "sh_heap st a = REDIR p' q e (rmode lc out) (of_bool out)" "W q e f"
    "rep W lc (sh_heap st) a p' t" by auto
  obtain k' where k: "k = Suc k'" "a \<le> k'" using Redir.prems(2) a(2) by (cases k) auto
  obtain E where E: "nulterminate k' p' st = Ok () (nulled E st)" "\<forall>e\<in>E. \<exists>q w. W q e w"
    "rep (\<lambda>q e w. W q e w \<and> e \<in> E) lc (sh_heap st) a p' t" using Redir.IH[OF a(5) k(2)] by blast
  have "rep (\<lambda>q e' w. W q e' w \<and> e' \<in> insert e E) lc (sh_heap st) a p' t" by (rule rep_weaken[OF E(3)]) auto
  then show ?case using a k E by (intro exI[of _ "insert e E"]) auto
next
  case (Pipe l r)
  then obtain a pl pr where a: "p = Some a" "a < u" "sh_heap st a = PIPE pl pr" "rep W lc (sh_heap st) a pl l" "rep W lc (sh_heap st) a pr r"
    by auto
  obtain k' where k: "k = Suc k'" "a \<le> k'" using Pipe.prems(2) a(2) by (cases k) auto
  obtain E where E: "nulterminate k' pl st = Ok () (nulled E st)" "\<forall>e\<in>E. \<exists>q w. W q e w"
    "rep (\<lambda>q e w. W q e w \<and> e \<in> E) lc (sh_heap st) a pl l" using Pipe.IH(1)[OF a(4) k(2)] by blast
  obtain F where F: "nulterminate k' pr (nulled E st) = Ok () (nulled F (nulled E st))" "\<forall>e\<in>F. \<exists>q w. W q e w"
    "rep (\<lambda>q e w. W q e w \<and> e \<in> F) lc (sh_heap st) a pr r" using Pipe.IH(2)[of "nulled E st" a pr k'] a(5) k(2) by auto
  show ?case using nul_both[OF E F] a k by auto
next
  case (Seq l r)
  then obtain a pl pr where a: "p = Some a" "a < u" "sh_heap st a = LIST pl pr" "rep W lc (sh_heap st) a pl l" "rep W lc (sh_heap st) a pr r"
    by auto
  obtain k' where k: "k = Suc k'" "a \<le> k'" using Seq.prems(2) a(2) by (cases k) auto
  obtain E where E: "nulterminate k' pl st = Ok () (nulled E st)" "\<forall>e\<in>E. \<exists>q w. W q e w"
    "rep (\<lambda>q e w. W q e w \<and> e \<in> E) lc (sh_heap st) a pl l" using Seq.IH(1)[OF a(4) k(2)] by blast
  obtain F where F: "nulterminate k' pr (nulled E st) = Ok () (nulled F (nulled E st))" "\<forall>e\<in>F. \<exists>q w. W q e w"
    "rep (\<lambda>q e w. W q e w \<and> e \<in> F) lc (sh_heap st) a pr r" using Seq.IH(2)[of "nulled E st" a pr k'] a(5) k(2) by auto
  show ?case using nul_both[OF E F] a k by auto
next
  case (Back t)
  then obtain a p' where a: "p = Some a" "a < u" "sh_heap st a = BACK p'" "rep W lc (sh_heap st) a p' t" by auto
  obtain k' where k: "k = Suc k'" "a \<le> k'" using Back.prems(2) a(2) by (cases k) auto
  show ?case using Back.IH[OF a(4) k(2)] a k by auto
qed

text \<open>The words of the tree are C strings in the line.\<close>

definition cstring :: "mem \<Rightarrow> nat \<Rightarrow> u8 list \<Rightarrow> bool" where
  "cstring m q w = ((\<forall>i<length w. m (q + i) = w ! i \<and> w ! i \<noteq> 0) \<and> m (q + length w) = 0)"

lemma nulterminate_words:
  assumes "rep (lexw (sh_line st)) lc (sh_heap st) u p t" "u \<le> k"
  shows "kok (nulterminate k p) (\<lambda>_ st'. rep (\<lambda>q e w. cstring (sh_line st') q w) lc (sh_heap st') u p t
    \<and> sh_heap st' = sh_heap st \<and> sh_used st' = sh_used st) st"
proof -
  obtain E where E: "nulterminate k p st = Ok () (nulled E st)" "\<forall>e\<in>E. \<exists>q w. lexeme (sh_line st) q e (Word w)"
    "rep (\<lambda>q e w. lexeme (sh_line st) q e (Word w) \<and> e \<in> E) lc (sh_heap st) u p t"
    using nulterminate_run[OF assms] by blast
  have out: "e \<notin> E" if "wordchar (sh_line st e)" for e using E(2) that by (auto simp: lexeme.simps)
  have "cstring (sh_line (nulled E st)) q w" if "lexeme (sh_line st) q e (Word w) \<and> e \<in> E" for q e w
  proof -
    have "wordchar (sh_line st (q + i)) \<and> sh_line st (q + i) = w ! i" if "i < length w" for i
      using that \<open>lexeme (sh_line st) q e (Word w) \<and> e \<in> E\<close> by (auto simp: lexeme.simps list_all_length)
    moreover have "\<not> wordchar 0" by (simp add: wordchar_def found_def)
    ultimately show ?thesis using that out unfolding cstring_def by (auto simp: nulled_def lexeme.simps) metis
  qed
  then have "rep (\<lambda>q e w. cstring (sh_line (nulled E st)) q w) lc (sh_heap st) u p t"
    by (rule rep_weaken[OF E(3)])
  then show ?thesis using E(1) by (simp add: kwp_def) (simp add: nulled_def)
qed


section \<open>The parser on tokens always ends\<close>

text \<open>The messages with which the parser gives up.\<close>

definition syntax_error :: "fault \<Rightarrow> bool" where
  "syntax_error e = (e \<in> Panic ` {''malloc1: memory used out'', ''missing file for redirection'', ''syntax'',
     ''too many args'', ''syntax - missing )''})"

lemma syntax_errors:
  "syntax_error (Panic ''malloc1: memory used out'')" "syntax_error (Panic ''missing file for redirection'')"
  "syntax_error (Panic ''syntax'')" "syntax_error (Panic ''too many args'')" "syntax_error (Panic ''syntax - missing )'')"
  by (simp_all add: syntax_error_def)

definition ends :: "nat \<Rightarrow> (pstate, 'a) kop \<Rightarrow> pstate \<Rightarrow> bool" where
  "ends n m ps = (fst ps \<le> MAXN \<longrightarrow> kwp m syntax_error (\<lambda>_ ps'. length (snd ps') \<le> n \<and> fst ps' \<le> MAXN) ps)"

lemma ends_bind: "ends n m ps \<Longrightarrow> (\<And>x ps'. length (snd ps') \<le> n \<Longrightarrow> ends n' (f x) ps') \<Longrightarrow> ends n' (kbind m f) ps"
  by (auto simp: ends_def kwp_kbind elim!: kwp_conseq)

lemma ends_alloc: "ends n m (fst ps + sz, snd ps) \<Longrightarrow> ends n (kthen (aalloc sz) m) ps"
  by (auto simp: ends_def kwp_def aalloc_def kthen_def kbind_def syntax_errors split: prod.splits)

lemma ends_peek:
  assumes "\<And>b. apeek toks ps = Ok b ps \<Longrightarrow> (b \<Longrightarrow> snd ps \<noteq> []) \<Longrightarrow> ends n (f b) ps"
  shows "ends n (kbind (apeek toks) f) ps"
proof -
  have "apeek toks ps = Ok (case snd ps of [] \<Rightarrow> False | t # _ \<Rightarrow> tok_first t \<in> set (bytes toks)) ps"
    by (simp add: apeek_def split: prod.split)
  then show ?thesis using assms by (auto simp: ends_def kwp_kbind kwp_Ok split: list.splits)
qed

lemma ends_next:
  assumes "\<And>tok ps'. length (snd ps') \<le> length (snd ps) \<Longrightarrow>
    snd ps \<noteq> [] \<or> tok \<noteq> None \<longrightarrow> length (snd ps') < length (snd ps) \<Longrightarrow> ends n (f tok) ps'"
  shows "ends n (kbind anext f) ps"
proof (cases "snd ps")
  case Nil
  then have "anext ps = Ok None ps" by (cases ps) (simp add: anext_def)
  then show ?thesis using assms[of ps None] Nil by (simp add: ends_def kwp_kbind kwp_Ok)
next
  case (Cons t ts)
  then have "anext ps = Ok (Some t) (fst ps, ts)" by (cases ps) (simp add: anext_def)
  then show ?thesis using assms[of "(fst ps, ts)" "Some t"] Cons by (simp add: ends_def kwp_kbind kwp_Ok)
qed

lemma ends_mono: "ends n m ps \<Longrightarrow> n \<le> n' \<Longrightarrow> ends n' m ps"
  by (auto simp: ends_def elim!: kwp_conseq)

lemma ends_ret: "ends n (kret x) ps = (fst ps \<le> MAXN \<longrightarrow> length (snd ps) \<le> n)"
  by (simp add: ends_def kwp_kret)

lemma ends_error: "syntax_error e \<Longrightarrow> ends n (kfault e) ps"
  by (simp add: ends_def kwp_kfault)

lemma aredirs_ends: "length (snd ps) < k \<Longrightarrow> length (snd ps) \<le> n \<Longrightarrow> ends n (aredirs k c) ps"
proof (induction k arbitrary: ps c)
  case (Suc k)
  show ?case unfolding aredirs.simps
    by (rule ends_peek)
      (use Suc.prems in \<open>auto simp: ends_ret intro!: ends_next ends_alloc Suc.IH ends_error syntax_errors split: option.split token.split\<close>)
qed simp

lemma aargs_ends: "length (snd ps) < k \<Longrightarrow> length (snd ps) \<le> n \<Longrightarrow> ends n (aargs k c i) ps"
proof (induction k arbitrary: ps c i)
  case (Suc k)
  show ?case unfolding aargs.simps
    by (rule ends_peek)
      (use Suc.prems in \<open>auto simp: ends_ret intro!: ends_next ends_bind[OF aredirs_ends[OF _ order_refl]] Suc.IH ends_error syntax_errors
         split: option.split token.split\<close>)
qed simp

lemma abacks_ends: "length (snd ps) < k \<Longrightarrow> length (snd ps) \<le> n \<Longrightarrow> ends n (abacks k c) ps"
proof (induction k arbitrary: ps c)
  case (Suc k)
  show ?case unfolding abacks.simps
    by (rule ends_peek) (use Suc.prems in \<open>auto simp: ends_ret intro!: ends_next ends_alloc Suc.IH\<close>)
qed simp

lemma parse_ends:
  "(4 * length (snd ps) + 4 \<le> k \<longrightarrow> ends (length (snd ps)) (aline k) ps)
   \<and> (4 * length (snd ps) + 3 \<le> k \<longrightarrow> ends (length (snd ps)) (apipe k) ps)
   \<and> (4 * length (snd ps) + 2 \<le> k \<longrightarrow> ends (length (snd ps)) (aexec k) ps)
   \<and> (4 * length (snd ps) + 1 \<le> k \<and> apeek ''('' ps = Ok True ps \<longrightarrow> ends (length (snd ps)) (ablock k) ps)"
proof (induction k arbitrary: ps)
  case (Suc k)
  note line = Suc.IH[THEN conjunct1, rule_format] and pipe = Suc.IH[THEN conjunct2, THEN conjunct1, rule_format]
    and exec = Suc.IH[THEN conjunct2, THEN conjunct2, THEN conjunct1, rule_format]
    and block = Suc.IH[THEN conjunct2, THEN conjunct2, THEN conjunct2, rule_format]
  let ?n = "length (snd ps)"
  show ?case
  proof (intro conjI impI, goal_cases)
    case 1
    then have p: "ends ?n (apipe k) ps" using pipe[of ps] by simp
    show ?case unfolding aline.simps
      by (intro ends_bind[OF p] ends_bind[OF abacks_ends] ends_peek)
        (use 1 in \<open>auto simp: ends_ret intro!: ends_next ends_bind[OF line] ends_alloc\<close>)
  next
    case 2
    then have p: "ends ?n (aexec k) ps" using exec[of ps] by simp
    show ?case unfolding apipe.simps
      by (intro ends_bind[OF p] ends_peek)
        (use 2 in \<open>auto simp: ends_ret intro!: ends_next ends_bind[OF pipe] ends_alloc\<close>)
  next
    case 3
    show ?case unfolding aexec.simps
      by (rule ends_peek)
        (use 3 block[of ps] in \<open>auto intro!: ends_alloc ends_bind[OF aredirs_ends[OF _ order_refl]] aargs_ends\<close>)
  next
    case 4
    then show ?case unfolding ablock.simps
      by (intro ends_peek)
        (auto intro!: ends_next ends_bind[OF line] ends_peek ends_error syntax_errors aredirs_ends)
  qed
qed simp


section \<open>Printing and parsing\<close>

text \<open>
  The tokens of a tree, with parentheses where the grammar needs them: level 0 is a list of commands, 1
  the operand of an ampersand, 2 a pipeline and 3 a command of a pipeline.
\<close>

definition paren :: "bool \<Rightarrow> token list \<Rightarrow> token list" where
  "paren b ts = (if b then Sym 40 # ts @ [Sym 41] else ts)"

definition redir_toks :: "u8 list \<times> bool \<Rightarrow> token list" where
  "redir_toks r = [Sym (if snd r then 62 else 60), Word (fst r)]"

primrec toks :: "nat \<Rightarrow> ast \<Rightarrow> token list" where
  "toks n (Exec ws) = map Word ws"
| "toks n (Redir c f out) = toks 3 c @ redir_toks (f, out)"
| "toks n (Pipe l r) = paren (n > 2) (toks 3 l @ Sym 124 # toks 2 r)"
| "toks n (Back c) = paren (n > 1) (toks 1 c @ [Sym 38])"
| "toks n (Seq l r) = paren (n > 0) (toks 1 l @ Sym 59 # toks 0 r)"

primrec cmd_mem :: "ast \<Rightarrow> nat" where
  "cmd_mem (Exec ws) = 168"
| "cmd_mem (Redir c f out) = cmd_mem c + 40"
| "cmd_mem (Pipe l r) = cmd_mem l + cmd_mem r + 24"
| "cmd_mem (Seq l r) = cmd_mem l + cmd_mem r + 24"
| "cmd_mem (Back c) = cmd_mem c + 16"

definition wordok :: "u8 list \<Rightarrow> bool" where
  "wordok w = (w \<noteq> [] \<and> list_all wordchar w)"

primrec cmd_ok :: "ast \<Rightarrow> bool" where
  "cmd_ok (Exec ws) = (length ws < MAXARGS \<and> list_all wordok ws)"
| "cmd_ok (Redir c f out) = (cmd_ok c \<and> wordok f)"
| "cmd_ok (Pipe l r) = (cmd_ok l \<and> cmd_ok r)"
| "cmd_ok (Seq l r) = (cmd_ok l \<and> cmd_ok r)"
| "cmd_ok (Back c) = cmd_ok c"

definition add_redirs :: "ast \<Rightarrow> (u8 list \<times> bool) list \<Rightarrow> ast" where
  "add_redirs c rs = foldl (\<lambda>c r. Redir c (fst r) (snd r)) c rs"

abbreviation rtoks :: "(u8 list \<times> bool) list \<Rightarrow> token list" where
  "rtoks rs \<equiv> concat (map redir_toks rs)"

text \<open>What follows begins with one of the symbols, or there is nothing.\<close>

definition stops :: "u8 list \<Rightarrow> token list \<Rightarrow> bool" where
  "stops cs ts = (ts = [] \<or> (\<exists>c ts'. ts = Sym c # ts' \<and> c \<in> set cs))"

lemma bind_apeek [simp]:
  "kbind (apeek cs) f (u, []) = f False (u, [])"
  "kbind (apeek cs) f (u, t # ts) = f (tok_first t \<in> set (bytes cs)) (u, t # ts)"
  by (simp_all add: apeek_def kbind_def)

lemma bind_anext [simp]:
  "kbind anext f (u, []) = f None (u, [])" "kbind anext f (u, t # ts) = f (Some t) (u, ts)"
  by (simp_all add: anext_def kbind_def)

lemma aalloc_run [simp]: "u + n \<le> MAXN \<Longrightarrow> aalloc n (u, ts) = Ok () (u + n, ts)"
  by (simp add: aalloc_def)

lemma bytes_simps [simp]: "bytes [] = []" "bytes (c # cs) = of_char c # bytes cs"
  by (simp_all add: bytes_def)

lemma word_first: "wordok w \<Longrightarrow> hd w \<notin> set symbols \<and> hd w \<noteq> 0"
  by (cases w) (auto simp: wordok_def wordchar_def found_def)

lemma aredirs_run:
  assumes "length rs < k" "u + 40 * length rs \<le> MAXN" "ts = [] \<or> tok_first (hd ts) \<notin> {60, 62}"
  shows "aredirs k c (u, rtoks rs @ ts) = Ok (add_redirs c rs) (u + 40 * length rs, ts)"
  using assms
proof (induction rs arbitrary: k u c)
  case Nil
  then obtain k' where "k = Suc k'" by (cases k) auto
  then show ?case using Nil by (cases ts) (auto simp: add_redirs_def)
next
  case (Cons r rs)
  then obtain k' where "k = Suc k'" by (cases k) auto
  then show ?case using Cons by (auto simp: add_redirs_def redir_toks_def)
qed

lemma aargs_stop:
  "0 < k \<Longrightarrow> stops [124, 41, 38, 59] ts \<Longrightarrow> aargs k c n (u, ts) = Ok c (u, ts)"
  by (cases k) (auto simp: stops_def)

lemma stops_no_redir: "stops cs ts \<Longrightarrow> 60 \<notin> set cs \<Longrightarrow> 62 \<notin> set cs \<Longrightarrow> ts = [] \<or> tok_first (hd ts) \<notin> {60, 62}"
  by (auto simp: stops_def)

lemma aargs_run:
  assumes "list_all wordok ws" "length ws0 + length ws < MAXARGS" "ws \<noteq> [] \<or> rs = []" "stops [124, 41, 38, 59] ts"
    "length ws + length rs + 1 < k" "u + 40 * length rs \<le> MAXN"
  shows "aargs k (Exec ws0) (length ws0) (u, map Word ws @ rtoks rs @ ts)
    = Ok (add_redirs (Exec (ws0 @ ws)) rs) (u + 40 * length rs, ts)"
  using assms
proof (induction ws arbitrary: ws0 k)
  case Nil
  then show ?case by (simp add: aargs_stop add_redirs_def)
next
  case (Cons w ws)
  then obtain k' where k: "k = Suc k'" by (cases k) auto
  have w: "wordok w" "hd w \<notin> set symbols" using Cons.prems(1) word_first[of w] by auto
  show ?case
  proof (cases ws)
    case Nil
    then show ?thesis using Cons.prems w k aredirs_run[of rs k' u ts "Exec (ws0 @ [w])"] stops_no_redir[OF Cons.prems(4)]
      by (simp add: symbols_eq aargs_stop)
  next
    case (Cons v vs)
    have "hd v \<notin> set symbols" using Cons Cons.prems(1) word_first[of v] by auto
    then have "aredirs k' (Exec (ws0 @ [w])) (u, map Word ws @ rtoks rs @ ts) = Ok (Exec (ws0 @ [w])) (u, map Word ws @ rtoks rs @ ts)"
      using aredirs_run[of "[]" k' u "map Word ws @ rtoks rs @ ts" "Exec (ws0 @ [w])"] Cons Cons.prems(5) k \<open>u + 40 * length rs \<le> MAXN\<close>
      by (simp add: add_redirs_def symbols_eq)
    moreover have "aargs k' (Exec (ws0 @ [w])) (Suc (length ws0)) (u, map Word ws @ rtoks rs @ ts)
      = Ok (add_redirs (Exec (ws0 @ w # ws)) rs) (u + 40 * length rs, ts)"
      using Cons.IH[of "ws0 @ [w]" k'] Cons.prems Cons k by simp
    ultimately show ?thesis using w k Cons.prems(2) by (simp add: symbols_eq)
  qed
qed

text \<open>Parsing the tokens of a tree at each level gives the tree back and leaves what follows.\<close>

definition exec_ok :: "ast \<Rightarrow> bool" where
  "exec_ok t \<longleftrightarrow> (\<forall>k u rs ts. stops [124, 41, 38, 59] ts \<longrightarrow> 4 * length (toks 3 t @ rtoks rs @ ts) + 2 \<le> k
     \<longrightarrow> u + cmd_mem t + 40 * length rs \<le> MAXN
     \<longrightarrow> aexec k (u, toks 3 t @ rtoks rs @ ts) = Ok (add_redirs t rs) (u + cmd_mem t + 40 * length rs, ts))"

definition pipe_ok :: "ast \<Rightarrow> bool" where
  "pipe_ok t \<longleftrightarrow> (\<forall>k u ts. stops [41, 38, 59] ts \<longrightarrow> 4 * length (toks 2 t @ ts) + 3 \<le> k \<longrightarrow> u + cmd_mem t \<le> MAXN
     \<longrightarrow> apipe k (u, toks 2 t @ ts) = Ok t (u + cmd_mem t, ts))"

definition back_ok :: "ast \<Rightarrow> bool" where
  "back_ok t \<longleftrightarrow> (\<forall>k u n ts. stops [41, 59] ts \<longrightarrow> 4 * length (toks 1 t @ replicate n (Sym 38) @ ts) + 3 \<le> k
     \<longrightarrow> u + cmd_mem t + 16 * n \<le> MAXN
     \<longrightarrow> kbind (apipe k) (abacks k) (u, toks 1 t @ replicate n (Sym 38) @ ts) = Ok ((Back ^^ n) t) (u + cmd_mem t + 16 * n, ts))"

definition line_ok :: "ast \<Rightarrow> bool" where
  "line_ok t \<longleftrightarrow> (\<forall>k u ts. stops [41] ts \<longrightarrow> 4 * length (toks 0 t @ ts) + 4 \<le> k \<longrightarrow> u + cmd_mem t \<le> MAXN
     \<longrightarrow> aline k (u, toks 0 t @ ts) = Ok t (u + cmd_mem t, ts))"

lemma stops_mono: "stops cs ts \<Longrightarrow> set cs \<subseteq> set ds \<Longrightarrow> stops ds ts"
  by (auto simp: stops_def)

lemma stops_Cons [simp]: "stops cs (Sym c # ts) = (c \<in> set cs)" "stops cs []"
  by (auto simp: stops_def)

lemma bind_apeek_stop: "stops cs ts \<Longrightarrow> set cs \<inter> set (bytes ds) = {} \<Longrightarrow> kbind (apeek ds) f (u, ts) = f False (u, ts)"
  by (cases ts) (auto simp: stops_def disjoint_iff)

lemma exec_ok_Exec:
  assumes "length ws < MAXARGS" "list_all wordok ws"
  shows "exec_ok (Exec ws)"
  unfolding exec_ok_def
proof (intro allI impI)
  fix k u rs ts
  assume h: "stops [124, 41, 38, 59] ts" "4 * length (toks 3 (Exec ws) @ rtoks rs @ ts) + 2 \<le> k"
    "u + cmd_mem (Exec ws) + 40 * length rs \<le> MAXN"
  then obtain k' where k: "k = Suc k'" by (cases k) auto
  have len: "length rs \<le> length (rtoks rs)" by (induction rs) (auto simp: redir_toks_def)
  show "aexec k (u, toks 3 (Exec ws) @ rtoks rs @ ts) = Ok (add_redirs (Exec ws) rs) (u + cmd_mem (Exec ws) + 40 * length rs, ts)"
  proof (cases ws)
    case Nil
    have p: "kbind (apeek ''('') f (u, rtoks rs @ ts) = f False (u, rtoks rs @ ts)" for f :: "bool \<Rightarrow> (pstate, ast) kop"
      using h(1) bind_apeek_stop[of _ ts "''(''" f u] by (cases rs) (auto simp: redir_toks_def)
    show ?thesis using Nil h k len aredirs_run[of rs k' "u + 168" ts "Exec []"] stops_no_redir[OF h(1)]
      by (simp add: p aargs_stop)
  next
    case (Cons w ws')
    then have w: "hd w \<notin> set symbols" using assms(2) word_first[of w] by simp
    have "aredirs k' (Exec []) (u + 168, map Word ws @ rtoks rs @ ts) = Ok (Exec []) (u + 168, map Word ws @ rtoks rs @ ts)"
      using aredirs_run[of "[]" k' "u + 168" "map Word ws @ rtoks rs @ ts" "Exec []"] Cons h k w
      by (simp add: add_redirs_def symbols_eq)
    moreover have "aargs k' (Exec []) 0 (u + 168, map Word ws @ rtoks rs @ ts) = Ok (add_redirs (Exec ws) rs) (u + 168 + 40 * length rs, ts)"
      using aargs_run[of ws "[]" rs ts k' "u + 168"] assms Cons h k len by simp
    ultimately show ?thesis using Cons h k w by (simp add: symbols_eq)
  qed
qed

lemma exec_ok_Redir:
  assumes "exec_ok t"
  shows "exec_ok (Redir t f out)"
  unfolding exec_ok_def
proof (intro allI impI)
  fix k u rs ts
  assume "stops [124, 41, 38, 59] ts" "4 * length (toks 3 (Redir t f out) @ rtoks rs @ ts) + 2 \<le> k"
    "u + cmd_mem (Redir t f out) + 40 * length rs \<le> MAXN"
  then show "aexec k (u, toks 3 (Redir t f out) @ rtoks rs @ ts)
      = Ok (add_redirs (Redir t f out) rs) (u + cmd_mem (Redir t f out) + 40 * length rs, ts)"
    using assms[unfolded exec_ok_def, rule_format, of ts "(f, out) # rs" k u] by (simp add: add_redirs_def)
qed

lemma exec_ok_block:
  assumes "line_ok t" "toks 3 t = Sym 40 # toks 0 t @ [Sym 41]"
  shows "exec_ok t"
  unfolding exec_ok_def
proof (intro allI impI)
  fix k u rs ts
  assume h: "stops [124, 41, 38, 59] ts" "4 * length (toks 3 t @ rtoks rs @ ts) + 2 \<le> k" "u + cmd_mem t + 40 * length rs \<le> MAXN"
  then obtain k' where k: "k = Suc (Suc k')" by (cases k; cases "k - 1") auto
  have len: "length rs \<le> length (rtoks rs)" by (induction rs) (auto simp: redir_toks_def)
  have "aline k' (u, toks 0 t @ Sym 41 # rtoks rs @ ts) = Ok t (u + cmd_mem t, Sym 41 # rtoks rs @ ts)"
    using assms(1)[unfolded line_ok_def, rule_format, of "Sym 41 # rtoks rs @ ts" k' u] h k assms(2) by simp
  moreover have "aredirs k' t (u + cmd_mem t, rtoks rs @ ts) = Ok (add_redirs t rs) (u + cmd_mem t + 40 * length rs, ts)"
    using aredirs_run[of rs k' "u + cmd_mem t" ts t] stops_no_redir[OF h(1)] h len k assms(2) by simp
  ultimately show "aexec k (u, toks 3 t @ rtoks rs @ ts) = Ok (add_redirs t rs) (u + cmd_mem t + 40 * length rs, ts)"
    using k assms(2) by simp
qed

lemma pipe_ok_exec:
  assumes "exec_ok t" "toks 2 t = toks 3 t"
  shows "pipe_ok t"
  unfolding pipe_ok_def
proof (intro allI impI)
  fix k u ts
  assume h: "stops [41, 38, 59] ts" "4 * length (toks 2 t @ ts) + 3 \<le> k" "u + cmd_mem t \<le> MAXN"
  then obtain k' where k: "k = Suc k'" by (cases k) auto
  have "aexec k' (u, toks 3 t @ ts) = Ok t (u + cmd_mem t, ts)"
    using assms(1)[unfolded exec_ok_def, rule_format, of ts "[]" k' u] stops_mono[OF h(1)] h k assms(2) by (simp add: add_redirs_def)
  then show "apipe k (u, toks 2 t @ ts) = Ok t (u + cmd_mem t, ts)"
    using k assms(2) by (simp add: bind_apeek_stop[OF h(1)])
qed

lemma pipe_ok_Pipe:
  assumes "exec_ok l" "pipe_ok r"
  shows "pipe_ok (Pipe l r)"
  unfolding pipe_ok_def
proof (intro allI impI)
  fix k u ts
  assume h: "stops [41, 38, 59] ts" "4 * length (toks 2 (Pipe l r) @ ts) + 3 \<le> k" "u + cmd_mem (Pipe l r) \<le> MAXN"
  then obtain k' where k: "k = Suc k'" by (cases k) auto
  have "aexec k' (u, toks 3 l @ Sym 124 # toks 2 r @ ts) = Ok l (u + cmd_mem l, Sym 124 # toks 2 r @ ts)"
    using assms(1)[unfolded exec_ok_def, rule_format, of "Sym 124 # toks 2 r @ ts" "[]" k' u] h k by (simp add: add_redirs_def paren_def)
  moreover have "apipe k' (u + cmd_mem l, toks 2 r @ ts) = Ok r (u + cmd_mem l + cmd_mem r, ts)"
    using assms(2)[unfolded pipe_ok_def, rule_format, OF h(1), of k' "u + cmd_mem l"] h k by (simp add: paren_def)
  ultimately show "apipe k (u, toks 2 (Pipe l r) @ ts) = Ok (Pipe l r) (u + cmd_mem (Pipe l r), ts)"
    using k h by (simp add: paren_def add.assoc)
qed

lemma abacks_run:
  "n < k \<Longrightarrow> u + 16 * n \<le> MAXN \<Longrightarrow> stops [41, 59] ts
    \<Longrightarrow> abacks k c (u, replicate n (Sym 38) @ ts) = Ok ((Back ^^ n) c) (u + 16 * n, ts)"
proof (induction n arbitrary: k u c)
  case 0
  then show ?case by (cases k) (auto simp: bind_apeek_stop[OF 0(3)])
next
  case (Suc n)
  then show ?case by (cases k) (auto simp: funpow_swap1)
qed

lemma stops_amps: "stops [41, 59] ts \<Longrightarrow> stops [41, 38, 59] (replicate n (Sym 38) @ ts)"
  by (cases n) (auto elim: stops_mono)

lemma back_ok_pipe:
  assumes "pipe_ok t" "toks 1 t = toks 2 t"
  shows "back_ok t"
  unfolding back_ok_def
proof (intro allI impI)
  fix k u n ts
  assume h: "stops [41, 59] ts" "4 * length (toks 1 t @ replicate n (Sym 38) @ ts) + 3 \<le> k" "u + cmd_mem t + 16 * n \<le> MAXN"
  then have "apipe k (u, toks 2 t @ replicate n (Sym 38) @ ts) = Ok t (u + cmd_mem t, replicate n (Sym 38) @ ts)"
    using assms(1)[unfolded pipe_ok_def, rule_format, OF stops_amps[OF h(1)], of n k u] assms(2) by simp
  then show "kbind (apipe k) (abacks k) (u, toks 1 t @ replicate n (Sym 38) @ ts) = Ok ((Back ^^ n) t) (u + cmd_mem t + 16 * n, ts)"
    using abacks_run[OF _ h(3,1), of k t] h assms(2) by simp
qed

lemma back_ok_Back:
  assumes "back_ok t"
  shows "back_ok (Back t)"
  unfolding back_ok_def
proof (intro allI impI)
  fix k u n ts
  assume "stops [41, 59] ts" "4 * length (toks 1 (Back t) @ replicate n (Sym 38) @ ts) + 3 \<le> k" "u + cmd_mem (Back t) + 16 * n \<le> MAXN"
  then show "kbind (apipe k) (abacks k) (u, toks 1 (Back t) @ replicate n (Sym 38) @ ts)
      = Ok ((Back ^^ n) (Back t)) (u + cmd_mem (Back t) + 16 * n, ts)"
    using assms[unfolded back_ok_def, rule_format, of ts "Suc n" k u] by (simp add: paren_def funpow_swap1)
qed

lemma aline_back: "aline (Suc k) ps = kbind (kbind (apipe k) (abacks k)) (\<lambda>c. kbind (apeek '';'') (\<lambda>b.
     if b then kbind anext (\<lambda>_. kbind (aline k) (\<lambda>r. kthen (aalloc 24) (kret (Seq c r)))) else kret c)) ps"
  by (simp add: kbind_assoc)

lemma line_ok_back:
  assumes "back_ok t" "toks 0 t = toks 1 t"
  shows "line_ok t"
  unfolding line_ok_def
proof (intro allI impI)
  fix k u ts
  assume h: "stops [41] ts" "4 * length (toks 0 t @ ts) + 4 \<le> k" "u + cmd_mem t \<le> MAXN"
  then obtain k' where k: "k = Suc k'" by (cases k) auto
  have "kbind (apipe k') (abacks k') (u, toks 1 t @ ts) = Ok t (u + cmd_mem t, ts)"
    using assms(1)[unfolded back_ok_def, rule_format, of ts 0 k' u] stops_mono[OF h(1)] h k assms(2) by simp
  then show "aline k (u, toks 0 t @ ts) = Ok t (u + cmd_mem t, ts)"
    unfolding k aline_back assms(2) by (simp add: bind_apeek_stop[OF h(1)])
qed

lemma line_ok_Seq:
  assumes "back_ok l" "line_ok r"
  shows "line_ok (Seq l r)"
  unfolding line_ok_def
proof (intro allI impI)
  fix k u ts
  assume h: "stops [41] ts" "4 * length (toks 0 (Seq l r) @ ts) + 4 \<le> k" "u + cmd_mem (Seq l r) \<le> MAXN"
  then obtain k' where k: "k = Suc k'" by (cases k) auto
  have "kbind (apipe k') (abacks k') (u, toks 1 l @ Sym 59 # toks 0 r @ ts) = Ok l (u + cmd_mem l, Sym 59 # toks 0 r @ ts)"
    using assms(1)[unfolded back_ok_def, rule_format, of "Sym 59 # toks 0 r @ ts" 0 k' u] h k by (simp add: paren_def)
  moreover have "aline k' (u + cmd_mem l, toks 0 r @ ts) = Ok r (u + cmd_mem l + cmd_mem r, ts)"
    using assms(2)[unfolded line_ok_def, rule_format, OF h(1), of k' "u + cmd_mem l"] h k by (simp add: paren_def)
  ultimately show "aline k (u, toks 0 (Seq l r) @ ts) = Ok (Seq l r) (u + cmd_mem (Seq l r), ts)"
    unfolding k aline_back using h by (simp add: paren_def add.assoc)
qed

lemma print_parse: "cmd_ok t \<Longrightarrow> exec_ok t \<and> pipe_ok t \<and> back_ok t \<and> line_ok t"
proof (induction t)
  case (Exec ws)
  then have "exec_ok (Exec ws)" by (intro exec_ok_Exec) auto
  then show ?case by (simp add: pipe_ok_exec back_ok_pipe line_ok_back)
next
  case (Redir t f out)
  then have "exec_ok (Redir t f out)" by (intro exec_ok_Redir) auto
  then show ?case by (simp add: pipe_ok_exec back_ok_pipe line_ok_back)
next
  case (Pipe l r)
  then have "pipe_ok (Pipe l r)" by (intro pipe_ok_Pipe) auto
  then show ?case by (simp add: back_ok_pipe line_ok_back exec_ok_block paren_def)
next
  case (Seq l r)
  then have "line_ok (Seq l r)" by (intro line_ok_Seq) auto
  then have "exec_ok (Seq l r)" by (simp add: exec_ok_block paren_def)
  then show ?case using \<open>line_ok (Seq l r)\<close> by (simp add: pipe_ok_exec back_ok_pipe paren_def)
next
  case (Back t)
  then have "back_ok (Back t)" by (intro back_ok_Back) auto
  then have "line_ok (Back t)" "exec_ok (Back t)" by (simp_all add: line_ok_back exec_ok_block paren_def)
  then show ?case using \<open>back_ok (Back t)\<close> by (simp add: pipe_ok_exec paren_def)
qed


section \<open>Lines\<close>

text \<open>Every string is a sequence of tokens.\<close>

lemma spells_blank: "blank (m s) \<Longrightarrow> spells m es (Suc s) ts \<Longrightarrow> spells m es s ts"
proof -
  assume h: "blank (m s)" "spells m es (Suc s) ts"
  have b: "\<forall>i. s \<le> i \<and> i < q \<longrightarrow> blank (m i)" if "\<forall>i. Suc s \<le> i \<and> i < q \<longrightarrow> blank (m i)" for q
    using that h(1) by (metis Suc_leI le_eq_less_or_eq)
  show ?thesis
  proof (cases ts)
    case Nil
    then show ?thesis using h(2) b[of es] by (simp add: spells.simps)
  next
    case (Cons t ts')
    then obtain q e where "Suc s \<le> q" "\<forall>i. Suc s \<le> i \<and> i < q \<longrightarrow> blank (m i)" "lexeme m q e t" "spells m es e ts'"
      using h(2) by (auto simp: spells.simps)
    then show ?thesis using b[of q] unfolding Cons spells.simps by (intro exI[of _ q] exI[of _ e] conjI) auto
  qed
qed

lemma word_end_bounds: "s \<le> es \<Longrightarrow> s \<le> word_end m s es \<and> word_end m s es \<le> es
    \<and> (\<forall>i. s \<le> i \<and> i < word_end m s es \<longrightarrow> wordchar (m i)) \<and> (word_end m s es < es \<longrightarrow> \<not> wordchar (m (word_end m s es)))"
proof (induction "es - s" arbitrary: s)
  case 0
  then have "word_end m s es = s" by (subst word_end.simps) simp
  then show ?case using 0 by auto
next
  case (Suc n)
  show ?case
  proof (cases "wordchar (m s)")
    case True
    then have "word_end m s es = word_end m (Suc s) es" using Suc by (subst word_end.simps) (auto simp: wordchar_def)
    moreover have n: "n = es - Suc s" "Suc s \<le> es" using Suc.hyps(2) by auto
    moreover note IH = Suc.hyps(1)[OF n]
    have "wordchar (m i)" if "s \<le> i" "i < word_end m (Suc s) es" for i
      using IH that True by (cases "i = s") auto
    ultimately show ?thesis using IH by auto
  next
    case False
    then have "word_end m s es = s" by (subst word_end.simps) (auto simp: wordchar_def)
    then show ?thesis using False Suc.prems by auto
  qed
qed

lemma spells_exists:
  assumes "s \<le> es" "\<forall>i. s \<le> i \<and> i < es \<longrightarrow> m i \<noteq> 0" "m es = 0"
  shows "\<exists>ts. spells m es s ts"
  using assms(1,2)
proof (induction "es - s" arbitrary: s rule: less_induct)
  case less
  have step: "\<exists>ts. spells m es s (t # ts)" if e: "lexeme m s e t" "e \<le> es" for e t
  proof -
    have "s < e" using lexeme_end[OF e(1)] .
    then obtain ts where "spells m es e ts" using less(1)[of e] less.prems e(2) by force
    then show ?thesis using e(1) unfolding spells.simps by (intro exI[of _ ts] exI[of _ s] exI[of _ e]) auto
  qed
  consider "s = es" | "s < es" "blank (m s)" | (gtgt) "s < es" "m s = gt" "m (Suc s) = gt"
    | (sym) "s < es" "m s \<in> set symbols" "m s = gt \<longrightarrow> m (Suc s) \<noteq> gt" | (word) "s < es" "wordchar (m s)"
  proof -
    have "m s \<noteq> 0" if "s < es" using less.prems that by simp
    then show ?thesis using that less.prems(1) by (cases "s = es") (auto simp: wordchar_def found_def blank_def)
  qed
  then show ?case
  proof cases
    case 1
    then show ?thesis using assms(3) by (intro exI[of _ "[]"]) (auto simp: spells.simps)
  next
    case 2
    then obtain ts where "spells m es (Suc s) ts" using less(1)[of "Suc s"] less.prems by force
    then show ?thesis using spells_blank[of m s es ts] 2 by blast
  next
    case gtgt
    then have "Suc s \<noteq> es" using assms(3) by auto
    then show ?thesis using step[of "Suc (Suc s)" GtGt] gtgt by (auto simp: lexeme.simps)
  next
    case sym
    then show ?thesis using step[of "Suc s" "Sym (m s)"] by (auto simp: lexeme.simps)
  next
    case word
    let ?e = "word_end m s es" and ?w = "map m [s..<word_end m s es]"
    have e: "s \<le> ?e" "?e \<le> es" "\<forall>i. s \<le> i \<and> i < ?e \<longrightarrow> wordchar (m i)" "\<not> wordchar (m ?e)"
      using word_end_bounds[of s es m] word assms(3) by (auto simp: wordchar_def found_def)
    then have "?e \<noteq> s" using word by metis
    then have "lexeme m s ?e (Word ?w)" using e by (auto simp: lexeme.simps list_all_iff)
    then show ?thesis using step[of ?e "Word ?w"] e by blast
  qed
qed

lemma spells_nonzero: "spells m es s ts \<Longrightarrow> s \<le> i \<Longrightarrow> i < es \<Longrightarrow> m i \<noteq> 0"
proof (induction ts arbitrary: s)
  case Nil
  then show ?case by (auto simp: spells.simps blank_def whitespace_def)
next
  case (Cons t ts)
  then obtain q e where q: "\<forall>i. s \<le> i \<and> i < q \<longrightarrow> blank (m i)" "lexeme m q e t" "spells m es e ts"
    by (auto simp: spells.simps)
  have "m j \<noteq> 0" if "q \<le> j" "j < e" for j
  proof (cases t)
    case (Word w)
    then have "m j = w ! (j - q)" "wordchar (w ! (j - q))"
      using q(2) that by (auto simp: lexeme.simps list_all_length dest!: spec[of _ "j - q"])
    then show ?thesis by (auto simp: wordchar_def found_def)
  qed (use q(2) that in \<open>auto simp: lexeme.simps symbols_eq less_Suc_eq le_less_Suc_eq\<close>)
  moreover have "m j \<noteq> 0" if "s \<le> j" "j < q" for j using q(1) that by (auto simp: blank_def whitespace_def)
  ultimately show ?case using Cons.IH[OF q(3)] Cons.prems by (meson not_le)
qed

text \<open>A tree as text: its tokens, each followed by a blank.\<close>

fun tok_text :: "token \<Rightarrow> u8 list" where
  "tok_text (Sym c) = [c]"
| "tok_text GtGt = [62, 62]"
| "tok_text (Word w) = w"

definition text_of :: "token list \<Rightarrow> u8 list" where
  "text_of ts = concat (map (\<lambda>t. tok_text t @ [32]) ts)"

definition line_of :: "u8 list \<Rightarrow> mem" where
  "line_of bs = (\<lambda>i. if i < length bs then bs ! i else 0)"

fun tok_ok :: "token \<Rightarrow> bool" where
  "tok_ok (Sym c) = (c \<in> set symbols)"
| "tok_ok GtGt = True"
| "tok_ok (Word w) = wordok w"

lemma line_of_mid: "i < length ys \<Longrightarrow> line_of (xs @ ys @ zs) (length xs + i) = ys ! i"
  by (simp add: line_of_def nth_append)

lemma text_of_spells:
  "list_all tok_ok ts \<Longrightarrow> spells (line_of (pre @ text_of ts)) (length pre + length (text_of ts)) (length pre) ts"
proof (induction ts arbitrary: pre)
  case Nil
  then show ?case by (auto simp: text_of_def line_of_def spells.simps)
next
  case (Cons t ts)
  let ?m = "line_of (pre @ text_of (t # ts))" and ?e = "length pre + length (tok_text t)"
  have tx: "text_of (t # ts) = tok_text t @ 32 # text_of ts" by (simp add: text_of_def)
  have m: "?m (length pre + i) = (tok_text t @ [32]) ! i" if "i < Suc (length (tok_text t))" for i
    using line_of_mid[of i "tok_text t @ [32]" pre "text_of ts"] that by (simp add: tx)
  have lex: "lexeme ?m (length pre) ?e t"
    using Cons.prems m[of 0] m[of 1] m[of 2] m
    by (cases t) (auto simp: lexeme.simps wordok_def nth_append wordchar_def found_def whitespace_def)
  have "blank (?m ?e)" using m[of "length (tok_text t)"] by (simp add: blank_def whitespace_def)
  moreover have "spells ?m (length pre + length (text_of (t # ts))) (Suc ?e) ts"
    using Cons.IH[of "pre @ tok_text t @ [32]"] Cons.prems by (simp add: tx add.commute add.left_commute)
  ultimately have "spells ?m (length pre + length (text_of (t # ts))) ?e ts" by (rule spells_blank)
  then show ?case using lex unfolding spells.simps by (intro exI[of _ "length pre"] exI[of _ ?e] conjI) auto
qed

lemma cmd_ok_toks: "cmd_ok t \<Longrightarrow> list_all tok_ok (toks n t)"
  by (induction t arbitrary: n) (auto simp: list_all_iff paren_def redir_toks_def symbols_eq)


section \<open>Commands\<close>

lemma spells_strlen:
  assumes "spells m (s + n) s ts"
  shows "strlen (at m s) = Some n"
  by (rule strlen_returns) (use assms spells_nonzero[OF assms] spells_le[OF assms] in \<open>auto simp: terminated_def at_def\<close>)

lemma parsecmd_rest:
  assumes "parsed lc m es st (p, s) st' t (u, ts)" "u \<le> MAXN"
    and "ts \<noteq> [] \<Longrightarrow> E (Panic ''syntax'')"
    and "\<And>st''. ts = [] \<Longrightarrow> sh_used st'' = u \<Longrightarrow> rep (\<lambda>q e w. cstring (sh_line st'') q w) lc (sh_heap st'') u p t \<Longrightarrow> Q p st''"
  shows "kwp (kbind (peek es [] s) (\<lambda>(_, s). if s \<noteq> es then panic ''syntax''
      else kthen (nulterminate (Suc MAXN) p) (kret p))) E Q st'"
proof -
  have h: "sh_line st' = m" "sh_used st' = u" "spells m es s ts" "rep (lexw m) lc (sh_heap st') u p t"
    using assms(1) by (auto simp: parsed_def at_toks_def)
  have end_iff: "skip_blanks m s es = es \<longleftrightarrow> ts = []"
    using spells_skip(2)[OF h(3)] lexeme_end spells_le by (fastforce split: list.splits)
  have "kok (nulterminate (Suc MAXN) p) (\<lambda>_ st''. rep (\<lambda>q e w. cstring (sh_line st'') q w) lc (sh_heap st'') u p t
      \<and> sh_heap st'' = sh_heap st' \<and> sh_used st'' = sh_used st') st'"
    by (rule nulterminate_words) (use h assms(2) in auto)
  then show ?thesis using assms(3,4) end_iff h(1,2)
    by (cases "ts = []") (auto simp: peek_def Let_def wp_simps elim!: kok_E)
qed

lemma parsecmd_cases:
  assumes "spells (sh_line st) (s + n) s ts" "sh_used st \<le> MAXN"
    and "\<And>e. aline (4 * n + 4) (sh_used st, ts) = Fault e \<Longrightarrow> syntax_error e \<Longrightarrow> E e"
    and "\<And>t u ts'. aline (4 * n + 4) (sh_used st, ts) = Ok t (u, ts') \<Longrightarrow> ts' \<noteq> [] \<Longrightarrow> E (Panic ''syntax'')"
    and "\<And>t u p st'. aline (4 * n + 4) (sh_used st, ts) = Ok t (u, []) \<Longrightarrow> sh_used st' = u
      \<Longrightarrow> rep (\<lambda>q e w. cstring (sh_line st') q w) lc (sh_heap st') u p t \<Longrightarrow> Q p st'"
  shows "kwp (parsecmd lc s) E Q st"
proof -
  let ?m = "sh_line st" and ?es = "s + n" and ?ps = "(sh_used st, ts)"
  have at: "at_toks ?m ?es s st ?ps" using assms(1) by (simp add: at_toks_def)
  have sim: "simat (parseline lc (4 * n + 4) ?es s) st (aline (4 * n + 4)) ?ps (parsed lc ?m ?es st)"
    using parse_sim[OF at] by blast
  have ends: "kwp (aline (4 * n + 4)) syntax_error (\<lambda>_ ps'. length (snd ps') \<le> length ts \<and> fst ps' \<le> MAXN) ?ps"
    using parse_ends[of ?ps "4 * n + 4"] spells_length[OF assms(1)] assms(2) by (simp add: ends_def)
  have "kwp (parseline lc (4 * n + 4) ?es s) E (\<lambda>r st'. \<exists>t u ts'. aline (4 * n + 4) ?ps = Ok t (u, ts')
      \<and> parsed lc ?m ?es st r st' t (u, ts') \<and> u \<le> MAXN) st"
    using sim ends assms(3) by (auto simp: simat_def kwp_def split: outcome.splits)
  then have "kwp (parseline lc (4 * n + 4) ?es s) E (\<lambda>r. kwp (case r of (cmd, s) \<Rightarrow>
      kbind (peek ?es [] s) (\<lambda>(_, s). if s \<noteq> ?es then panic ''syntax'' else kthen (nulterminate (Suc MAXN) cmd) (kret cmd))) E Q) st"
    by (rule kwp_conseq) (auto intro!: parsecmd_rest assms(4,5))
  then show ?thesis by (simp add: parsecmd_def kwp_kbind kwp_kget spells_strlen[OF assms(1)] Let_def)
qed

lemma parsecmd_print:
  assumes "cmd_ok t" "spells (sh_line st) (s + n) s (toks 0 t)" "sh_used st + cmd_mem t \<le> MAXN"
  shows "kok (parsecmd lc s) (\<lambda>p st'. sh_used st' = sh_used st + cmd_mem t
    \<and> rep (\<lambda>q e w. cstring (sh_line st') q w) lc (sh_heap st') (sh_used st') p t) st"
proof -
  have "line_ok t" using print_parse[OF assms(1)] by blast
  then have "aline (4 * n + 4) (sh_used st, toks 0 t @ []) = Ok t (sh_used st + cmd_mem t, [])"
    using line_ok_def[THEN iffD1, rule_format, of t "[]" "4 * n + 4" "sh_used st"] spells_length[OF assms(2)] assms(3) by simp
  then show ?thesis by (intro parsecmd_cases[OF assms(2)]) (use assms(3) in auto)
qed

lemma line_of_terminated: "0 \<notin> set bs \<Longrightarrow> terminated (at (line_of bs) 0) (length bs)"
  by (auto simp: terminated_def at_def line_of_def) (metis nth_mem)

end
