(* ===== verification/Shell_Run.thy ===== *)
theory Shell_Run
  imports Shell_Parse
begin

text \<open>
  What the shell launches. \<open>launch\<close> runs a tree of system calls in a system where every call succeeds and
  \<^verbatim>\<open>open\<close>, \<^verbatim>\<open>dup\<close> and \<^verbatim>\<open>pipe\<close> take the lowest free descriptors, and collects the programs that are
  executed, with what their standard input and output are connected to. \<open>programs\<close> is the meaning of a
  command; the shell's handling of descriptors implements it.
\<close>

section \<open>The system calls\<close>

datatype chan = Std nat | Disk str u64 | PipeR nat | PipeW nat

type_synonym prog = "str \<times> str list \<times> chan option \<times> chan option"

fun lowest :: "chan option list \<Rightarrow> nat option" where
  "lowest [] = None"
| "lowest (None # fds) = Some 0"
| "lowest (Some c # fds) = map_option Suc (lowest fds)"

primrec launch :: "act \<Rightarrow> chan option list \<Rightarrow> nat \<Rightarrow> prog list \<times> nat" where
  "launch (Exit n) fds p = ([], p)"
| "launch Stuck fds p = ([], p)"
| "launch Undefined fds p = ([], p)"
| "launch (Fprintf fmt as a) fds p = launch a fds p"
| "launch (Execv path av a) fds p = ([(path, av, fds ! 0, fds ! 1)], p)"
| "launch (Close fd a) fds p = launch a (fds[nat fd := None]) p"
| "launch (Open path md f) fds p = (case lowest fds of
       None \<Rightarrow> launch (f (-1)) fds p
     | Some i \<Rightarrow> launch (f (int i)) (fds[i := Some (Disk path md)]) p)"
| "launch (Dup fd f) fds p = (case lowest fds of
       None \<Rightarrow> launch (f (-1)) fds p
     | Some i \<Rightarrow> launch (f (int i)) (fds[i := fds ! nat fd]) p)"
| "launch (Pipe_call f) fds p = (case lowest fds of
       None \<Rightarrow> launch (f (-1) 0 0) fds p
     | Some i \<Rightarrow> (case lowest (fds[i := Some (PipeR p)]) of
         None \<Rightarrow> launch (f (-1) 0 0) fds p
       | Some j \<Rightarrow> launch (f 0 (int i) (int j)) (fds[i := Some (PipeR p), j := Some (PipeW p)]) (Suc p)))"
| "launch (Fork f) fds p = (let (xs, p) = launch (f 0) fds p; (ys, p) = launch (f 1) fds p in (xs @ ys, p))"
| "launch (Wait a) fds p = launch a fds p"
| "launch (Chdir s f) fds p = launch (f 0) fds p"

primrec programs :: "libc \<Rightarrow> ast \<Rightarrow> chan \<Rightarrow> chan \<Rightarrow> nat \<Rightarrow> prog list \<times> nat" where
  "programs lc (Exec ws) i out p = (if ws = [] then [] else [(Some (hd ws), map Some ws, Some i, Some out)], p)"
| "programs lc (Redir c f b) i out p =
     (if b then programs lc c i (Disk (Some f) (rmode lc b)) p
      else programs lc c (Disk (Some f) (rmode lc b)) out p)"
| "programs lc (Pipe l r) i out p =
     (let (xs, p1) = programs lc l i (PipeW p) (Suc p); (ys, p2) = programs lc r (PipeR p) out p1 in (xs @ ys, p2))"
| "programs lc (Seq l r) i out p =
     (let (xs, p1) = programs lc l i out p; (ys, p2) = programs lc r i out p1 in (xs @ ys, p2))"
| "programs lc (Back c) i out p = programs lc c i out p"


section \<open>Wiring\<close>

lemma cstring_string_at:
  assumes "cstring m q w"
  shows "string_at m q = Some w"
proof -
  have "strlen (at m q) = Some (length w)"
    by (rule strlen_returns) (use assms in \<open>auto simp: cstring_def terminated_def at_def\<close>)
  moreover have "map m [q..<q + length w] = w" using assms by (auto simp: cstring_def intro: nth_equalityI)
  ultimately show ?thesis by (simp add: string_at_def)
qed

lemma strings_at_argvec:
  assumes "length qs = length ws" "length ws < MAXARGS" "\<forall>i<length ws. cstring m (qs ! i) (ws ! i)"
  shows "strings_at m (argvec qs) = map Some ws"
proof -
  obtain n where "MAXARGS - length qs = Suc n" using assms(1,2) by (cases "MAXARGS - length qs") auto
  moreover have "takeWhile (\<lambda>p. p \<noteq> None) (map Some qs @ None # xs) = map Some qs" for xs :: "nat option list"
    by (induction qs) auto
  ultimately have "strings_at m (argvec qs) = map (string_at m) qs"
    by (simp add: strings_at_def argvec_def comp_def del: not_None_eq)
  also have "\<dots> = map Some ws" using assms cstring_string_at by (auto intro: nth_equalityI)
  finally show ?thesis .
qed

abbreviation std :: "chan \<Rightarrow> chan \<Rightarrow> chan \<Rightarrow> nat \<Rightarrow> chan option list" where
  "std i out err n \<equiv> Some i # Some out # Some err # replicate n None"

lemma launch_fork1 [simp]:
  "launch (fork1 f) fds p = (let (xs, p) = launch (f 0) fds p; (ys, p) = launch (f 1) fds p in (xs @ ys, p))"
  by (simp add: fork1_def)

lemma launch_pipe:
  "launch (Pipe_call f) (Some i # Some out # Some err # None # None # replicate n None) p
    = launch (f 0 3 4) (Some i # Some out # Some err # Some (PipeR p) # Some (PipeW p) # replicate n None) (Suc p)"
  by (simp add: eval_nat_numeral)

lemma close_pipe:
  "launch (Close 3 (Close 4 a)) (i # out # err # x # y # replicate n None) p = launch a (i # out # err # None # None # replicate n None) p"
  by (simp add: eval_nat_numeral)

lemma dup_pipe:
  "launch (Close 1 (Dup 4 f)) (Some i # out # err # x # y # fds) p = launch (f 1) (Some i # y # err # x # y # fds) p"
  "launch (Close 0 (Dup 3 f)) (j # out # err # x # y # fds) p = launch (f 0) (x # out # err # x # y # fds) p"
  by (simp_all add: eval_nat_numeral)

lemma launch_runcmd:
  assumes "rep (\<lambda>q e w. cstring (sh_line st) q w) lc (sh_heap st) u cmd t" "u \<le> k" "2 \<le> n"
  shows "launch (runcmd k st cmd) (std i out err n) p = programs lc t i out p"
  using assms
proof (induction t arbitrary: u cmd k i out p)
  case (Exec ws)
  then obtain a qs es where a: "cmd = Some a" "a < u" "sh_heap st a = EXEC (argvec qs) (argvec es)" "length qs = length ws"
    "length ws < MAXARGS" "\<forall>i<length ws. cstring (sh_line st) (qs ! i) (ws ! i)" unfolding rep.simps by blast
  obtain k' where k: "k = Suc k'" using Exec.prems(2) a(2) by (cases k) auto
  show ?case
  proof (cases ws)
    case Nil
    then have "argvec qs ! 0 = None" using a by (simp add: argvec_def MAXARGS_def)
    then show ?thesis using a k Nil by simp
  next
    case (Cons w ws')
    then have q: "argvec qs ! 0 = Some (qs ! 0)" using a(4) by (simp add: argvec_def nth_append)
    have "string_at (sh_line st) (qs ! 0) = Some w" using a(6) Cons by (intro cstring_string_at) force
    then show ?thesis using a(1,3) k q Cons strings_at_argvec[OF a(4,5,6)] by simp
  qed
next
  case (Redir t f b)
  then obtain a p' q e where a: "cmd = Some a" "a < u" "sh_heap st a = REDIR p' q e (rmode lc b) (of_bool b)" "cstring (sh_line st) q f"
    "rep (\<lambda>q e w. cstring (sh_line st) q w) lc (sh_heap st) a p' t" by auto
  obtain k' where k: "k = Suc k'" "a \<le> k'" using Redir.prems(2) a(2) by (cases k) auto
  have "launch (runcmd k' st p') (std i out err n) p = programs lc t i out p" for i out
    using Redir.IH[OF a(5) k(2) Redir.prems(3)] .
  then show ?case using a(1,3) k(1) cstring_string_at[OF a(4)] Redir.prems by (cases b) auto
next
  case (Pipe l r)
  then obtain a pl pr where a: "cmd = Some a" "a < u" "sh_heap st a = PIPE pl pr"
    "rep (\<lambda>q e w. cstring (sh_line st) q w) lc (sh_heap st) a pl l" "rep (\<lambda>q e w. cstring (sh_line st) q w) lc (sh_heap st) a pr r" by auto
  obtain k' where k: "k = Suc k'" "a \<le> k'" using Pipe.prems(2) a(2) by (cases k) auto
  obtain n' where n: "n = Suc (Suc n')" using Pipe.prems(3) by (metis add_2_eq_Suc le_Suc_ex)
  have "launch (runcmd k' st pl) (std i out err n) p = programs lc l i out p"
    "launch (runcmd k' st pr) (std i out err n) p = programs lc r i out p" for i out p
    using Pipe.IH(1)[OF a(4) k(2) Pipe.prems(3)] Pipe.IH(2)[OF a(5) k(2) Pipe.prems(3)] by auto
  then show ?case using a(1,3) k(1) Pipe.prems n 
    by (simp add: launch_pipe close_pipe dup_pipe del: launch.simps(6,8,9) split: prod.split)
next
  case (Seq l r)
  then obtain a pl pr where a: "cmd = Some a" "a < u" "sh_heap st a = LIST pl pr"
    "rep (\<lambda>q e w. cstring (sh_line st) q w) lc (sh_heap st) a pl l" "rep (\<lambda>q e w. cstring (sh_line st) q w) lc (sh_heap st) a pr r" by auto
  obtain k' where k: "k = Suc k'" "a \<le> k'" using Seq.prems(2) a(2) by (cases k) auto
  show ?case using a(1,3) k(1) Seq.IH(1)[OF a(4) k(2) Seq.prems(3)] Seq.IH(2)[OF a(5) k(2) Seq.prems(3)]
    by (simp split: prod.split)
next
  case (Back t)
  then obtain a p' where a: "cmd = Some a" "a < u" "sh_heap st a = BACK p'"
    "rep (\<lambda>q e w. cstring (sh_line st) q w) lc (sh_heap st) a p' t" by auto
  obtain k' where k: "k = Suc k'" "a \<le> k'" using Back.prems(2) a(2) by (cases k) auto
  show ?case using a(1,3) k(1) Back.IH[OF a(4) k(2) Back.prems(3)] by (simp split: prod.split)
qed

end
