(* ===== verification/Mkfs.thy ===== *)
theory Mkfs
  imports Dirs
begin

text \<open>
  The host program that makes a disk image, \<^verbatim>\<open>user/src/mkfs/main.c\<close>. The image file is a map from
  sectors to their bytes with the number of sectors it has; a read past its end fails. \<^verbatim>\<open>exit(1)\<close> after
  \<^verbatim>\<open>perror\<close> and a failed \<^verbatim>\<open>assert\<close> are the fault \<open>Panic\<close>. The host is little-endian. The files to store come
  with their contents, \<open>None\<close> for one that cannot be opened. Progress messages are not modelled.
  The offset of a sector in the file is computed without wrapping: an image has less than 4 GB.
\<close>

section \<open>State\<close>

definition FSSIZE :: nat where "FSSIZE = 1000"
definition NINODES :: nat where "NINODES = 200"
definition nbitmap :: nat where "nbitmap = FSSIZE div (BSIZE * 8) + 1"
definition ninodeblocks :: nat where "ninodeblocks = NINODES div IPB + 1"
definition nlog :: nat where "nlog = LOGSIZE"
definition nmeta :: nat where "nmeta = 2 + nlog + ninodeblocks + nbitmap"
definition nblocks :: nat where "nblocks = FSSIZE - nmeta"

record mkfs =
  img :: "u32 \<Rightarrow> u8 list"
  img_len :: nat
  freeinode :: u32
  freeblock :: u32

text \<open>The globals before \<^verbatim>\<open>main\<close>: the image is truncated, a sector that was never written reads as zeros.\<close>

definition mkfs_start :: mkfs where
  "mkfs_start = \<lparr>img = (\<lambda>_. replicate BSIZE 0), img_len = 0, freeinode = 1, freeblock = 0\<rparr>"

definition xshort :: "u16 \<Rightarrow> u16" where
  "xshort x = unle16 [ucast x, ucast (drop_bit 8 x)]"

definition xint :: "u32 \<Rightarrow> u32" where
  "xint x = unle32 [ucast x, ucast (drop_bit 8 x), ucast (drop_bit 16 x), ucast (drop_bit 24 x)]"

definition mk_sb :: superblock where
  "mk_sb = \<lparr>sb_size = xint (of_nat FSSIZE), sb_nblocks = xint (of_nat nblocks), sb_ninodes = xint (of_nat NINODES),
     sb_nlog = xint (of_nat nlog), sb_logstart = xint 2, sb_inodestart = xint (of_nat (2 + nlog)),
     sb_bmapstart = xint (of_nat (2 + nlog + ninodeblocks))\<rparr>"


section \<open>Sectors and inodes\<close>

definition wsect :: "u32 \<Rightarrow> u8 list \<Rightarrow> (mkfs, unit) kop" where
  "wsect sec buf = kmod (\<lambda>s. s\<lparr>img := (img s)(sec := buf), img_len := max (img_len s) (Suc (unat sec))\<rparr>)"

definition rsect :: "u32 \<Rightarrow> (mkfs, u8 list) kop" where
  "rsect sec =
     kbind (kget img_len) (\<lambda>n.
     if unat sec < n then kget (\<lambda>s. img s sec) else panic ''read'')"

definition winode :: "u32 \<Rightarrow> dinode \<Rightarrow> (mkfs, unit) kop" where
  "winode inum ip =
     (let bn = IBLOCK inum mk_sb in
      kbind (rsect bn) (\<lambda>buf.
      wsect bn (splice buf (dino_off inum) (enc_dinode ip))))"

definition rinode :: "u32 \<Rightarrow> (mkfs, dinode) kop" where
  "rinode inum =
     kbind (rsect (IBLOCK inum mk_sb)) (\<lambda>buf.
     kret (dec_dinode (slice buf (dino_off inum) DINODE_SIZE)))"

definition mk_ialloc :: "u16 \<Rightarrow> (mkfs, u32) kop" where
  "mk_ialloc type =
     kbind (kget freeinode) (\<lambda>inum.
     kthen (kmod (\<lambda>s. s\<lparr>freeinode := freeinode s + 1\<rparr>))
     (kthen (winode inum \<lparr>di_type = xshort type, di_major = 0, di_minor = 0, di_nlink = xshort 1, di_size = xint 0,
        di_addrs = replicate (Suc NDIRECT) 0\<rparr>)
     (kret inum)))"

definition mk_balloc :: "nat \<Rightarrow> (mkfs, unit) kop" where
  "mk_balloc used =
     (if \<not> used < BSIZE * 8 then panic ''assert''
      else wsect (sb_bmapstart mk_sb) (fold mark_bit [0..<used] (replicate BSIZE 0)))"


section \<open>Appending\<close>

text \<open>\<open>freeblock++\<close>\<close>

definition take_block :: "(mkfs, u32) kop" where
  "take_block = kbind (kget freeblock) (\<lambda>b. kthen (kmod (\<lambda>s. s\<lparr>freeblock := freeblock s + 1\<rparr>)) (kret b))"

text \<open>The first half of a turn of \<^verbatim>\<open>iappend\<close>: the block for block number \<open>fbn\<close> of the file.\<close>

definition addr_slot :: "nat \<Rightarrow> dinode \<Rightarrow> (mkfs, dinode) kop" where
  "addr_slot i din =
     (if xint (di_addrs din ! i) = 0
      then kbind take_block (\<lambda>b. kret (din\<lparr>di_addrs := (di_addrs din)[i := xint b]\<rparr>))
      else kret din)"

definition block_for :: "nat \<Rightarrow> dinode \<Rightarrow> (mkfs, u32 \<times> dinode) kop" where
  "block_for fbn din =
     (if fbn < NDIRECT then
        kbind (addr_slot fbn din) (\<lambda>din. kret (xint (di_addrs din ! fbn), din))
      else
        kbind (addr_slot NDIRECT din) (\<lambda>din.
        kbind (rsect (xint (di_addrs din ! NDIRECT))) (\<lambda>ind.
        if word_at ind (fbn - NDIRECT) = 0 then
          kbind take_block (\<lambda>b.
          kthen (wsect (xint (di_addrs din ! NDIRECT)) (splice ind (4 * (fbn - NDIRECT)) (le32 (xint b))))
          (kret (xint (xint b), din)))
        else kret (xint (word_at ind (fbn - NDIRECT)), din))))"

text \<open>The loop; \<open>p\<close> is what is left to append, \<open>off\<close> the offset, which stays below \<open>MAXFILE * BSIZE\<close> by the assertion.\<close>

function iappend_loop :: "u8 list \<Rightarrow> nat \<Rightarrow> dinode \<Rightarrow> (mkfs, nat \<times> dinode) kop" where
  "iappend_loop p off din s =
     (if p = [] then Ok (off, din) s
      else
        (let fbn = off div BSIZE; n1 = min (length p) ((fbn + 1) * BSIZE - off) in
         if \<not> fbn < MAXFILE then Fault (Panic ''assert'')
         else
           kbind (block_for fbn din) (\<lambda>(x, din).
           kbind (rsect x) (\<lambda>buf.
           kthen (wsect x (splice buf (off - fbn * BSIZE) (take n1 p)))
           (iappend_loop (drop n1 p) (off + n1) din))) s))"
  by pat_completeness auto
termination
proof (relation "measure (\<lambda>(p, off, din, s). length p)", goal_cases)
  case (2 p off din s)
  have "off < Suc (off div BSIZE) * BSIZE" by (simp add: BSIZE_def)
  then show ?case using 2 by auto
qed simp

declare iappend_loop.simps [simp del]

definition iappend :: "u32 \<Rightarrow> u8 list \<Rightarrow> (mkfs, unit) kop" where
  "iappend inum p =
     kbind (rinode inum) (\<lambda>din.
     kbind (iappend_loop p (unat (xint (di_size din))) din) (\<lambda>(off, din).
     winode inum (din\<lparr>di_size := xint (of_nat off)\<rparr>)))"


section \<open>The program\<close>

definition sb_bytes :: "superblock \<Rightarrow> u8 list" where
  "sb_bytes b = concat (map le32 [sb_size b, sb_nblocks b, sb_ninodes b, sb_nlog b, sb_logstart b, sb_inodestart b, sb_bmapstart b])"

text \<open>A directory entry that \<^verbatim>\<open>bzero\<close>, \<^verbatim>\<open>xshort\<close> and \<^verbatim>\<open>strncpy\<close> (or \<^verbatim>\<open>strcpy\<close> of a short name) fill.\<close>

definition mk_dirent :: "u32 \<Rightarrow> u8 list \<Rightarrow> u8 list" where
  "mk_dirent inum nm = enc_dirent (xshort (ucast inum)) (strncpy_bytes (ptr nm) DIRSIZ)"

text \<open>The loop over the characters of a path counts those behind the last slash.\<close>

definition name_len :: "u8 list \<Rightarrow> int" where
  "name_len path = foldl (\<lambda>j c. (if c = 47 then -1 else j) + 1) 0 path"

definition base_name :: "u8 list \<Rightarrow> u8 list" where
  "base_name path = drop (length path - nat (name_len path)) path"

definition file_name :: "u8 list \<Rightarrow> u8 list" where
  "file_name path = (case base_name path of c # nm \<Rightarrow> if c = 95 then nm else c # nm | [] \<Rightarrow> [])"

text \<open>The loop that reads a file block by block.\<close>

function copy_file :: "u32 \<Rightarrow> u8 list \<Rightarrow> (mkfs, unit) kop" where
  "copy_file inum c s = (if c = [] then Ok () s
     else kthen (iappend inum (take BSIZE c)) (copy_file inum (drop BSIZE c)) s)"
  by pat_completeness auto
termination
  by (relation "measure (\<lambda>(inum, c, s). length c)") (auto simp: BSIZE_def)

declare copy_file.simps [simp del]

definition add_file :: "u32 \<Rightarrow> u8 list \<times> u8 list option \<Rightarrow> (mkfs, unit) kop" where
  "add_file rootino f = (case f of (path, r) \<Rightarrow>
     if 47 \<in> set (base_name path) then panic ''assert''
     else case r of
       None \<Rightarrow> panic ''open''
     | Some c \<Rightarrow>
         kbind (mk_ialloc T_FILE) (\<lambda>inum.
         kthen (iappend rootino (mk_dirent inum (file_name path)))
         (copy_file inum c)))"

definition fix_root :: "u32 \<Rightarrow> (mkfs, unit) kop" where
  "fix_root rootino =
     kbind (rinode rootino) (\<lambda>din.
     let off = xint (di_size din); off = (off div 512 + 1) * 512 in
     winode rootino (din\<lparr>di_size := xint off\<rparr>))"

definition mkfs_main :: "(u8 list \<times> u8 list option) list \<Rightarrow> (mkfs, unit) kop" where
  "mkfs_main files =
     kthen (kmod (\<lambda>s. s\<lparr>freeblock := of_nat nmeta\<rparr>))
     (kthen (kfor [0..<FSSIZE] (\<lambda>i. wsect (of_nat i) (replicate BSIZE 0)))
     (kthen (wsect 1 (splice (replicate BSIZE 0) 0 (sb_bytes mk_sb)))
     (kbind (mk_ialloc T_DIR) (\<lambda>rootino.
      if rootino \<noteq> ROOTINO then panic ''assert''
      else
        kthen (iappend rootino (mk_dirent rootino [46]))
        (kthen (iappend rootino (mk_dirent rootino [46, 46]))
        (kthen (kfor files (add_file rootino))
        (kthen (fix_root rootino)
        (kbind (kget freeblock) (\<lambda>n. mk_balloc (unat n))))))))))"

end
