(* ===== verification/Mkfs_Files.thy ===== *)
theory Mkfs_Files
  imports Mkfs
begin

text \<open>
  Correctness of \<^verbatim>\<open>mkfs\<close>. \<open>layout\<close> says which blocks an on-disk inode consists of, \<open>mk_inv\<close> that the blocks of
  different inodes are different and below \<^verbatim>\<open>freeblock\<close>, and \<open>fsys\<close> abstracts the image to the type and the
  contents of every inode; the routines are operations on that view.
\<close>

section \<open>Constants\<close>

lemma mk_consts: "nmeta = 59" "nlog = 30" "ninodeblocks = 26" "nbitmap = 1" "FSSIZE = 1000" "nblocks = 941"
  by (simp_all add: nmeta_def nlog_def ninodeblocks_def nbitmap_def FSSIZE_def NINODES_def LOGSIZE_def nblocks_def fs_consts BSIZE_def)

lemma xint_id [simp]: "xint x = x"
  using unle32_le32[of x] by (simp add: xint_def le32_def)

lemma xshort_id [simp]: "xshort x = x"
  using unle16_le16[of x] by (simp add: xshort_def le16_def)

lemma mk_sb_simps [simp]:
  "sb_inodestart mk_sb = 32" "sb_bmapstart mk_sb = 58" "sb_size mk_sb = 1000" "sb_logstart mk_sb = 2"
  by (simp_all add: mk_sb_def mk_consts)

text \<open>The inodes that \<^verbatim>\<open>ialloc\<close> may hand out lie in the inode blocks.\<close>

lemma iblock_range:
  assumes "unat i < 208"
  shows "32 \<le> unat (IBLOCK i mk_sb)" "unat (IBLOCK i mk_sb) < 58"
proof -
  have "unat (i div 8 :: u32) = unat i div 8" by (simp add: unat_div)
  then have "unat (IBLOCK i mk_sb) = unat i div 8 + 32"
    using assms by (simp add: IBLOCK_def unat_word_ariths)
  then show "32 \<le> unat (IBLOCK i mk_sb)" "unat (IBLOCK i mk_sb) < 58" using assms by auto
qed


section \<open>Blocks of an inode\<close>

definition layout :: "(u32 \<Rightarrow> u8 list) \<Rightarrow> dinode \<Rightarrow> u32 list \<Rightarrow> u32 list \<Rightarrow> bool" where
  "layout v d bs ib \<longleftrightarrow> length (di_addrs d) = Suc NDIRECT \<and> length bs \<le> MAXFILE
     \<and> (\<forall>n<NDIRECT. di_addrs d ! n = (if n < length bs then bs ! n else 0))
     \<and> (if length bs \<le> NDIRECT then ib = [] \<and> di_addrs d ! NDIRECT = 0
        else ib = [di_addrs d ! NDIRECT] \<and> (\<forall>n<NINDIRECT. word_at (v (di_addrs d ! NDIRECT)) n
          = (if NDIRECT + n < length bs then bs ! (NDIRECT + n) else 0)))"

lemma layout_addr:
  assumes "layout v d bs ib" "n < length bs"
  shows "addr_of v (load_dinode d x) n = bs ! n"
proof (cases "n < NDIRECT")
  case True
  then show ?thesis using assms by (simp add: layout_def addr_of_def load_dinode_def)
next
  case False
  then have "n - NDIRECT < NINDIRECT" using assms by (auto simp: layout_def MAXFILE_def)
  then show ?thesis using assms False by (auto simp: layout_def addr_of_def load_dinode_def)
qed

lemma layout_cong: "layout v d bs ib \<Longrightarrow> (\<And>b. b \<in> set ib \<Longrightarrow> w b = v b) \<Longrightarrow> layout w d bs ib"
  by (auto simp: layout_def split: if_splits)

lemma nth_concat_blocks:
  assumes "\<forall>b. length (v b) = BSIZE" "p < BSIZE * length bs"
  shows "concat (map v bs) ! p = v (bs ! (p div BSIZE)) ! (p mod BSIZE)"
  using assms(2)
proof (induction bs arbitrary: p)
  case (Cons b bs)
  show ?case
  proof (cases "p < BSIZE")
    case True
    then show ?thesis using assms(1) by (simp add: nth_append)
  next
    case False
    then have "p div BSIZE = Suc ((p - BSIZE) div BSIZE)" "p mod BSIZE = (p - BSIZE) mod BSIZE"
      by (simp_all add: BSIZE_def le_div_geq le_mod_geq)
    then show ?thesis using False assms(1) Cons.IH[of "p - BSIZE"] Cons.prems by (simp add: nth_append)
  qed
qed simp

lemma length_concat_blocks: "\<forall>b. length (v b) = BSIZE \<Longrightarrow> length (concat (map v bs)) = BSIZE * length bs"
  by (induction bs) auto

lemma layout_bytes:
  assumes "layout v d bs ib" "\<forall>b. length (v b) = BSIZE" "n \<le> BSIZE * length bs"
  shows "file_bytes v (load_dinode d x) 0 n = take n (concat (map v bs))"
proof (rule nth_equalityI)
  show "length (file_bytes v (load_dinode d x) 0 n) = length (take n (concat (map v bs)))"
    using assms(3) length_concat_blocks[OF assms(2)] by (simp add: file_bytes_def)
next
  fix p assume "p < length (file_bytes v (load_dinode d x) 0 n)"
  then have p: "p < n" by (simp add: file_bytes_def)
  then have "p div BSIZE < length bs" using assms(3) by (simp add: BSIZE_def less_mult_imp_div_less mult.commute)
  then show "file_bytes v (load_dinode d x) 0 n ! p = take n (concat (map v bs)) ! p"
    using p assms(3) layout_addr[OF assms(1)] nth_concat_blocks[OF assms(2), of p bs] by (simp add: file_bytes_def file_byte_def)
qed

text \<open>A new block at the end of the data, and for the first indirect block the block of addresses.\<close>

lemma layout_direct:
  assumes "layout v d bs ib" "length bs < NDIRECT" "b \<noteq> 0"
  shows "layout v (d\<lparr>di_addrs := (di_addrs d)[length bs := b]\<rparr>) (bs @ [b]) ib"
  using assms by (auto simp: layout_def nth_append nth_list_update MAXFILE_def)

lemma word_at_splice:
  assumes "length d = BSIZE" "i < NINDIRECT" "j < NINDIRECT"
  shows "word_at (splice d (4 * i) (le32 b)) j = (if j = i then b else word_at d j)"
proof -
  have fit: "4 * i + length (le32 b) \<le> length d" "4 * j + 4 \<le> length d" using assms by (simp_all add: BSIZE_def fs_consts)
  show ?thesis
  proof (cases "j = i")
    case True
    then show ?thesis by (simp add: word_at_def slice_splice_same[OF fit(1)])
  next
    case False
    then have "4 * j + 4 \<le> 4 * i \<or> 4 * i + length (le32 b) \<le> 4 * j" by auto
    then show ?thesis using False slice_splice_other[OF fit] by (simp add: word_at_def)
  qed
qed

lemma layout_indirect:
  assumes "layout v d bs ib" "NDIRECT < length bs" "length bs < MAXFILE" "length (v a) = BSIZE" "ib = [a]"
  shows "layout (v(a := splice (v a) (4 * (length bs - NDIRECT)) (le32 b))) d (bs @ [b]) [a]"
  using assms by (auto simp: layout_def word_at_splice nth_append MAXFILE_def)

lemma word_at_zeros: "i < NINDIRECT \<Longrightarrow> word_at (replicate BSIZE 0) i = 0"
  by (simp add: word_at_def slice_def BSIZE_def fs_consts unle32_def)

lemma layout_first_indirect:
  assumes "layout v d bs ib" "length bs = NDIRECT" "a \<noteq> 0" "v a = replicate BSIZE 0"
  shows "layout (v(a := splice (v a) 0 (le32 b))) (d\<lparr>di_addrs := (di_addrs d)[NDIRECT := a]\<rparr>) (bs @ [b]) [a]"
proof -
  have "word_at (splice (replicate BSIZE 0) 0 (le32 b)) n = (if n = 0 then b else 0)" if "n < NINDIRECT" for n
    using word_at_splice[of "replicate BSIZE 0" 0 n b] word_at_zeros[OF that] that by (auto simp: fs_consts)
  then show ?thesis using assms by (auto simp: layout_def nth_append MAXFILE_def fs_consts)
qed


section \<open>The blocks of all inodes\<close>

text \<open>The inodes \<open>J\<close>, with their on-disk form \<open>D\<close>, data blocks \<open>B\<close> and indirect blocks \<open>I\<close>.\<close>

definition mk_inv :: "u32 set \<Rightarrow> (u32 \<Rightarrow> dinode) \<Rightarrow> (u32 \<Rightarrow> u32 list) \<Rightarrow> (u32 \<Rightarrow> u32 list) \<Rightarrow> mkfs \<Rightarrow> bool" where
  "mk_inv J D B I s \<longleftrightarrow> img_len s = FSSIZE \<and> (\<forall>b. length (img s b) = BSIZE)
     \<and> (\<forall>b. unat (freeblock s) \<le> unat b \<longrightarrow> img s b = replicate BSIZE 0)
     \<and> (\<forall>j\<in>J. layout (img s) (D j) (B j) (I j) \<and> distinct (B j @ I j)
          \<and> (\<forall>b\<in>set (B j @ I j). nmeta \<le> unat b \<and> unat b < unat (freeblock s)))
     \<and> (\<forall>j\<in>J. \<forall>k\<in>J. j \<noteq> k \<longrightarrow> set (B j @ I j) \<inter> set (B k @ I k) = {})"

lemma mk_invD:
  assumes "mk_inv J D B I s"
  shows "img_len s = FSSIZE" "length (img s b) = BSIZE" "unat (freeblock s) \<le> unat b \<Longrightarrow> img s b = replicate BSIZE 0"
    "j \<in> J \<Longrightarrow> layout (img s) (D j) (B j) (I j)" "j \<in> J \<Longrightarrow> distinct (B j @ I j)"
    "j \<in> J \<Longrightarrow> b \<in> set (B j @ I j) \<Longrightarrow> nmeta \<le> unat b \<and> unat b < unat (freeblock s)"
    "j \<in> J \<Longrightarrow> k \<in> J \<Longrightarrow> j \<noteq> k \<Longrightarrow> set (B j @ I j) \<inter> set (B k @ I k) = {}"
  using assms unfolding mk_inv_def by blast+

lemma extend_inv:
  assumes inv: "mk_inv J D B I s" and i: "i \<in> J"
    and "img_len s' = FSSIZE" "\<forall>b. length (img s' b) = BSIZE" "\<forall>b. unat (freeblock s') \<le> unat b \<longrightarrow> img s' b = replicate BSIZE 0"
    and fb: "unat (freeblock s) \<le> unat (freeblock s')"
    and new: "layout (img s') d' bs ib" "distinct (bs @ ib)"
    and range: "\<forall>b\<in>set (bs @ ib). nmeta \<le> unat b \<and> unat b < unat (freeblock s')"
    and fresh: "\<forall>b\<in>set (bs @ ib). b \<in> set (B i @ I i) \<or> unat (freeblock s) \<le> unat b"
    and frame: "\<forall>b. b \<notin> set (bs @ ib) \<longrightarrow> img s' b = img s b"
  shows "mk_inv J (D(i := d')) (B(i := bs)) (I(i := ib)) s'"
proof -
  have disj: "set (bs @ ib) \<inter> set (B j @ I j) = {}" if "j \<in> J" "j \<noteq> i" for j
    using fresh mk_invD(6)[OF inv that(1)] mk_invD(7)[OF inv i that(1)] that(2) by fastforce
  have old: "layout (img s') (D j) (B j) (I j)" if "j \<in> J" "j \<noteq> i" for j
    by (rule layout_cong[OF mk_invD(4)[OF inv that(1)]]) (use frame disj[OF that] in auto)
  have "nmeta \<le> unat b \<and> unat b < unat (freeblock s')" if "j \<in> J" "b \<in> set (B j @ I j)" for j b
    using mk_invD(6)[OF inv that] fb by linarith
  then show ?thesis unfolding mk_inv_def
    using assms(3-5) new range old disj mk_invD(5,7)[OF inv] by (auto simp: Int_commute)
qed

lemma rsect_run: "unat b < img_len s \<Longrightarrow> rsect b s = Ok (img s b) s"
  by (simp add: rsect_def)

lemma take_block_run: "take_block s = Ok (freeblock s) (s\<lparr>freeblock := freeblock s + 1\<rparr>)"
  by (simp add: take_block_def)

lemma wsect_run:
  "unat b < img_len s \<Longrightarrow> wsect b d s = Ok () (s\<lparr>img := (img s)(b := d)\<rparr>)"
  by (simp add: wsect_def max_def)

lemma block_for_old:
  assumes "mk_inv J D B I s" "i \<in> J" "fbn < length (B i)" "unat (freeblock s) \<le> FSSIZE"
  shows "block_for fbn (D i) s = Ok (B i ! fbn, D i) s"
proof -
  note l = mk_invD(4)[OF assms(1,2)]
  have b: "B i ! fbn \<noteq> 0" using mk_invD(6)[OF assms(1,2), of "B i ! fbn"] assms(3) by (auto simp: mk_consts)
  show ?thesis
  proof (cases "fbn < NDIRECT")
    case True
    then show ?thesis using l b assms(3) by (simp add: block_for_def addr_slot_def layout_def)
  next
    case False
    let ?a = "di_addrs (D i) ! NDIRECT"
    have a: "I i = [?a]" "fbn - NDIRECT < NINDIRECT" "word_at (img s ?a) (fbn - NDIRECT) = B i ! fbn"
      using l False assms(3) by (auto simp: layout_def MAXFILE_def)
    have "unat ?a < img_len s" "?a \<noteq> 0"
      using mk_invD(6)[OF assms(1,2), of ?a] a(1) mk_invD(1)[OF assms(1)] assms(4) by (auto simp: mk_consts)
    then show ?thesis using False a b by (simp add: block_for_def addr_slot_def rsect_run)
  qed
qed

definition new_blocks :: "nat \<Rightarrow> nat" where
  "new_blocks fbn = (if fbn = NDIRECT then 2 else 1)"

text \<open>A block number behind the last block: the next free block becomes the file's last one.\<close>

definition extended :: "u32 set \<Rightarrow> (u32 \<Rightarrow> dinode) \<Rightarrow> (u32 \<Rightarrow> u32 list) \<Rightarrow> (u32 \<Rightarrow> u32 list) \<Rightarrow> mkfs \<Rightarrow> u32
    \<Rightarrow> u32 \<Rightarrow> dinode \<Rightarrow> u32 list \<Rightarrow> mkfs \<Rightarrow> bool" where
  "extended J D B I s i b d' ib s' \<longleftrightarrow> mk_inv J (D(i := d')) (B(i := B i @ [b])) (I(i := ib)) s'
     \<and> (\<forall>c. c \<notin> set ib \<longrightarrow> img s' c = img s c) \<and> d' = (D i)\<lparr>di_addrs := di_addrs d'\<rparr> \<and> freeinode s' = freeinode s
     \<and> unat (freeblock s') = unat (freeblock s) + new_blocks (length (B i)) \<and> unat (freeblock s) \<le> unat b"

lemma unat_Suc_small: "unat (w :: u32) < 1000 \<Longrightarrow> unat (w + 1) = Suc (unat w)"
  by (simp add: unat_word_ariths)

lemma block_for_new:
  assumes inv: "mk_inv J D B I s" "i \<in> J" and n: "length (B i) < MAXFILE"
    and fb: "nmeta \<le> unat (freeblock s)" "unat (freeblock s) + new_blocks (length (B i)) \<le> FSSIZE"
  shows "\<exists>b d' ib s'. block_for (length (B i)) (D i) s = Ok (b, d') s' \<and> extended J D B I s i b d' ib s'"
proof -
  let ?fb = "freeblock s" and ?n = "length (B i)"
  note l = mk_invD(4)[OF inv] and len = mk_invD(2)[OF inv(1)]
  have zero: "?fb \<noteq> 0" "unat ?fb < 1000" using fb by (auto simp: mk_consts new_blocks_def split: if_splits)
  have old: "?fb \<notin> set (B i @ I i)" using mk_invD(6)[OF inv] by auto
  have zeros: "unat ?fb \<le> unat b \<Longrightarrow> img s b = replicate BSIZE 0" for b by (rule mk_invD(3)[OF inv(1)])
  consider (direct) "?n < NDIRECT" | (first) "?n = NDIRECT" | (indirect) "NDIRECT < ?n" by linarith
  then show ?thesis
  proof cases
    case direct
    let ?d = "(D i)\<lparr>di_addrs := (di_addrs (D i))[?n := ?fb]\<rparr>" and ?s = "s\<lparr>freeblock := ?fb + 1\<rparr>"
    have "block_for ?n (D i) s = Ok (?fb, ?d) ?s"
      using direct l by (simp add: block_for_def addr_slot_def layout_def take_block_run)
    moreover have "I i = []" using l direct by (simp add: layout_def)
    then have "extended J D B I s i ?fb ?d (I i) ?s" unfolding extended_def new_blocks_def
      using direct layout_direct[OF l direct zero(1)] old fb zeros mk_invD(1,2)[OF inv(1)] mk_invD(5,6)[OF inv] unat_Suc_small[OF zero(2)]
      by (intro conjI extend_inv[OF inv]) (auto simp: less_Suc_eq)
    ultimately show ?thesis by blast
  next
    case first
    let ?b = "?fb + 1" and ?d = "(D i)\<lparr>di_addrs := (di_addrs (D i))[NDIRECT := ?fb]\<rparr>"
    let ?s = "s\<lparr>freeblock := ?fb + 1 + 1, img := (img s)(?fb := splice (img s ?fb) 0 (le32 (?fb + 1)))\<rparr>"
    have f: "unat ?b = Suc (unat ?fb)" "unat (?b + 1) = Suc (Suc (unat ?fb))" "?fb \<noteq> ?b"
      using fb first unat_Suc_small[of ?fb] unat_Suc_small[of ?b] by (auto simp: mk_consts new_blocks_def)
    have "?b \<notin> set (B i @ I i)" using mk_invD(6)[OF inv, of ?b] f(1) by auto
    note old = old this
    have z: "img s ?fb = replicate BSIZE 0" using zeros by simp
    have "block_for ?n (D i) s = Ok (?b, ?d) ?s"
      using first l zero mk_invD(1)[OF inv(1)] word_at_zeros[of 0]
      by (simp add: block_for_def addr_slot_def layout_def take_block_run rsect_run wsect_run z mk_consts fs_consts)
    moreover have "I i = []" using l first by (simp add: layout_def)
    then have "extended J D B I s i ?b ?d [?fb] ?s" unfolding extended_def new_blocks_def
      using first layout_first_indirect[OF l first zero(1) z, of ?b] old fb zeros mk_invD(1,2)[OF inv(1)] mk_invD(5,6)[OF inv] f
      by (intro conjI extend_inv[OF inv]) (auto simp: less_Suc_eq z BSIZE_def)
    ultimately show ?thesis by blast
  next
    case indirect
    let ?a = "di_addrs (D i) ! NDIRECT"
    let ?s = "s\<lparr>freeblock := ?fb + 1, img := (img s)(?a := splice (img s ?a) (4 * (?n - NDIRECT)) (le32 ?fb))\<rparr>"
    have a: "I i = [?a]" "?n - NDIRECT < NINDIRECT" "word_at (img s ?a) (?n - NDIRECT) = 0"
      using l indirect n by (auto simp: layout_def MAXFILE_def)
    have a': "unat ?a < unat ?fb" "?a \<noteq> 0" using mk_invD(6)[OF inv, of ?a] a(1) by (auto simp: mk_consts)
    have "block_for ?n (D i) s = Ok (?fb, D i) ?s"
      using indirect a a' zero mk_invD(1)[OF inv(1)]
      by (simp add: block_for_def addr_slot_def take_block_run rsect_run wsect_run mk_consts)
    moreover have z: "\<forall>b. unat (freeblock ?s) \<le> unat b \<longrightarrow> img ?s b = replicate BSIZE 0"
      using zeros a'(1) unat_Suc_small[OF zero(2)] by auto
    have "extended J D B I s i ?fb (D i) [?a] ?s" unfolding extended_def new_blocks_def
      using indirect layout_indirect[OF l indirect n len a(1), of ?fb] old fb mk_invD(1,2)[OF inv(1)] mk_invD(5,6)[OF inv] a a' unat_Suc_small[OF zero(2)]
      by (intro conjI extend_inv[OF inv] z) (auto simp: less_Suc_eq fs_consts BSIZE_def)
    ultimately show ?thesis by blast
  qed
qed


lemma write_inv:
  assumes inv: "mk_inv J D B I s" "i \<in> J" and "x \<in> set (B i)" "length d = BSIZE"
  shows "mk_inv J D B I (s\<lparr>img := (img s)(x := d)\<rparr>)"
proof -
  let ?s = "s\<lparr>img := (img s)(x := d)\<rparr>"
  have x: "x \<notin> set (I i)" "unat x < unat (freeblock s)"
    using mk_invD(5)[OF inv] mk_invD(6)[OF inv, of x] assms(3) by auto
  have "layout (img ?s) (D i) (B i) (I i)"
    by (rule layout_cong[OF mk_invD(4)[OF inv]]) (use x in auto)
  moreover have "\<forall>b. unat (freeblock ?s) \<le> unat b \<longrightarrow> img ?s b = replicate BSIZE 0"
    using mk_invD(3)[OF inv(1)] x(2) by auto
  ultimately have "mk_inv J (D(i := D i)) (B(i := B i)) (I(i := I i)) ?s"
    using mk_invD(1,2)[OF inv(1)] mk_invD(5,6)[OF inv] assms(3,4) by (intro extend_inv[OF inv]) auto
  then show ?thesis by simp
qed


section \<open>Appending\<close>

definition nblk :: "nat \<Rightarrow> nat" where "nblk n = (n + 511) div 512"

text \<open>The blocks that a file of \<open>n\<close> bytes takes.\<close>

definition blocks_for :: "nat \<Rightarrow> nat" where
  "blocks_for n = nblk n + (if nblk n > NDIRECT then 1 else 0)"

lemma nblk_mono: "m \<le> n \<Longrightarrow> nblk m \<le> nblk n"
  by (simp add: nblk_def div_le_mono)

lemma blocks_for_mono: "m \<le> n \<Longrightarrow> blocks_for m \<le> blocks_for n"
  using nblk_mono[of m n] by (auto simp: blocks_for_def)

lemma nblk_turn:
  assumes "off div 512 * 512 < m" "m \<le> Suc (off div 512) * 512"
  shows "nblk m = Suc (off div 512)"
proof -
  have "Suc (off div 512) * 512 \<le> m + 511" "m + 511 < Suc (Suc (off div 512)) * 512" using assms by auto
  then show ?thesis unfolding nblk_def by (intro div_nat_eqI) (simp_all add: mult.commute)
qed

lemma nblk_start: "nblk off = (if off mod 512 = 0 then off div 512 else Suc (off div 512))"
proof (cases "off mod 512 = 0")
  case True
  then have "off = 512 * (off div 512)" by (metis mult_div_mod_eq add_0_right)
  then have "512 * (off div 512) \<le> off + 511" "off + 511 < 512 * Suc (off div 512)" by simp_all
  then have "(off + 511) div 512 = off div 512" by (intro div_nat_eqI)
  then show ?thesis using True by (simp add: nblk_def)
next
  case False
  have "off = off div 512 * 512 + off mod 512" "off mod 512 < 512" by simp_all
  then have "off div 512 * 512 < off" using False by linarith
  moreover have "off < Suc (off div 512) * 512" by simp
  ultimately have "off div 512 * 512 < off" "off \<le> Suc (off div 512) * 512" by simp_all
  then show ?thesis using nblk_turn False by simp
qed

lemma chunk_write:
  assumes bs: "bs = bs0 @ [x]" "distinct bs" "\<forall>b. length (v b) = BSIZE" "length bs0 * BSIZE \<le> off"
    "off + length ch \<le> Suc (length bs0) * BSIZE"
  shows "take (off + length ch) (concat (map (v(x := splice (v x) (off - length bs0 * BSIZE) ch)) bs))
    = take off (concat (map v bs)) @ ch"
proof -
  let ?o = "off - length bs0 * BSIZE" and ?c = "concat (map v bs0)"
  have len: "length ?c = length bs0 * BSIZE" using length_concat_blocks[OF bs(3)] by (simp add: mult.commute)
  have o: "?o + length ch \<le> BSIZE" using bs(4,5) by auto
  have m: "map (v(x := splice (v x) ?o ch)) bs = map v bs0 @ [splice (v x) ?o ch]" using bs(1,2) by auto
  have "take (off + length ch) (concat (map (v(x := splice (v x) ?o ch)) bs)) = ?c @ take (?o + length ch) (splice (v x) ?o ch)"
    unfolding m using bs(4) len by simp
  also have "take (?o + length ch) (splice (v x) ?o ch) = take ?o (v x) @ ch"
    using o bs(3) by (simp add: splice_def)
  also have "?c @ take ?o (v x) @ ch = take off (concat (map v bs)) @ ch" using bs(1,4) len by simp
  finally show ?thesis .
qed

text \<open>The block of a turn is the last one of the file, and it is a new one at a block boundary.\<close>

lemma chunk_pad:
  assumes bs: "bs = bs0 @ [x]" "distinct bs" "\<forall>b. length (v b) = BSIZE" "length bs0 * BSIZE \<le> off"
    "off + length ch \<le> Suc (length bs0) * BSIZE"
  shows "drop (off + length ch) (concat (map (v(x := splice (v x) (off - length bs0 * BSIZE) ch)) bs))
    = drop (off + length ch) (concat (map v bs))"
proof -
  let ?o = "off - length bs0 * BSIZE" and ?c = "concat (map v bs0)"
  have len: "length ?c = length bs0 * BSIZE" using length_concat_blocks[OF bs(3)] by (simp add: mult.commute)
  have o: "?o + length ch \<le> BSIZE" "off + length ch - length bs0 * BSIZE = ?o + length ch" using bs(4,5) by auto
  have m: "map (v(x := splice (v x) ?o ch)) bs = map v bs0 @ [splice (v x) ?o ch]" using bs(1,2) by auto
  have "drop (?o + length ch) (splice (v x) ?o ch) = drop (?o + length ch) (v x)" using o(1) bs(3) by (simp add: splice_def)
  moreover have "drop (off + length ch) (?c @ y) = drop (?o + length ch) y" for y using bs(4) len o(2) by simp
  moreover have "map v bs = map v bs0 @ [v x]" using bs(1) by simp
  ultimately show ?thesis unfolding m by (simp only: concat_append concat.simps append_Nil2)
qed

text \<open>The rest of the last block is zero.\<close>

definition padded :: "(u32 \<Rightarrow> u8 list) \<Rightarrow> u32 list \<Rightarrow> nat \<Rightarrow> bool" where
  "padded v bs n \<longleftrightarrow> set (drop n (concat (map v bs))) \<subseteq> {0}"

definition same_others :: "u32 set \<Rightarrow> u32 \<Rightarrow> (u32 \<Rightarrow> u32 list) \<Rightarrow> mkfs \<Rightarrow> (u32 \<Rightarrow> u32 list) \<Rightarrow> mkfs \<Rightarrow> bool" where
  "same_others J i B s B' s' \<longleftrightarrow> (\<forall>j\<in>J. j \<noteq> i \<longrightarrow> B' j = B j \<and> map (img s') (B j) = map (img s) (B j))
     \<and> (\<forall>b. unat b < nmeta \<longrightarrow> img s' b = img s b) \<and> freeinode s' = freeinode s"

lemma same_others_refl [simp]: "same_others J i B s B s"
  by (simp add: same_others_def)

lemma same_others_trans: "same_others J i B s B' s' \<Longrightarrow> same_others J i B' s' B'' s'' \<Longrightarrow> same_others J i B s B'' s''"
  by (auto simp: same_others_def)

definition turn_blocks :: "nat \<Rightarrow> nat" where
  "turn_blocks off = (if off mod 512 = 0 then new_blocks (off div 512) else 0)"

lemma turn_slot:
  assumes inv: "mk_inv J D B I s" "i \<in> J" and off: "length (B i) = nblk off" "off < MAXFILE * BSIZE"
    and fb: "nmeta \<le> unat (freeblock s)" "unat (freeblock s) + turn_blocks off \<le> FSSIZE"
  shows "\<exists>x d' B' I' s' bs0. block_for (off div BSIZE) (D i) s = Ok (x, d') s' \<and> mk_inv J (D(i := d')) B' I' s'
    \<and> B' i = bs0 @ [x] \<and> length bs0 = off div BSIZE \<and> take off (concat (map (img s') (B' i))) = take off (concat (map (img s) (B i)))
    \<and> (padded (img s) (B i) off \<longrightarrow> padded (img s') (B' i) off) \<and> same_others J i B s B' s' \<and> d' = (D i)\<lparr>di_addrs := di_addrs d'\<rparr> \<and> unat (freeblock s') = unat (freeblock s) + turn_blocks off"
proof (cases "off mod 512 = 0")
  case False
  then have n: "length (B i) = Suc (off div BSIZE)" using off(1) by (simp add: nblk_start BSIZE_def)
  then obtain bs0 x where bs: "B i = bs0 @ [x]" "length bs0 = off div BSIZE" by (metis length_Suc_conv_rev)
  have "block_for (off div BSIZE) (D i) s = Ok (x, D i) s"
    using block_for_old[OF inv, of "off div BSIZE"] fb(2) bs n by (simp add: nth_append)
  moreover have "turn_blocks off = 0" using False by (simp add: turn_blocks_def)
  ultimately show ?thesis using bs inv(1)
    by (intro exI[of _ x] exI[of _ "D i"] exI[of _ B] exI[of _ I] exI[of _ s] exI[of _ bs0]) simp
next
  case True
  then have n: "length (B i) = off div BSIZE" "off = length (B i) * BSIZE" using off(1) by (auto simp: nblk_start BSIZE_def)
  have t: "turn_blocks off = new_blocks (length (B i))" using True n(1) by (simp add: turn_blocks_def BSIZE_def)
  have "length (B i) < MAXFILE" using n(2) off(2) by simp
  then obtain b d' ib s' where e: "block_for (off div BSIZE) (D i) s = Ok (b, d') s'" "extended J D B I s i b d' ib s'"
    using block_for_new[OF inv _ fb(1)] fb(2) n(1) t by metis
  let ?B = "B(i := B i @ [b])" and ?I = "I(i := ib)"
  have x: "mk_inv J (D(i := d')) ?B ?I s'" "\<And>c. c \<notin> set ib \<Longrightarrow> img s' c = img s c" "d' = (D i)\<lparr>di_addrs := di_addrs d'\<rparr>"
    "freeinode s' = freeinode s" "unat (freeblock s') = unat (freeblock s) + turn_blocks off" "unat (freeblock s) \<le> unat b"
    using e(2) t unfolding extended_def by auto
  have ib: "c \<notin> set ib" if "j \<in> J" "c \<in> set (?B j)" for j c
  proof (cases "j = i")
    case True
    then show ?thesis using mk_invD(5)[OF x(1) inv(2)] that(2) by auto
  next
    case False
    then show ?thesis using mk_invD(7)[OF x(1) inv(2) that(1)] that(2) by auto
  qed
  have maps: "map (img s') (B j) = map (img s) (B j)" if "j \<in> J" for j
    using x(2) ib[OF that] by (cases "j = i") auto
  have m: "map (img s') (B i @ [b]) = map (img s) (B i) @ [img s' b]" by (simp only: map_append maps[OF inv(2)] list.map)
  have "take off (concat (map (img s') (B i @ [b]))) = take off (concat (map (img s) (B i)))"
    unfolding m using n(2) length_concat_blocks[of "img s" "B i"] mk_invD(2)[OF inv(1)] by (simp add: mult.commute)
  moreover have "img s' b = replicate BSIZE 0" using x(2) ib[OF inv(2), of b] mk_invD(3)[OF inv(1) x(6)] by simp
  then have "padded (img s') (B i @ [b]) off"
    unfolding padded_def m using n(2) length_concat_blocks[of "img s" "B i"] mk_invD(2)[OF inv(1)] by (auto simp: mult.commute)
  moreover have "img s' c = img s c" if "unat c < nmeta" for c
    using x(2) that mk_invD(6)[OF x(1) inv(2), of c] by fastforce
  then have "same_others J i B s ?B s'" using maps x(4) by (auto simp: same_others_def)
  ultimately show ?thesis using e(1) x(1,3,5) n(1)
    by (intro exI[of _ b] exI[of _ d'] exI[of _ ?B] exI[of _ ?I] exI[of _ s'] exI[of _ "B i"]) simp
qed

lemma turn_count: "0 < n1 \<Longrightarrow> off + n1 \<le> Suc (off div 512) * 512 \<Longrightarrow> blocks_for (off + n1) = blocks_for off + turn_blocks off"
  using nblk_turn[of off "off + n1"] by (auto simp: blocks_for_def nblk_start turn_blocks_def new_blocks_def less_Suc_eq)

lemma addrs_trans: "d1 = d\<lparr>di_addrs := a1\<rparr> \<Longrightarrow> d2 = d1\<lparr>di_addrs := a2\<rparr> \<Longrightarrow> d2 = d\<lparr>di_addrs := a2\<rparr>"
  by simp

lemma iappend_loop_ok:
  assumes "mk_inv J D B I s" "i \<in> J" "length (B i) = nblk off" "off + length p \<le> MAXFILE * BSIZE"
    "nmeta \<le> unat (freeblock s)" "unat (freeblock s) + (blocks_for (off + length p) - blocks_for off) \<le> FSSIZE" "padded (img s) (B i) off"
  shows "kok (iappend_loop p off (D i)) (\<lambda>(off', d') s'. \<exists>B' I'. off' = off + length p \<and> mk_inv J (D(i := d')) B' I' s'
      \<and> length (B' i) = nblk off' \<and> take off' (concat (map (img s') (B' i))) = take off (concat (map (img s) (B i))) @ p
      \<and> padded (img s') (B' i) off' \<and> same_others J i B s B' s' \<and> d' = (D i)\<lparr>di_addrs := di_addrs d'\<rparr>
      \<and> unat (freeblock s') = unat (freeblock s) + (blocks_for off' - blocks_for off)) s"
  using assms
proof (induction "length p" arbitrary: p off D B I s rule: less_induct)
  case less
  show ?case
  proof (cases "p = []")
    case True
    then have "iappend_loop p off (D i) s = Ok (off, D i) s" by (simp add: iappend_loop.simps)
    then show ?thesis using less.prems True by (simp add: kwp_def) (rule exI[of _ B], auto)
  next
    case False
    let ?fbn = "off div BSIZE" and ?n1 = "min (length p) ((off div BSIZE + 1) * BSIZE - off)"
    have lt: "off < (?fbn + 1) * BSIZE" by (simp add: BSIZE_def)
    have n1: "0 < ?n1" "off + ?n1 \<le> Suc ?fbn * BSIZE" "?n1 \<le> length p" using False lt by auto
    have cnt: "blocks_for (off + ?n1) = blocks_for off + turn_blocks off" using turn_count[of ?n1 off] n1 by (simp add: BSIZE_def)
    have mono: "blocks_for (off + ?n1) \<le> blocks_for (off + length p)" using n1(3) by (intro blocks_for_mono) simp
    have "off < MAXFILE * BSIZE" using less.prems(4) False by (cases p) auto
    then have off: "off < MAXFILE * BSIZE" "?fbn < MAXFILE" by (auto simp: less_mult_imp_div_less)
    obtain x d1 B1 I1 s1 bs0 where b: "block_for ?fbn (D i) s = Ok (x, d1) s1" "mk_inv J (D(i := d1)) B1 I1 s1"
      "B1 i = bs0 @ [x]" "length bs0 = ?fbn" "take off (concat (map (img s1) (B1 i))) = take off (concat (map (img s) (B i)))"
      "same_others J i B s B1 s1" "d1 = (D i)\<lparr>di_addrs := di_addrs d1\<rparr>" "unat (freeblock s1) = unat (freeblock s) + turn_blocks off"
      "padded (img s1) (B1 i) off"
      using turn_slot[OF less.prems(1-3) off(1) less.prems(5)] less.prems(6,7) cnt mono by fastforce
    have fs: "unat (freeblock s1) \<le> FSSIZE" using b(8) less.prems(6) cnt mono by linarith
    have x: "x \<in> set (B1 i)" "unat x < img_len s1"
      using b(3) mk_invD(6)[OF b(2) less.prems(2), of x] mk_invD(1)[OF b(2)] fs by auto
    let ?ch = "take ?n1 p"
    let ?d = "splice (img s1 x) (off - ?fbn * BSIZE) ?ch" and ?s2 = "s1\<lparr>img := (img s1)(x := splice (img s1 x) (off - off div BSIZE * BSIZE) (take (min (length p) ((off div BSIZE + 1) * BSIZE - off)) p))\<rparr>"
    have "length ?d = BSIZE" using mk_invD(2)[OF b(2)] n1 by (subst length_splice) auto
    then have inv2: "mk_inv J (D(i := d1)) B1 I1 ?s2" using write_inv[OF b(2) less.prems(2) x(1)] by blast
    have x': "x \<notin> set (B1 j)" if "j \<in> J" "j \<noteq> i" for j
      using mk_invD(7)[OF b(2) less.prems(2) that(1)] that(2) x(1) by auto
    have "nmeta \<le> unat x" using mk_invD(6)[OF b(2) less.prems(2), of x] x(1) by simp
    then have same: "same_others J i B1 s1 B1 ?s2" using x' by (auto simp: same_others_def)
    have ch: "length ?ch = ?n1" by simp
    have content: "take (off + ?n1) (concat (map (img ?s2) (B1 i))) = take off (concat (map (img s) (B i))) @ ?ch"
      using chunk_write[OF b(3), of "img s1" off ?ch] mk_invD(5)[OF b(2) less.prems(2)] mk_invD(2)[OF b(2)] b(4,5) n1(2) by (simp add: BSIZE_def)
    have pad: "padded (img ?s2) (B1 i) (off + ?n1)"
      using b(9) chunk_pad[OF b(3), of "img s1" off ?ch] mk_invD(5)[OF b(2) less.prems(2)] mk_invD(2)[OF b(2)] b(4) n1(2)
        set_drop_subset_set_drop[of off "off + ?n1" "concat (map (img s1) (B1 i))"]
      by (simp add: BSIZE_def padded_def)
    have "off div 512 * 512 < off + ?n1" using n1(1) div_times_less_eq_dividend[of off 512] by linarith
    then have "nblk (off + ?n1) = Suc ?fbn" using n1(2) nblk_turn[of off "off + ?n1"] by (simp only: BSIZE_def)
    then have len: "length (B1 i) = nblk (off + ?n1)" using b(3,4) by simp
    have run: "iappend_loop p off (D i) s = iappend_loop (drop ?n1 p) (off + ?n1) ((D(i := d1)) i) ?s2"
      using False off(2) b(1) x(2) by (subst iappend_loop.simps) (simp add: Let_def rsect_run wsect_run)
    have "kok (iappend_loop (drop ?n1 p) (off + ?n1) ((D(i := d1)) i)) (\<lambda>(off', d') s'. \<exists>B' I'. off' = off + ?n1 + length (drop ?n1 p)
      \<and> mk_inv J (D(i := d1, i := d')) B' I' s' \<and> length (B' i) = nblk off'
      \<and> take off' (concat (map (img s') (B' i))) = take (off + ?n1) (concat (map (img ?s2) (B1 i))) @ drop ?n1 p
      \<and> padded (img s') (B' i) off' \<and> same_others J i B1 ?s2 B' s' \<and> d' = ((D(i := d1)) i)\<lparr>di_addrs := di_addrs d'\<rparr>
      \<and> unat (freeblock s') = unat (freeblock ?s2) + (blocks_for off' - blocks_for (off + ?n1))) ?s2"
      by (rule less.hyps[OF _ inv2 less.prems(2) len]) (use n1 less.prems(4-6) b(8) cnt mono pad in auto)
    then obtain off2 d2 s3 B2 I2 where r: "iappend_loop (drop ?n1 p) (off + ?n1) ((D(i := d1)) i) ?s2 = Ok (off2, d2) s3"
      "off2 = off + ?n1 + length (drop ?n1 p)" "mk_inv J (D(i := d1, i := d2)) B2 I2 s3" "length (B2 i) = nblk off2"
      "take off2 (concat (map (img s3) (B2 i))) = take (off + ?n1) (concat (map (img ?s2) (B1 i))) @ drop ?n1 p"
      "same_others J i B1 ?s2 B2 s3" "d2 = ((D(i := d1)) i)\<lparr>di_addrs := di_addrs d2\<rparr>"
      "unat (freeblock s3) = unat (freeblock ?s2) + (blocks_for off2 - blocks_for (off + ?n1))" "padded (img s3) (B2 i) off2"
      by (elim kwp_total_Ok) (auto simp del: fun_upd_apply fun_upd_upd)
    have o2: "off2 = off + length p" using r(2) n1(3) by simp
    have "take off2 (concat (map (img s3) (B2 i))) = take off (concat (map (img s) (B i))) @ p"
      using r(5) unfolding content by simp
    moreover have "same_others J i B s B2 s3" by (rule same_others_trans[OF same_others_trans[OF b(6) same] r(6)])
    moreover have "d2 = (D i)\<lparr>di_addrs := di_addrs d2\<rparr>" using addrs_trans[OF b(7), of d2] r(7) by simp
    moreover have "mk_inv J (D(i := d2)) B2 I2 s3" using r(3) by simp
    moreover have "unat (freeblock s3) = unat (freeblock s) + (blocks_for off2 - blocks_for off)" using r(8) b(8) cnt mono o2 by simp
    ultimately show ?thesis unfolding kwp_def run r(1) using r(4,9) o2 by auto
  qed
qed


section \<open>The image as files\<close>

lemma iblock_upd_inv:
  assumes inv: "mk_inv J D B I s" and "unat a < nmeta" "nmeta \<le> unat (freeblock s)" "length d = BSIZE"
  shows "mk_inv J D B I (s\<lparr>img := (img s)(a := d)\<rparr>)"
proof -
  have "layout ((img s)(a := d)) (D j) (B j) (I j)" if "j \<in> J" for j
    by (rule layout_cong[OF mk_invD(4)[OF inv that]]) (use mk_invD(6)[OF inv that] assms(2) in fastforce)
  then show ?thesis using inv assms(2-4) unfolding mk_inv_def by auto
qed

lemma winode_run:
  assumes inv: "mk_inv J D B I s" and i: "unat i < 208" and "nmeta \<le> unat (freeblock s)" "length (di_addrs d) = Suc NDIRECT"
  shows "winode i d s = Ok () (s\<lparr>img := store_ino (img s) mk_sb i d\<rparr>)"
    "mk_inv J D B I (s\<lparr>img := store_ino (img s) mk_sb i d\<rparr>)"
    "nmeta \<le> unat b \<Longrightarrow> store_ino (img s) mk_sb i d b = img s b"
    "unat b < 32 \<Longrightarrow> store_ino (img s) mk_sb i d b = img s b"
    "store_ino (img s) mk_sb i d 58 = img s 58"
proof -
  note r = iblock_range[OF i]
  have "unat (IBLOCK i mk_sb) < img_len s" using r mk_invD(1)[OF inv] by (simp add: mk_consts)
  then show "winode i d s = Ok () (s\<lparr>img := store_ino (img s) mk_sb i d\<rparr>)"
    by (simp add: winode_def Let_def rsect_run wsect_run store_ino_def)
  have "length (splice (img s (IBLOCK i mk_sb)) (dino_off i) (enc_dinode d)) = BSIZE"
    using mk_invD(2)[OF inv] length_enc_dinode[OF assms(4)] dino_off_fit[of i] by simp
  then show "mk_inv J D B I (s\<lparr>img := store_ino (img s) mk_sb i d\<rparr>)"
    unfolding store_ino_def using r(2) assms(3) by (intro iblock_upd_inv[OF inv]) (simp_all add: mk_consts(1))
  show "nmeta \<le> unat b \<Longrightarrow> store_ino (img s) mk_sb i d b = img s b" "unat b < 32 \<Longrightarrow> store_ino (img s) mk_sb i d b = img s b"
    using r by (auto simp: store_ino_def mk_consts)
  show "store_ino (img s) mk_sb i d 58 = img s 58" using r by (auto simp: store_ino_def)
qed

text \<open>\<open>holds_file s d bs c\<close>: an inode with these blocks has the type and the contents \<open>c\<close>.\<close>

definition holds_file :: "(u32 \<Rightarrow> u8 list) \<Rightarrow> dinode \<Rightarrow> u32 list \<Rightarrow> u16 \<times> u8 list \<Rightarrow> bool" where
  "holds_file v d bs c \<longleftrightarrow> di_type d = fst c \<and> unat (di_size d) = length (snd c) \<and> length bs = nblk (length (snd c))
     \<and> take (length (snd c)) (concat (map v bs)) = snd c \<and> padded v bs (length (snd c))"

text \<open>The blocks before the inodes: the superblock and an empty log.\<close>

definition boot_block :: "u32 \<Rightarrow> u8 list" where
  "boot_block b = (if b = 1 then splice (replicate BSIZE 0) 0 (sb_bytes mk_sb) else replicate BSIZE 0)"

definition fsys :: "u32 set \<Rightarrow> (u32 \<Rightarrow> u16 \<times> u8 list) \<Rightarrow> mkfs \<Rightarrow> bool" where
  "fsys J C s \<longleftrightarrow> (\<exists>D B I. mk_inv J D B I s \<and> (\<forall>j\<in>J. disk_ino (img s) mk_sb j = D j \<and> holds_file (img s) (D j) (B j) (C j)))
     \<and> (\<forall>j\<in>J. unat j < 208) \<and> unat (freeblock s) = nmeta + (\<Sum>j\<in>J. blocks_for (length (snd (C j)))) \<and> unat (freeblock s) \<le> FSSIZE
     \<and> (\<forall>b. unat b < 32 \<longrightarrow> img s b = boot_block b)"

lemma sum_upd:
  assumes "i \<in> J" "finite J"
  shows "(\<Sum>j\<in>J. f ((C(i := x)) j)) + f (C i) = (\<Sum>j\<in>J. f (C j)) + (f x :: nat)"
proof -
  have "(\<Sum>j\<in>J - {i}. f ((C(i := x)) j)) = (\<Sum>j\<in>J - {i}. f (C j))" by (rule sum.cong) auto
  then show ?thesis using sum.remove[OF assms(2,1), of "\<lambda>j. f ((C(i := x)) j)"] sum.remove[OF assms(2,1), of "\<lambda>j. f (C j)"] by simp
qed

lemma mk_inv_size: "mk_inv J (D(i := d)) B I s \<Longrightarrow> mk_inv J (D(i := d\<lparr>di_size := n\<rparr>)) B I s"
  by (auto simp: mk_inv_def layout_def)

text \<open>Writing back inode \<open>i\<close> after its data has changed.\<close>

lemma fsys_winode:
  assumes inv: "mk_inv J (D(i := d)) B I s" and i: "i \<in> J"
    and dino: "\<And>j. j \<in> J \<Longrightarrow> j \<noteq> i \<Longrightarrow> disk_ino (img s) mk_sb j = D j \<and> holds_file (img s) (D j) (B j) (C j)"
    and self: "holds_file (img s) d (B i) c"
    and J: "\<And>j. j \<in> J \<Longrightarrow> unat j < 208" and fb: "nmeta \<le> unat (freeblock s)" "unat (freeblock s) \<le> FSSIZE"
    and cnt: "unat (freeblock s) = nmeta + (\<Sum>j\<in>J. blocks_for (length (snd ((C(i := c)) j))))"
    and ssb: "\<forall>b. unat b < 32 \<longrightarrow> img s b = boot_block b"
  shows "kok (winode i d) (\<lambda>_ s'. fsys J (C(i := c)) s' \<and> freeinode s' = freeinode s \<and> freeblock s' = freeblock s) s"
proof -
  have da: "length (di_addrs d) = Suc NDIRECT" using mk_invD(4)[OF inv i] by (simp add: layout_def)
  note w = winode_run[OF inv J[OF i] fb(1) da]
  let ?v = "store_ino (img s) mk_sb i d" and ?s = "s\<lparr>img := store_ino (img s) mk_sb i d\<rparr>"
  have maps: "map ?v (B j) = map (img s) (B j)" if "j \<in> J" for j
    using w(3) mk_invD(6)[OF inv that] by auto
  have "disk_ino ?v mk_sb j = (D(i := d)) j \<and> holds_file ?v ((D(i := d)) j) (B j) ((C(i := c)) j)" if "j \<in> J" for j
  proof (cases "j = i")
    case True
    then show ?thesis using self disk_ino_store[OF da, of "img s" mk_sb i] mk_invD(2)[OF inv] maps[OF i] by (simp add: holds_file_def padded_def del: map_eq_conv)
  next
    case False
    then show ?thesis using dino[OF that] disk_ino_store_other[OF _ da, of i j "img s" mk_sb] mk_invD(2)[OF inv] maps[OF that]
      by (simp add: holds_file_def padded_def del: map_eq_conv)
  qed
  then have "fsys J (C(i := c)) ?s" unfolding fsys_def
    using w(2,4) J cnt fb(2) ssb by (intro conjI exI[of _ "D(i := d)"] exI[of _ B] exI[of _ I] ballI) simp_all
  then show ?thesis using w(1) by (simp add: kwp_Ok)
qed

lemma iappend_ok:
  assumes fs: "fsys J C s" and i: "i \<in> J" and len: "length (snd (C i)) + length p \<le> MAXFILE * BSIZE"
    and fit: "unat (freeblock s) + (blocks_for (length (snd (C i)) + length p) - blocks_for (length (snd (C i)))) \<le> FSSIZE"
  shows "kok (iappend i p) (\<lambda>_ s'. fsys J (C(i := (fst (C i), snd (C i) @ p))) s' \<and> freeinode s' = freeinode s
    \<and> unat (freeblock s') = unat (freeblock s) + (blocks_for (length (snd (C i)) + length p) - blocks_for (length (snd (C i))))) s"
proof -
  obtain D B I where D: "mk_inv J D B I s" "\<And>j. j \<in> J \<Longrightarrow> disk_ino (img s) mk_sb j = D j" "\<And>j. j \<in> J \<Longrightarrow> holds_file (img s) (D j) (B j) (C j)"
    using fs unfolding fsys_def by blast
  have J: "\<And>j. j \<in> J \<Longrightarrow> unat j < 208" "nmeta \<le> unat (freeblock s)" and ssb: "\<forall>b. unat b < 32 \<longrightarrow> img s b = boot_block b"
    and cnt: "unat (freeblock s) = nmeta + (\<Sum>j\<in>J. blocks_for (length (snd (C j))))"
    using fs unfolding fsys_def by auto
  let ?off = "length (snd (C i))" and ?c = "(fst (C i), snd (C i) @ p)"
  have size: "unat (di_size (D i)) = ?off" "length (B i) = nblk ?off" "take ?off (concat (map (img s) (B i))) = snd (C i)" "di_type (D i) = fst (C i)" "padded (img s) (B i) ?off"
    using D(3)[OF i] by (auto simp: holds_file_def)
  have rin: "rinode i s = Ok (D i) s"
    using iblock_range[OF J(1)[OF i]] mk_invD(1)[OF D(1)] D(2)[OF i] by (simp add: rinode_def rsect_run disk_ino_def mk_consts)
  obtain off' d' s1 B' I' where l: "iappend_loop p ?off (D i) s = Ok (off', d') s1" "off' = ?off + length p" "mk_inv J (D(i := d')) B' I' s1"
    "length (B' i) = nblk off'" "take off' (concat (map (img s1) (B' i))) = snd (C i) @ p" "same_others J i B s B' s1"
    "d' = (D i)\<lparr>di_addrs := di_addrs d'\<rparr>" "unat (freeblock s1) = unat (freeblock s) + (blocks_for off' - blocks_for ?off)" "padded (img s1) (B' i) off'"
    using iappend_loop_ok[OF D(1) i size(2) len J(2) fit size(5)] size(3) by (auto simp: kwp_def split: outcome.splits)
  let ?d = "d'\<lparr>di_size := of_nat off'\<rparr>"
  have "off' < 2 ^ 32" using len l(2) by (simp add: fs_consts BSIZE_def)
  then have "unat (of_nat off' :: u32) = off'" by (rule unat_of_nat_u32)
  then have self: "holds_file (img s1) ?d (B' i) ?c"
    using l(2,4,5,9) size(4) by (subst l(7)) (simp add: holds_file_def)
  have others: "disk_ino (img s1) mk_sb j = D j \<and> holds_file (img s1) (D j) (B' j) (C j)" if "j \<in> J" "j \<noteq> i" for j
    using l(6) that D(2,3)[OF that(1)] iblock_range[OF J(1)[OF that(1)]]
    by (auto simp: same_others_def disk_ino_def holds_file_def padded_def mk_consts simp del: map_eq_conv)
  have fin: "finite J" by (rule finite_subset[of _ UNIV]) auto
  have cnt1: "unat (freeblock s1) = nmeta + (\<Sum>j\<in>J. blocks_for (length (snd ((C(i := ?c)) j))))"
    using sum_upd[OF i fin, of "\<lambda>x. blocks_for (length (snd x))" C ?c] l(2,8) cnt blocks_for_mono[of ?off off'] by simp
  have "\<forall>b. unat b < 32 \<longrightarrow> img s1 b = boot_block b" using l(6) ssb by (simp add: same_others_def mk_consts)
  then have "kok (winode i ?d) (\<lambda>_ s'. fsys J (C(i := ?c)) s' \<and> freeinode s' = freeinode s1 \<and> freeblock s' = freeblock s1) s1"
    by (intro fsys_winode[OF mk_inv_size[OF l(3)] i others self J(1) _ _ cnt1]) (use l(2,8) fit J(2) ssb in auto)
  then show ?thesis using rin l(1,2,6,8) size(1) by (simp add: iappend_def kwp_kbind kwp_Ok) (auto simp: same_others_def elim!: kwp_conseq)
qed

end
