(* ===== verification/Mkfs_Image.thy ===== *)
theory Mkfs_Image
  imports Mkfs_Files
begin

text \<open>
  The whole of \<^verbatim>\<open>mkfs\<close>: from the empty image over the root directory and the files to the finished
  image, as operations on the contents of the inodes.
\<close>

section \<open>Inodes\<close>

lemma fsys_cong: "fsys J C s \<Longrightarrow> (\<And>j. j \<in> J \<Longrightarrow> C' j = C j) \<Longrightarrow> fsys J C' s"
  unfolding fsys_def by auto

lemma blocks_for_0 [simp]: "blocks_for 0 = 0"
  by (simp add: blocks_for_def nblk_def)

lemma layout_empty: "length (di_addrs d) = Suc NDIRECT \<Longrightarrow> \<forall>n\<le>NDIRECT. di_addrs d ! n = 0 \<Longrightarrow> layout v d [] []"
  by (simp add: layout_def)

lemma mk_ialloc_ok:
  assumes fs: "fsys J C s" and i: "freeinode s \<notin> J" "unat (freeinode s) < 208"
  shows "kok (mk_ialloc ty) (\<lambda>r s'. r = freeinode s \<and> fsys (insert (freeinode s) J) (C(freeinode s := (ty, []))) s'
    \<and> freeinode s' = freeinode s + 1 \<and> freeblock s' = freeblock s) s"
proof -
  let ?i = "freeinode s" and ?s = "s\<lparr>freeinode := freeinode s + 1\<rparr>" and ?J = "insert (freeinode s) J"
  let ?d = "\<lparr>di_type = ty, di_major = 0, di_minor = 0, di_nlink = 1, di_size = 0, di_addrs = replicate (Suc NDIRECT) 0\<rparr> :: dinode"
  obtain D B I where D: "mk_inv J D B I s" "\<And>j. j \<in> J \<Longrightarrow> disk_ino (img s) mk_sb j = D j" "\<And>j. j \<in> J \<Longrightarrow> holds_file (img s) (D j) (B j) (C j)"
    using fs unfolding fsys_def by blast
  have J: "\<And>j. j \<in> J \<Longrightarrow> unat j < 208" "nmeta \<le> unat (freeblock s)" "unat (freeblock s) \<le> FSSIZE" and ssb: "\<forall>b. unat b < 32 \<longrightarrow> img s b = boot_block b"
    and cnt: "unat (freeblock s) = nmeta + (\<Sum>j\<in>J. blocks_for (length (snd (C j))))"
    using fs unfolding fsys_def by auto
  have "layout (img s) ?d [] []" by (rule layout_empty) (auto simp: nth_replicate simp del: replicate_Suc)
  then have inv: "mk_inv ?J (D(?i := ?d)) (B(?i := [])) (I(?i := [])) ?s"
    using D(1) i(1) unfolding mk_inv_def by auto
  have dino: "disk_ino (img ?s) mk_sb j = D j \<and> holds_file (img ?s) (D j) ((B(?i := [])) j) (C j)" if "j \<in> ?J" "j \<noteq> ?i" for j
    using D(2,3) that by auto
  have self: "holds_file (img ?s) ?d ((B(?i := [])) ?i) (ty, [])" by (simp add: holds_file_def nblk_def padded_def)
  have "(\<Sum>j\<in>J. blocks_for (length (snd ((C(?i := (ty, []))) j)))) = (\<Sum>j\<in>J. blocks_for (length (snd (C j))))"
    by (rule sum.cong) (use i(1) in auto)
  then have "unat (freeblock ?s) = nmeta + (\<Sum>j\<in>?J. blocks_for (length (snd ((C(?i := (ty, []))) j))))"
    using cnt i(1) by (simp add: sum.insert_if)
  then have "kok (winode ?i ?d) (\<lambda>_ s'. fsys ?J (C(?i := (ty, []))) s' \<and> freeinode s' = freeinode ?s \<and> freeblock s' = freeblock ?s) ?s"
    by (intro fsys_winode[OF inv _ dino self]) (use J i(2) ssb in auto)
  then show ?thesis
    by (simp add: mk_ialloc_def kwp_kbind kwp_kthen kwp_kget kwp_kmod del: replicate_Suc) (auto simp: kwp_kret elim!: kwp_conseq)
qed

lemma copy_file_ok:
  assumes "fsys J C s" "i \<in> J" "length (snd (C i)) + length c \<le> MAXFILE * BSIZE"
    "unat (freeblock s) + (blocks_for (length (snd (C i)) + length c) - blocks_for (length (snd (C i)))) \<le> FSSIZE"
  shows "kok (copy_file i c) (\<lambda>_ s'. fsys J (C(i := (fst (C i), snd (C i) @ c))) s' \<and> freeinode s' = freeinode s) s"
  using assms
proof (induction "length c" arbitrary: c C s rule: less_induct)
  case less
  show ?case
  proof (cases "c = []")
    case True
    then have "copy_file i c s = Ok () s" by (simp add: copy_file.simps)
    then show ?thesis using less.prems(1) True by (simp add: kwp_Ok)
  next
    case False
    let ?p = "take BSIZE c" and ?r = "drop BSIZE c" and ?o = "length (snd (C i))"
    have run: "copy_file i c s = kthen (iappend i ?p) (copy_file i ?r) s" using False by (subst copy_file.simps) simp
    have m: "blocks_for ?o \<le> blocks_for (?o + length ?p)" "blocks_for (?o + length ?p) \<le> blocks_for (?o + length c)"
      by (intro blocks_for_mono; simp)+
    have a: "kok (iappend i ?p) (\<lambda>_ s'. fsys J (C(i := (fst (C i), snd (C i) @ ?p))) s' \<and> freeinode s' = freeinode s
      \<and> unat (freeblock s') = unat (freeblock s) + (blocks_for (?o + length ?p) - blocks_for ?o)) s"
      by (rule iappend_ok[OF less.prems(1,2)]) (use less.prems(3,4) m in auto)
    have "kok (copy_file i ?r) (\<lambda>_ s''. fsys J (C(i := (fst (C i), snd (C i) @ c))) s'' \<and> freeinode s'' = freeinode s) s'"
      if h: "fsys J (C(i := (fst (C i), snd (C i) @ ?p))) s'" "freeinode s' = freeinode s"
        "unat (freeblock s') = unat (freeblock s) + (blocks_for (?o + length ?p) - blocks_for ?o)" for s'
    proof (rule kwp_conseq[OF less.hyps[OF _ h(1) less.prems(2)]])
      show "length ?r < length c" using False by (simp add: BSIZE_def)
      show "length (snd ((C(i := (fst (C i), snd (C i) @ ?p))) i)) + length ?r \<le> MAXFILE * BSIZE" using less.prems(3) by simp
      have e: "?o + length ?p + length ?r = ?o + length c" by simp
      show "unat (freeblock s') + (blocks_for (length (snd ((C(i := (fst (C i), snd (C i) @ ?p))) i)) + length ?r)
          - blocks_for (length (snd ((C(i := (fst (C i), snd (C i) @ ?p))) i)))) \<le> FSSIZE"
        using less.prems(4) h(3) m e by (simp add: add.assoc)
    qed (use h(2) in simp)
    then show ?thesis unfolding kwp_def[of "copy_file i c"] run kwp_def[symmetric]
      using a by (auto simp: kwp_kthen elim!: kwp_conseq)
  qed
qed


section \<open>Files\<close>

lemma name_len_snoc: "name_len (path @ [c]) = (if c = 47 then 0 else name_len path + 1)"
  by (simp add: name_len_def)

lemma name_len_bounds: "0 \<le> name_len path \<and> name_len path \<le> int (length path)"
proof (induction path rule: rev_induct)
  case Nil
  then show ?case by (simp add: name_len_def)
qed (auto simp: name_len_snoc)

lemma base_name_snoc: "base_name (path @ [c]) = (if c = 47 then [] else base_name path @ [c])"
proof -
  have "Suc (length path) - nat (name_len path + 1) = length path - nat (name_len path)" using name_len_bounds[of path] by linarith
  then show ?thesis by (simp add: base_name_def name_len_snoc)
qed

lemma base_name_no_slash: "47 \<notin> set (base_name path)"
proof (induction path rule: rev_induct)
  case Nil
  then show ?case by (simp add: base_name_def)
qed (simp add: base_name_snoc)

text \<open>What the image holds after the files \<open>fs\<close>: inode 1 is the root directory, inode \<open>k + 2\<close> the \<open>k\<close>-th file.\<close>

type_synonym hostfile = "u8 list \<times> u8 list option"

definition entry :: "nat \<Rightarrow> hostfile \<Rightarrow> u8 list" where
  "entry k f = mk_dirent (of_nat (k + 2)) (file_name (fst f))"

definition dir_of :: "hostfile list \<Rightarrow> u8 list" where
  "dir_of fs = mk_dirent 1 [46] @ mk_dirent 1 [46, 46] @ concat (map (\<lambda>k. entry k (fs ! k)) [0..<length fs])"

definition inodes_of :: "hostfile list \<Rightarrow> u32 set" where
  "inodes_of fs = of_nat ` {1..<length fs + 2}"

definition table :: "hostfile list \<Rightarrow> u32 \<Rightarrow> u16 \<times> u8 list" where
  "table fs j = (if j = 1 then (T_DIR, dir_of fs) else (T_FILE, the (snd (fs ! (unat j - 2)))))"

definition files_ok :: "hostfile list \<Rightarrow> bool" where
  "files_ok fs \<longleftrightarrow> length fs \<le> 198 \<and> (\<forall>f\<in>set fs. \<exists>c. snd f = Some c \<and> length c \<le> MAXFILE * BSIZE)
     \<and> nmeta + blocks_for (length (dir_of fs)) + (\<Sum>f\<leftarrow>fs. blocks_for (length (the (snd f)))) \<le> FSSIZE"

lemma length_mk_dirent [simp]: "length (mk_dirent i nm) = 16"
  by (simp add: mk_dirent_def enc_dirent_def fs_consts)

lemma length_dir_of: "length (dir_of fs) = 16 * (length fs + 2)"
proof -
  have "length (concat (map (\<lambda>k. entry k (fs ! k)) [0..<n])) = 16 * n" for n by (induction n) (auto simp: entry_def)
  then show ?thesis by (simp add: dir_of_def)
qed

lemma dir_of_snoc: "dir_of (fs @ [f]) = dir_of fs @ entry (length fs) f"
proof -
  have "map (\<lambda>k. entry k ((fs @ [f]) ! k)) [0..<length fs] = map (\<lambda>k. entry k (fs ! k)) [0..<length fs]" by (simp add: nth_append)
  then show ?thesis by (simp add: dir_of_def nth_append del: map_eq_conv)
qed

lemma files_ok_prefix:
  assumes "files_ok (fs @ [f])"
  shows "files_ok fs"
proof -
  have "blocks_for (length (dir_of fs)) \<le> blocks_for (length (dir_of (fs @ [f])))" by (rule blocks_for_mono) (simp add: length_dir_of)
  then show ?thesis using assms by (simp add: files_ok_def)
qed

lemma inode_number: "k < 200 \<Longrightarrow> unat (of_nat k :: u32) = k"
  by (rule unat_of_nat_u32) simp

lemma inodes_of_iff: "length fs \<le> 198 \<Longrightarrow> j \<in> inodes_of fs \<longleftrightarrow> 1 \<le> unat j \<and> unat j < length fs + 2"
proof
  assume l: "length fs \<le> 198"
  show "j \<in> inodes_of fs \<Longrightarrow> 1 \<le> unat j \<and> unat j < length fs + 2"
    using l inode_number by (auto simp: inodes_of_def)
  assume "1 \<le> unat j \<and> unat j < length fs + 2"
  then show "j \<in> inodes_of fs" unfolding inodes_of_def by (intro image_eqI[of _ _ "unat j"]) auto
qed

lemma file_number_ne_1: "unat (of_nat (k + 2) :: u32) = k + 2 \<Longrightarrow> (of_nat (k + 2) :: u32) \<noteq> 1"
proof
  assume "unat (of_nat (k + 2) :: u32) = k + 2" "(of_nat (k + 2) :: u32) = 1"
  then have "unat (1 :: u32) = k + 2" by (simp only:)
  then show False by simp
qed

lemma sum_inodes:
  assumes "length fs \<le> 198"
  shows "(\<Sum>j\<in>inodes_of fs. blocks_for (length (snd (table fs j))))
    = blocks_for (length (dir_of fs)) + (\<Sum>f\<leftarrow>fs. blocks_for (length (the (snd f))))"
proof -
  let ?g = "\<lambda>j :: u32. blocks_for (length (snd (table fs j)))"
  have inj: "inj_on (of_nat :: nat \<Rightarrow> u32) {1..<length fs + 2}"
    by (rule inj_on_inverseI[where g = unat]) (use assms in \<open>auto intro: inode_number\<close>)
  have "(\<Sum>j\<in>inodes_of fs. ?g j) = (\<Sum>k\<in>{1..<length fs + 2}. ?g (of_nat k))"
    unfolding inodes_of_def by (rule sum.reindex[OF inj, unfolded comp_def])
  also have "\<dots> = ?g 1 + (\<Sum>k\<in>{2..<length fs + 2}. ?g (of_nat k))"
    by (subst sum.atLeast_Suc_lessThan) (auto simp: numeral_2_eq_2)
  also have "(\<Sum>k\<in>{2..<length fs + 2}. ?g (of_nat k)) = (\<Sum>k\<in>{0..<length fs}. ?g (of_nat (k + 2)))"
    using sum.shift_bounds_nat_ivl[of "\<lambda>k. ?g (of_nat k)" 0 2 "length fs"] by (simp only: add_0)
  also have "\<dots> = (\<Sum>k\<in>{0..<length fs}. blocks_for (length (the (snd (fs ! k)))))"
  proof (rule sum.cong)
    fix k assume "k \<in> {0..<length fs}"
    then have "unat (of_nat (k + 2) :: u32) = k + 2" using assms by (intro inode_number) simp
    then show "?g (of_nat (k + 2)) = blocks_for (length (the (snd (fs ! k))))"
      using file_number_ne_1[of k] by (simp add: table_def del: of_nat_add of_nat_numeral)
  qed simp
  also have "\<dots> = (\<Sum>f\<leftarrow>fs. blocks_for (length (the (snd f))))" by (simp add: sum_list_sum_nth atLeast0LessThan)
  finally show ?thesis by (simp add: table_def)
qed


text \<open>Adding one file.\<close>

definition built :: "hostfile list \<Rightarrow> mkfs \<Rightarrow> bool" where
  "built fs s \<longleftrightarrow> fsys (inodes_of fs) (table fs) s \<and> freeinode s = of_nat (length fs + 2)"

lemma add_file_ok:
  assumes b: "built fs s" and ok: "files_ok (fs @ [f])"
  shows "kok (add_file 1 f) (\<lambda>_ s'. built (fs @ [f]) s') s"
proof -
  obtain path c where f: "f = (path, Some c)" "length c \<le> MAXFILE * BSIZE"
    using ok by (cases f) (auto simp: files_ok_def)
  have l: "length fs < 198" "length fs \<le> 198" using ok by (simp_all add: files_ok_def)
  let ?i = "of_nat (length fs + 2) :: u32" and ?J = "inodes_of fs"
  have i: "unat ?i = length fs + 2" using l by (intro inode_number) simp
  have ne: "?i \<noteq> 1" by (rule file_number_ne_1[OF i])
  have J: "?i \<notin> ?J" "1 \<in> ?J" using inodes_of_iff[OF l(2)] i by auto
  have fs: "fsys ?J (table fs) s" "freeinode s = ?i" using b by (simp_all add: built_def)
  have cnt: "unat (freeblock s) = nmeta + blocks_for (length (dir_of fs)) + (\<Sum>f\<leftarrow>fs. blocks_for (length (the (snd f))))"
    using fs(1) sum_inodes[OF l(2)] by (simp add: fsys_def)
  have tot: "nmeta + blocks_for (length (dir_of fs) + 16) + (\<Sum>f\<leftarrow>fs. blocks_for (length (the (snd f)))) + blocks_for (length c) \<le> FSSIZE"
    using ok f by (simp add: files_ok_def length_dir_of)
  have dm: "blocks_for (length (dir_of fs)) \<le> blocks_for (length (dir_of fs) + 16)" by (rule blocks_for_mono) simp
  let ?J' = "insert ?i ?J" and ?C1 = "(table fs)(?i := (T_FILE, []))"
  let ?C2 = "?C1(1 := (T_DIR, dir_of fs @ entry (length fs) f))" and ?C3 = "?C1(1 := (T_DIR, dir_of fs @ entry (length fs) f), ?i := (T_FILE, c))"
  have C1: "?C1 1 = (T_DIR, dir_of fs)" using ne by (simp add: table_def)
  have step1: "kok (mk_ialloc T_FILE) (\<lambda>r s1. r = ?i \<and> fsys ?J' ?C1 s1 \<and> freeinode s1 = ?i + 1 \<and> freeblock s1 = freeblock s) s"
    using mk_ialloc_ok[OF fs(1), of T_FILE] fs(2) J(1) i l by simp
  have step2: "kok (iappend 1 (mk_dirent ?i (file_name path))) (\<lambda>_ s2. fsys ?J' ?C2 s2 \<and> freeinode s2 = ?i + 1
      \<and> unat (freeblock s2) = unat (freeblock s) + (blocks_for (length (dir_of fs) + 16) - blocks_for (length (dir_of fs)))) s1"
    if h: "fsys ?J' ?C1 s1" "freeinode s1 = ?i + 1" "freeblock s1 = freeblock s" for s1
    using iappend_ok[OF h(1), of 1 "mk_dirent ?i (file_name path)"] J(2) C1 h(2,3) cnt tot dm l(1)
    by (simp add: entry_def f length_dir_of fs_consts BSIZE_def)
  have C2: "?C2 ?i = (T_FILE, [])" using ne by simp
  have step3: "kok (copy_file ?i c) (\<lambda>_ s3. built (fs @ [f]) s3) s2"
    if h: "fsys ?J' ?C2 s2" "freeinode s2 = ?i + 1"
      "unat (freeblock s2) = unat (freeblock s) + (blocks_for (length (dir_of fs) + 16) - blocks_for (length (dir_of fs)))" for s2
  proof -
    have k: "kok (copy_file ?i c) (\<lambda>_ s'. fsys ?J' ?C3 s' \<and> freeinode s' = freeinode s2) s2"
      using copy_file_ok[OF h(1), of ?i c] C2 h(3) f(2) cnt tot dm by simp
    have J': "?J' = inodes_of (fs @ [f])"
      using inodes_of_iff[OF l(2)] inodes_of_iff[of "fs @ [f]"] l i by (auto simp: less_Suc_eq word_unat_eq_iff)
    have C3: "table (fs @ [f]) j = ?C3 j" if "j \<in> ?J'" for j
      using that ne i f inodes_of_iff[OF l(2), of j] by (auto simp: table_def dir_of_snoc nth_append word_unat_eq_iff)
    show ?thesis
      by (rule kwp_conseq[OF k]) (use fsys_cong[of ?J' ?C3] C3 J' h(2) in \<open>auto simp: built_def add.commute\<close>)
  qed
  have rest: "kok (iappend 1 (mk_dirent ?i (file_name path))) (\<lambda>_. kok (copy_file ?i c) (\<lambda>_ s3. built (fs @ [f]) s3)) s1"
    if "fsys ?J' ?C1 s1" "freeinode s1 = ?i + 1" "freeblock s1 = freeblock s" for s1
    by (rule kwp_conseq[OF step2[OF that]], elim conjE, rule step3)
  show ?thesis unfolding add_file_def f(1) prod.case option.case if_not_P[OF base_name_no_slash] kwp_kbind kwp_kthen
    by (rule kwp_conseq[OF step1], elim conjE, simp only:, rule rest[unfolded f(1)])
qed

lemma add_files_ok:
  "built pre s \<Longrightarrow> files_ok (pre @ fs) \<Longrightarrow> kok (kfor fs (add_file 1)) (\<lambda>_ s'. built (pre @ fs) s') s"
proof (induction fs arbitrary: pre s)
  case Nil
  then show ?case by (simp add: kwp_kret kwp_def)
next
  case (Cons f fs)
  have "files_ok (pre @ [f])" using Cons.prems(2)
  proof (induction fs rule: rev_induct)
    case (snoc g fs)
    then show ?case using files_ok_prefix[of "pre @ f # fs" g] by simp
  qed simp
  then have "kok (add_file 1 f) (\<lambda>_ s'. built (pre @ [f]) s') s" using Cons.prems(1) by (rule add_file_ok[rotated])
  then show ?case using Cons.IH[of "pre @ [f]"] Cons.prems(2) by (auto simp: kwp_kthen elim!: kwp_conseq)
qed



section \<open>The finished image\<close>

text \<open>The bytes of an inode in an image that has the data blocks of \<open>s\<close> and the inode up to its size.\<close>

lemma zeros_eq: "set xs \<subseteq> {0 :: u8} \<Longrightarrow> xs = replicate (length xs) 0"
  by (induction xs) auto

lemma fsys_view:
  assumes fs: "fsys J C s" and j: "j \<in> J" and v: "\<forall>b. length (v b) = BSIZE" "\<And>b. nmeta \<le> unat b \<Longrightarrow> v b = img s b"
    and d: "d = (disk_ino (img s) mk_sb j)\<lparr>di_size := n\<rparr>"
  shows "di_type d = fst (C j)" "unat (di_size (disk_ino (img s) mk_sb j)) = length (snd (C j))"
    "file_bytes v (load_dinode d x) 0 (BSIZE * nblk (length (snd (C j))))
      = snd (C j) @ replicate (BSIZE * nblk (length (snd (C j))) - length (snd (C j))) 0"
proof -
  obtain D B I where D: "mk_inv J D B I s" "disk_ino (img s) mk_sb j = D j" "holds_file (img s) (D j) (B j) (C j)"
    using fs j unfolding fsys_def by blast
  show "di_type d = fst (C j)" "unat (di_size (disk_ino (img s) mk_sb j)) = length (snd (C j))"
    using D(2,3) d by (simp_all add: holds_file_def)
  let ?l = "length (snd (C j))" and ?c = "concat (map (img s) (B j))"
  have "layout v (D j) (B j) (I j)"
    by (rule layout_cong[OF mk_invD(4)[OF D(1) j]]) (use v(2) mk_invD(6)[OF D(1) j] in auto)
  then have l: "layout v d (B j) (I j)" using d D(2) by (simp add: layout_def)
  have m: "map v (B j) = map (img s) (B j)" using v(2) mk_invD(6)[OF D(1) j] by auto
  have n: "length (B j) = nblk ?l" using D(3) by (simp add: holds_file_def)
  have len: "length ?c = BSIZE * nblk ?l" using length_concat_blocks[of "img s" "B j"] mk_invD(2)[OF D(1)] n by simp
  have "file_bytes v (load_dinode d x) 0 (BSIZE * nblk ?l) = ?c"
    using layout_bytes[OF l v(1), of "BSIZE * nblk ?l"] len n m by simp
  also have "?c = take ?l ?c @ drop ?l ?c" by simp
  also have "drop ?l ?c = replicate (BSIZE * nblk ?l - ?l) 0"
    using zeros_eq[of "drop ?l ?c"] D(3) len by (simp add: holds_file_def padded_def)
  also have "take ?l ?c = snd (C j)" using D(3) by (simp add: holds_file_def)
  finally show "file_bytes v (load_dinode d x) 0 (BSIZE * nblk ?l) = snd (C j) @ replicate (BSIZE * nblk ?l - ?l) 0" .
qed

lemma take_file_bytes: "m \<le> n \<Longrightarrow> file_bytes v x 0 m = take m (file_bytes v x 0 n)"
  by (simp add: file_bytes_def take_map)

text \<open>The bitmap.\<close>

lemma fold_mark:
  assumes "n \<le> BPB"
  shows "length (fold mark_bit [0..<n] (replicate BSIZE 0)) = BSIZE"
    "i < BPB \<Longrightarrow> bit_set (fold mark_bit [0..<n] (replicate BSIZE 0)) i \<longleftrightarrow> i < n"
  using assms
proof (induction n)
  case 0
  { case 1 show ?case by simp }
  { case 2 then show ?case by (simp add: bit_set_def BPB_def BSIZE_def less_mult_imp_div_less) }
next
  case (Suc n)
  { case 1 then show ?case using Suc.IH bit_set_mark(1)[of _ n] by simp }
  { case 2 then show ?case using Suc.IH bit_set_mark(2)[of _ n i] by (auto simp: less_Suc_eq) }
qed

text \<open>The image before the first inode.\<close>

lemma zero_image:
  "img s = (\<lambda>_. replicate BSIZE 0) \<Longrightarrow> n \<le> 2 ^ 32 \<Longrightarrow>
   kfor [0..<n] (\<lambda>i. wsect (of_nat i) (replicate BSIZE 0)) s = Ok () (s\<lparr>img_len := max (img_len s) n\<rparr>)"
proof (induction n)
  case (Suc n)
  have "unat (of_nat n :: u32) = n" using Suc.prems(2) by (intro unat_of_nat_u32) simp
  then show ?case using Suc by (simp add: kfor_append wsect_def kmod_def fun_upd_idem max.assoc del: of_nat_Suc)
qed (simp add: kret_def)

lemma word_at_words: "n < length ws \<Longrightarrow> word_at (concat (map le32 ws) @ r) n = ws ! n"
proof (induction ws arbitrary: n)
  case (Cons w ws)
  then show ?case using unle32_le32[of w] by (cases n) (auto simp: word_at_def slice_def)
qed simp

lemma parse_boot: "parse_sb (boot_block 1) = mk_sb"
proof -
  let ?ws = "[sb_size mk_sb, sb_nblocks mk_sb, sb_ninodes mk_sb, sb_nlog mk_sb, sb_logstart mk_sb, sb_inodestart mk_sb, sb_bmapstart mk_sb]"
  have "boot_block 1 = concat (map le32 ?ws) @ replicate (BSIZE - 28) 0"
    unfolding boot_block_def splice_def sb_bytes_def by (simp add: BSIZE_def del: replicate_Suc mk_sb_simps)
  then have w: "word_at (boot_block 1) n = ?ws ! n" if "n < 7" for n using word_at_words[of n ?ws] that by simp
  show ?thesis by (rule superblock.equality) (simp_all add: parse_sb_def w)
qed

definition blank_image :: mkfs where
  "blank_image = \<lparr>img = boot_block, img_len = FSSIZE, freeinode = 1, freeblock = of_nat nmeta\<rparr>"

lemma blank_fsys: "fsys {} C blank_image"
proof -
  have "boot_block b = replicate BSIZE 0" if "59 \<le> unat b" for b using that by (auto simp: boot_block_def)
  moreover have "length (boot_block b) = BSIZE" for b
    by (simp add: boot_block_def sb_bytes_def BSIZE_def)
  ultimately have "mk_inv {} D B I blank_image" for D B I
    by (simp add: mk_inv_def blank_image_def mk_consts)
  then show ?thesis by (simp add: fsys_def blank_image_def mk_consts)
qed


lemma root_ok: "kok (kbind (mk_ialloc T_DIR) (\<lambda>rootino.
      if rootino \<noteq> ROOTINO then panic ''assert''
      else kthen (iappend rootino (mk_dirent rootino [46])) (kthen (iappend rootino (mk_dirent rootino [46, 46])) (m rootino)))) Q blank_image"
  if m: "\<And>s. built [] s \<Longrightarrow> kok (m 1) Q s"
proof -
  let ?C = "\<lambda>c. (\<lambda>_ :: u32. undefined)(1 := (T_DIR, c))"
  have d: "mk_dirent 1 [46] @ mk_dirent 1 [46, 46] = dir_of []" by (simp add: dir_of_def)
  have b: "blocks_for 16 = 1" "blocks_for 32 = 1" by (simp_all add: blocks_for_def nblk_def fs_consts)
  have a1: "kok (mk_ialloc T_DIR) (\<lambda>r s. r = 1 \<and> fsys {1} (?C []) s \<and> freeinode s = 2 \<and> freeblock s = 59) blank_image"
    using mk_ialloc_ok[OF blank_fsys[of "\<lambda>_. undefined"], of T_DIR] by (simp add: blank_image_def mk_consts)
  have a2: "kok (iappend 1 (mk_dirent 1 [46])) (\<lambda>_ s. fsys {1} (?C (mk_dirent 1 [46])) s \<and> freeinode s = 2 \<and> unat (freeblock s) = 60) s"
    if "fsys {1} (?C []) s" "freeinode s = 2" "freeblock s = 59" for s
    using iappend_ok[OF that(1), of 1 "mk_dirent 1 [46]"] that(2,3) b by (simp add: fs_consts BSIZE_def mk_consts)
  have a3: "kok (iappend 1 (mk_dirent 1 [46, 46])) (\<lambda>_ s. fsys {1} (?C (dir_of [])) s \<and> freeinode s = 2) s"
    if "fsys {1} (?C (mk_dirent 1 [46])) s" "freeinode s = 2" "unat (freeblock s) = 60" for s
    using iappend_ok[OF that(1), of 1 "mk_dirent 1 [46, 46]"] that(2,3) b d by (simp add: fs_consts BSIZE_def mk_consts) (auto elim: kwp_conseq)
  have bl: "built [] s" if "fsys {1} (?C (dir_of [])) s" "freeinode s = 2" for s
  proof -
    have "inodes_of [] = {1}" by (simp add: inodes_of_def numeral_2_eq_2)
    then show ?thesis using that fsys_cong[OF that(1), of "table []"] by (simp add: built_def table_def)
  qed
  have r2: "kok (kthen (iappend 1 (mk_dirent 1 [46, 46])) (m 1)) Q s"
    if "fsys {1} (?C (mk_dirent 1 [46])) s" "freeinode s = 2" "unat (freeblock s) = 60" for s
    unfolding kwp_kthen by (rule kwp_conseq[OF a3[OF that]], elim conjE, rule m[OF bl])
  have r1: "kok (kthen (iappend 1 (mk_dirent 1 [46])) (kthen (iappend 1 (mk_dirent 1 [46, 46])) (m 1))) Q s"
    if "fsys {1} (?C []) s" "freeinode s = 2" "freeblock s = 59" for s
    unfolding kwp_kthen[of "iappend 1 (mk_dirent 1 [46])"] by (rule kwp_conseq[OF a2[OF that]], elim conjE, rule r2)
  show ?thesis unfolding kwp_kbind by (rule kwp_conseq[OF a1]) (auto simp: ROOTINO_def intro: r1)
qed

definition root_size :: "hostfile list \<Rightarrow> nat" where
  "root_size fs = (length (dir_of fs) div 512 + 1) * 512"

definition used_blocks :: "hostfile list \<Rightarrow> nat" where
  "used_blocks fs = nmeta + blocks_for (length (dir_of fs)) + (\<Sum>f\<leftarrow>fs. blocks_for (length (the (snd f))))"

text \<open>The last two steps: the size of the root directory and the bitmap.\<close>

definition final_img :: "hostfile list \<Rightarrow> (u32 \<Rightarrow> u8 list) \<Rightarrow> u32 \<Rightarrow> u8 list" where
  "final_img fs v = (store_ino v mk_sb 1 ((disk_ino v mk_sb 1)\<lparr>di_size := of_nat (root_size fs)\<rparr>))
     (58 := fold mark_bit [0..<used_blocks fs] (replicate BSIZE 0))"

lemma of_nat_div_u32: "n < 2 ^ 32 \<Longrightarrow> of_nat (n div 512) = (of_nat n :: u32) div 512"
  using unat_of_nat_u32[of n] unat_of_nat_u32[of "n div 512"] by (simp add: word_unat_eq_iff unat_div)

lemma finish_run:
  assumes b: "built fs s" and ok: "files_ok fs"
  shows "\<exists>s'. kthen (fix_root 1) (kbind (kget freeblock) (\<lambda>n. mk_balloc (unat n))) s = Ok () s' \<and> img s' = final_img fs (img s)"
proof -
  have l: "length fs \<le> 198" using ok by (simp add: files_ok_def)
  have J: "1 \<in> inodes_of fs" using inodes_of_iff[OF l] by simp
  have fs: "fsys (inodes_of fs) (table fs) s" using b by (simp add: built_def)
  then obtain D B I where D: "mk_inv (inodes_of fs) D B I s" "disk_ino (img s) mk_sb 1 = D 1" "holds_file (img s) (D 1) (B 1) (table fs 1)"
    using J unfolding fsys_def by blast
  have fb: "unat (freeblock s) = used_blocks fs" "used_blocks fs \<le> 1000" "nmeta \<le> unat (freeblock s)"
    using fs sum_inodes[OF l] by (simp_all add: fsys_def used_blocks_def mk_consts)
  have len: "length (di_addrs (D 1)) = Suc NDIRECT" using mk_invD(4)[OF D(1) J] by (simp add: layout_def)
  have sz: "unat (di_size (D 1)) = length (dir_of fs)" using D(3) by (simp add: holds_file_def table_def)
  have "(di_size (D 1) div 512 + 1) * 512 = of_nat (root_size fs)"
  proof -
    have "(of_nat (length (dir_of fs)) :: u32) = di_size (D 1)" unfolding sz[symmetric] by simp
    moreover have "of_nat (length (dir_of fs) div 512) = (of_nat (length (dir_of fs)) :: u32) div 512"
      by (rule of_nat_div_u32) (use l in \<open>simp add: length_dir_of\<close>)
    ultimately show ?thesis by (simp add: root_size_def)
  qed
  moreover have "rinode 1 s = Ok (D 1) s"
    using iblock_range[of 1] mk_invD(1)[OF D(1)] D(2) by (simp add: rinode_def rsect_run disk_ino_def mk_consts)
  ultimately have "fix_root 1 s = Ok () (s\<lparr>img := store_ino (img s) mk_sb 1 ((D 1)\<lparr>di_size := of_nat (root_size fs)\<rparr>)\<rparr>)"
    using winode_run(1)[OF D(1), of 1 "(D 1)\<lparr>di_size := of_nat (root_size fs)\<rparr>"] fb(3) len by (simp add: fix_root_def Let_def)
  then show ?thesis using fb D(2) by (simp add: mk_balloc_def kget_def wsect_def kmod_def final_img_def BSIZE_def)
qed


lemma mkfs_main_run:
  assumes ok: "files_ok fs"
  shows "kok (mkfs_main fs) (\<lambda>_ s'. \<exists>s. built fs s \<and> img s' = final_img fs (img s)) mkfs_start"
proof -
  let ?Q = "\<lambda>_ s'. \<exists>s. built fs s \<and> img s' = final_img fs (img s)"
  let ?m = "\<lambda>r. kthen (kfor fs (add_file r)) (kthen (fix_root r) (kbind (kget freeblock) (\<lambda>n. mk_balloc (unat n))))"
  have m: "kok (?m 1) ?Q s" if "built [] s" for s
  proof -
    have "kok (kthen (fix_root 1) (kbind (kget freeblock) (\<lambda>n. mk_balloc (unat n)))) ?Q t" if "built fs t" for t
      using finish_run[OF that ok] that by (auto simp: kwp_def)
    then show ?thesis using add_files_ok[OF that, of fs] ok by (subst kwp_kthen) (auto elim!: kwp_conseq)
  qed
  have "(\<lambda>_. replicate BSIZE 0)(1 := splice (replicate BSIZE 0) 0 (sb_bytes mk_sb)) = boot_block" by (auto simp: boot_block_def)
  then have "mkfs_main fs mkfs_start = kbind (mk_ialloc T_DIR) (\<lambda>rootino.
      if rootino \<noteq> ROOTINO then panic ''assert''
      else kthen (iappend rootino (mk_dirent rootino [46])) (kthen (iappend rootino (mk_dirent rootino [46, 46])) (?m rootino))) blank_image"
    using zero_image[of "mkfs_start\<lparr>freeblock := of_nat nmeta\<rparr>" FSSIZE]
    by (simp add: mkfs_main_def mkfs_start_def blank_image_def mk_consts wsect_def kmod_def kthen_def kbind_def)
  then show ?thesis using root_ok[of ?m ?Q, OF m] by (simp add: kwp_def)
qed

lemma final_other:
  assumes len: "\<forall>b. length (v b) = BSIZE" and d: "length (di_addrs (disk_ino v mk_sb 1)) = Suc NDIRECT" and n: "used_blocks fs \<le> 1000"
  shows "length (final_img fs v b) = BSIZE" "nmeta \<le> unat b \<Longrightarrow> final_img fs v b = v b" "unat b < 32 \<Longrightarrow> final_img fs v b = v b"
    "unat j < 208 \<Longrightarrow> disk_ino (final_img fs v) mk_sb j =
       (if j = 1 then (disk_ino v mk_sb 1)\<lparr>di_size := of_nat (root_size fs)\<rparr> else disk_ino v mk_sb j)"
    "i < BPB \<Longrightarrow> block_free (final_img fs v) mk_sb i \<longleftrightarrow> used_blocks fs \<le> i"
proof -
  let ?d = "(disk_ino v mk_sb 1)\<lparr>di_size := of_nat (root_size fs)\<rparr>"
  have d': "length (di_addrs ?d) = Suc NDIRECT" using d by simp
  have bp: "used_blocks fs \<le> BPB" using n by (simp add: BPB_def BSIZE_def)
  note m = fold_mark[OF bp]
  note r = iblock_range[of 1]
  have "length (store_ino v mk_sb 1 ?d b) = BSIZE" for b
    using len length_enc_dinode[OF d'] dino_off_fit[of 1] by (simp add: store_ino_def)
  then show "length (final_img fs v b) = BSIZE" using m(1) by (simp add: final_img_def)
  show "nmeta \<le> unat b \<Longrightarrow> final_img fs v b = v b" "unat b < 32 \<Longrightarrow> final_img fs v b = v b"
    using r by (auto simp: final_img_def store_ino_def mk_consts)
  have "IBLOCK j mk_sb \<noteq> 58" if "unat j < 208" using iblock_range[OF that] by auto
  then show "unat j < 208 \<Longrightarrow> disk_ino (final_img fs v) mk_sb j =
      (if j = 1 then (disk_ino v mk_sb 1)\<lparr>di_size := of_nat (root_size fs)\<rparr> else disk_ino v mk_sb j)"
    using disk_ino_store[OF d', of v mk_sb 1] disk_ino_store_other[OF _ d', of 1 j v mk_sb] len
    by (auto simp: final_img_def disk_ino_def)
  assume i: "i < BPB"
  then have "unat (of_nat i :: u32) = i" by (intro unat_of_nat_u32) (simp add: BPB_def BSIZE_def)
  then have "(of_nat i :: u32) div 4096 = 0" using i by (simp add: word_unat_eq_iff unat_div BPB_def BSIZE_def)
  then show "block_free (final_img fs v) mk_sb i \<longleftrightarrow> used_blocks fs \<le> i"
    using m(2)[OF i] i by (auto simp: block_free_def BBLOCK_def final_img_def)
qed



section \<open>The files of the image\<close>

lemma final_file:
  assumes b: "built fs s" and ok: "files_ok fs" and j: "j \<in> inodes_of fs" and v: "v = final_img fs (img s)"
  shows "disk_ino v mk_sb j = (if j = 1 then (disk_ino (img s) mk_sb 1)\<lparr>di_size := of_nat (root_size fs)\<rparr> else disk_ino (img s) mk_sb j)"
    "di_type (disk_ino v mk_sb j) = fst (table fs j)"
    "j \<noteq> 1 \<Longrightarrow> unat (di_size (disk_ino v mk_sb j)) = length (snd (table fs j))"
    "file_bytes v (load_dinode (disk_ino v mk_sb j) x) 0 (BSIZE * nblk (length (snd (table fs j))))
      = snd (table fs j) @ replicate (BSIZE * nblk (length (snd (table fs j))) - length (snd (table fs j))) 0"
    "unat b0 < 32 \<Longrightarrow> v b0 = boot_block b0" "i < BPB \<Longrightarrow> block_free v mk_sb i \<longleftrightarrow> used_blocks fs \<le> i"
proof -
  have l: "length fs \<le> 198" using ok by (simp add: files_ok_def)
  have fs: "fsys (inodes_of fs) (table fs) s" using b by (simp add: built_def)
  have one: "1 \<in> inodes_of fs" using inodes_of_iff[OF l] by simp
  obtain D B I where D: "mk_inv (inodes_of fs) D B I s" "disk_ino (img s) mk_sb 1 = D 1" using fs one unfolding fsys_def by blast
  have n: "used_blocks fs \<le> 1000" using ok by (simp add: files_ok_def used_blocks_def mk_consts)
  have d: "length (di_addrs (disk_ino (img s) mk_sb 1)) = Suc NDIRECT" using mk_invD(4)[OF D(1) one] D(2) by (simp add: layout_def)
  have "\<forall>b. length (img s b) = BSIZE" using mk_invD(2)[OF D(1)] by simp
  note f = final_other[OF this d n, folded v]
  have J: "unat j < 208" using fs j by (simp add: fsys_def)
  show ino: "disk_ino v mk_sb j = (if j = 1 then (disk_ino (img s) mk_sb 1)\<lparr>di_size := of_nat (root_size fs)\<rparr> else disk_ino (img s) mk_sb j)"
    using f(4)[OF J] .
  then obtain n where "disk_ino v mk_sb j = (disk_ino (img s) mk_sb j)\<lparr>di_size := n\<rparr>"
    using that[of "of_nat (root_size fs)"] that[of "di_size (disk_ino (img s) mk_sb j)"] by (cases "j = 1") auto
  note w = fsys_view[OF fs j _ f(2) this]
  show "di_type (disk_ino v mk_sb j) = fst (table fs j)" using w(1) f(1) by blast
  show "file_bytes v (load_dinode (disk_ino v mk_sb j) x) 0 (BSIZE * nblk (length (snd (table fs j))))
      = snd (table fs j) @ replicate (BSIZE * nblk (length (snd (table fs j))) - length (snd (table fs j))) 0"
    using w(3) f(1) by blast
  show "j \<noteq> 1 \<Longrightarrow> unat (di_size (disk_ino v mk_sb j)) = length (snd (table fs j))" using ino w(2) f(1) by simp
  show "unat b0 < 32 \<Longrightarrow> v b0 = boot_block b0" using f(3)[of b0] fs by (simp add: fsys_def)
  show "i < BPB \<Longrightarrow> block_free v mk_sb i \<longleftrightarrow> used_blocks fs \<le> i" by (rule f(5))
qed

lemma nblk_le: "n \<le> BSIZE * nblk n"
  by (simp add: nblk_def BSIZE_def)

lemma final_contents:
  assumes b: "built fs s" and ok: "files_ok fs" and k: "k < length fs" and v: "v = final_img fs (img s)" and d: "d = disk_ino v mk_sb (of_nat (k + 2))"
  shows "di_type d = T_FILE" "unat (di_size d) = length (the (snd (fs ! k)))"
    "file_bytes v (load_dinode d x) 0 (unat (di_size d)) = the (snd (fs ! k))"
proof -
  have l: "length fs \<le> 198" using ok by (simp add: files_ok_def)
  let ?j = "of_nat (k + 2) :: u32"
  have u: "unat ?j = k + 2" using l k by (intro inode_number) simp
  note ne = file_number_ne_1[OF u]
  have j: "?j \<in> inodes_of fs" unfolding inodes_of_iff[OF l] u using k by simp
  have t: "table fs ?j = (T_FILE, the (snd (fs ! k)))" using ne u by (simp add: table_def del: of_nat_add of_nat_numeral)
  note f = final_file[OF b ok j v, unfolded t fst_conv snd_conv, folded d]
  show "di_type d = T_FILE" by (rule f(2))
  show sz: "unat (di_size d) = length (the (snd (fs ! k)))" by (rule f(3)[OF ne])
  show "file_bytes v (load_dinode d x) 0 (unat (di_size d)) = the (snd (fs ! k))"
    unfolding sz take_file_bytes[OF nblk_le[of "length (the (snd (fs ! k)))"]] f(4) by simp
qed


section \<open>Names in the root directory\<close>

definition dir_name :: "hostfile list \<Rightarrow> nat \<Rightarrow> u8 list" where
  "dir_name fs j = (if j = 0 then [46] else if j = 1 then [46, 46] else file_name (fst (fs ! (j - 2))))"

definition slot :: "hostfile list \<Rightarrow> nat \<Rightarrow> u8 list" where
  "slot fs j = mk_dirent (of_nat (if j < 2 then 1 else j)) (dir_name fs j)"

lemma dir_of_slots: "dir_of fs = concat (map (slot fs) [0..<length fs + 2])"
proof -
  have "[0..<n + 2] = 0 # 1 # map (\<lambda>k. k + 2) [0..<n]" for n by (induction n) (simp_all add: upt_rec[of 0 2] upt_rec[of 1 2])
  from this[of "length fs"] show ?thesis by (simp add: dir_of_def slot_def dir_name_def entry_def o_def del: upt_Suc)
qed

lemma slice_concat: "\<forall>i. length (g i) = m \<Longrightarrow> j < n \<Longrightarrow> slice (concat (map g [0..<n]) @ r) (m * j) m = g j"
proof (induction n arbitrary: r)
  case (Suc n)
  have len: "length (concat (map g [0..<n])) = m * n" for n using Suc.prems(1) by (induction n) auto
  show ?case
  proof (cases "j = n")
    case True
    then show ?thesis using len Suc.prems(1) by (simp add: slice_def)
  next
    case False
    then show ?thesis using Suc.IH[of "g n @ r"] Suc.prems by simp
  qed
qed simp

lemma cstr_strncpy: "cstr n (ptr (strncpy_bytes p n)) = cstr n p"
proof -
  have "map (ptr xs) [0..<length xs] = xs" for xs by (rule nth_equalityI) (simp_all add: ptr_def)
  from this[of "strncpy_bytes p n"] have "cstr n (ptr (strncpy_bytes p n)) = takeWhile (\<lambda>c. c \<noteq> 0) (strncpy_bytes p n)"
    by (simp add: cstr_def)
  also have "\<dots> = cstr n p" by (induction p n rule: strncpy_bytes.induct) auto
  finally show ?thesis .
qed

lemma slot_fields:
  assumes "j < 200"
  shows "de_inum (slot fs j) = of_nat (if j < 2 then 1 else j)" "names name (slot fs j) \<longleftrightarrow> cstr DIRSIZ name = cstr DIRSIZ (ptr (dir_name fs j))"
proof -
  have i: "de_inum (mk_dirent i nm) = ucast i" "de_name (mk_dirent i nm) = strncpy_bytes (ptr nm) DIRSIZ" for i nm
    using unle16_le16 by (simp_all add: de_inum_def de_name_def mk_dirent_def enc_dirent_def slice_def)
  let ?i = "if j < 2 then 1 else j"
  show d: "de_inum (slot fs j) = of_nat ?i" unfolding slot_def i
    using assms by (simp add: word_unat_eq_iff unsigned_of_nat unsigned_ucast_eq take_bit_eq_mod)
  have "unat (of_nat ?i :: u16) = ?i" using assms by (simp add: unat_of_nat)
  then have "(of_nat ?i :: u16) \<noteq> 0" by (metis less_2_cases_iff linorder_not_le not_one_le_zero unat_0 zero_le_one zero_less_numeral zero_neq_one)
  then show "names name (slot fs j) \<longleftrightarrow> cstr DIRSIZ name = cstr DIRSIZ (ptr (dir_name fs j))"
    unfolding names_def d unfolding slot_def i cstr_strncpy by simp
qed


lemma dent_slice:
  assumes "DE_SIZE * j + DE_SIZE \<le> n"
  shows "dent v x j = slice (file_bytes v x 0 n) (DE_SIZE * j) DE_SIZE"
proof -
  have "take DE_SIZE (drop (DE_SIZE * j) [0..<n]) = [DE_SIZE * j..<DE_SIZE * j + DE_SIZE]" using assms by (simp add: take_upt)
  then show ?thesis by (simp add: dent_def slice_def file_bytes_def drop_map take_map)
qed

lemma root_full:
  assumes "(length fs + 2) mod 32 \<noteq> 0"
  shows "root_size fs = BSIZE * nblk (length (dir_of fs))"
proof -
  let ?n = "length fs + 2"
  have g: "16 * n div 512 = q \<and> (16 * n + 511) div 512 = q + 1" if "n = 32 * q + r" "0 < r" "r < 32" for n q r :: nat
    using that by (auto intro!: div_nat_eqI)
  have "16 * ?n div 512 = ?n div 32" "(16 * ?n + 511) div 512 = ?n div 32 + 1"
    using g[of ?n "?n div 32" "?n mod 32"] assms by simp_all
  then show ?thesis unfolding root_size_def nblk_def length_dir_of BSIZE_def by (simp only: mult.commute)
qed

lemma zero_dirent: "slice (xs @ replicate n 0) (DE_SIZE * j) DE_SIZE = replicate DE_SIZE 0"
  if "length xs \<le> DE_SIZE * j" "DE_SIZE * j + DE_SIZE \<le> length xs + n"
  using that by (simp add: slice_def)

lemma final_dir:
  assumes b: "built fs s" and ok: "files_ok fs" and full: "(length fs + 2) mod 32 \<noteq> 0" and v: "v = final_img fs (img s)"
    and x: "x = load_dinode (disk_ino v mk_sb 1) x0"
  shows "i_type x = T_DIR" "unat (i_size x) = DE_SIZE * dir_len x" "length fs + 2 \<le> dir_len x"
    "j < length fs + 2 \<Longrightarrow> dent v x j = slot fs j"
    "length fs + 2 \<le> j \<Longrightarrow> j < dir_len x \<Longrightarrow> dent v x j = replicate DE_SIZE 0"
proof -
  have l: "length fs \<le> 198" using ok by (simp add: files_ok_def)
  have one: "1 \<in> inodes_of fs" using inodes_of_iff[OF l] by simp
  have t: "table fs 1 = (T_DIR, dir_of fs)" by (simp add: table_def)
  note f = final_file[OF b ok one v, unfolded t fst_conv snd_conv]
  show "i_type x = T_DIR" using f(2) x by (simp add: load_dinode_def)
  let ?n = "BSIZE * nblk (length (dir_of fs))"
  have rs: "root_size fs = ?n" by (rule root_full[OF full])
  have "root_size fs < 2 ^ 32" using l by (simp add: root_size_def length_dir_of)
  then have sz: "unat (i_size x) = ?n" using f(1) x unat_of_nat_u32[of "root_size fs"] rs by (simp add: load_dinode_def)
  then have dl: "DE_SIZE * dir_len x = ?n" by (simp add: dir_len_def DE_SIZE_def BSIZE_def)
  then show "unat (i_size x) = DE_SIZE * dir_len x" using sz by simp
  have len: "length (dir_of fs) = DE_SIZE * (length fs + 2)" by (simp add: length_dir_of DE_SIZE_def)
  then show le: "length fs + 2 \<le> dir_len x" using dl nblk_le[of "length (dir_of fs)"] by (simp add: DE_SIZE_def)
  have bytes: "file_bytes v x 0 ?n = dir_of fs @ replicate (?n - length (dir_of fs)) 0" unfolding x by (rule f(4))
  have d: "dent v x j = slice (dir_of fs @ replicate (?n - length (dir_of fs)) 0) (DE_SIZE * j) DE_SIZE" if "j < dir_len x" for j
    unfolding bytes[symmetric] by (rule dent_slice) (use that dl in \<open>simp add: DE_SIZE_def\<close>)
  show "dent v x j = slot fs j" if "j < length fs + 2"
    using d[of j] that le slice_concat[of "slot fs" DE_SIZE j "length fs + 2"] dir_of_slots[of fs] by (simp add: slot_def DE_SIZE_def)
  show "dent v x j = replicate DE_SIZE 0" if "length fs + 2 \<le> j" "j < dir_len x"
  proof -
    have "DE_SIZE * (length fs + 2) \<le> DE_SIZE * j" "DE_SIZE * j + DE_SIZE \<le> ?n" using that dl by (simp_all add: DE_SIZE_def)
    then show ?thesis unfolding d[OF that(2)] using len by (intro zero_dirent) simp_all
  qed
qed

lemma find_padded:
  assumes "m \<le> n" "\<And>j. j < m \<Longrightarrow> P j = Q j" "\<And>j. m \<le> j \<Longrightarrow> j < n \<Longrightarrow> \<not> P j"
  shows "List.find P [0..<n] = List.find Q [0..<m]"
proof -
  have "[0..<n] = [0..<m] @ [m..<n]" using assms(1) by (metis le0 le_add_diff_inverse upt_add_eq_append)
  moreover have "List.find P (xs @ ys) = List.find P xs" if "\<forall>y\<in>set ys. \<not> P y" for xs ys
    using that by (induction xs) (auto simp: find_None_iff)
  moreover have "List.find P [0..<m] = List.find Q [0..<m]" by (rule find_cong) (use assms(2) in auto)
  ultimately show ?thesis using assms(3) by simp
qed

lemma final_lookup:
  assumes b: "built fs s" and ok: "files_ok fs" and full: "(length fs + 2) mod 32 \<noteq> 0" and v: "v = final_img fs (img s)"
    and x: "x = load_dinode (disk_ino v mk_sb 1) x0"
  shows "List.find (\<lambda>j. names name (dent v x j)) [0..<dir_len x]
    = List.find (\<lambda>j. cstr DIRSIZ name = cstr DIRSIZ (ptr (dir_name fs j))) [0..<length fs + 2]"
proof (rule find_padded)
  note f = final_dir[OF b ok full v x]
  show "length fs + 2 \<le> dir_len x" by (rule f(3))
  show "names name (dent v x j) = (cstr DIRSIZ name = cstr DIRSIZ (ptr (dir_name fs j)))" if "j < length fs + 2" for j
    using slot_fields(2)[of j name fs] f(4)[OF that] that ok by (simp add: files_ok_def)
  show "\<not> names name (dent v x j)" if "length fs + 2 \<le> j" "j < dir_len x" for j
    using f(5)[OF that] by (simp add: names_def de_inum_def slice_def DE_SIZE_def unle16_def)
qed

end
