(* ===== verification/Programs.thy ===== *)
theory Programs
  imports Shell_Run Mkfs_Image
begin

text \<open>Properties of the user programs: the shell and the program that makes the disk image.\<close>

section \<open>The shell\<close>

text \<open>
  The command \<^verbatim>\<open>ls | wc > f & ; a b\<close> as a line of the shell.
\<close>

definition example_cmd :: ast where
  "example_cmd = Seq (Back (Pipe (Exec [bytes ''ls'']) (Redir (Exec [bytes ''wc'']) (bytes ''f'') True))) (Exec [bytes ''a'', bytes ''b''])"

definition example_shell :: shell where
  "example_shell = \<lparr>sh_line = line_of (text_of (toks 0 example_cmd)), sh_heap = (\<lambda>_. BACK None), sh_used = 0\<rparr>"

lemma example_cmd_ok: "cmd_ok example_cmd" "cmd_mem example_cmd \<le> MAXN"
  by (simp_all add: example_cmd_def MAXARGS_def MAXN_def wordok_def wordchar_def found_def whitespace_def symbols_eq)

lemma example_spells:
  "spells (sh_line example_shell) (length (text_of (toks 0 example_cmd))) 0 (toks 0 example_cmd)"
  using text_of_spells[OF cmd_ok_toks[OF example_cmd_ok(1), of 0], of "[]"] by (simp add: example_shell_def)

text \<open>
  C13. Printing and parsing: a line that spells the tokens of a command, with any blanks between them, is parsed
  to that command; afterwards every word in the structures is a C string.
\<close>

theorem shell_roundtrip:
  assumes "cmd_ok t" "spells (sh_line st) (s + n) s (toks 0 t)" "sh_used st + cmd_mem t \<le> MAXN"
  shows "kok (parsecmd lc s) (\<lambda>p st'. rep (\<lambda>q e w. cstring (sh_line st') q w) lc (sh_heap st') (sh_used st') p t) st"
  by (rule kwp_conseq[OF parsecmd_print[OF assms]]) blast

theorem shell_roundtrip_witness:
  "\<forall>lc. kok (parsecmd lc 0) (\<lambda>p st'. rep (\<lambda>q e w. cstring (sh_line st') q w) lc (sh_heap st') (sh_used st') p example_cmd) example_shell"
  using shell_roundtrip[OF example_cmd_ok(1), of example_shell 0] example_spells example_cmd_ok(2)
  by (auto simp: example_shell_def)

text \<open>
  C25. The parser ends on every string: it returns a command whose words are C strings in the line, or it stops with one of
  its error messages; it never loops and never follows a wild pointer.
\<close>

theorem shell_parser_total:
  assumes "terminated (at (sh_line st) s) n" "sh_used st \<le> MAXN"
  shows "kwp (parsecmd lc s) syntax_error
    (\<lambda>p st'. \<exists>t. rep (\<lambda>q e w. cstring (sh_line st') q w) lc (sh_heap st') (sh_used st') p t) st"
proof -
  have "\<forall>i. s \<le> i \<and> i < s + n \<longrightarrow> sh_line st i \<noteq> 0"
    using assms(1) unfolding terminated_def at_def by (metis le_add_diff_inverse nat_add_left_cancel_less)
  then obtain ts where "spells (sh_line st) (s + n) s ts"
    using spells_exists[of s "s + n" "sh_line st"] assms(1) by (auto simp: terminated_def at_def)
  then show ?thesis by (rule parsecmd_cases) (use assms(2) in \<open>auto simp: syntax_errors\<close>)
qed

definition bad_line :: shell where
  "bad_line = \<lparr>sh_line = line_of (bytes ''cat < ; ls''), sh_heap = (\<lambda>_. BACK None), sh_used = 0\<rparr>"

theorem shell_parser_total_witness:
  "\<forall>lc. kwp (parsecmd lc 0) syntax_error
    (\<lambda>p st'. \<exists>t. rep (\<lambda>q e w. cstring (sh_line st') q w) lc (sh_heap st') (sh_used st') p t) bad_line"
proof -
  have "0 \<notin> set (bytes ''cat < ; ls'')" by simp
  then have "terminated (at (sh_line bad_line) 0) (length (bytes ''cat < ; ls''))"
    unfolding bad_line_def shell.simps by (rule line_of_terminated)
  moreover have "sh_used bad_line \<le> MAXN" by (simp add: bad_line_def)
  ultimately show ?thesis using shell_parser_total by blast
qed

text \<open>
  C14. A line runs the programs of its command, connected as the command says: redirections replace the
  standard input or output, and the two sides of a pipe share a new pipe, in every nesting.
\<close>

theorem shell_wiring:
  assumes "cmd_ok t" "spells (sh_line st) n 0 (toks 0 t)" "sh_used st + cmd_mem t \<le> MAXN" "2 \<le> k"
  shows "launch (run_line lc st) (std i out err k) p = programs lc t i out p"
proof -
  have "kok (parsecmd lc 0) (\<lambda>cmd st'. sh_used st' = sh_used st + cmd_mem t
      \<and> rep (\<lambda>q e w. cstring (sh_line st') q w) lc (sh_heap st') (sh_used st') cmd t) st"
    using parsecmd_print[of t st 0 n] assms by simp
  then obtain cmd st' where r: "parsecmd lc 0 st = Ok cmd st'" "sh_used st' = sh_used st + cmd_mem t"
    "rep (\<lambda>q e w. cstring (sh_line st') q w) lc (sh_heap st') (sh_used st') cmd t" by (elim kwp_total_Ok) blast
  then show ?thesis using launch_runcmd[of st' lc "sh_used st'" cmd t "Suc MAXN" k i out err p] assms(3,4)
    by (simp add: run_line_def)
qed

theorem shell_wiring_witness:
  "\<forall>lc. launch (run_line lc example_shell) (std (Std 0) (Std 1) (Std 2) 13) 0
    = ([(Some (bytes ''ls''), [Some (bytes ''ls'')], Some (Std 0), Some (PipeW 0)),
        (Some (bytes ''wc''), [Some (bytes ''wc'')], Some (PipeR 0), Some (Disk (Some (bytes ''f'')) (O_WRONLY lc OR O_CREAT lc))),
        (Some (bytes ''a''), [Some (bytes ''a''), Some (bytes ''b'')], Some (Std 0), Some (Std 1))], 1)"
  using shell_wiring[OF example_cmd_ok(1) example_spells, of 13] example_cmd_ok(2)
  by (simp add: example_shell_def example_cmd_def rmode_def)


section \<open>The disk image\<close>

text \<open>
  C12. \<^verbatim>\<open>mkfs\<close> on files that fit ends without an error, and the image is a file system in the format of the kernel: the
  superblock is the one the kernel reads, the log is empty, the \<open>k\<close>-th file is inode \<open>k + 2\<close> with its size and, read
  through its block addresses, exactly its bytes, and the bitmap has the blocks in use and no others marked.
\<close>

theorem mkfs_image:
  assumes "files_ok fs"
  shows "kok (mkfs_main fs) (\<lambda>_ s. parse_sb (img s 1) = mk_sb \<and> word_at (img s (sb_logstart mk_sb)) 0 = 0
    \<and> (\<forall>k<length fs. let d = disk_ino (img s) mk_sb (of_nat (k + 2)) in
         di_type d = T_FILE \<and> unat (di_size d) = length (the (snd (fs ! k)))
         \<and> (\<forall>x. file_bytes (img s) (load_dinode d x) 0 (unat (di_size d)) = the (snd (fs ! k))))
    \<and> (\<forall>n<BPB. block_free (img s) mk_sb n \<longleftrightarrow> used_blocks fs \<le> n)) mkfs_start"
proof (rule kwp_conseq[OF mkfs_main_run[OF assms]], elim exE conjE)
  fix s' s assume b: "built fs s" and v: "img s' = final_img fs (img s)"
  have "length fs \<le> 198" using assms by (simp add: files_ok_def)
  then have one: "1 \<in> inodes_of fs" using inodes_of_iff by simp
  note f = final_file(5,6)[OF b assms one v]
  have "parse_sb (img s' 1) = mk_sb" using f(1)[of 1] parse_boot by simp
  moreover have "img s' 2 = replicate BSIZE 0" using f(1)[of 2] by (simp add: boot_block_def)
  then have "word_at (img s' (sb_logstart mk_sb)) 0 = 0" using word_at_zeros[of 0] by (simp add: fs_consts)
  moreover have "let d = disk_ino (img s') mk_sb (of_nat (k + 2)) in
      di_type d = T_FILE \<and> unat (di_size d) = length (the (snd (fs ! k)))
      \<and> (\<forall>x. file_bytes (img s') (load_dinode d x) 0 (unat (di_size d)) = the (snd (fs ! k)))" if "k < length fs" for k
    unfolding Let_def by (intro conjI allI final_contents[OF b assms that v refl])
  ultimately show "parse_sb (img s' 1) = mk_sb \<and> word_at (img s' (sb_logstart mk_sb)) 0 = 0
    \<and> (\<forall>k<length fs. let d = disk_ino (img s') mk_sb (of_nat (k + 2)) in
         di_type d = T_FILE \<and> unat (di_size d) = length (the (snd (fs ! k)))
         \<and> (\<forall>x. file_bytes (img s') (load_dinode d x) 0 (unat (di_size d)) = the (snd (fs ! k))))
    \<and> (\<forall>n<BPB. block_free (img s') mk_sb n \<longleftrightarrow> used_blocks fs \<le> n)"
    using f(2) by (intro conjI allI impI)
qed

definition example_files :: "hostfile list" where
  "example_files = [(bytes ''obj/_cat'', Some (bytes ''hi'')), (bytes ''README'', Some [])]"

lemma example_files_ok: "files_ok example_files" "used_blocks example_files = 61"
  by (simp_all add: example_files_def files_ok_def used_blocks_def length_dir_of blocks_for_def nblk_def mk_consts fs_consts BSIZE_def)

theorem mkfs_image_witness:
  "kok (mkfs_main example_files) (\<lambda>_ s. parse_sb (img s 1) = mk_sb
    \<and> (\<forall>x. file_bytes (img s) (load_dinode (disk_ino (img s) mk_sb 2) x) 0 2 = bytes ''hi'')
    \<and> \<not> block_free (img s) mk_sb 60 \<and> block_free (img s) mk_sb 61) mkfs_start"
proof (rule kwp_conseq[OF mkfs_image[OF example_files_ok(1)]], elim conjE)
  fix s assume a: "parse_sb (img s 1) = mk_sb" and f: "\<forall>k<length example_files. let d = disk_ino (img s) mk_sb (of_nat (k + 2)) in
         di_type d = T_FILE \<and> unat (di_size d) = length (the (snd (example_files ! k)))
         \<and> (\<forall>x. file_bytes (img s) (load_dinode d x) 0 (unat (di_size d)) = the (snd (example_files ! k)))"
    and n: "\<forall>n<BPB. block_free (img s) mk_sb n \<longleftrightarrow> used_blocks example_files \<le> n"
  have "\<forall>x. file_bytes (img s) (load_dinode (disk_ino (img s) mk_sb 2) x) 0 2 = bytes ''hi''"
    using f[rule_format, of 0] by (auto simp: Let_def example_files_def numeral_2_eq_2)
  then show "parse_sb (img s 1) = mk_sb \<and> (\<forall>x. file_bytes (img s) (load_dinode (disk_ino (img s) mk_sb 2) x) 0 2 = bytes ''hi'')
    \<and> \<not> block_free (img s) mk_sb 60 \<and> block_free (img s) mk_sb 61"
    using a n example_files_ok(2) by (simp add: BPB_def BSIZE_def)
qed



end
