(* ===== verification/Boot_Map.thy ===== *)
theory Boot_Map
  imports Vm
begin

text \<open>
  The page table of the kernel, \<^verbatim>\<open>kern/kpgdir.c\<close>, which the boot code loads for both halves of the address space. The tables
  are transcribed entry by entry; where the linker puts them is a parameter. \<open>translate\<close> is the walk of the
  processor (Armv8-A, 4 KB granule, 48-bit addresses).
\<close>

section \<open>The tables\<close>

definition PTE_DEVICE :: u64 where "PTE_DEVICE = PTE_P OR push_bit 2 0 OR PTE_AF"

text \<open>\<open>kpte\<close> in four parts, each of 128 entries.\<close>

definition kpte_0 :: "u64 list" where
  "kpte_0 = [
     0x0 OR PTE_NORMAL, 0x200000 OR PTE_NORMAL, 0x400000 OR PTE_NORMAL, 0x600000 OR PTE_NORMAL,
     0x800000 OR PTE_NORMAL, 0xa00000 OR PTE_NORMAL, 0xc00000 OR PTE_NORMAL, 0xe00000 OR PTE_NORMAL,
     0x1000000 OR PTE_NORMAL, 0x1200000 OR PTE_NORMAL, 0x1400000 OR PTE_NORMAL, 0x1600000 OR PTE_NORMAL,
     0x1800000 OR PTE_NORMAL, 0x1a00000 OR PTE_NORMAL, 0x1c00000 OR PTE_NORMAL, 0x1e00000 OR PTE_NORMAL,
     0x2000000 OR PTE_NORMAL, 0x2200000 OR PTE_NORMAL, 0x2400000 OR PTE_NORMAL, 0x2600000 OR PTE_NORMAL,
     0x2800000 OR PTE_NORMAL, 0x2a00000 OR PTE_NORMAL, 0x2c00000 OR PTE_NORMAL, 0x2e00000 OR PTE_NORMAL,
     0x3000000 OR PTE_NORMAL, 0x3200000 OR PTE_NORMAL, 0x3400000 OR PTE_NORMAL, 0x3600000 OR PTE_NORMAL,
     0x3800000 OR PTE_NORMAL, 0x3a00000 OR PTE_NORMAL, 0x3c00000 OR PTE_NORMAL, 0x3e00000 OR PTE_NORMAL,
     0x4000000 OR PTE_NORMAL, 0x4200000 OR PTE_NORMAL, 0x4400000 OR PTE_NORMAL, 0x4600000 OR PTE_NORMAL,
     0x4800000 OR PTE_NORMAL, 0x4a00000 OR PTE_NORMAL, 0x4c00000 OR PTE_NORMAL, 0x4e00000 OR PTE_NORMAL,
     0x5000000 OR PTE_NORMAL, 0x5200000 OR PTE_NORMAL, 0x5400000 OR PTE_NORMAL, 0x5600000 OR PTE_NORMAL,
     0x5800000 OR PTE_NORMAL, 0x5a00000 OR PTE_NORMAL, 0x5c00000 OR PTE_NORMAL, 0x5e00000 OR PTE_NORMAL,
     0x6000000 OR PTE_NORMAL, 0x6200000 OR PTE_NORMAL, 0x6400000 OR PTE_NORMAL, 0x6600000 OR PTE_NORMAL,
     0x6800000 OR PTE_NORMAL, 0x6a00000 OR PTE_NORMAL, 0x6c00000 OR PTE_NORMAL, 0x6e00000 OR PTE_NORMAL,
     0x7000000 OR PTE_NORMAL, 0x7200000 OR PTE_NORMAL, 0x7400000 OR PTE_NORMAL, 0x7600000 OR PTE_NORMAL,
     0x7800000 OR PTE_NORMAL, 0x7a00000 OR PTE_NORMAL, 0x7c00000 OR PTE_NORMAL, 0x7e00000 OR PTE_NORMAL,
     0x8000000 OR PTE_NORMAL, 0x8200000 OR PTE_NORMAL, 0x8400000 OR PTE_NORMAL, 0x8600000 OR PTE_NORMAL,
     0x8800000 OR PTE_NORMAL, 0x8a00000 OR PTE_NORMAL, 0x8c00000 OR PTE_NORMAL, 0x8e00000 OR PTE_NORMAL,
     0x9000000 OR PTE_NORMAL, 0x9200000 OR PTE_NORMAL, 0x9400000 OR PTE_NORMAL, 0x9600000 OR PTE_NORMAL,
     0x9800000 OR PTE_NORMAL, 0x9a00000 OR PTE_NORMAL, 0x9c00000 OR PTE_NORMAL, 0x9e00000 OR PTE_NORMAL,
     0xa000000 OR PTE_NORMAL, 0xa200000 OR PTE_NORMAL, 0xa400000 OR PTE_NORMAL, 0xa600000 OR PTE_NORMAL,
     0xa800000 OR PTE_NORMAL, 0xaa00000 OR PTE_NORMAL, 0xac00000 OR PTE_NORMAL, 0xae00000 OR PTE_NORMAL,
     0xb000000 OR PTE_NORMAL, 0xb200000 OR PTE_NORMAL, 0xb400000 OR PTE_NORMAL, 0xb600000 OR PTE_NORMAL,
     0xb800000 OR PTE_NORMAL, 0xba00000 OR PTE_NORMAL, 0xbc00000 OR PTE_NORMAL, 0xbe00000 OR PTE_NORMAL,
     0xc000000 OR PTE_NORMAL, 0xc200000 OR PTE_NORMAL, 0xc400000 OR PTE_NORMAL, 0xc600000 OR PTE_NORMAL,
     0xc800000 OR PTE_NORMAL, 0xca00000 OR PTE_NORMAL, 0xcc00000 OR PTE_NORMAL, 0xce00000 OR PTE_NORMAL,
     0xd000000 OR PTE_NORMAL, 0xd200000 OR PTE_NORMAL, 0xd400000 OR PTE_NORMAL, 0xd600000 OR PTE_NORMAL,
     0xd800000 OR PTE_NORMAL, 0xda00000 OR PTE_NORMAL, 0xdc00000 OR PTE_NORMAL, 0xde00000 OR PTE_NORMAL,
     0xe000000 OR PTE_NORMAL, 0xe200000 OR PTE_NORMAL, 0xe400000 OR PTE_NORMAL, 0xe600000 OR PTE_NORMAL,
     0xe800000 OR PTE_NORMAL, 0xea00000 OR PTE_NORMAL, 0xec00000 OR PTE_NORMAL, 0xee00000 OR PTE_NORMAL,
     0xf000000 OR PTE_NORMAL, 0xf200000 OR PTE_NORMAL, 0xf400000 OR PTE_NORMAL, 0xf600000 OR PTE_NORMAL,
     0xf800000 OR PTE_NORMAL, 0xfa00000 OR PTE_NORMAL, 0xfc00000 OR PTE_NORMAL, 0xfe00000 OR PTE_NORMAL]"

definition kpte_1 :: "u64 list" where
  "kpte_1 = [
     0x10000000 OR PTE_NORMAL, 0x10200000 OR PTE_NORMAL, 0x10400000 OR PTE_NORMAL, 0x10600000 OR PTE_NORMAL,
     0x10800000 OR PTE_NORMAL, 0x10a00000 OR PTE_NORMAL, 0x10c00000 OR PTE_NORMAL, 0x10e00000 OR PTE_NORMAL,
     0x11000000 OR PTE_NORMAL, 0x11200000 OR PTE_NORMAL, 0x11400000 OR PTE_NORMAL, 0x11600000 OR PTE_NORMAL,
     0x11800000 OR PTE_NORMAL, 0x11a00000 OR PTE_NORMAL, 0x11c00000 OR PTE_NORMAL, 0x11e00000 OR PTE_NORMAL,
     0x12000000 OR PTE_NORMAL, 0x12200000 OR PTE_NORMAL, 0x12400000 OR PTE_NORMAL, 0x12600000 OR PTE_NORMAL,
     0x12800000 OR PTE_NORMAL, 0x12a00000 OR PTE_NORMAL, 0x12c00000 OR PTE_NORMAL, 0x12e00000 OR PTE_NORMAL,
     0x13000000 OR PTE_NORMAL, 0x13200000 OR PTE_NORMAL, 0x13400000 OR PTE_NORMAL, 0x13600000 OR PTE_NORMAL,
     0x13800000 OR PTE_NORMAL, 0x13a00000 OR PTE_NORMAL, 0x13c00000 OR PTE_NORMAL, 0x13e00000 OR PTE_NORMAL,
     0x14000000 OR PTE_NORMAL, 0x14200000 OR PTE_NORMAL, 0x14400000 OR PTE_NORMAL, 0x14600000 OR PTE_NORMAL,
     0x14800000 OR PTE_NORMAL, 0x14a00000 OR PTE_NORMAL, 0x14c00000 OR PTE_NORMAL, 0x14e00000 OR PTE_NORMAL,
     0x15000000 OR PTE_NORMAL, 0x15200000 OR PTE_NORMAL, 0x15400000 OR PTE_NORMAL, 0x15600000 OR PTE_NORMAL,
     0x15800000 OR PTE_NORMAL, 0x15a00000 OR PTE_NORMAL, 0x15c00000 OR PTE_NORMAL, 0x15e00000 OR PTE_NORMAL,
     0x16000000 OR PTE_NORMAL, 0x16200000 OR PTE_NORMAL, 0x16400000 OR PTE_NORMAL, 0x16600000 OR PTE_NORMAL,
     0x16800000 OR PTE_NORMAL, 0x16a00000 OR PTE_NORMAL, 0x16c00000 OR PTE_NORMAL, 0x16e00000 OR PTE_NORMAL,
     0x17000000 OR PTE_NORMAL, 0x17200000 OR PTE_NORMAL, 0x17400000 OR PTE_NORMAL, 0x17600000 OR PTE_NORMAL,
     0x17800000 OR PTE_NORMAL, 0x17a00000 OR PTE_NORMAL, 0x17c00000 OR PTE_NORMAL, 0x17e00000 OR PTE_NORMAL,
     0x18000000 OR PTE_NORMAL, 0x18200000 OR PTE_NORMAL, 0x18400000 OR PTE_NORMAL, 0x18600000 OR PTE_NORMAL,
     0x18800000 OR PTE_NORMAL, 0x18a00000 OR PTE_NORMAL, 0x18c00000 OR PTE_NORMAL, 0x18e00000 OR PTE_NORMAL,
     0x19000000 OR PTE_NORMAL, 0x19200000 OR PTE_NORMAL, 0x19400000 OR PTE_NORMAL, 0x19600000 OR PTE_NORMAL,
     0x19800000 OR PTE_NORMAL, 0x19a00000 OR PTE_NORMAL, 0x19c00000 OR PTE_NORMAL, 0x19e00000 OR PTE_NORMAL,
     0x1a000000 OR PTE_NORMAL, 0x1a200000 OR PTE_NORMAL, 0x1a400000 OR PTE_NORMAL, 0x1a600000 OR PTE_NORMAL,
     0x1a800000 OR PTE_NORMAL, 0x1aa00000 OR PTE_NORMAL, 0x1ac00000 OR PTE_NORMAL, 0x1ae00000 OR PTE_NORMAL,
     0x1b000000 OR PTE_NORMAL, 0x1b200000 OR PTE_NORMAL, 0x1b400000 OR PTE_NORMAL, 0x1b600000 OR PTE_NORMAL,
     0x1b800000 OR PTE_NORMAL, 0x1ba00000 OR PTE_NORMAL, 0x1bc00000 OR PTE_NORMAL, 0x1be00000 OR PTE_NORMAL,
     0x1c000000 OR PTE_NORMAL, 0x1c200000 OR PTE_NORMAL, 0x1c400000 OR PTE_NORMAL, 0x1c600000 OR PTE_NORMAL,
     0x1c800000 OR PTE_NORMAL, 0x1ca00000 OR PTE_NORMAL, 0x1cc00000 OR PTE_NORMAL, 0x1ce00000 OR PTE_NORMAL,
     0x1d000000 OR PTE_NORMAL, 0x1d200000 OR PTE_NORMAL, 0x1d400000 OR PTE_NORMAL, 0x1d600000 OR PTE_NORMAL,
     0x1d800000 OR PTE_NORMAL, 0x1da00000 OR PTE_NORMAL, 0x1dc00000 OR PTE_NORMAL, 0x1de00000 OR PTE_NORMAL,
     0x1e000000 OR PTE_NORMAL, 0x1e200000 OR PTE_NORMAL, 0x1e400000 OR PTE_NORMAL, 0x1e600000 OR PTE_NORMAL,
     0x1e800000 OR PTE_NORMAL, 0x1ea00000 OR PTE_NORMAL, 0x1ec00000 OR PTE_NORMAL, 0x1ee00000 OR PTE_NORMAL,
     0x1f000000 OR PTE_NORMAL, 0x1f200000 OR PTE_NORMAL, 0x1f400000 OR PTE_NORMAL, 0x1f600000 OR PTE_NORMAL,
     0x1f800000 OR PTE_NORMAL, 0x1fa00000 OR PTE_NORMAL, 0x1fc00000 OR PTE_NORMAL, 0x1fe00000 OR PTE_NORMAL]"

definition kpte_2 :: "u64 list" where
  "kpte_2 = [
     0x20000000 OR PTE_NORMAL, 0x20200000 OR PTE_NORMAL, 0x20400000 OR PTE_NORMAL, 0x20600000 OR PTE_NORMAL,
     0x20800000 OR PTE_NORMAL, 0x20a00000 OR PTE_NORMAL, 0x20c00000 OR PTE_NORMAL, 0x20e00000 OR PTE_NORMAL,
     0x21000000 OR PTE_NORMAL, 0x21200000 OR PTE_NORMAL, 0x21400000 OR PTE_NORMAL, 0x21600000 OR PTE_NORMAL,
     0x21800000 OR PTE_NORMAL, 0x21a00000 OR PTE_NORMAL, 0x21c00000 OR PTE_NORMAL, 0x21e00000 OR PTE_NORMAL,
     0x22000000 OR PTE_NORMAL, 0x22200000 OR PTE_NORMAL, 0x22400000 OR PTE_NORMAL, 0x22600000 OR PTE_NORMAL,
     0x22800000 OR PTE_NORMAL, 0x22a00000 OR PTE_NORMAL, 0x22c00000 OR PTE_NORMAL, 0x22e00000 OR PTE_NORMAL,
     0x23000000 OR PTE_NORMAL, 0x23200000 OR PTE_NORMAL, 0x23400000 OR PTE_NORMAL, 0x23600000 OR PTE_NORMAL,
     0x23800000 OR PTE_NORMAL, 0x23a00000 OR PTE_NORMAL, 0x23c00000 OR PTE_NORMAL, 0x23e00000 OR PTE_NORMAL,
     0x24000000 OR PTE_NORMAL, 0x24200000 OR PTE_NORMAL, 0x24400000 OR PTE_NORMAL, 0x24600000 OR PTE_NORMAL,
     0x24800000 OR PTE_NORMAL, 0x24a00000 OR PTE_NORMAL, 0x24c00000 OR PTE_NORMAL, 0x24e00000 OR PTE_NORMAL,
     0x25000000 OR PTE_NORMAL, 0x25200000 OR PTE_NORMAL, 0x25400000 OR PTE_NORMAL, 0x25600000 OR PTE_NORMAL,
     0x25800000 OR PTE_NORMAL, 0x25a00000 OR PTE_NORMAL, 0x25c00000 OR PTE_NORMAL, 0x25e00000 OR PTE_NORMAL,
     0x26000000 OR PTE_NORMAL, 0x26200000 OR PTE_NORMAL, 0x26400000 OR PTE_NORMAL, 0x26600000 OR PTE_NORMAL,
     0x26800000 OR PTE_NORMAL, 0x26a00000 OR PTE_NORMAL, 0x26c00000 OR PTE_NORMAL, 0x26e00000 OR PTE_NORMAL,
     0x27000000 OR PTE_NORMAL, 0x27200000 OR PTE_NORMAL, 0x27400000 OR PTE_NORMAL, 0x27600000 OR PTE_NORMAL,
     0x27800000 OR PTE_NORMAL, 0x27a00000 OR PTE_NORMAL, 0x27c00000 OR PTE_NORMAL, 0x27e00000 OR PTE_NORMAL,
     0x28000000 OR PTE_NORMAL, 0x28200000 OR PTE_NORMAL, 0x28400000 OR PTE_NORMAL, 0x28600000 OR PTE_NORMAL,
     0x28800000 OR PTE_NORMAL, 0x28a00000 OR PTE_NORMAL, 0x28c00000 OR PTE_NORMAL, 0x28e00000 OR PTE_NORMAL,
     0x29000000 OR PTE_NORMAL, 0x29200000 OR PTE_NORMAL, 0x29400000 OR PTE_NORMAL, 0x29600000 OR PTE_NORMAL,
     0x29800000 OR PTE_NORMAL, 0x29a00000 OR PTE_NORMAL, 0x29c00000 OR PTE_NORMAL, 0x29e00000 OR PTE_NORMAL,
     0x2a000000 OR PTE_NORMAL, 0x2a200000 OR PTE_NORMAL, 0x2a400000 OR PTE_NORMAL, 0x2a600000 OR PTE_NORMAL,
     0x2a800000 OR PTE_NORMAL, 0x2aa00000 OR PTE_NORMAL, 0x2ac00000 OR PTE_NORMAL, 0x2ae00000 OR PTE_NORMAL,
     0x2b000000 OR PTE_NORMAL, 0x2b200000 OR PTE_NORMAL, 0x2b400000 OR PTE_NORMAL, 0x2b600000 OR PTE_NORMAL,
     0x2b800000 OR PTE_NORMAL, 0x2ba00000 OR PTE_NORMAL, 0x2bc00000 OR PTE_NORMAL, 0x2be00000 OR PTE_NORMAL,
     0x2c000000 OR PTE_NORMAL, 0x2c200000 OR PTE_NORMAL, 0x2c400000 OR PTE_NORMAL, 0x2c600000 OR PTE_NORMAL,
     0x2c800000 OR PTE_NORMAL, 0x2ca00000 OR PTE_NORMAL, 0x2cc00000 OR PTE_NORMAL, 0x2ce00000 OR PTE_NORMAL,
     0x2d000000 OR PTE_NORMAL, 0x2d200000 OR PTE_NORMAL, 0x2d400000 OR PTE_NORMAL, 0x2d600000 OR PTE_NORMAL,
     0x2d800000 OR PTE_NORMAL, 0x2da00000 OR PTE_NORMAL, 0x2dc00000 OR PTE_NORMAL, 0x2de00000 OR PTE_NORMAL,
     0x2e000000 OR PTE_NORMAL, 0x2e200000 OR PTE_NORMAL, 0x2e400000 OR PTE_NORMAL, 0x2e600000 OR PTE_NORMAL,
     0x2e800000 OR PTE_NORMAL, 0x2ea00000 OR PTE_NORMAL, 0x2ec00000 OR PTE_NORMAL, 0x2ee00000 OR PTE_NORMAL,
     0x2f000000 OR PTE_NORMAL, 0x2f200000 OR PTE_NORMAL, 0x2f400000 OR PTE_NORMAL, 0x2f600000 OR PTE_NORMAL,
     0x2f800000 OR PTE_NORMAL, 0x2fa00000 OR PTE_NORMAL, 0x2fc00000 OR PTE_NORMAL, 0x2fe00000 OR PTE_NORMAL]"

definition kpte_3 :: "u64 list" where
  "kpte_3 = [
     0x30000000 OR PTE_NORMAL, 0x30200000 OR PTE_NORMAL, 0x30400000 OR PTE_NORMAL, 0x30600000 OR PTE_NORMAL,
     0x30800000 OR PTE_NORMAL, 0x30a00000 OR PTE_NORMAL, 0x30c00000 OR PTE_NORMAL, 0x30e00000 OR PTE_NORMAL,
     0x31000000 OR PTE_NORMAL, 0x31200000 OR PTE_NORMAL, 0x31400000 OR PTE_NORMAL, 0x31600000 OR PTE_NORMAL,
     0x31800000 OR PTE_NORMAL, 0x31a00000 OR PTE_NORMAL, 0x31c00000 OR PTE_NORMAL, 0x31e00000 OR PTE_NORMAL,
     0x32000000 OR PTE_NORMAL, 0x32200000 OR PTE_NORMAL, 0x32400000 OR PTE_NORMAL, 0x32600000 OR PTE_NORMAL,
     0x32800000 OR PTE_NORMAL, 0x32a00000 OR PTE_NORMAL, 0x32c00000 OR PTE_NORMAL, 0x32e00000 OR PTE_NORMAL,
     0x33000000 OR PTE_NORMAL, 0x33200000 OR PTE_NORMAL, 0x33400000 OR PTE_NORMAL, 0x33600000 OR PTE_NORMAL,
     0x33800000 OR PTE_NORMAL, 0x33a00000 OR PTE_NORMAL, 0x33c00000 OR PTE_NORMAL, 0x33e00000 OR PTE_NORMAL,
     0x34000000 OR PTE_NORMAL, 0x34200000 OR PTE_NORMAL, 0x34400000 OR PTE_NORMAL, 0x34600000 OR PTE_NORMAL,
     0x34800000 OR PTE_NORMAL, 0x34a00000 OR PTE_NORMAL, 0x34c00000 OR PTE_NORMAL, 0x34e00000 OR PTE_NORMAL,
     0x35000000 OR PTE_NORMAL, 0x35200000 OR PTE_NORMAL, 0x35400000 OR PTE_NORMAL, 0x35600000 OR PTE_NORMAL,
     0x35800000 OR PTE_NORMAL, 0x35a00000 OR PTE_NORMAL, 0x35c00000 OR PTE_NORMAL, 0x35e00000 OR PTE_NORMAL,
     0x36000000 OR PTE_NORMAL, 0x36200000 OR PTE_NORMAL, 0x36400000 OR PTE_NORMAL, 0x36600000 OR PTE_NORMAL,
     0x36800000 OR PTE_NORMAL, 0x36a00000 OR PTE_NORMAL, 0x36c00000 OR PTE_NORMAL, 0x36e00000 OR PTE_NORMAL,
     0x37000000 OR PTE_NORMAL, 0x37200000 OR PTE_NORMAL, 0x37400000 OR PTE_NORMAL, 0x37600000 OR PTE_NORMAL,
     0x37800000 OR PTE_NORMAL, 0x37a00000 OR PTE_NORMAL, 0x37c00000 OR PTE_NORMAL, 0x37e00000 OR PTE_NORMAL,
     0x38000000 OR PTE_NORMAL, 0x38200000 OR PTE_NORMAL, 0x38400000 OR PTE_NORMAL, 0x38600000 OR PTE_NORMAL,
     0x38800000 OR PTE_NORMAL, 0x38a00000 OR PTE_NORMAL, 0x38c00000 OR PTE_NORMAL, 0x38e00000 OR PTE_NORMAL,
     0x39000000 OR PTE_NORMAL, 0x39200000 OR PTE_NORMAL, 0x39400000 OR PTE_NORMAL, 0x39600000 OR PTE_NORMAL,
     0x39800000 OR PTE_NORMAL, 0x39a00000 OR PTE_NORMAL, 0x39c00000 OR PTE_NORMAL, 0x39e00000 OR PTE_NORMAL,
     0x3a000000 OR PTE_NORMAL, 0x3a200000 OR PTE_NORMAL, 0x3a400000 OR PTE_NORMAL, 0x3a600000 OR PTE_NORMAL,
     0x3a800000 OR PTE_NORMAL, 0x3aa00000 OR PTE_NORMAL, 0x3ac00000 OR PTE_NORMAL, 0x3ae00000 OR PTE_NORMAL,
     0x3b000000 OR PTE_NORMAL, 0x3b200000 OR PTE_NORMAL, 0x3b400000 OR PTE_NORMAL, 0x3b600000 OR PTE_NORMAL,
     0x3b800000 OR PTE_NORMAL, 0x3ba00000 OR PTE_NORMAL, 0x3bc00000 OR PTE_NORMAL, 0x3be00000 OR PTE_NORMAL,
     0x3c000000 OR PTE_NORMAL, 0x3c200000 OR PTE_NORMAL, 0x3c400000 OR PTE_NORMAL, 0x3c600000 OR PTE_NORMAL,
     0x3c800000 OR PTE_NORMAL, 0x3ca00000 OR PTE_NORMAL, 0x3cc00000 OR PTE_NORMAL, 0x3ce00000 OR PTE_NORMAL,
     0x3d000000 OR PTE_NORMAL, 0x3d200000 OR PTE_NORMAL, 0x3d400000 OR PTE_NORMAL, 0x3d600000 OR PTE_NORMAL,
     0x3d800000 OR PTE_NORMAL, 0x3da00000 OR PTE_NORMAL, 0x3dc00000 OR PTE_NORMAL, 0x3de00000 OR PTE_NORMAL,
     0x3e000000 OR PTE_NORMAL, 0x3e200000 OR PTE_NORMAL, 0x3e400000 OR PTE_NORMAL, 0x3e600000 OR PTE_NORMAL,
     0x3e800000 OR PTE_NORMAL, 0x3ea00000 OR PTE_NORMAL, 0x3ec00000 OR PTE_NORMAL, 0x3ee00000 OR PTE_NORMAL,
     0x3f000000 OR PTE_DEVICE, 0x3f200000 OR PTE_DEVICE, 0x3f400000 OR PTE_DEVICE, 0x3f600000 OR PTE_DEVICE,
     0x3f800000 OR PTE_DEVICE, 0x3fa00000 OR PTE_DEVICE, 0x3fc00000 OR PTE_DEVICE, 0x3fe00000 OR PTE_DEVICE]"

definition kpte :: "u64 list" where
  "kpte = kpte_0 @ kpte_1 @ kpte_2 @ kpte_3"

text \<open>The argument is the physical address of the table that the first entry leads to.\<close>

definition kpud :: "u64 \<Rightarrow> u64 list" where
  "kpud pa_kpte = [pa_kpte + PTE_TABLE + PTE_P, 0x40000000 OR PTE_DEVICE] @ replicate 510 0"

definition kpgdir :: "u64 \<Rightarrow> u64 list" where
  "kpgdir pa_kpud = (pa_kpud + PTE_TABLE + PTE_P) # replicate 511 0"


section \<open>The walk\<close>

text \<open>
  \<open>n\<close> levels are left below the current one. The result is the physical address with the low attributes of the
  entry that maps it, \<open>None\<close> a translation fault.
\<close>

fun translate :: "nat \<Rightarrow> (u64 \<Rightarrow> u64) \<Rightarrow> u64 \<Rightarrow> u64 \<Rightarrow> (u64 \<times> u64) option" where
  "translate n m tb va =
     (let lvl = 3 - n; k = 39 - 9 * lvl; e = m (tb + 8 * PTX lvl va);
          out = (take_bit 48 e AND NOT (mask k)) OR take_bit k va in
      if \<not> bit e 0 then None
      else if bit e 1 then
        (case n of 0 \<Rightarrow> Some (out, take_bit 12 e) | Suc n \<Rightarrow> translate n m (take_bit 48 e AND NOT (mask 12)) va)
      else if n = 0 \<or> n = 3 then None
      else Some (out, take_bit 12 e))"

declare translate.simps [simp del] PTX_ix [simp del]

text \<open>The three tables in memory.\<close>

definition holds_table :: "(u64 \<Rightarrow> u64) \<Rightarrow> u64 \<Rightarrow> u64 list \<Rightarrow> bool" where
  "holds_table m p t \<longleftrightarrow> p AND NOT (mask 12) = p \<and> take_bit 48 p = p \<and> (\<forall>i<512. m (p + 8 * of_nat i) = t ! i)"

definition boot_tables :: "(u64 \<Rightarrow> u64) \<Rightarrow> u64 \<Rightarrow> u64 \<Rightarrow> u64 \<Rightarrow> bool" where
  "boot_tables m p0 p1 p2 \<longleftrightarrow> holds_table m p0 (kpgdir p1) \<and> holds_table m p1 (kpud p2) \<and> holds_table m p2 kpte"


section \<open>Entries\<close>

definition kpte_entry :: "nat \<Rightarrow> u64" where
  "kpte_entry i = of_nat (i * 0x200000) OR (if i < 504 then PTE_NORMAL else PTE_DEVICE)"

lemma kpte_parts:
  "kpte_0 = map kpte_entry [0..<128]" "kpte_1 = map kpte_entry [128..<256]"
  "kpte_2 = map kpte_entry [256..<384]" "kpte_3 = map kpte_entry [384..<512]"
  by (simp_all add: kpte_0_def kpte_1_def kpte_2_def kpte_3_def kpte_entry_def upt_rec)

lemma kpte_nth: "i < 512 \<Longrightarrow> kpte ! i = kpte_entry i"
proof -
  have "[0..<512] = [0..<128] @ [128..<256] @ [256..<384] @ [384..<512 :: nat]"
    using upt_add_eq_append[of 0 128 384] upt_add_eq_append[of 128 256 256] upt_add_eq_append[of 256 384 128] by simp
  then have k: "kpte = map kpte_entry [0..<512]"
    unfolding kpte_def kpte_parts by (simp only: map_append)
  assume "i < 512"
  then show "kpte ! i = kpte_entry i" unfolding k by simp
qed

lemma PTX_take: "PTX lvl va = take_bit 9 (drop_bit (39 - 9 * lvl) va)"
proof -
  have "(0x1FF :: u64) = mask 9" by (simp add: mask_eq_decr_exp)
  then show ?thesis by (simp add: PTX_def take_bit_eq_mask)
qed

lemma bit_PTX: "bit (PTX lvl va) n \<longleftrightarrow> n < 9 \<and> bit va (39 - 9 * lvl + n)"
  by (auto simp: PTX_take bit_simps dest: bit_imp_le_length)

lemma PTX_lt: "unat (PTX lvl va) < 512"
  using take_bit_nat_less_exp[of 9 "unat (drop_bit (39 - 9 * lvl) va)"] by (simp add: PTX_take unsigned_take_bit_eq)

lemma table_entry: "holds_table m p t \<Longrightarrow> m (p + 8 * PTX lvl va) = t ! unat (PTX lvl va)"
  using spec[of "\<lambda>i. i < 512 \<longrightarrow> m (p + 8 * of_nat i) = t ! i" "unat (PTX lvl va)"] PTX_lt[of lvl va] unfolding holds_table_def by simp

text \<open>The address and the flags of an entry.\<close>

lemma table_descriptor:
  assumes "holds_table m p t"
  shows "take_bit 48 (p + PTE_TABLE + PTE_P) AND NOT (mask 12) = p" "bit (p + PTE_TABLE + PTE_P) 0" "bit (p + PTE_TABLE + PTE_P) (Suc 0)"
proof -
  have p: "p AND NOT (mask 12) = p" "take_bit 48 p = p" using assms by (simp_all add: holds_table_def)
  have low: "\<not> bit p n" if "n < 12" for n
    using that arg_cong[OF p(1), of "\<lambda>w. bit w n"] by (auto simp: bit_simps)
  have high: "n < 48" if "bit p n" for n
    using that arg_cong[OF p(2), of "\<lambda>w. bit w n"] by (auto simp: bit_simps)
  have "PTE_TABLE + PTE_P = mask 2" by (simp add: PTE_TABLE_def PTE_P_def mask_eq_decr_exp)
  then have e: "p + PTE_TABLE + PTE_P = p OR mask 2"
    using low by (simp add: add.assoc) (subst disjunctive_add; auto simp: bit_simps)
  show "bit (p + PTE_TABLE + PTE_P) 0" "bit (p + PTE_TABLE + PTE_P) (Suc 0)" unfolding e by (simp_all add: bit_simps)
  show "take_bit 48 (p + PTE_TABLE + PTE_P) AND NOT (mask 12) = p" unfolding e
    by (rule bit_word_eqI) (use low high in \<open>auto simp: bit_simps\<close>)
qed

lemma kpte_flags: "bit (kpte_entry i) 0" "\<not> bit (kpte_entry i) (Suc 0)"
    "take_bit 12 (kpte_entry i) = (if i < 504 then PTE_NORMAL else PTE_DEVICE)"
  and kpte_addr: "i < 512 \<Longrightarrow> take_bit 48 (kpte_entry i) AND NOT (mask 21) = push_bit 21 (of_nat i)"
proof -
  let ?f = "if i < 504 then PTE_NORMAL else PTE_DEVICE"
  have e: "kpte_entry i = push_bit 21 (of_nat i) OR ?f" by (simp add: kpte_entry_def push_bit_eq_mult mult.commute)
  have f: "take_bit 12 ?f = ?f" "bit ?f 0" "\<not> bit ?f (Suc 0)"
    by (simp_all add: PTE_NORMAL_def PTE_DEVICE_def PTE_P_def PTE_AF_def)
  define x where "x = ?f"
  have ft: "n < 12" if "bit x n" for n
    using that arg_cong[OF f(1)[folded x_def], of "\<lambda>w. bit w n"] by (simp add: bit_simps)
  note e = e[folded x_def]
  show "bit (kpte_entry i) 0" "\<not> bit (kpte_entry i) (Suc 0)" unfolding e using f(2,3)[folded x_def] by (simp_all add: bit_simps)
  show "take_bit 12 (kpte_entry i) = ?f" unfolding e x_def[symmetric]
    by (rule bit_word_eqI) (use ft in \<open>auto simp: bit_simps\<close>)
  assume "i < 512"
  then have "take_bit 9 i = i" by (simp add: take_bit_nat_eq_self)
  then have i: "n < 9" if "bit i n" for n
    using that bit_take_bit_iff[of 9 i n] by simp
  show "take_bit 48 (kpte_entry i) AND NOT (mask 21) = push_bit 21 (of_nat i)" unfolding e
    by (rule bit_word_eqI) (auto simp: bit_simps dest: ft i)
qed


lemma nth_padded: "i < Suc n \<Longrightarrow> (a # replicate n 0) ! i = (if i = 0 then a else 0)"
    "i < Suc (Suc n) \<Longrightarrow> ([a, b] @ replicate n 0) ! i = (if i = 0 then a else if i = 1 then b else 0)"
  by (cases i; simp; fail) (cases i; cases "i - 1"; simp)

lemma kpgdir_nth: "i < 512 \<Longrightarrow> kpgdir p ! i = (if i = 0 then p + PTE_TABLE + PTE_P else 0)"
  unfolding kpgdir_def by (rule nth_padded(1)) simp

lemma kpud_nth: "i < 512 \<Longrightarrow> kpud p ! i = (if i = 0 then p + PTE_TABLE + PTE_P else if i = 1 then 0x40000000 OR PTE_DEVICE else 0)"
  unfolding kpud_def by (rule nth_padded(2)) simp


section \<open>Translation of an address\<close>

lemma translate_steps:
  assumes "m (tb + 8 * PTX (3 - n) va) = e"
  shows "\<not> bit e 0 \<Longrightarrow> translate n m tb va = None"
    "bit e 0 \<Longrightarrow> bit e (Suc 0) \<Longrightarrow> n = Suc n' \<Longrightarrow> translate n m tb va = translate n' m (take_bit 48 e AND NOT (mask 12)) va"
    "bit e 0 \<Longrightarrow> \<not> bit e (Suc 0) \<Longrightarrow> n \<noteq> 0 \<Longrightarrow> n \<noteq> 3 \<Longrightarrow> k = 39 - 9 * (3 - n)
      \<Longrightarrow> translate n m tb va = Some ((take_bit 48 e AND NOT (mask k)) OR take_bit k va, take_bit 12 e)"
  using assms by (subst translate.simps; simp add: Let_def)+

lemma boot_walk:
  assumes "boot_tables m p0 p1 p2"
  shows "translate 3 m p0 va =
     (if PTX 0 va \<noteq> 0 then None
      else if PTX 1 va = 0 then Some (push_bit 21 (PTX 2 va) OR take_bit 21 va, if unat (PTX 2 va) < 504 then PTE_NORMAL else PTE_DEVICE)
      else if PTX 1 va = 1 then Some (push_bit 30 1 OR take_bit 30 va, PTE_DEVICE)
      else None)"
proof -
  have t: "holds_table m p0 (kpgdir p1)" "holds_table m p1 (kpud p2)" "holds_table m p2 kpte"
    using assms by (simp_all add: boot_tables_def)
  note d1 = table_descriptor[OF t(2)] and d2 = table_descriptor[OF t(3)]
  have e0: "m (p0 + 8 * PTX 0 va) = (if PTX 0 va = 0 then p1 + PTE_TABLE + PTE_P else 0)"
    using table_entry[OF t(1), of 0 va] PTX_lt[of 0 va] by (simp add: kpgdir_nth unat_eq_0)
  have u1: "unat w = 1 \<longleftrightarrow> w = 1" for w :: u64 by (subst word_unat_eq_iff) simp
  have e1: "m (p1 + 8 * PTX 1 va) = (if PTX 1 va = 0 then p2 + PTE_TABLE + PTE_P else if PTX 1 va = 1 then 0x40000000 OR PTE_DEVICE else 0)"
    unfolding table_entry[OF t(2)] kpud_nth[OF PTX_lt[of 1 va]] unat_eq_0 u1 ..
  have e2: "m (p2 + 8 * PTX 2 va) = kpte_entry (unat (PTX 2 va))"
    using table_entry[OF t(3), of 2 va] PTX_lt[of 2 va] by (simp add: kpte_nth)
  have n: "of_nat (unat (PTX 2 va)) = PTX 2 va" by simp
  have dev: "bit (0x40000000 OR PTE_DEVICE) 0" "\<not> bit (0x40000000 OR PTE_DEVICE) (Suc 0)" "take_bit 12 (0x40000000 OR PTE_DEVICE) = PTE_DEVICE"
    "take_bit 48 (0x40000000 OR PTE_DEVICE) AND NOT (mask 30) = push_bit 30 1"
    by (simp_all add: PTE_DEVICE_def PTE_P_def PTE_AF_def mask_eq_decr_exp)
  have l2: "translate 1 m p2 va = Some (push_bit 21 (PTX 2 va) OR take_bit 21 va, if unat (PTX 2 va) < 504 then PTE_NORMAL else PTE_DEVICE)"
    using translate_steps(3)[of m p2 1 va _ 21] e2 kpte_flags kpte_addr[OF PTX_lt[of 2 va]] n by (simp add: numeral_2_eq_2)
  have "3 - 2 = (1 :: nat)" "3 - 3 = (0 :: nat)" by simp_all
  note s1 = translate_steps[of m p1 2 va, unfolded this] and s0 = translate_steps[of m p0 3 va, unfolded this]
  have l1: "translate 2 m p1 va = (if PTX 1 va = 0 then translate 1 m p2 va
      else if PTX 1 va = 1 then Some (push_bit 30 1 OR take_bit 30 va, PTE_DEVICE) else None)"
  proof -
    consider "PTX 1 va = 0" | "PTX 1 va = 1" | "PTX 1 va \<noteq> 0" "PTX 1 va \<noteq> 1" by blast
    then show ?thesis
    proof cases
      case 1
      then show ?thesis using s1(2)[OF e1[unfolded if_P[OF 1]], of 1] d2 by simp
    next
      case 2
      then have "m (p1 + 8 * PTX 1 va) = 0x40000000 OR PTE_DEVICE" using e1 by simp
      then show ?thesis using s1(3)[of _ 30] dev 2 by simp
    next
      case 3
      then have "m (p1 + 8 * PTX 1 va) = 0" using e1 by simp
      then show ?thesis using s1(1)[of 0] 3 by simp
    qed
  qed
  show ?thesis
  proof (cases "PTX 0 va = 0")
    case True
    then have "translate 3 m p0 va = translate 2 m p1 va" using s0(2)[OF e0[unfolded if_P[OF True]], of 2] d1 by simp
    then show ?thesis using True l1 l2 by simp
  next
    case False
    then show ?thesis using s0(1)[OF e0[unfolded if_not_P[OF False]]] by simp
  qed
qed


lemma PTX_zero: "PTX lvl va = 0 \<longleftrightarrow> (\<forall>n. 39 - 9 * lvl \<le> n \<and> n < 48 - 9 * lvl \<longrightarrow> \<not> bit va n)" if "lvl \<le> 3"
proof -
  have "PTX lvl va = 0 \<longleftrightarrow> (\<forall>n<9. \<not> bit va (39 - 9 * lvl + n))" by (auto simp: bit_eq_iff bit_PTX)
  also have "\<dots> \<longleftrightarrow> (\<forall>n. 39 - 9 * lvl \<le> n \<and> n < 48 - 9 * lvl \<longrightarrow> \<not> bit va n)"
  proof safe
    fix n assume h: "\<forall>n<9. \<not> bit va (39 - 9 * lvl + n)" "39 - 9 * lvl \<le> n" "n < 48 - 9 * lvl" "bit va n"
    have "n - (39 - 9 * lvl) < 9" using h(3) that by arith
    moreover have "39 - 9 * lvl + (n - (39 - 9 * lvl)) = n" using h(2) by simp
    ultimately show False using h(1,4) by metis
  next
    fix n assume h: "\<forall>n. 39 - 9 * lvl \<le> n \<and> n < 48 - 9 * lvl \<longrightarrow> \<not> bit va n" "n < 9" "bit va (39 - 9 * lvl + n)"
    have "39 - 9 * lvl + n < 48 - 9 * lvl" using h(2) that by arith
    then show False using h(1,3) by simp
  qed
  finally show ?thesis .
qed

lemma PTX_one: "PTX 1 va = 1 \<Longrightarrow> bit va 30 \<and> (\<forall>n. 31 \<le> n \<and> n < 39 \<longrightarrow> \<not> bit va n)"
proof safe
  assume o: "PTX 1 va = 1"
  have b: "bit va (30 + n) \<longleftrightarrow> n = 0" if "n < 9" for n using bit_PTX[of 1 va n] that unfolding o by (simp add: bit_1_iff)
  show "bit va 30" using b[of 0] by simp
  fix n :: nat assume "31 \<le> n" "n < 39" "bit va n"
  moreover from this have "n - 30 < 9" "30 + (n - 30) = n" by arith+
  ultimately show False using b[of "n - 30"] by simp
qed

lemma boot_translate_low:
  assumes "boot_tables m p0 p1 p2"
  shows "translate 3 m p0 va = (let a = take_bit 48 va in
     if a < 0x80000000 then Some (a, if a < PHYSTOP then PTE_NORMAL else PTE_DEVICE) else None)"
proof -
  define a where "a = take_bit 48 va"
  have a: "bit a n \<longleftrightarrow> n < 48 \<and> bit va n" for n by (auto simp: a_def bit_simps)
  have lt: "a < 0x80000000 \<longleftrightarrow> (\<forall>n. 31 \<le> n \<and> n < 48 \<longrightarrow> \<not> bit va n)"
    using lt_bits[of a 31] a by (auto simp: word_less_nat_alt)
  show ?thesis
  proof (cases "a < 0x80000000")
    case False
    then obtain n where n: "31 \<le> n" "n < 48" "bit va n" using lt by auto
    have "PTX 0 va \<noteq> 0 \<or> PTX 1 va \<noteq> 0 \<and> PTX 1 va \<noteq> 1"
    proof (cases "n < 39")
      case True
      then show ?thesis using PTX_zero[of 1 va] PTX_one[of va] n by auto
    next
      case False
      then show ?thesis using PTX_zero[of 0 va] n by auto
    qed
    then show ?thesis unfolding boot_walk[OF assms] using False by (auto simp: Let_def a_def)
  next
    case True
    then have hi: "\<not> bit va n" if "31 \<le> n" "n < 48" for n using lt that by auto
    have p0: "PTX 0 va = 0" using hi PTX_zero[of 0 va] by auto
    have p1: "PTX 1 va = (if bit va 30 then 1 else 0)"
    proof (rule bit_word_eqI)
      fix n show "bit (PTX 1 va) n = bit (if bit va 30 then 1 else 0 :: u64) n"
        using hi[of "30 + n"] bit_PTX[of 1 va n] by (cases "n = 0") (auto simp: bit_1_iff)
    qed
    show ?thesis
    proof (cases "bit va 30")
      case b: True
      have "push_bit 30 1 OR take_bit 30 va = a"
      proof (rule bit_word_eqI)
        fix n assume "n < LENGTH(64)"
        show "bit (push_bit 30 1 OR take_bit 30 va) n = bit a n"
          unfolding bit_or_iff bit_push_bit_iff bit_take_bit_iff bit_1_iff a using hi[of n] b by (cases "n = 30") auto
      qed
      moreover have "\<not> a < PHYSTOP"
      proof -
        have "\<not> unat a < 2 ^ 30" using lt_bits[of a 30] a b by auto
        then show ?thesis by (simp add: word_less_nat_alt PHYSTOP_def)
      qed
      ultimately show ?thesis unfolding boot_walk[OF assms] using p0 p1 b True by (simp add: Let_def a_def)
    next
      case b: False
      have z: "\<not> bit va n" if "30 \<le> n" "n < 48" for n using hi[of n] b that by (cases "n = 30") auto
      have "push_bit 21 (PTX 2 va) OR take_bit 21 va = a"
      proof (rule bit_word_eqI)
        fix n assume "n < LENGTH(64)"
        show "bit (push_bit 21 (PTX 2 va) OR take_bit 21 va) n = bit a n"
        proof (cases "n < 21")
          case False
          then have "n - 21 < 9 \<longleftrightarrow> n < 30" "39 - 9 * 2 + (n - 21) = n" by arith+
          then show ?thesis using False z[of n] a[of n] \<open>n < LENGTH(64)\<close> by (auto simp: bit_simps bit_PTX)
        qed (use a[of n] in \<open>simp add: bit_simps\<close>)
      qed
      moreover have "PTX 2 va = drop_bit 21 a"
      proof (rule bit_word_eqI)
        fix n show "bit (PTX 2 va) n = bit (drop_bit 21 a) n"
          using z[of "21 + n"] a[of "21 + n"] by (cases "n < 9") (auto simp: bit_simps bit_PTX)
      qed
      then have "unat (PTX 2 va) = unat a div 2 ^ 21" by (simp add: unsigned_drop_bit_eq drop_bit_eq_div unat_div)
      then have "unat (PTX 2 va) < 504 \<longleftrightarrow> a < PHYSTOP" by (simp add: word_less_nat_alt PHYSTOP_def div_less_iff_less_mult)
      ultimately show ?thesis unfolding boot_walk[OF assms] using p0 p1 b True by (simp add: Let_def a_def)
    qed
  qed
qed

lemma kernel_half: "KERNBASE \<le> va \<Longrightarrow> take_bit 48 va = V2P va"
proof -
  assume k: "KERNBASE \<le> va"
  have u: "unat (V2P va) = unat va - unat KERNBASE" using k by (simp add: V2P_def unat_sub)
  have "unat va < 2 ^ 64" using unsigned_less[of va] by simp
  moreover have "unat KERNBASE = 2 ^ 64 - 2 ^ 48" by (simp add: KERNBASE_def)
  moreover have "unat KERNBASE \<le> unat va" using k by (simp add: word_le_nat_alt)
  ultimately have "unat va mod 2 ^ 48 = unat va - unat KERNBASE"
    by (intro mod_nat_eqI) (auto simp: le_mod_geq)
  then have "unat (take_bit 48 va) = unat (V2P va)" unfolding u unsigned_take_bit_eq unfolding take_bit_eq_mod by simp
  then show ?thesis by (simp only: word_unat_eq_iff)
qed

end
