(* ===== verification/Sd_Host.thy ===== *)
theory Sd_Host
  imports Sd_Queue
begin

text \<open>
  The lower half of the card driver, \<^verbatim>\<open>kern/sd.c\<close>, down to the registers of the host controller: commands and their
  responses, reset, clock, the initialisation of the card, the parsing of its registers and of the partition table; with
  the property mailbox of \<^verbatim>\<open>kern/mbox.c\<close>. The queue above it is in \<open>Sd_Queue\<close>.

  The hardware is a parameter \<open>H\<close> over a state \<open>'d\<close> of its own: every load and store of a register and every delay may
  change that state, so that nothing is assumed about the device. Diagnostic output is left out, with the register loads in its arguments.
\<close>

section \<open>The hardware\<close>

text \<open>
  \<open>vc_reply\<close> is the property buffer in memory after the video core has answered; \<open>stack_buf\<close> is the address of that
  buffer, \<open>stack_junk\<close> the content of a word of the stack that the code never writes. The two loops of the
  mailbox have no bound; after \<open>patience\<close> turns they are taken to \<open>Spin\<close>.
\<close>

record 'd hw =
  hw_load :: "u64 \<Rightarrow> 'd \<Rightarrow> u32 \<times> 'd"
  hw_store :: "u64 \<Rightarrow> u32 \<Rightarrow> 'd \<Rightarrow> 'd"
  hw_delayus :: "u32 \<Rightarrow> 'd \<Rightarrow> 'd"
  hw_delay :: "u32 \<Rightarrow> 'd \<Rightarrow> 'd"
  vc_reply :: "u32 list \<Rightarrow> 'd \<Rightarrow> u32 list"
  stack_buf :: u64
  stack_junk :: u32
  patience :: nat

definition MMIO_BASE :: u64 where "MMIO_BASE = 0xFFFF000000000000 + 0x3F000000"

definition EMMC_BLKSIZECNT :: u64 where "EMMC_BLKSIZECNT = MMIO_BASE + 0x00300004"
definition EMMC_ARG1 :: u64 where "EMMC_ARG1 = MMIO_BASE + 0x00300008"
definition EMMC_CMDTM :: u64 where "EMMC_CMDTM = MMIO_BASE + 0x0030000C"
definition EMMC_RESP0 :: u64 where "EMMC_RESP0 = MMIO_BASE + 0x00300010"
definition EMMC_RESP1 :: u64 where "EMMC_RESP1 = MMIO_BASE + 0x00300014"
definition EMMC_RESP2 :: u64 where "EMMC_RESP2 = MMIO_BASE + 0x00300018"
definition EMMC_RESP3 :: u64 where "EMMC_RESP3 = MMIO_BASE + 0x0030001C"
definition EMMC_DATA :: u64 where "EMMC_DATA = MMIO_BASE + 0x00300020"
definition EMMC_STATUS :: u64 where "EMMC_STATUS = MMIO_BASE + 0x00300024"
definition EMMC_CONTROL0 :: u64 where "EMMC_CONTROL0 = MMIO_BASE + 0x00300028"
definition EMMC_CONTROL1 :: u64 where "EMMC_CONTROL1 = MMIO_BASE + 0x0030002C"
definition EMMC_INTERRUPT :: u64 where "EMMC_INTERRUPT = MMIO_BASE + 0x00300030"
definition EMMC_IRPT_MASK :: u64 where "EMMC_IRPT_MASK = MMIO_BASE + 0x00300034"
definition EMMC_IRPT_EN :: u64 where "EMMC_IRPT_EN = MMIO_BASE + 0x00300038"
definition EMMC_SLOTISR_VER :: u64 where "EMMC_SLOTISR_VER = MMIO_BASE + 0x003000fc"
definition GPFSEL4 :: u64 where "GPFSEL4 = MMIO_BASE + 0x200000 + 0x10"
definition GPFSEL5 :: u64 where "GPFSEL5 = MMIO_BASE + 0x200000 + 0x14"
definition GPEDS1 :: u64 where "GPEDS1 = MMIO_BASE + 0x200000 + 0x44"
definition GPHEN1 :: u64 where "GPHEN1 = MMIO_BASE + 0x200000 + 0x68"
definition GPPUD :: u64 where "GPPUD = MMIO_BASE + 0x200000 + 0x94"
definition GPPUDCLK1 :: u64 where "GPPUDCLK1 = MMIO_BASE + 0x200000 + 0x9C"
definition MBOX_READ :: u64 where "MBOX_READ = MMIO_BASE + 0x0000B880 + 0x00"
definition MBOX_STATUS :: u64 where "MBOX_STATUS = MMIO_BASE + 0x0000B880 + 0x18"
definition MBOX_WRITE :: u64 where "MBOX_WRITE = MMIO_BASE + 0x0000B880 + 0x20"

text \<open>Flags of commands, interrupts, control and status registers, and responses.\<close>

definition CMD_IS_DATA :: u32 where "CMD_IS_DATA = 0x00200000"
definition CMD_RSPNS_NO :: u32 where "CMD_RSPNS_NO = 0x00000000"
definition CMD_RSPNS_136 :: u32 where "CMD_RSPNS_136 = 0x00010000"
definition CMD_RSPNS_48 :: u32 where "CMD_RSPNS_48 = 0x00020000"
definition CMD_RSPNS_48B :: u32 where "CMD_RSPNS_48B = 0x00030000"
definition TM_MULTI_BLOCK :: u32 where "TM_MULTI_BLOCK = 0x00000020"
definition TM_DAT_DIR_HC :: u32 where "TM_DAT_DIR_HC = 0x00000000"
definition TM_DAT_DIR_CH :: u32 where "TM_DAT_DIR_CH = 0x00000010"
definition TM_BLKCNT_EN :: u32 where "TM_BLKCNT_EN = 0x00000002"
definition TM_MULTI_DATA :: u32 where "TM_MULTI_DATA = CMD_IS_DATA OR TM_MULTI_BLOCK OR TM_BLKCNT_EN"
definition INT_CMD_DONE :: u32 where "INT_CMD_DONE = 0x00000001"
definition C0_HCTL_DWITDH :: u32 where "C0_HCTL_DWITDH = 0x00000002"
definition C1_SRST_HC :: u32 where "C1_SRST_HC = 0x01000000"
definition C1_TOUNIT_MAX :: u32 where "C1_TOUNIT_MAX = 0x000e0000"
definition C1_CLK_EN :: u32 where "C1_CLK_EN = 0x00000004"
definition C1_CLK_STABLE :: u32 where "C1_CLK_STABLE = 0x00000002"
definition C1_CLK_INTLEN :: u32 where "C1_CLK_INTLEN = 0x00000001"
definition FREQ_SETUP :: u32 where "FREQ_SETUP = 400000"
definition FREQ_NORMAL :: u32 where "FREQ_NORMAL = 25000000"
definition HOST_SPEC_NUM :: u32 where "HOST_SPEC_NUM = 0x00ff0000"
definition HOST_SPEC_V2 :: u32 where "HOST_SPEC_V2 = 1"
definition SR_READ_AVAILABLE :: u32 where "SR_READ_AVAILABLE = 0x00000800"
definition SR_DAT_INHIBIT :: u32 where "SR_DAT_INHIBIT = 0x00000002"
definition SR_CMD_INHIBIT :: u32 where "SR_CMD_INHIBIT = 0x00000001"
definition ACMD41_HCS :: u32 where "ACMD41_HCS = 0x40000000"
definition ACMD41_SDXC_POWER :: u32 where "ACMD41_SDXC_POWER = 0x10000000"
definition ACMD41_S18R :: u32 where "ACMD41_S18R = 0x01000000"
definition ACMD41_VOLTAGE :: u32 where "ACMD41_VOLTAGE = 0x00ff8000"
definition ACMD41_ARG_HC :: u32 where "ACMD41_ARG_HC = ACMD41_HCS OR ACMD41_SDXC_POWER OR ACMD41_VOLTAGE OR ACMD41_S18R"
definition ACMD41_ARG_SC :: u32 where "ACMD41_ARG_SC = ACMD41_VOLTAGE OR ACMD41_S18R"
definition ST_APP_CMD :: u32 where "ST_APP_CMD = 0x00000020"
definition ST_CARD_STATE :: u32 where "ST_CARD_STATE = 0x00001e00"
definition R1_ERRORS_MASK :: u32 where "R1_ERRORS_MASK = 0xfff9c004"
definition R3_COMPLETE :: u32 where "R3_COMPLETE = 0x80000000"
definition R3_CCS :: u32 where "R3_CCS = 0x40000000"
definition R3_S18A :: u32 where "R3_S18A = 0x01000000"
definition R6_RCA_MASK :: u32 where "R6_RCA_MASK = 0xffff0000"
definition SD_OK :: u32 where "SD_OK = 0"
definition SD_ERROR :: u32 where "SD_ERROR = 1"
definition SD_TIMEOUT :: u32 where "SD_TIMEOUT = 2"
definition SD_BUSY :: u32 where "SD_BUSY = 3"
definition SD_ERROR_RESET :: u32 where "SD_ERROR_RESET = 6"
definition SD_ERROR_CLOCK :: u32 where "SD_ERROR_CLOCK = 7"
definition SD_ERROR_VOLTAGE :: u32 where "SD_ERROR_VOLTAGE = 8"
definition SD_ERROR_APP_CMD :: u32 where "SD_ERROR_APP_CMD = 9"
definition SD_CARD_CHANGED :: u32 where "SD_CARD_CHANGED = 10"
definition SD_CARD_ABSENT :: u32 where "SD_CARD_ABSENT = 11"
definition SD_CARD_REINSERTED :: u32 where "SD_CARD_REINSERTED = 12"

definition SD_TYPE_1 :: u8 where "SD_TYPE_1 = 2"
definition SD_TYPE_2_SC :: u8 where "SD_TYPE_2_SC = 3"
definition SD_SUPP_SET_BLOCK_COUNT :: u32 where "SD_SUPP_SET_BLOCK_COUNT = 0x80000000"
definition SD_SUPP_SPEED_CLASS :: u32 where "SD_SUPP_SPEED_CLASS = 0x40000000"
definition SD_SUPP_BUS_WIDTH_4 :: u32 where "SD_SUPP_BUS_WIDTH_4 = 0x20000000"
definition SD_SUPP_BUS_WIDTH_1 :: u32 where "SD_SUPP_BUS_WIDTH_1 = 0x10000000"
definition SCR_SD_BUS_WIDTH_1 :: u32 where "SCR_SD_BUS_WIDTH_1 = 0x00000100"
definition SCR_SD_BUS_WIDTH_4 :: u32 where "SCR_SD_BUS_WIDTH_4 = 0x00000400"
definition SCR_CMD_SUPP_SET_BLKCNT :: u32 where "SCR_CMD_SUPP_SET_BLKCNT = 0x02000000"
definition SCR_CMD_SUPP_SPEED_CLASS :: u32 where "SCR_CMD_SUPP_SPEED_CLASS = 0x01000000"
definition CSD0_VERSION :: u32 where "CSD0_VERSION = 0x00c00000"
definition CSD0_V1 :: u32 where "CSD0_V1 = 0x00000000"
definition CSD1VN_READ_BL_LEN :: u32 where "CSD1VN_READ_BL_LEN = 0x00000f00"
definition CSD3VN_FILE_FORMAT :: u32 where "CSD3VN_FILE_FORMAT = 0x0000000c"
definition CSD3VN_FILE_FORMAT_HDD :: u32 where "CSD3VN_FILE_FORMAT_HDD = 0x00000000"
definition CSD3VN_FILE_FORMAT_DOSFAT :: u32 where "CSD3VN_FILE_FORMAT_DOSFAT = 0x00000004"
definition CSD1V1_C_SIZEH :: u32 where "CSD1V1_C_SIZEH = 0x00000003"
definition CSD2V1_C_SIZEL :: u32 where "CSD2V1_C_SIZEL = 0xffc00000"
definition CSD2V1_C_SIZE_MULT :: u32 where "CSD2V1_C_SIZE_MULT = 0x00000380"
definition CSD2V2_C_SIZE :: u32 where "CSD2V2_C_SIZE = 0x3fffff00"

section \<open>The command table\<close>

datatype resp = RESP_NO | RESP_R1 | RESP_R1b | RESP_R2I | RESP_R2S | RESP_R3 | RESP_R6 | RESP_R7

record EMMCCommand =
  cmd_name :: string
  cmd_code :: u32
  cmd_resp :: resp
  cmd_rca :: bool
  cmd_delay :: u32

definition sdCommandTable :: "EMMCCommand list" where
  "sdCommandTable = map (\<lambda>(n, c, r, a, d). \<lparr>cmd_name = n, cmd_code = c, cmd_resp = r, cmd_rca = a, cmd_delay = d\<rparr>) [
     (''GO_IDLE_STATE'', 0x00000000 OR CMD_RSPNS_NO, RESP_NO, False, 0),
     (''ALL_SEND_CID'', 0x02000000 OR CMD_RSPNS_136, RESP_R2I, False, 0),
     (''SEND_REL_ADDR'', 0x03000000 OR CMD_RSPNS_48, RESP_R6, False, 0),
     (''SET_DSR'', 0x04000000 OR CMD_RSPNS_NO, RESP_NO, False, 0),
     (''SWITCH_FUNC'', 0x06000000 OR CMD_RSPNS_48, RESP_R1, False, 0),
     (''CARD_SELECT'', 0x07000000 OR CMD_RSPNS_48B, RESP_R1b, True, 0),
     (''SEND_IF_COND'', 0x08000000 OR CMD_RSPNS_48, RESP_R7, False, 100),
     (''SEND_CSD'', 0x09000000 OR CMD_RSPNS_136, RESP_R2S, True, 0),
     (''SEND_CID'', 0x0A000000 OR CMD_RSPNS_136, RESP_R2I, True, 0),
     (''VOLT_SWITCH'', 0x0B000000 OR CMD_RSPNS_48, RESP_R1, False, 0),
     (''STOP_TRANS'', 0x0C000000 OR CMD_RSPNS_48B, RESP_R1b, False, 0),
     (''SEND_STATUS'', 0x0D000000 OR CMD_RSPNS_48, RESP_R1, True, 0),
     (''GO_INACTIVE'', 0x0F000000 OR CMD_RSPNS_NO, RESP_NO, True, 0),
     (''SET_BLOCKLEN'', 0x10000000 OR CMD_RSPNS_48, RESP_R1, False, 0),
     (''READ_SINGLE'', 0x11000000 OR CMD_RSPNS_48 OR CMD_IS_DATA OR TM_DAT_DIR_CH, RESP_R1, False, 0),
     (''READ_MULTI'', 0x12000000 OR CMD_RSPNS_48 OR TM_MULTI_DATA OR TM_DAT_DIR_CH, RESP_R1, False, 0),
     (''SEND_TUNING'', 0x13000000 OR CMD_RSPNS_48, RESP_R1, False, 0),
     (''SPEED_CLASS'', 0x14000000 OR CMD_RSPNS_48B, RESP_R1b, False, 0),
     (''SET_BLOCKCNT'', 0x17000000 OR CMD_RSPNS_48, RESP_R1, False, 0),
     (''WRITE_SINGLE'', 0x18000000 OR CMD_RSPNS_48 OR CMD_IS_DATA OR TM_DAT_DIR_HC, RESP_R1, False, 0),
     (''WRITE_MULTI'', 0x19000000 OR CMD_RSPNS_48 OR TM_MULTI_DATA OR TM_DAT_DIR_HC, RESP_R1, False, 0),
     (''PROGRAM_CSD'', 0x1B000000 OR CMD_RSPNS_48, RESP_R1, False, 0),
     (''SET_WRITE_PR'', 0x1C000000 OR CMD_RSPNS_48B, RESP_R1b, False, 0),
     (''CLR_WRITE_PR'', 0x1D000000 OR CMD_RSPNS_48B, RESP_R1b, False, 0),
     (''SND_WRITE_PR'', 0x1E000000 OR CMD_RSPNS_48, RESP_R1, False, 0),
     (''ERASE_WR_ST'', 0x20000000 OR CMD_RSPNS_48, RESP_R1, False, 0),
     (''ERASE_WR_END'', 0x21000000 OR CMD_RSPNS_48, RESP_R1, False, 0),
     (''ERASE'', 0x26000000 OR CMD_RSPNS_48B, RESP_R1b, False, 0),
     (''LOCK_UNLOCK'', 0x2A000000 OR CMD_RSPNS_48, RESP_R1, False, 0),
     (''APP_CMD'', 0x37000000 OR CMD_RSPNS_NO, RESP_NO, False, 100),
     (''APP_CMD'', 0x37000000 OR CMD_RSPNS_48, RESP_R1, True, 0),
     (''GEN_CMD'', 0x38000000 OR CMD_RSPNS_48, RESP_R1, False, 0),
     (''SET_BUS_WIDTH'', 0x06000000 OR CMD_RSPNS_48, RESP_R1, False, 0),
     (''SD_STATUS'', 0x0D000000 OR CMD_RSPNS_48, RESP_R1, True, 0),
     (''SEND_NUM_WRBL'', 0x16000000 OR CMD_RSPNS_48, RESP_R1, False, 0),
     (''SEND_NUM_ERS'', 0x17000000 OR CMD_RSPNS_48, RESP_R1, False, 0),
     (''SD_SENDOPCOND'', 0x29000000 OR CMD_RSPNS_48, RESP_R3, False, 1000),
     (''SET_CLR_DET'', 0x2A000000 OR CMD_RSPNS_48, RESP_R1, False, 0),
     (''SEND_SCR'', 0x33000000 OR CMD_RSPNS_48 OR CMD_IS_DATA OR TM_DAT_DIR_CH, RESP_R1, False, 0)]"

definition IX_GO_IDLE_STATE :: nat where "IX_GO_IDLE_STATE = 0"
definition IX_ALL_SEND_CID :: nat where "IX_ALL_SEND_CID = 1"
definition IX_SEND_REL_ADDR :: nat where "IX_SEND_REL_ADDR = 2"
definition IX_CARD_SELECT :: nat where "IX_CARD_SELECT = 5"
definition IX_SEND_IF_COND :: nat where "IX_SEND_IF_COND = 6"
definition IX_SEND_CSD :: nat where "IX_SEND_CSD = 7"
definition IX_SET_BLOCKLEN :: nat where "IX_SET_BLOCKLEN = 13"
definition IX_APP_CMD :: nat where "IX_APP_CMD = 29"
definition IX_APP_CMD_RCA :: nat where "IX_APP_CMD_RCA = 30"
definition IX_APP_CMD_START :: nat where "IX_APP_CMD_START = 32"
definition IX_SET_BUS_WIDTH :: nat where "IX_SET_BUS_WIDTH = 32"
definition IX_APP_SEND_OP_COND :: nat where "IX_APP_SEND_OP_COND = 36"
definition IX_SEND_SCR :: nat where "IX_SEND_SCR = 38"


section \<open>State\<close>

text \<open>\<^verbatim>\<open>sdCard\<close> and the other static variables; \<open>dev\<close> is the state of the hardware.\<close>

record 'd emmc =
  dev :: 'd
  sc_capacity :: u64
  sc_cid :: "u32 list"
  sc_csd :: "u32 list"
  sc_scr :: "u32 list"
  sc_ocr :: u32
  sc_support :: u32
  sc_fileFormat :: u32
  sc_type :: u8
  sc_uhsi :: u8
  sc_init :: u8
  sc_absent :: u8
  sc_rca :: u32
  sc_cardState :: u32
  sc_status :: u32
  sc_lastCmd :: "nat option"
  sc_lastArg :: u32
  sdHostVer :: u32
  sdBaseClock :: u32
  mbr_LBA :: u32
  mbr_LBAsize :: u32

type_synonym ('d, 'a) drv = "('d emmc, 'a) kop"

definition load :: "'d hw \<Rightarrow> u64 \<Rightarrow> ('d, u32) drv" where
  "load H r = (\<lambda>s. case hw_load H r (dev s) of (x, d) \<Rightarrow> Ok x (s\<lparr>dev := d\<rparr>))"

definition store :: "'d hw \<Rightarrow> u64 \<Rightarrow> u32 \<Rightarrow> ('d, unit) drv" where
  "store H r x = kmod (\<lambda>s. s\<lparr>dev := hw_store H r x (dev s)\<rparr>)"

definition delay :: "'d hw \<Rightarrow> u32 \<Rightarrow> ('d, unit) drv" where
  "delay H n = kmod (\<lambda>s. s\<lparr>dev := hw_delay H n (dev s)\<rparr>)"

definition sd_delayus :: "'d hw \<Rightarrow> u32 \<Rightarrow> ('d, unit) drv" where
  "sd_delayus H c = kmod (\<lambda>s. s\<lparr>dev := hw_delayus H (c * 3) (dev s)\<rparr>)"

text \<open>\<^verbatim>\<open>*r |= m\<close> and \<^verbatim>\<open>*r &= m\<close>\<close>

definition set_bits :: "'d hw \<Rightarrow> u64 \<Rightarrow> u32 \<Rightarrow> ('d, unit) drv" where
  "set_bits H r m = kbind (load H r) (\<lambda>x. store H r (x OR m))"

definition keep_bits :: "'d hw \<Rightarrow> u64 \<Rightarrow> u32 \<Rightarrow> ('d, unit) drv" where
  "keep_bits H r m = kbind (load H r) (\<lambda>x. store H r (x AND m))"


section \<open>Waiting\<close>

text \<open>
  The value of the counter after \<^verbatim>\<open>while (cond && count--) body\<close> with the counter at \<open>n\<close>, and after
  \<^verbatim>\<open>while (cond && --count) body\<close> with the counter at \<open>n > 0\<close>.
\<close>

primrec poll :: "('s, bool) kop \<Rightarrow> ('s, unit) kop \<Rightarrow> nat \<Rightarrow> ('s, int) kop" where
  "poll c b 0 = kbind c (\<lambda>x. kret (if x then -1 else 0))"
| "poll c b (Suc n) = kbind c (\<lambda>x. if x then kthen b (poll c b n) else kret (int (Suc n)))"

primrec poll_pre :: "('s, bool) kop \<Rightarrow> ('s, unit) kop \<Rightarrow> nat \<Rightarrow> ('s, int) kop" where
  "poll_pre c b 0 = kret 0"
| "poll_pre c b (Suc n) = kbind c (\<lambda>x. if x then (if n = 0 then kret 0 else kthen b (poll_pre c b n)) else kret (int (Suc n)))"

definition bits_set :: "'d hw \<Rightarrow> u64 \<Rightarrow> u32 \<Rightarrow> ('d, bool) drv" where
  "bits_set H r m = kbind (load H r) (\<lambda>x. kret (x AND m \<noteq> 0))"

definition bits_clear :: "'d hw \<Rightarrow> u64 \<Rightarrow> u32 \<Rightarrow> ('d, bool) drv" where
  "bits_clear H r m = kbind (load H r) (\<lambda>x. kret (x AND m = 0))"

definition kand :: "('s, bool) kop \<Rightarrow> ('s, bool) kop \<Rightarrow> ('s, bool) kop" where
  "kand m n = kbind m (\<lambda>x. if x then n else kret False)"

definition kor :: "('s, bool) kop \<Rightarrow> ('s, bool) kop \<Rightarrow> ('s, bool) kop" where
  "kor m n = kbind m (\<lambda>x. if x then kret True else n)"

definition wait_for_interrupt :: "'d hw \<Rightarrow> u32 \<Rightarrow> ('d, u32) drv" where
  "wait_for_interrupt H msk =
     kbind (poll (bits_clear H EMMC_INTERRUPT (msk OR INT_ERROR_MASK)) (sd_delayus H 1) 1000000) (\<lambda>count.
     kbind (load H EMMC_INTERRUPT) (\<lambda>ival.
     if count \<le> 0 \<or> ival AND INT_CMD_TIMEOUT \<noteq> 0 \<or> ival AND INT_DATA_TIMEOUT \<noteq> 0 then
       kthen (store H EMMC_INTERRUPT ival) (kret SD_TIMEOUT)
     else if ival AND INT_ERROR_MASK \<noteq> 0 then
       kthen (store H EMMC_INTERRUPT ival) (kret SD_ERROR)
     else
       kthen (store H EMMC_INTERRUPT msk) (kret SD_OK)))"

definition sdWaitForCommand :: "'d hw \<Rightarrow> ('d, u32) drv" where
  "sdWaitForCommand H =
     kbind (poll (kand (bits_set H EMMC_STATUS SR_CMD_INHIBIT) (bits_clear H EMMC_INTERRUPT INT_ERROR_MASK)) (sd_delayus H 1) 1000000) (\<lambda>count.
     kbind (kor (kret (count \<le> 0)) (bits_set H EMMC_INTERRUPT INT_ERROR_MASK)) (\<lambda>e.
     if e then kret SD_BUSY else kret SD_OK))"

text \<open>The counter goes up to 500000 here; \<open>poll_pre\<close> counts what is left.\<close>

definition sdWaitForData :: "'d hw \<Rightarrow> ('d, u32) drv" where
  "sdWaitForData H =
     kbind (poll_pre (kand (bits_set H EMMC_STATUS SR_DAT_INHIBIT) (bits_clear H EMMC_INTERRUPT INT_ERROR_MASK)) (sd_delayus H 1) 500000) (\<lambda>left.
     kbind (kor (kret (left \<le> 0)) (bits_set H EMMC_INTERRUPT INT_ERROR_MASK)) (\<lambda>e.
     if e then kret SD_BUSY else kret SD_OK))"


section \<open>Commands\<close>

text \<open>A result other than zero ends the routine that asked for it.\<close>

definition or_fail :: "('d, u32) drv \<Rightarrow> ('d, u32) drv \<Rightarrow> ('d, u32) drv" where
  "or_fail m n = kbind m (\<lambda>r. if r \<noteq> 0 then kret r else n)"

text \<open>\<^verbatim>\<open>sdDebugResponse\<close> prints the name of the last command, through a pointer.\<close>

definition sdDebugResponse :: "u32 \<Rightarrow> ('d, u32) drv" where
  "sdDebugResponse r = kbind (kget sc_lastCmd) (\<lambda>c. case c of None \<Rightarrow> kfault (Undef ''null command'') | Some _ \<Rightarrow> kret r)"

definition or_debug :: "('d, u32) drv \<Rightarrow> ('d, u32) drv \<Rightarrow> ('d, u32) drv" where
  "or_debug m n = kbind m (\<lambda>r. if r \<noteq> 0 then sdDebugResponse r else n)"

definition take_response :: "'d hw \<Rightarrow> EMMCCommand \<Rightarrow> u32 \<Rightarrow> u32 \<Rightarrow> ('d, u32) drv" where
  "take_response H cmd arg resp0 = (case cmd_resp cmd of
     RESP_NO \<Rightarrow> kret SD_OK
   | RESP_R1 \<Rightarrow>
       kthen (kmod (\<lambda>s. s\<lparr>sc_status := resp0, sc_cardState := drop_bit 9 (resp0 AND ST_CARD_STATE)\<rparr>)) (kret (resp0 AND R1_ERRORS_MASK))
   | RESP_R1b \<Rightarrow>
       kthen (kmod (\<lambda>s. s\<lparr>sc_status := resp0, sc_cardState := drop_bit 9 (resp0 AND ST_CARD_STATE)\<rparr>)) (kret (resp0 AND R1_ERRORS_MASK))
   | RESP_R2I \<Rightarrow>
       kthen (kmod (\<lambda>s. s\<lparr>sc_status := 0\<rparr>))
       (kbind (load H EMMC_RESP3) (\<lambda>r3. kbind (load H EMMC_RESP2) (\<lambda>r2. kbind (load H EMMC_RESP1) (\<lambda>r1.
        kthen (kmod (\<lambda>s. s\<lparr>sc_cid := [r3, r2, r1, resp0]\<rparr>)) (kret SD_OK)))))
   | RESP_R2S \<Rightarrow>
       kthen (kmod (\<lambda>s. s\<lparr>sc_status := 0\<rparr>))
       (kbind (load H EMMC_RESP3) (\<lambda>r3. kbind (load H EMMC_RESP2) (\<lambda>r2. kbind (load H EMMC_RESP1) (\<lambda>r1.
        kthen (kmod (\<lambda>s. s\<lparr>sc_csd := [r3, r2, r1, resp0]\<rparr>)) (kret SD_OK)))))
   | RESP_R3 \<Rightarrow>
       kthen (kmod (\<lambda>s. s\<lparr>sc_status := 0, sc_ocr := resp0\<rparr>)) (kret SD_OK)
   | RESP_R6 \<Rightarrow>
       let st = (resp0 AND 0x00001fff) OR push_bit 6 (resp0 AND 0x00002000) OR push_bit 8 (resp0 AND 0x00004000)
             OR push_bit 8 (resp0 AND 0x00008000) in
       kthen (kmod (\<lambda>s. s\<lparr>sc_rca := resp0 AND R6_RCA_MASK, sc_status := st, sc_cardState := drop_bit 9 (resp0 AND ST_CARD_STATE)\<rparr>))
       (kret (st AND R1_ERRORS_MASK))
   | RESP_R7 \<Rightarrow>
       kthen (kmod (\<lambda>s. s\<lparr>sc_status := 0\<rparr>)) (kret (if resp0 = arg then SD_OK else SD_ERROR)))"

definition sdSendCommandP :: "'d hw \<Rightarrow> nat \<Rightarrow> u32 \<Rightarrow> ('d, u32) drv" where
  "sdSendCommandP H ix arg =
     (let cmd = sdCommandTable ! ix in
      kbind (sdWaitForCommand H) (\<lambda>w.
      if w \<noteq> 0 then kret SD_BUSY
      else
        kthen (kmod (\<lambda>s. s\<lparr>sc_lastCmd := Some ix, sc_lastArg := arg\<rparr>))
        (kbind (load H EMMC_INTERRUPT) (\<lambda>i.
         kthen (store H EMMC_INTERRUPT i)
         (kthen (store H EMMC_ARG1 arg)
         (kthen (store H EMMC_CMDTM (cmd_code cmd))
         (kthen (kwhen (cmd_delay cmd \<noteq> 0) (sd_delayus H (cmd_delay cmd)))
         (or_fail (wait_for_interrupt H INT_CMD_DONE)
         (kbind (load H EMMC_RESP0) (take_response H cmd arg))))))))))"

definition sdSendAppCommand :: "'d hw \<Rightarrow> ('d, u32) drv" where
  "sdSendAppCommand H =
     kbind (kget sc_rca) (\<lambda>rca.
     if rca = 0 then kbind (sdSendCommandP H IX_APP_CMD 0) (\<lambda>_. kret SD_OK)
     else
       or_debug (sdSendCommandP H IX_APP_CMD_RCA rca)
       (kbind (kget sc_status) (\<lambda>st. if st AND ST_APP_CMD = 0 then kret SD_ERROR else kret SD_OK)))"

text \<open>The common part of \<^verbatim>\<open>sdSendCommand\<close> and \<^verbatim>\<open>sdSendCommandA\<close>: the prefix, and the check behind the command.\<close>

definition send_with_prefix :: "'d hw \<Rightarrow> nat \<Rightarrow> ('d, u32) drv \<Rightarrow> ('d, u32) drv" where
  "send_with_prefix H ix cmd =
     or_debug (if ix \<ge> IX_APP_CMD_START then sdSendAppCommand H else kret 0)
     (or_fail cmd
     (kbind (kget sc_rca) (\<lambda>rca. kbind (kget sc_status) (\<lambda>st.
      if ix \<ge> IX_APP_CMD_START \<and> rca \<noteq> 0 \<and> st AND ST_APP_CMD = 0 then kret SD_ERROR_APP_CMD else kret 0))))"

definition sdSendCommand :: "'d hw \<Rightarrow> nat \<Rightarrow> ('d, u32) drv" where
  "sdSendCommand H ix = send_with_prefix H ix
     (kbind (kget sc_rca) (\<lambda>rca. sdSendCommandP H ix (if cmd_rca (sdCommandTable ! ix) then rca else 0)))"

definition sdSendCommandA :: "'d hw \<Rightarrow> nat \<Rightarrow> u32 \<Rightarrow> ('d, u32) drv" where
  "sdSendCommandA H ix arg = send_with_prefix H ix (sdSendCommandP H ix arg)"



section \<open>The clock\<close>

definition fls_long :: "u64 \<Rightarrow> int" where
  "fls_long x =
     (if x = 0 then 0
      else
        let (x, r) = (if x AND 0xffff0000 = 0 then (push_bit 16 x, 32 - 16) else (x, 32));
            (x, r) = (if x AND 0xff000000 = 0 then (push_bit 8 x, r - 8) else (x, r));
            (x, r) = (if x AND 0xf0000000 = 0 then (push_bit 4 x, r - 4) else (x, r));
            (x, r) = (if x AND 0xc0000000 = 0 then (push_bit 2 x, r - 2) else (x, r))
        in if x AND 0x80000000 = 0 then r - 1 else r)"

definition roundup_pow_of_two :: "u64 \<Rightarrow> u64" where
  "roundup_pow_of_two x = push_bit (nat (fls_long (x - 1))) 1"

definition sdGetClockDivider :: "u32 \<Rightarrow> u32 \<Rightarrow> u32" where
  "sdGetClockDivider hostver freq =
     (let closest = 41666666 div freq;
          shiftcount = fls_long (ucast (closest - 1));
          shiftcount = (if shiftcount > 0 then shiftcount - 1 else shiftcount);
          shiftcount = (if shiftcount > 7 then 7 else shiftcount);
          divisor = (if hostver > HOST_SPEC_V2 then closest else push_bit (nat shiftcount) 1);
          divisor = (if divisor \<le> 2 then 2 else divisor);
          hi = (if hostver > HOST_SPEC_V2 then drop_bit 2 (divisor AND 0x300) else 0);
          lo = divisor AND 0x0ff
      in push_bit 8 lo + hi)"

definition sdSetClock :: "'d hw \<Rightarrow> u32 \<Rightarrow> ('d, u32) drv" where
  "sdSetClock H freq =
     kbind (poll_pre (bits_set H EMMC_STATUS (SR_CMD_INHIBIT OR SR_DAT_INHIBIT)) (sd_delayus H 1) 100000) (\<lambda>count.
     if count \<le> 0 then kret SD_ERROR_CLOCK
     else
       kthen (keep_bits H EMMC_CONTROL1 (NOT C1_CLK_EN))
       (kthen (sd_delayus H 10)
       (kbind (kget (\<lambda>s. sdGetClockDivider (sdHostVer s) freq)) (\<lambda>cdiv.
        kthen (kbind (load H EMMC_CONTROL1) (\<lambda>x. store H EMMC_CONTROL1 ((x AND 0xffff003f) OR cdiv)))
        (kthen (sd_delayus H 10)
        (kthen (set_bits H EMMC_CONTROL1 C1_CLK_EN)
        (kthen (sd_delayus H 10)
        (kbind (poll (bits_clear H EMMC_CONTROL1 C1_CLK_STABLE) (sd_delayus H 10) 10000) (\<lambda>count.
         if count \<le> 0 then kret SD_ERROR_CLOCK else kret SD_OK)))))))))"

definition sdResetCard :: "'d hw \<Rightarrow> u32 \<Rightarrow> ('d, u32) drv" where
  "sdResetCard H resetType =
     kthen (store H EMMC_CONTROL0 0)
     (kthen (set_bits H EMMC_CONTROL1 resetType)
     (kthen (sd_delayus H 10)
     (kbind (poll (bits_set H EMMC_CONTROL1 resetType) (sd_delayus H 10) 10000) (\<lambda>count.
      if count \<le> 0 then kret SD_ERROR_RESET
      else
        kthen (set_bits H EMMC_CONTROL1 (C1_CLK_INTLEN OR C1_TOUNIT_MAX))
        (kthen (sd_delayus H 10)
        (or_fail (sdSetClock H FREQ_SETUP)
        (kthen (store H EMMC_IRPT_EN (0xffffffff AND NOT INT_CMD_DONE AND NOT INT_WRITE_RDY))
        (kthen (store H EMMC_IRPT_MASK 0xffffffff)
        (kthen (kmod (\<lambda>s. s\<lparr>sc_rca := 0, sc_ocr := 0, sc_lastArg := 0, sc_lastCmd := None, sc_status := 0, sc_type := 0, sc_uhsi := 0\<rparr>))
        (sdSendCommand H IX_GO_IDLE_STATE))))))))))"


section \<open>Initialisation of the card\<close>

text \<open>The retries of \<^verbatim>\<open>sdAppSendOpCond\<close>: \<open>None\<close> when they end, \<open>Some r\<close> when an error returns from the routine.\<close>

primrec retry_op_cond :: "'d hw \<Rightarrow> u32 \<Rightarrow> nat \<Rightarrow> ('d, u32 option) drv" where
  "retry_op_cond H arg 0 = kret None"
| "retry_op_cond H arg (Suc n) =
     kbind (kget sc_ocr) (\<lambda>ocr.
     if ocr AND R3_COMPLETE \<noteq> 0 then kret None
     else
       kthen (delay H 50000)
       (kbind (sdSendCommandA H IX_APP_SEND_OP_COND arg) (\<lambda>resp.
        if resp \<noteq> 0 \<and> resp \<noteq> SD_TIMEOUT then kret (Some resp) else retry_op_cond H arg n)))"

definition sdAppSendOpCond :: "'d hw \<Rightarrow> u32 \<Rightarrow> ('d, u32) drv" where
  "sdAppSendOpCond H arg =
     kbind (sdSendCommandA H IX_APP_SEND_OP_COND arg) (\<lambda>resp.
     if resp \<noteq> 0 \<and> resp \<noteq> SD_TIMEOUT then kret resp
     else
       kbind (retry_op_cond H arg 6) (\<lambda>r. case r of
         Some resp \<Rightarrow> kret resp
       | None \<Rightarrow>
           kbind (kget sc_ocr) (\<lambda>ocr.
           if ocr AND R3_COMPLETE = 0 then kret SD_TIMEOUT
           else if ocr AND ACMD41_VOLTAGE = 0 then kret SD_ERROR_VOLTAGE
           else kret SD_OK)))"

definition sdSwitchVoltage :: "('d, u32) drv" where
  "sdSwitchVoltage = kret SD_OK"

text \<open>\<^verbatim>\<open>GPPUD\<close> and \<^verbatim>\<open>GPPUDCLK1\<close> around a mask of pins, a sequence that \<^verbatim>\<open>sdInitGPIO\<close> has three times.\<close>

definition pull_up :: "'d hw \<Rightarrow> u32 \<Rightarrow> ('d, unit) drv" where
  "pull_up H pins =
     kthen (store H GPPUD 2) (kthen (delay H 150) (kthen (store H GPPUDCLK1 pins) (kthen (delay H 150)
     (kthen (store H GPPUD 0) (store H GPPUDCLK1 0)))))"

definition sdInitGPIO :: "'d hw \<Rightarrow> ('d, unit) drv" where
  "sdInitGPIO H =
     kthen (keep_bits H GPFSEL4 (NOT (push_bit (7 * 3) 7)))
     (kthen (pull_up H (push_bit 15 1))
     (kthen (set_bits H GPHEN1 (push_bit 15 1))
     (kthen (set_bits H GPFSEL4 (push_bit (8 * 3) 7 OR push_bit (9 * 3) 7))
     (kthen (pull_up H (push_bit 16 1 OR push_bit 17 1))
     (kthen (set_bits H GPFSEL5 (push_bit (0 * 3) 7 OR push_bit (1 * 3) 7 OR push_bit (2 * 3) 7 OR push_bit (3 * 3) 7))
     (pull_up H (push_bit 18 1 OR push_bit 19 1 OR push_bit 20 1 OR push_bit 21 1)))))))"



section \<open>The mailbox\<close>

definition MBOX_FULL :: u32 where "MBOX_FULL = 0x80000000"
definition MBOX_EMPTY :: u32 where "MBOX_EMPTY = 0x40000000"
definition MBOX_TAG_GET_ARM_MEMORY :: u32 where "MBOX_TAG_GET_ARM_MEMORY = 0x00010005"
definition MBOX_TAG_GET_CLOCK_RATE :: u32 where "MBOX_TAG_GET_CLOCK_RATE = 0x00030002"
definition MBOX_TAG_END :: u32 where "MBOX_TAG_END = 0"

primrec spin_while :: "nat \<Rightarrow> ('s, bool) kop \<Rightarrow> ('s, unit) kop" where
  "spin_while 0 c = kfault Spin"
| "spin_while (Suc n) c = kbind c (\<lambda>x. if x then spin_while n c else kret ())"

primrec mbox_read_loop :: "'d hw \<Rightarrow> nat \<Rightarrow> u8 \<Rightarrow> ('d, u32) drv" where
  "mbox_read_loop H 0 chan = kfault Spin"
| "mbox_read_loop H (Suc n) chan =
     kthen (spin_while (patience H) (bits_set H MBOX_STATUS MBOX_EMPTY))
     (kbind (load H MBOX_READ) (\<lambda>r.
      if r AND 0xF = ucast chan then kret (drop_bit 4 r) else mbox_read_loop H n chan))"

definition mbox_read :: "'d hw \<Rightarrow> u8 \<Rightarrow> ('d, u32) drv" where
  "mbox_read H chan = mbox_read_loop H (patience H) chan"

definition mbox_write :: "'d hw \<Rightarrow> u32 \<Rightarrow> u8 \<Rightarrow> ('d, unit) drv" where
  "mbox_write H buf chan =
     (if \<not> (buf AND 0xF = 0 \<and> (ucast chan :: u32) AND NOT 0xF = 0) then panic ''assertion failed.''
      else
        kthen (spin_while (patience H) (bits_set H MBOX_STATUS MBOX_FULL))
        (store H MBOX_WRITE ((buf AND NOT 0xF) OR ucast chan)))"

text \<open>The property call that both routines make; the result is the buffer afterwards.\<close>

definition mbox_call :: "'d hw \<Rightarrow> u32 list \<Rightarrow> ('d, u32 list) drv" where
  "mbox_call H buf =
     (if (stack_buf H - 0xFFFF000000000000) AND 0xF \<noteq> 0 then panic ''Buffer should align to 16 bytes. ''
      else
        kthen (mbox_write H (ucast (stack_buf H - 0xFFFF000000000000)) 8)
        (kbind (mbox_read H 8) (\<lambda>_. kget (\<lambda>s. vc_reply H buf (dev s)))))"

definition mbox_get_arm_memory :: "'d hw \<Rightarrow> ('d, u32) drv" where
  "mbox_get_arm_memory H =
     kbind (mbox_call H [36, 0, MBOX_TAG_GET_ARM_MEMORY, 8, 0, 0, 0, MBOX_TAG_END]) (\<lambda>buf.
     if buf ! 5 \<noteq> 0 then panic ''Memory base address should be zero. ''
     else if buf ! 6 = 0 then panic ''Memory size should not be zero. ''
     else kret (buf ! 6))"

definition mbox_get_clock_rate :: "'d hw \<Rightarrow> ('d, u32) drv" where
  "mbox_get_clock_rate H =
     kbind (mbox_call H [36, 0, MBOX_TAG_GET_CLOCK_RATE, 8, 0, 1, 0, MBOX_TAG_END]) (\<lambda>buf. kret (buf ! 6))"

definition sdGetBaseClock :: "'d hw \<Rightarrow> ('d, u32) drv" where
  "sdGetBaseClock H =
     kbind (mbox_get_clock_rate H) (\<lambda>c.
     kthen (kmod (\<lambda>s. s\<lparr>sdBaseClock := c\<rparr>))
     (if c = -1 then kret SD_ERROR else kret SD_OK))"


section \<open>The registers of the card\<close>

text \<open>
  The loop of \<^verbatim>\<open>sdReadSCR\<close> with \<open>numRead\<close> words read and the counter at \<open>count > 0\<close>; the result is the number of words read.
\<close>

function read_scr :: "'d hw \<Rightarrow> nat \<Rightarrow> nat \<Rightarrow> ('d, nat) drv" where
  "read_scr H numRead count s =
     (if numRead \<ge> 2 then Ok numRead s
      else
        kbind (bits_set H EMMC_STATUS SR_READ_AVAILABLE) (\<lambda>avail.
        if avail then
          kbind (load H EMMC_DATA) (\<lambda>x.
          kthen (kmod (\<lambda>s. s\<lparr>sc_scr := (sc_scr s)[numRead := x]\<rparr>))
          (read_scr H (Suc numRead) count))
        else
          kthen (sd_delayus H 1)
          (if count \<le> 1 then kret numRead else read_scr H numRead (count - 1))) s)"
  by pat_completeness auto
termination by (relation "measure (\<lambda>(H, numRead, count, s). (2 - numRead) + count)") auto

declare read_scr.simps [simp del]

definition scr_support :: "u32 \<Rightarrow> u32 \<Rightarrow> u32" where
  "scr_support scr sp =
     (let sp = (if scr AND SCR_SD_BUS_WIDTH_4 \<noteq> 0 then sp OR SD_SUPP_BUS_WIDTH_4 else sp);
          sp = (if scr AND SCR_SD_BUS_WIDTH_1 \<noteq> 0 then sp OR SD_SUPP_BUS_WIDTH_1 else sp);
          sp = (if scr AND SCR_CMD_SUPP_SET_BLKCNT \<noteq> 0 then sp OR SD_SUPP_SET_BLOCK_COUNT else sp)
      in if scr AND SCR_CMD_SUPP_SPEED_CLASS \<noteq> 0 then sp OR SD_SUPP_SPEED_CLASS else sp)"

definition sdReadSCR :: "'d hw \<Rightarrow> ('d, u32) drv" where
  "sdReadSCR H =
     kbind (sdWaitForData H) (\<lambda>w.
     if w \<noteq> 0 then kret SD_TIMEOUT
     else
       kthen (store H EMMC_BLKSIZECNT (push_bit 16 1 OR 8))
       (or_debug (sdSendCommand H IX_SEND_SCR)
       (or_debug (wait_for_interrupt H INT_READ_RDY)
       (kbind (read_scr H 0 100000) (\<lambda>numRead.
        if numRead \<noteq> 2 then kret SD_TIMEOUT
        else kthen (kmod (\<lambda>s. s\<lparr>sc_support := scr_support (sc_scr s ! 0) (sc_support s)\<rparr>)) (kret SD_OK))))))"

text \<open>The capacity in bytes, from the words of the CSD register; the intermediate results have the width of the code.\<close>

definition csd_capacity :: "u32 list \<Rightarrow> u64" where
  "csd_capacity csd =
     (if csd ! 0 AND CSD0_VERSION = CSD0_V1 then
        (let csize = push_bit 10 (csd ! 1 AND CSD1V1_C_SIZEH) + drop_bit 22 (csd ! 2 AND CSD2V1_C_SIZEL);
             mult = push_bit (unat (drop_bit 7 (csd ! 2 AND CSD2V1_C_SIZE_MULT) + 2)) (1 :: u32);
             blockSize = scast (push_bit (unat (drop_bit 8 (csd ! 1 AND CSD1VN_READ_BL_LEN))) (1 :: u32)) :: u64;
             numBlocks = (scast csize + 1) * scast mult :: u64
         in numBlocks * blockSize)
      else
        (let csize = ucast (drop_bit 8 (csd ! 2 AND CSD2V2_C_SIZE)) :: u64 in (csize + 1) * 512 * 1024))"

definition sdParseCSD :: "('d, unit) drv" where
  "sdParseCSD = kmod (\<lambda>s. s\<lparr>sc_capacity := csd_capacity (sc_csd s), sc_fileFormat := sc_csd s ! 3 AND CSD3VN_FILE_FORMAT\<rparr>)"

text \<open>What \<^verbatim>\<open>sdParseCID\<close> prints of the CID register.\<close>

record cid_info =
  manId :: u32
  appId :: "u8 list"
  prodName :: "u8 list"
  revH :: u32
  revL :: u32
  serial :: u32
  dateY :: u32
  dateM :: u32

definition sdParseCID :: "u32 list \<Rightarrow> cid_info" where
  "sdParseCID cid = \<lparr>
     manId = drop_bit 16 (cid ! 0 AND 0x00ff0000),
     appId = [ucast (drop_bit 8 (cid ! 0 AND 0x0000ff00)), ucast (cid ! 0 AND 0x000000ff)],
     prodName = [ucast (drop_bit 24 (cid ! 1 AND 0xff000000)), ucast (drop_bit 16 (cid ! 1 AND 0x00ff0000)),
       ucast (drop_bit 8 (cid ! 1 AND 0x0000ff00)), ucast (cid ! 1 AND 0x000000ff), ucast (drop_bit 24 (cid ! 2 AND 0xff000000))],
     revH = drop_bit 20 (cid ! 2 AND 0x00f00000), revL = drop_bit 16 (cid ! 2 AND 0x000f0000),
     serial = push_bit 16 (cid ! 2 AND 0x0000ffff) + drop_bit 16 (cid ! 3 AND 0xffff0000),
     dateY = drop_bit 4 (cid ! 3 AND 0x00000ff0) + 2000, dateM = cid ! 3 AND 0x0000000f\<rparr>"


section \<open>The sequence of the initialisation\<close>

text \<open>The voltage check with \<^verbatim>\<open>SEND_IF_COND\<close>, which tells the kinds of cards apart; \<open>rest\<close> is the code behind it.\<close>

definition sd_identify :: "'d hw \<Rightarrow> ('d, u32) drv \<Rightarrow> ('d, u32) drv" where
  "sd_identify H rest =
     kbind (sdSendCommandA H IX_SEND_IF_COND 0x1AA) (\<lambda>resp.
     if resp = SD_OK then
       kthen (delay H 50)
       (or_debug (sdAppSendOpCond H ACMD41_ARG_HC)
       (kthen (kmod (\<lambda>s. s\<lparr>sc_type := (if sc_ocr s AND R3_CCS \<noteq> 0 then SD_TYPE_2_HC else SD_TYPE_2_SC)\<rparr>)) rest))
     else if resp = SD_BUSY then kret resp
     else
       kbind (bits_set H EMMC_STATUS SR_CMD_INHIBIT) (\<lambda>inh.
       or_fail (if inh then sdResetCard H C1_SRST_HC else kret 0)
       (or_debug (sdAppSendOpCond H ACMD41_ARG_SC)
       (kthen (kmod (\<lambda>s. s\<lparr>sc_type := SD_TYPE_1\<rparr>)) rest))))"

text \<open>From the voltage switch to the end, with the CID of the card that was there before.\<close>

definition sd_bring_up :: "'d hw \<Rightarrow> u32 list \<Rightarrow> ('d, u32) drv" where
  "sd_bring_up H oldCID =
     kbind (kget sc_ocr) (\<lambda>ocr.
     or_fail (if ocr AND R3_S18A \<noteq> 0 then sdSwitchVoltage else kret 0)
     (or_debug (sdSendCommand H IX_ALL_SEND_CID)
     (or_debug (sdSendCommand H IX_SEND_REL_ADDR)
     (or_debug (sdSendCommand H IX_SEND_CSD)
     (kthen sdParseCSD
     (kbind (kget sc_fileFormat) (\<lambda>f.
      if f \<noteq> CSD3VN_FILE_FORMAT_DOSFAT \<and> f \<noteq> CSD3VN_FILE_FORMAT_HDD then kret SD_ERROR
      else
        or_debug (sdSetClock H FREQ_NORMAL)
        (or_debug (sdSendCommand H IX_CARD_SELECT)
        (or_debug (sdReadSCR H)
        (kbind (kget sc_support) (\<lambda>sp. kbind (kget sc_rca) (\<lambda>rca.
         or_debug (if sp AND SD_SUPP_BUS_WIDTH_4 \<noteq> 0 then
             or_fail (sdSendCommandA H IX_SET_BUS_WIDTH (rca OR 2)) (kthen (set_bits H EMMC_CONTROL0 C0_HCTL_DWITDH) (kret 0))
           else kret 0)
         (or_debug (sdSendCommandA H IX_SET_BLOCKLEN 512)
         (kthen (kmod (\<lambda>s. s\<lparr>sc_init := 1\<rparr>))
         (kbind (kget sc_cid) (\<lambda>cid. kret (if oldCID = cid then SD_CARD_REINSERTED else SD_CARD_CHANGED)))))))))))))))))"

text \<open>\<^verbatim>\<open>cardAbsent\<close> is the constant 0, so that the code for an absent card is dead.\<close>

definition sdInit :: "'d hw \<Rightarrow> ('d, u32) drv" where
  "sdInit H =
     kbind (kget sc_init) (\<lambda>i0.
     kthen (kwhen (i0 = 0) (sdInitGPIO H))
     (kbind (bits_set H GPEDS1 (push_bit (47 - 32) 1)) (\<lambda>cardEjected.
      kthen (kmod (\<lambda>s. s\<lparr>sc_absent := 0\<rparr>))
      (kbind (kget sc_cid) (\<lambda>cid.
       let again = (cardEjected \<and> i0 \<noteq> 0); oldCID = (if again then cid else replicate 4 0) in
       kthen (kwhen again (kmod (\<lambda>s. s\<lparr>sc_init := 0\<rparr>)))
       (if i0 \<noteq> 0 \<and> \<not> cardEjected then kret SD_OK
        else
          kthen (kbind (load H EMMC_SLOTISR_VER) (\<lambda>v. kmod (\<lambda>s. s\<lparr>sdHostVer := drop_bit 16 (v AND HOST_SPEC_NUM)\<rparr>)))
          (or_fail (sdGetBaseClock H)
          (or_fail (sdResetCard H C1_SRST_HC)
          (sd_identify H (sd_bring_up H oldCID))))))))))"


section \<open>Single blocks\<close>

text \<open>\<^verbatim>\<open>sd_start\<close> on the registers, for a request with these flags, this block and these words of data.\<close>

definition start_request :: "'d hw \<Rightarrow> u32 \<Rightarrow> u32 \<Rightarrow> u32 list \<Rightarrow> ('d, unit) drv" where
  "start_request H flags block data =
     kbind (kget sc_type) (\<lambda>ty.
     let bno = (if ty = SD_TYPE_2_HC then block else push_bit 9 block); wrt = (flags AND B_DIRTY \<noteq> 0) in
     kbind (load H EMMC_INTERRUPT) (\<lambda>i.
     if i \<noteq> 0 then panic ''emmc interrupt flag should be empty''
     else
       kthen (store H EMMC_BLKSIZECNT 512)
       (kbind (sdSendCommandA H (unat (if wrt then IX_WRITE_SINGLE else IX_READ_SINGLE)) bno) (\<lambda>resp.
        if resp \<noteq> 0 then panic ''* EMMC send command error.''
        else if wrt then
          kbind (wait_for_interrupt H INT_WRITE_RDY) (\<lambda>resp.
          if resp \<noteq> 0 then panic ''* EMMC ERROR: Timeout waiting for ready to write''
          else
            kbind (load H EMMC_INTERRUPT) (\<lambda>i.
            if i \<noteq> 0 then panic ''emmc interrupt flag set''
            else kfor data (store H EMMC_DATA)))
        else kret ()))))"

text \<open>
  \<^verbatim>\<open>sd_init\<close> behind the initialisation of the locks and the queue. The field \<^verbatim>\<open>part\<close> of the request on the stack is
  never set, so that the block it asks for is whatever is in that word. The partition table has unaligned fields.
\<close>

definition sd_init :: "'d hw \<Rightarrow> ('d, unit) drv" where
  "sd_init H =
     kbind (sdInit H) (\<lambda>_.
     kbind (kget sc_init) (\<lambda>i.
     if i = 0 then panic ''assertion failed.''
     else
       kthen (start_request H 0 (0 + stack_junk H) [])
       (kbind (wait_for_interrupt H INT_READ_RDY) (\<lambda>_.
        kbind (krepeat 128 (load H EMMC_DATA)) (\<lambda>ws.
        kbind (wait_for_interrupt H INT_DATA_DONE) (\<lambda>_.
        let d = concat (map le32 ws) in
        kmod (\<lambda>s. s\<lparr>mbr_LBA := unle32 (slice d (0x1CE + 8) 4), mbr_LBAsize := unle32 (slice d (0x1CE + 12) 4)\<rparr>)))))))"

end
