(* ===== verification/Sd_Host_Ok.thy ===== *)
theory Sd_Host_Ok
  imports Sd_Host
begin

text \<open>
  What holds of the lower half of the card driver on every device: which part of the state its routines change, with which
  results they end, and that the pointer to the last command is set when a message needs it. Then the arithmetic of the clock
  and of the capacity, and the polling loop as the step of \<open>Sd_Queue\<close>.
\<close>

section \<open>Routines that only touch the device\<close>

definition quiet :: "('d, 'a) drv \<Rightarrow> ('a \<Rightarrow> bool) \<Rightarrow> bool" where
  "quiet m R \<longleftrightarrow> (\<forall>s. \<exists>a d. m s = Ok a (s\<lparr>dev := d\<rparr>) \<and> R a)"

lemma quietI: "(\<And>s. \<exists>a d. m s = Ok a (s\<lparr>dev := d\<rparr>) \<and> R a) \<Longrightarrow> quiet m R"
  by (simp add: quiet_def)

lemma quiet_load [intro]: "quiet (load H r) (\<lambda>_. True)"
  by (auto simp: quiet_def load_def split: prod.split)

lemma quiet_store [intro]: "quiet (store H r x) (\<lambda>_. True)"
  by (auto simp: quiet_def store_def)

lemma quiet_delay [intro]: "quiet (delay H n) (\<lambda>_. True)" "quiet (sd_delayus H n) (\<lambda>_. True)"
  by (auto simp: quiet_def delay_def sd_delayus_def)

lemma quiet_kret [intro]: "R a \<Longrightarrow> quiet (kret a) R"
  unfolding quiet_def
proof
  fix s assume "R a"
  then show "\<exists>b d. kret a s = Ok b (s\<lparr>dev := d\<rparr>) \<and> R b" by (intro exI[of _ a] exI[of _ "dev s"]) simp
qed

lemma quiet_kbind: "quiet m R' \<Longrightarrow> (\<And>a. R' a \<Longrightarrow> quiet (f a) R) \<Longrightarrow> quiet (kbind m f) R"
proof (rule quietI)
  fix s assume m: "quiet m R'" and f: "\<And>a. R' a \<Longrightarrow> quiet (f a) R"
  obtain a d where a: "m s = Ok a (s\<lparr>dev := d\<rparr>)" "R' a" using m unfolding quiet_def by blast
  obtain b e where "f a (s\<lparr>dev := d\<rparr>) = Ok b (s\<lparr>dev := d, dev := e\<rparr>)" "R b" using f[OF a(2)] unfolding quiet_def by blast
  then show "\<exists>b e. kbind m f s = Ok b (s\<lparr>dev := e\<rparr>) \<and> R b" using a(1) by auto
qed

lemma quiet_kthen: "quiet m (\<lambda>_. True) \<Longrightarrow> quiet n R \<Longrightarrow> quiet (kthen m n) R"
  unfolding kthen_def by (rule quiet_kbind)

lemma quiet_weaken: "quiet m R' \<Longrightarrow> (\<And>a. R' a \<Longrightarrow> R a) \<Longrightarrow> quiet m R"
  unfolding quiet_def by blast

lemma quiet_if: "(b \<Longrightarrow> quiet m R) \<Longrightarrow> (\<not> b \<Longrightarrow> quiet n R) \<Longrightarrow> quiet (if b then m else n) R"
  by simp

lemma quiet_bits [intro]: "quiet (bits_set H r m) (\<lambda>_. True)" "quiet (bits_clear H r m) (\<lambda>_. True)"
    "quiet (set_bits H r m) (\<lambda>_. True)" "quiet (keep_bits H r m) (\<lambda>_. True)"
  by (auto simp: bits_set_def bits_clear_def set_bits_def keep_bits_def intro!: quiet_kbind[OF quiet_load])

lemma quiet_bool [intro]: "quiet m (\<lambda>_. True) \<Longrightarrow> quiet n (\<lambda>_. True) \<Longrightarrow> quiet (kand m n) (\<lambda>_. True)"
    "quiet m (\<lambda>_. True) \<Longrightarrow> quiet n (\<lambda>_. True) \<Longrightarrow> quiet (kor m n) (\<lambda>_. True)"
  by (auto simp: kand_def kor_def intro!: quiet_kbind[of m "\<lambda>_. True"] quiet_if)

lemma quiet_poll [intro]: "quiet c (\<lambda>_. True) \<Longrightarrow> quiet b (\<lambda>_. True) \<Longrightarrow> quiet (poll c b n) (\<lambda>_. True)"
  by (induction n) (auto intro!: quiet_kbind quiet_kthen)

lemma quiet_poll_pre [intro]: "quiet c (\<lambda>_. True) \<Longrightarrow> quiet b (\<lambda>_. True) \<Longrightarrow> quiet (poll_pre c b n) (\<lambda>_. True)"
  by (induction n) (auto intro!: quiet_kbind quiet_kthen)

lemma quiet_wait_for_interrupt: "quiet (wait_for_interrupt H m) (\<lambda>r. r = 0 \<or> r = 1 \<or> r = 2)"
  unfolding wait_for_interrupt_def
  by (rule quiet_kbind[OF quiet_poll], blast, blast, rule quiet_kbind, blast)
     (auto intro!: quiet_if quiet_kthen simp: SD_OK_def SD_ERROR_def SD_TIMEOUT_def)

lemma quiet_wait_for_command: "quiet (sdWaitForCommand H) (\<lambda>r. r = 0 \<or> r = 3)"
  unfolding sdWaitForCommand_def
  by (rule quiet_kbind[OF quiet_poll], blast, blast, rule quiet_kbind, blast) (auto intro!: quiet_if simp: SD_OK_def SD_BUSY_def)

lemma quiet_wait_for_data: "quiet (sdWaitForData H) (\<lambda>_. True)"
  unfolding sdWaitForData_def
  by (rule quiet_kbind[OF quiet_poll_pre], blast, blast, rule quiet_kbind, blast) (auto intro!: quiet_if)

lemma quiet_pull_up: "quiet (pull_up H p) (\<lambda>_. True)"
  unfolding pull_up_def by (auto intro!: quiet_kthen)

lemma quiet_gpio: "quiet (sdInitGPIO H) (\<lambda>_. True)"
  unfolding sdInitGPIO_def by (auto intro!: quiet_kthen quiet_pull_up)


section \<open>The invariant of the initialisation\<close>

text \<open>\<open>k\<close> says that the pointer to the last command is known to be set.\<close>

definition before :: "bool \<Rightarrow> 'd emmc \<Rightarrow> bool" where
  "before k s \<longleftrightarrow> sc_init s = 0 \<and> (k \<longrightarrow> sc_lastCmd s \<noteq> None)"

text \<open>The code stops only in the mailbox: it polls for ever, or an assertion fails.\<close>

definition mbox_fault :: "fault \<Rightarrow> bool" where
  "mbox_fault e \<longleftrightarrow> e = Spin \<or> (\<exists>m. e = Panic m)"

definition sound :: "bool \<Rightarrow> ('d, 'a) drv \<Rightarrow> ('a \<Rightarrow> bool) \<Rightarrow> ('a \<Rightarrow> bool) \<Rightarrow> bool" where
  "sound k m k' R \<longleftrightarrow> (\<forall>s. before k s \<longrightarrow> kwp m mbox_fault (\<lambda>a s'. before (k' a) s' \<and> R a) s)"

definition no_success :: "u32 \<Rightarrow> bool" where
  "no_success r \<longleftrightarrow> r \<noteq> SD_CARD_CHANGED \<and> r \<noteq> SD_CARD_REINSERTED"

lemma no_success_codes [simp]:
  "no_success SD_OK" "no_success SD_ERROR" "no_success SD_TIMEOUT" "no_success SD_BUSY" "no_success SD_ERROR_RESET"
  "no_success SD_ERROR_CLOCK" "no_success SD_ERROR_VOLTAGE" "no_success SD_ERROR_APP_CMD" "no_success 0"
  by (simp_all add: no_success_def SD_OK_def SD_ERROR_def SD_TIMEOUT_def SD_BUSY_def SD_ERROR_RESET_def SD_ERROR_CLOCK_def
      SD_ERROR_VOLTAGE_def SD_ERROR_APP_CMD_def SD_CARD_CHANGED_def SD_CARD_REINSERTED_def)

lemma no_success_R1: "no_success (x AND R1_ERRORS_MASK)" "x AND R1_ERRORS_MASK \<noteq> SD_BUSY"
proof -
  have "\<not> bit (x AND R1_ERRORS_MASK) 1" "\<not> bit (x AND R1_ERRORS_MASK) 3" by (simp_all add: R1_ERRORS_MASK_def bit_simps)
  moreover have "bit SD_CARD_CHANGED 1" "bit SD_CARD_REINSERTED 3" "bit SD_BUSY 1"
    by (simp_all add: SD_CARD_CHANGED_def SD_CARD_REINSERTED_def SD_BUSY_def)
  ultimately show "no_success (x AND R1_ERRORS_MASK)" "x AND R1_ERRORS_MASK \<noteq> SD_BUSY" unfolding no_success_def by metis+
qed

lemma sound_quiet: "quiet m R \<Longrightarrow> sound k m (\<lambda>_. k) R"
proof -
  assume q: "quiet m R"
  have "kwp m mbox_fault (\<lambda>a s'. before k s' \<and> R a) s" if "before k s" for s
  proof -
    obtain a d where "m s = Ok a (s\<lparr>dev := d\<rparr>)" "R a" using q unfolding quiet_def by blast
    then show ?thesis using that by (simp add: kwp_def before_def)
  qed
  then show ?thesis by (simp add: sound_def)
qed

lemma sound_kbind: "sound k m k' R' \<Longrightarrow> (\<And>a. R' a \<Longrightarrow> sound (k' a) (f a) k'' R) \<Longrightarrow> sound k (kbind m f) k'' R"
  unfolding sound_def kwp_kbind by (blast intro: kwp_conseq)

lemma sound_kthen: "sound k m (\<lambda>_. k') (\<lambda>_. True) \<Longrightarrow> sound k' n k'' R \<Longrightarrow> sound k (kthen m n) k'' R"
  unfolding kthen_def by (rule sound_kbind)

lemma sound_kret: "(k' a \<longrightarrow> k) \<Longrightarrow> R a \<Longrightarrow> sound k (kret a) k' R"
  by (auto simp: sound_def kwp_kret before_def)

lemma sound_kget: "sound k (kget f) (\<lambda>_. k) (\<lambda>_. True)"
  by (simp add: sound_def kwp_kget)

lemma sound_kmod: "(\<And>s. before k s \<Longrightarrow> before k' (f s)) \<Longrightarrow> sound k (kmod f) (\<lambda>_. k') (\<lambda>_. True)"
  by (simp add: sound_def kwp_kmod)

lemma sound_if: "(b \<Longrightarrow> sound k m k' R) \<Longrightarrow> (\<not> b \<Longrightarrow> sound k n k' R) \<Longrightarrow> sound k (if b then m else n) k' R"
  by simp

lemma sound_weaken: "sound k m k' R \<Longrightarrow> (\<And>a. R a \<Longrightarrow> k'' a \<Longrightarrow> k' a) \<Longrightarrow> (\<And>a. R a \<Longrightarrow> R' a) \<Longrightarrow> sound k m k'' R'"
  unfolding sound_def by (fastforce simp: before_def elim!: kwp_conseq)

lemma sound_strengthen: "sound k m k' R \<Longrightarrow> (j \<longrightarrow> k) \<Longrightarrow> False \<or> (k \<longrightarrow> j) \<Longrightarrow> sound j m k' R"
  by (cases j; cases k; simp)

lemma sound_or_fail:
  assumes "sound k m k' R" "\<And>r. R r \<Longrightarrow> r \<noteq> 0 \<Longrightarrow> R' r \<and> (k'' r \<longrightarrow> k' r)" "sound (k' 0) n k'' R'"
  shows "sound k (or_fail m n) k'' R'"
  unfolding or_fail_def
proof (rule sound_kbind[OF assms(1)])
  fix r assume "R r"
  then show "sound (k' r) (if r \<noteq> 0 then kret r else n) k'' R'" using assms(2,3) by (cases "r = 0") (auto intro: sound_kret)
qed

lemma sound_debug: "R r \<Longrightarrow> sound True (sdDebugResponse r) (\<lambda>_. True) R"
  by (auto simp: sound_def sdDebugResponse_def kwp_kbind kwp_kget before_def kwp_kret split: option.split)

lemma sound_or_debug:
  assumes "sound k m k' R" "\<And>r. R r \<Longrightarrow> r \<noteq> 0 \<Longrightarrow> R' r \<and> k' r" "sound (k' 0) n k'' R'"
  shows "sound k (or_debug m n) k'' R'"
  unfolding or_debug_def
proof (rule sound_kbind[OF assms(1)])
  fix r assume "R r"
  then show "sound (k' r) (if r \<noteq> 0 then sdDebugResponse r else n) k'' R'"
    using assms(2,3) sound_weaken[OF sound_debug[of R' r], of k'' R'] by (cases "r = 0") auto
qed



section \<open>Commands\<close>

lemma before_record [simp]:
  "before k (s\<lparr>dev := d\<rparr>) = before k s" "before k (s\<lparr>sc_status := x\<rparr>) = before k s" "before k (s\<lparr>sc_cardState := x\<rparr>) = before k s"
  "before k (s\<lparr>sc_cid := c\<rparr>) = before k s" "before k (s\<lparr>sc_csd := c\<rparr>) = before k s" "before k (s\<lparr>sc_ocr := x\<rparr>) = before k s"
  "before k (s\<lparr>sc_rca := x\<rparr>) = before k s" "before k (s\<lparr>sc_lastArg := x\<rparr>) = before k s" "before k (s\<lparr>sc_type := y\<rparr>) = before k s"
  "before k (s\<lparr>sc_scr := c\<rparr>) = before k s" "before k (s\<lparr>sc_support := x\<rparr>) = before k s" "before k (s\<lparr>sc_capacity := z\<rparr>) = before k s"
  "before k (s\<lparr>sc_fileFormat := x\<rparr>) = before k s" "before k (s\<lparr>sdHostVer := x\<rparr>) = before k s" "before k (s\<lparr>sdBaseClock := x\<rparr>) = before k s"
  "before k (s\<lparr>sc_absent := y\<rparr>) = before k s" "before k (s\<lparr>sc_uhsi := y\<rparr>) = before k s"
  by (simp_all add: before_def)

lemmas sound_load = sound_quiet[OF quiet_load]

lemma sound_take_response: "sound k (take_response H cmd arg x) (\<lambda>_. k) (\<lambda>r. no_success r \<and> r \<noteq> SD_BUSY)"
proof -
  have [simp]: "SD_OK \<noteq> SD_BUSY" "SD_ERROR \<noteq> SD_BUSY" by (simp_all add: SD_OK_def SD_BUSY_def SD_ERROR_def)
  have ok: "sound k (kret SD_OK) (\<lambda>_. k) (\<lambda>r. no_success r \<and> r \<noteq> SD_BUSY)" by (rule sound_kret) simp_all
  have words: "sound k (kthen (kmod (\<lambda>s. s\<lparr>sc_status := 0\<rparr>))
       (kbind (load H EMMC_RESP3) (\<lambda>r3. kbind (load H EMMC_RESP2) (\<lambda>r2. kbind (load H EMMC_RESP1) (\<lambda>r1.
        kthen (kmod (f r3 r2 r1)) (kret SD_OK)))))) (\<lambda>_. k) (\<lambda>r. no_success r \<and> r \<noteq> SD_BUSY)"
    if "\<And>a b c s. before k (f a b c s) = before k s" for f
    by (rule sound_kthen[of _ _ k], rule sound_kmod, simp, (rule sound_kbind[OF sound_load])+, rule sound_kthen[of _ _ k], rule sound_kmod, simp add: that, rule ok)
  show ?thesis
  proof (cases "cmd_resp cmd")
    case RESP_R2I
    then show ?thesis by (simp add: take_response_def words)
  next
    case RESP_R2S
    then show ?thesis by (simp add: take_response_def words)
  qed (auto simp: take_response_def Let_def no_success_R1 ok intro!: sound_kthen[of _ _ k] sound_kmod sound_kret)
qed

lemma sound_command: "sound k (sdSendCommandP H ix arg) (\<lambda>r. k \<or> r \<noteq> SD_BUSY) no_success"
proof -
  let ?cmd = "sdCommandTable ! ix"
  have tail: "sound True (or_fail (wait_for_interrupt H INT_CMD_DONE) (kbind (load H EMMC_RESP0) (take_response H ?cmd arg))) (\<lambda>_. True) no_success"
  proof (rule sound_or_fail[OF sound_quiet[OF quiet_wait_for_interrupt]])
    show "sound True (kbind (load H EMMC_RESP0) (take_response H ?cmd arg)) (\<lambda>_. True) no_success"
      by (rule sound_kbind[OF sound_load]) (rule sound_weaken[OF sound_take_response], auto)
  qed (auto simp: no_success_def SD_CARD_CHANGED_def SD_CARD_REINSERTED_def)
  have mid: "sound True (kbind (load H EMMC_INTERRUPT) (\<lambda>i. kthen (store H EMMC_INTERRUPT i) (kthen (store H EMMC_ARG1 arg)
         (kthen (store H EMMC_CMDTM (cmd_code ?cmd)) (kthen (kwhen (cmd_delay ?cmd \<noteq> 0) (sd_delayus H (cmd_delay ?cmd)))
         (or_fail (wait_for_interrupt H INT_CMD_DONE) (kbind (load H EMMC_RESP0) (take_response H ?cmd arg)))))))) (\<lambda>_. True) no_success"
    by (rule sound_kbind[OF sound_load], (rule sound_kthen[of _ _ True], rule sound_quiet, blast)+,
        rule sound_kthen[of _ _ True], rule sound_quiet, cases "cmd_delay ?cmd \<noteq> 0"; simp add: quiet_delay quiet_kret tail)
  show ?thesis unfolding sdSendCommandP_def Let_def
  proof (rule sound_kbind[OF sound_quiet[OF quiet_wait_for_command]])
    fix w :: u32 assume "w = 0 \<or> w = 3"
    show "sound k (if w \<noteq> 0 then kret SD_BUSY else kthen (kmod (\<lambda>s. s\<lparr>sc_lastCmd := Some ix, sc_lastArg := arg\<rparr>))
       (kbind (load H EMMC_INTERRUPT) (\<lambda>i. kthen (store H EMMC_INTERRUPT i) (kthen (store H EMMC_ARG1 arg)
         (kthen (store H EMMC_CMDTM (cmd_code ?cmd)) (kthen (kwhen (cmd_delay ?cmd \<noteq> 0) (sd_delayus H (cmd_delay ?cmd)))
         (or_fail (wait_for_interrupt H INT_CMD_DONE) (kbind (load H EMMC_RESP0) (take_response H ?cmd arg)))))))))
       (\<lambda>r. k \<or> r \<noteq> SD_BUSY) no_success"
    proof (rule sound_if)
      show "sound k (kret SD_BUSY) (\<lambda>r. k \<or> r \<noteq> SD_BUSY) no_success" by (rule sound_kret) simp_all
    qed (rule sound_kthen[OF sound_kmod[of _ True] sound_weaken[OF mid]], auto simp: before_def)
  qed
qed

lemma sound_app_command: "sound True (sdSendAppCommand H) (\<lambda>_. True) no_success"
  unfolding sdSendAppCommand_def
proof (rule sound_kbind[OF sound_kget], rule sound_if)
  fix rca :: u32
  show "sound True (kbind (sdSendCommandP H IX_APP_CMD 0) (\<lambda>_. kret SD_OK)) (\<lambda>_. True) no_success"
    by (rule sound_kbind[OF sound_command]) (auto intro: sound_kret)
  show "sound True (or_debug (sdSendCommandP H IX_APP_CMD_RCA rca)
       (kbind (kget sc_status) (\<lambda>st. if st AND ST_APP_CMD = 0 then kret SD_ERROR else kret SD_OK))) (\<lambda>_. True) no_success"
    by (rule sound_or_debug[OF sound_command]) (auto intro!: sound_kbind[OF sound_kget] sound_if sound_kret)
qed

lemma sound_prefix:
  assumes "sound k m (\<lambda>r. k \<or> r \<noteq> SD_BUSY) no_success" "ix < IX_APP_CMD_START \<or> k"
  shows "sound k (send_with_prefix H ix m) (\<lambda>r. k \<or> r \<noteq> SD_BUSY) no_success"
proof -
  have [simp]: "SD_ERROR_APP_CMD \<noteq> SD_BUSY" "0 \<noteq> SD_BUSY" by (simp_all add: SD_ERROR_APP_CMD_def SD_BUSY_def)
  have rest: "sound k (or_fail m (kbind (kget sc_rca) (\<lambda>rca. kbind (kget sc_status) (\<lambda>st.
      if ix \<ge> IX_APP_CMD_START \<and> rca \<noteq> 0 \<and> st AND ST_APP_CMD = 0 then kret SD_ERROR_APP_CMD else kret 0)))) (\<lambda>r. k \<or> r \<noteq> SD_BUSY) no_success"
    by (rule sound_or_fail[OF assms(1)], simp, simp)
       (rule sound_kbind[OF sound_kget], rule sound_kbind[OF sound_kget], rule sound_if; rule sound_kret; simp)
  show ?thesis unfolding send_with_prefix_def
  proof (cases "ix \<ge> IX_APP_CMD_START")
    case True
    then have k: "k = True" using assms(2) by simp
    show "sound k (or_debug (if ix \<ge> IX_APP_CMD_START then sdSendAppCommand H else kret 0) (or_fail m (kbind (kget sc_rca) (\<lambda>rca. kbind (kget sc_status) (\<lambda>st.
      if ix \<ge> IX_APP_CMD_START \<and> rca \<noteq> 0 \<and> st AND ST_APP_CMD = 0 then kret SD_ERROR_APP_CMD else kret 0))))) (\<lambda>r. k \<or> r \<noteq> SD_BUSY) no_success"
      unfolding k if_P[OF True] by (rule sound_or_debug[OF sound_app_command]) (use rest in \<open>auto simp: k\<close>)
  next
    case False
    have z: "sound k (kret 0) (\<lambda>_. k) (\<lambda>r. r = (0 :: u32))" by (rule sound_kret) simp_all
    show "sound k (or_debug (if ix \<ge> IX_APP_CMD_START then sdSendAppCommand H else kret 0) (or_fail m (kbind (kget sc_rca) (\<lambda>rca. kbind (kget sc_status) (\<lambda>st.
      if ix \<ge> IX_APP_CMD_START \<and> rca \<noteq> 0 \<and> st AND ST_APP_CMD = 0 then kret SD_ERROR_APP_CMD else kret 0))))) (\<lambda>r. k \<or> r \<noteq> SD_BUSY) no_success"
      unfolding if_not_P[OF False] by (rule sound_or_debug[OF z]) (use rest in auto)
  qed
qed

lemma sound_send:
  assumes "ix < IX_APP_CMD_START \<or> k"
  shows "sound k (sdSendCommand H ix) (\<lambda>r. k \<or> r \<noteq> SD_BUSY) no_success" "sound k (sdSendCommandA H ix arg) (\<lambda>r. k \<or> r \<noteq> SD_BUSY) no_success"
  unfolding sdSendCommand_def sdSendCommandA_def
  by (rule sound_prefix[OF _ assms], rule sound_kbind[OF sound_kget], rule sound_command)
     (rule sound_prefix[OF sound_command assms])



section \<open>The steps of the initialisation\<close>

lemma quiet_set_clock: "quiet (sdSetClock H f) (\<lambda>r. r = 0 \<or> r = SD_ERROR_CLOCK)"
proof -
  have kg: "quiet (kget g) (\<lambda>_. True)" for g :: "'d emmc \<Rightarrow> u32"
    unfolding quiet_def by (metis emmc.surjective emmc.update_convs(1) kget_run)
  show ?thesis unfolding sdSetClock_def
    by (rule quiet_kbind[OF quiet_poll_pre]) (auto simp: SD_OK_def intro!: quiet_if quiet_kthen quiet_kbind[OF kg] quiet_kbind[OF quiet_load]
        quiet_kbind[OF quiet_poll])
qed

lemma sound_set_clock: "sound k (sdSetClock H f) (\<lambda>_. k) no_success"
  by (rule sound_weaken[OF sound_quiet[OF quiet_set_clock]]) auto

lemma sound_reset: "sound k (sdResetCard H ty) (\<lambda>r. r = 0) no_success"
proof -
  have [simp]: "(0 :: u32) \<noteq> SD_BUSY" by (simp add: SD_BUSY_def)
  have idle: "sound False (sdSendCommand H IX_GO_IDLE_STATE) (\<lambda>r. r = 0) no_success"
    by (rule sound_weaken[OF sound_send(1)]) (auto simp: IX_GO_IDLE_STATE_def IX_APP_CMD_START_def)
  have fin: "sound k (or_fail (sdSetClock H FREQ_SETUP) (kthen (store H EMMC_IRPT_EN (0xffffffff AND NOT INT_CMD_DONE AND NOT INT_WRITE_RDY))
        (kthen (store H EMMC_IRPT_MASK 0xffffffff)
        (kthen (kmod (\<lambda>s. s\<lparr>sc_rca := 0, sc_ocr := 0, sc_lastArg := 0, sc_lastCmd := None, sc_status := 0, sc_type := 0, sc_uhsi := 0\<rparr>))
        (sdSendCommand H IX_GO_IDLE_STATE))))) (\<lambda>r. r = 0) no_success"
    by (rule sound_or_fail[OF sound_set_clock], simp, (rule sound_kthen[of _ _ k], rule sound_quiet, blast)+,
        rule sound_kthen[OF sound_kmod[of _ False] idle], simp add: before_def)
  show ?thesis unfolding sdResetCard_def
  proof ((rule sound_kthen[of _ _ k], rule sound_quiet, blast)+, rule sound_kbind[OF sound_quiet[OF quiet_poll]], blast, blast, rule sound_if)
    show "sound k (kret SD_ERROR_RESET) (\<lambda>r. r = 0) no_success" by (rule sound_kret) (simp add: SD_ERROR_RESET_def, simp)
  qed ((rule sound_kthen[of _ _ k], rule sound_quiet, blast)+, rule fin)
qed

lemma sound_op_cond_send: "sound True (sdSendCommandA H IX_APP_SEND_OP_COND arg) (\<lambda>_. True) no_success"
  by (rule sound_weaken[OF sound_send(2)]) auto

lemma sound_retry: "sound True (retry_op_cond H arg n) (\<lambda>_. True) (\<lambda>r. \<forall>x. r = Some x \<longrightarrow> no_success x)"
proof (induction n)
  case 0
  show ?case unfolding retry_op_cond.simps by (rule sound_kret) simp_all
next
  case (Suc n)
  have "sound True (kbind (sdSendCommandA H IX_APP_SEND_OP_COND arg) (\<lambda>resp.
        if resp \<noteq> 0 \<and> resp \<noteq> SD_TIMEOUT then kret (Some resp) else retry_op_cond H arg n)) (\<lambda>_. True) (\<lambda>r. \<forall>x. r = Some x \<longrightarrow> no_success x)"
    by (rule sound_kbind[OF sound_op_cond_send]) (auto intro: sound_kret Suc)
  then show ?case unfolding retry_op_cond.simps
    by (intro sound_kbind[OF sound_kget] sound_if sound_kthen[of _ _ True]) (auto intro: sound_kret sound_quiet)
qed

lemma sound_op_cond: "sound True (sdAppSendOpCond H arg) (\<lambda>_. True) no_success"
  unfolding sdAppSendOpCond_def
proof (rule sound_kbind[OF sound_op_cond_send], rule sound_if)
  show "sound True (kret r) (\<lambda>_. True) no_success" if "no_success r" for r using that by (rule sound_kret[rotated]) simp
  show "sound True (kbind (retry_op_cond H arg 6) (\<lambda>r. case r of Some resp \<Rightarrow> kret resp | None \<Rightarrow>
      kbind (kget sc_ocr) (\<lambda>ocr. if ocr AND R3_COMPLETE = 0 then kret SD_TIMEOUT
        else if ocr AND ACMD41_VOLTAGE = 0 then kret SD_ERROR_VOLTAGE else kret SD_OK))) (\<lambda>_. True) no_success"
    by (rule sound_kbind[OF sound_retry]) (auto split: option.split intro!: sound_kbind[OF sound_kget] sound_if sound_kret)
qed

lemma sound_fault: "mbox_fault e \<Longrightarrow> sound k (kfault e) k' R"
  by (simp add: sound_def kwp_kfault)

lemma sound_spin: "quiet c (\<lambda>_. True) \<Longrightarrow> sound k (spin_while n c) (\<lambda>_. k) (\<lambda>_. True)"
proof (induction n)
  case 0
  show ?case unfolding spin_while.simps by (rule sound_fault) (simp add: mbox_fault_def)
next
  case (Suc n)
  have "sound k (if x then spin_while n c else kret ()) (\<lambda>_. k) (\<lambda>_. True)" for x
    by (rule sound_if[OF Suc.IH[OF Suc.prems] sound_kret]) simp_all
  then show ?case unfolding spin_while.simps by (rule sound_kbind[OF sound_quiet[OF Suc.prems]])
qed

lemma sound_mbox_read: "sound k (mbox_read_loop H n chan) (\<lambda>_. k) (\<lambda>_. True)"
proof (induction n)
  case 0
  show ?case unfolding mbox_read_loop.simps by (rule sound_fault) (simp add: mbox_fault_def)
next
  case (Suc n)
  then show ?case unfolding mbox_read_loop.simps
    by (intro sound_kthen[of _ _ k] sound_spin sound_kbind[OF sound_load] sound_if) (auto intro: sound_kret)
qed

lemma sound_mbox_call: "sound k (mbox_call H buf) (\<lambda>_. k) (\<lambda>_. True)"
proof -
  have p: "sound k (panic m) (\<lambda>_. k) (\<lambda>_. True)" for m by (rule sound_fault) (simp add: mbox_fault_def)
  have w: "sound k (mbox_write H b c) (\<lambda>_. k) (\<lambda>_. True)" for b c
    unfolding mbox_write_def by (intro sound_if p sound_kthen[of _ _ k] sound_spin) (auto intro: sound_quiet)
  show ?thesis unfolding mbox_call_def mbox_read_def
    by (intro sound_if p sound_kthen[OF w] sound_kbind[OF sound_mbox_read] sound_kget)
qed

lemma sound_base_clock: "sound k (sdGetBaseClock H) (\<lambda>_. k) no_success"
  unfolding sdGetBaseClock_def mbox_get_clock_rate_def
  by (rule sound_kbind[of _ _ "\<lambda>_. k" "\<lambda>_. True"])
     (auto intro!: sound_kbind[OF sound_mbox_call] sound_kret sound_kthen[of _ _ k] sound_kmod sound_if)

lemma read_scr_step:
  "\<exists>a d x e. bits_set H EMMC_STATUS SR_READ_AVAILABLE s = Ok a (s\<lparr>dev := d\<rparr>) \<and> load H EMMC_DATA (s\<lparr>dev := d\<rparr>) = Ok x (s\<lparr>dev := e\<rparr>)"
proof -
  obtain a d where l: "bits_set H EMMC_STATUS SR_READ_AVAILABLE s = Ok a (s\<lparr>dev := d\<rparr>)"
    using quiet_bits(1)[of H EMMC_STATUS SR_READ_AVAILABLE] unfolding quiet_def by blast
  obtain x e where "load H EMMC_DATA (s\<lparr>dev := d\<rparr>) = Ok x (s\<lparr>dev := d, dev := e\<rparr>)"
    using quiet_load[of H EMMC_DATA] unfolding quiet_def by blast
  then show ?thesis using l by auto
qed

lemma read_scr_before: "before k s \<Longrightarrow> kwp (read_scr H n c) mbox_fault (\<lambda>_ s'. before k s') s"
proof (induction "(2 - n) + c" arbitrary: n c s rule: less_induct)
  case less
  obtain a d x e where l: "bits_set H EMMC_STATUS SR_READ_AVAILABLE s = Ok a (s\<lparr>dev := d\<rparr>)" "load H EMMC_DATA (s\<lparr>dev := d\<rparr>) = Ok x (s\<lparr>dev := e\<rparr>)"
    using read_scr_step[of H s] by blast
  let ?s1 = "s\<lparr>dev := e, sc_scr := (sc_scr s)[n := x]\<rparr>" and ?s2 = "s\<lparr>dev := hw_delayus H (1 * 3) d\<rparr>"
  consider "2 \<le> n" | "n < 2" a | "n < 2" "\<not> a" by linarith
  then show ?case
  proof cases
    case 1
    then show ?thesis using less.prems by (simp add: kwp_def read_scr.simps)
  next
    case 2
    then have "read_scr H n c s = read_scr H (Suc n) c ?s1" using l by (subst read_scr.simps) simp
    then show ?thesis using less.hyps[of "Suc n" c ?s1] less.prems 2 by (simp add: kwp_def)
  next
    case 3
    then have "read_scr H n c s = (if c \<le> 1 then Ok n ?s2 else read_scr H n (c - 1) ?s2)"
      using l by (subst read_scr.simps) (simp add: sd_delayus_def)
    then show ?thesis using less.hyps[of n "c - 1" ?s2] less.prems 3 by (auto simp: kwp_def)
  qed
qed

lemma sound_read_scr: "sound True (sdReadSCR H) (\<lambda>_. True) no_success"
proof -
  have words: "sound True (read_scr H 0 100000) (\<lambda>_. True) (\<lambda>_. True)" by (simp add: sound_def read_scr_before)
  have wait: "sound True (wait_for_interrupt H m) (\<lambda>_. True) no_success" for m
    by (rule sound_weaken[OF sound_quiet[OF quiet_wait_for_interrupt]]) (auto simp: no_success_def SD_CARD_CHANGED_def SD_CARD_REINSERTED_def)
  have cmd: "sound True (sdSendCommand H ix) (\<lambda>_. True) no_success" for ix
    by (rule sound_weaken[OF sound_send(1)]) auto
  show ?thesis unfolding sdReadSCR_def
    by (rule sound_kbind[OF sound_quiet[OF quiet_wait_for_data]], rule sound_if, rule sound_kret, simp, simp,
        rule sound_kthen[of _ _ True], rule sound_quiet, blast, rule sound_or_debug[OF cmd], simp,
        rule sound_or_debug[OF wait], simp, rule sound_kbind[OF words], rule sound_if)
       (auto intro!: sound_kret sound_kthen[of _ _ True] sound_kmod)
qed


text \<open>The whole sequence: success is the only way to \<open>sc_init \<noteq> 0\<close>.\<close>

definition outcome :: "u32 \<Rightarrow> 'd emmc \<Rightarrow> bool" where
  "outcome r s \<longleftrightarrow> r \<noteq> 0 \<and> (sc_init s \<noteq> 0 \<longleftrightarrow> r = SD_CARD_CHANGED \<or> r = SD_CARD_REINSERTED)"

definition ends :: "bool \<Rightarrow> ('d, u32) drv \<Rightarrow> bool" where
  "ends k m \<longleftrightarrow> (\<forall>s. before k s \<longrightarrow> kwp m mbox_fault outcome s)"

lemma ends_kbind: "sound k m k' R \<Longrightarrow> (\<And>a. R a \<Longrightarrow> ends (k' a) (f a)) \<Longrightarrow> ends k (kbind m f)"
  unfolding sound_def ends_def kwp_kbind by (blast intro: kwp_conseq)

lemma ends_kthen: "sound k m (\<lambda>_. k') (\<lambda>_. True) \<Longrightarrow> ends k' n \<Longrightarrow> ends k (kthen m n)"
  unfolding kthen_def by (rule ends_kbind)

lemma ends_fail: "no_success r \<Longrightarrow> r \<noteq> 0 \<Longrightarrow> ends k (kret r)"
  by (auto simp: ends_def kwp_kret outcome_def before_def no_success_def)

lemma ends_if: "(b \<Longrightarrow> ends k m) \<Longrightarrow> (\<not> b \<Longrightarrow> ends k n) \<Longrightarrow> ends k (if b then m else n)"
  by simp

lemma ends_or_fail: "sound k m k' no_success \<Longrightarrow> ends (k' 0) n \<Longrightarrow> ends k (or_fail m n)"
  unfolding or_fail_def by (rule ends_kbind[of k m k' no_success]) (auto intro: ends_fail)

lemma ends_or_debug: "sound True m (\<lambda>_. True) no_success \<Longrightarrow> ends True n \<Longrightarrow> ends True (or_debug m n)"
proof -
  have d: "ends True (sdDebugResponse r)" if "no_success r" "r \<noteq> 0" for r
    using that by (auto simp: ends_def sdDebugResponse_def kwp_kbind kwp_kget before_def kwp_kret outcome_def no_success_def split: option.split)
  show "sound True m (\<lambda>_. True) no_success \<Longrightarrow> ends True n \<Longrightarrow> ends True (or_debug m n)"
    unfolding or_debug_def by (rule ends_kbind[of True m "\<lambda>_. True" no_success]) (auto intro: d)
qed

lemma sound_cmd: "sound True (sdSendCommand H ix) (\<lambda>_. True) no_success" "sound True (sdSendCommandA H ix arg) (\<lambda>_. True) no_success"
  by (rule sound_weaken[OF sound_send(1)]; auto) (rule sound_weaken[OF sound_send(2)]; auto)

lemma ends_identify:
  assumes rest: "ends True rest"
  shows "ends False (sd_identify H rest)"
proof -
  have [simp]: "SD_BUSY \<noteq> 0" "SD_OK = 0" "SD_OK \<noteq> SD_BUSY" by (simp_all add: SD_BUSY_def SD_OK_def)
  have ifc: "sound False (sdSendCommandA H IX_SEND_IF_COND 0x1AA) (\<lambda>r. r \<noteq> SD_BUSY) no_success"
    by (rule sound_weaken[OF sound_send(2)]) (auto simp: IX_SEND_IF_COND_def IX_APP_CMD_START_def)
  have cond: "ends True (or_debug (sdAppSendOpCond H arg) (kthen (kmod f) rest))"
    if "\<And>s. before True (f s) = before True s" for arg f
    by (rule ends_or_debug[OF sound_op_cond ends_kthen[OF sound_kmod rest]]) (simp add: that)
  show ?thesis unfolding sd_identify_def
  proof (rule ends_kbind[OF ifc], rule ends_if)
    fix r assume r: "r = SD_OK"
    show "ends (r \<noteq> SD_BUSY) (kthen (delay H 50) (or_debug (sdAppSendOpCond H ACMD41_ARG_HC)
       (kthen (kmod (\<lambda>s. s\<lparr>sc_type := (if sc_ocr s AND R3_CCS \<noteq> 0 then SD_TYPE_2_HC else SD_TYPE_2_SC)\<rparr>)) rest)))"
      by (rule ends_kthen[OF sound_quiet[OF quiet_delay(1)]]) (use r in \<open>simp add: cond\<close>)
  next
    fix r assume r: "no_success r" "r \<noteq> SD_OK"
    show "ends (r \<noteq> SD_BUSY) (if r = SD_BUSY then kret r else kbind (bits_set H EMMC_STATUS SR_CMD_INHIBIT) (\<lambda>inh.
       or_fail (if inh then sdResetCard H C1_SRST_HC else kret 0)
       (or_debug (sdAppSendOpCond H ACMD41_ARG_SC) (kthen (kmod (\<lambda>s. s\<lparr>sc_type := SD_TYPE_1\<rparr>)) rest))))"
    proof (rule ends_if)
      show "ends (r \<noteq> SD_BUSY) (kret r)" by (rule ends_fail) (use r in auto)
    next
      assume b: "r \<noteq> SD_BUSY"
      have reset: "sound True (if inh then sdResetCard H C1_SRST_HC else kret 0) (\<lambda>r. r = 0) no_success" for inh
        by (rule sound_if) (auto intro: sound_kret sound_reset)
      show "ends (r \<noteq> SD_BUSY) (kbind (bits_set H EMMC_STATUS SR_CMD_INHIBIT) (\<lambda>inh. or_fail (if inh then sdResetCard H C1_SRST_HC else kret 0)
        (or_debug (sdAppSendOpCond H ACMD41_ARG_SC) (kthen (kmod (\<lambda>s. s\<lparr>sc_type := SD_TYPE_1\<rparr>)) rest))))"
        using b by (auto intro!: ends_kbind[OF sound_quiet[OF quiet_bits(1)]] ends_or_fail[OF reset] cond)
    qed
  qed
qed

lemma ends_bring_up: "ends True (sd_bring_up H old)"
proof -
  have width: "sound True (if b then or_fail (sdSendCommandA H IX_SET_BUS_WIDTH a) (kthen (set_bits H EMMC_CONTROL0 C0_HCTL_DWITDH) (kret 0))
      else kret 0) (\<lambda>_. True) no_success" for b a
    by (rule sound_if, rule sound_or_fail[OF sound_cmd(2)], simp, rule sound_kthen[of _ _ True], rule sound_quiet, blast) (auto intro: sound_kret)
  have fin: "ends True (kthen (kmod (\<lambda>s. s\<lparr>sc_init := 1\<rparr>))
     (kbind (kget sc_cid) (\<lambda>cid. kret (if old = cid then SD_CARD_REINSERTED else SD_CARD_CHANGED))))"
    by (auto simp: ends_def kwp_kthen kwp_kmod kwp_kbind kwp_kget kwp_kret outcome_def SD_CARD_CHANGED_def SD_CARD_REINSERTED_def)
  have parse: "sound True sdParseCSD (\<lambda>_. True) (\<lambda>_. True)"
    unfolding sdParseCSD_def by (rule sound_kmod) simp
  have volt: "sound True (if b then sdSwitchVoltage else kret 0) (\<lambda>_. True) no_success" for b
    by (auto simp: sdSwitchVoltage_def intro: sound_kret)
  have "ends True (or_debug (sdSetClock H FREQ_NORMAL) (or_debug (sdSendCommand H IX_CARD_SELECT) (or_debug (sdReadSCR H)
       (kbind (kget sc_support) (\<lambda>sp. kbind (kget sc_rca) (\<lambda>rca.
         or_debug (if sp AND SD_SUPP_BUS_WIDTH_4 \<noteq> 0 then
             or_fail (sdSendCommandA H IX_SET_BUS_WIDTH (rca OR 2)) (kthen (set_bits H EMMC_CONTROL0 C0_HCTL_DWITDH) (kret 0))
           else kret 0)
         (or_debug (sdSendCommandA H IX_SET_BLOCKLEN 512) (kthen (kmod (\<lambda>s. s\<lparr>sc_init := 1\<rparr>))
     (kbind (kget sc_cid) (\<lambda>cid. kret (if old = cid then SD_CARD_REINSERTED else SD_CARD_CHANGED)))))))))))"
    by (intro ends_or_debug[OF sound_set_clock] ends_or_debug[OF sound_cmd(1)] ends_or_debug[OF sound_read_scr]
        ends_kbind[OF sound_kget] ends_or_debug[OF width] ends_or_debug[OF sound_cmd(2)] fin)
  moreover have "ends True (kret SD_ERROR)" by (rule ends_fail) (simp, simp add: SD_ERROR_def)
  ultimately show ?thesis unfolding sd_bring_up_def
    by (intro ends_kbind[OF sound_kget] ends_or_fail[OF volt] ends_or_debug[OF sound_cmd(1)] ends_kthen[OF parse] ends_if)
qed

lemma sdInit_outcome:
  assumes "sc_init s = 0"
  shows "kwp (sdInit H) mbox_fault outcome s"
proof -
  have b: "before False s" using assms by (simp add: before_def)
  have ver: "sound False (kbind (load H EMMC_SLOTISR_VER) (\<lambda>v. kmod (\<lambda>s. s\<lparr>sdHostVer := drop_bit 16 (v AND HOST_SPEC_NUM)\<rparr>))) (\<lambda>_. False) (\<lambda>_. True)"
    by (rule sound_kbind[OF sound_load]) (rule sound_kmod, simp)
  have reset: "sound False (sdResetCard H C1_SRST_HC) (\<lambda>_. False) no_success" by (rule sound_weaken[OF sound_reset]) auto
  have start: "ends False (kthen (kbind (load H EMMC_SLOTISR_VER) (\<lambda>v. kmod (\<lambda>s. s\<lparr>sdHostVer := drop_bit 16 (v AND HOST_SPEC_NUM)\<rparr>)))
          (or_fail (sdGetBaseClock H) (or_fail (sdResetCard H C1_SRST_HC) (sd_identify H (sd_bring_up H old)))))" for old
    by (rule ends_kthen[OF ver ends_or_fail[OF sound_base_clock ends_or_fail[OF reset ends_identify[OF ends_bring_up]]]])
  have "ends False (kbind (bits_set H GPEDS1 (push_bit (47 - 32) 1)) (\<lambda>cardEjected. kthen (kmod (\<lambda>s. s\<lparr>sc_absent := 0\<rparr>))
      (kbind (kget sc_cid) (\<lambda>cid.
          kthen (kbind (load H EMMC_SLOTISR_VER) (\<lambda>v. kmod (\<lambda>s. s\<lparr>sdHostVer := drop_bit 16 (v AND HOST_SPEC_NUM)\<rparr>)))
          (or_fail (sdGetBaseClock H) (or_fail (sdResetCard H C1_SRST_HC) (sd_identify H (sd_bring_up H (replicate 4 0)))))))))"
    by (rule ends_kbind[OF sound_quiet[OF quiet_bits(1)]], rule ends_kthen[OF sound_kmod], simp, rule ends_kbind[OF sound_kget], rule start)
  then have "ends False (kthen (sdInitGPIO H) (kbind (bits_set H GPEDS1 (push_bit (47 - 32) 1)) (\<lambda>cardEjected. kthen (kmod (\<lambda>s. s\<lparr>sc_absent := 0\<rparr>))
      (kbind (kget sc_cid) (\<lambda>cid.
          kthen (kbind (load H EMMC_SLOTISR_VER) (\<lambda>v. kmod (\<lambda>s. s\<lparr>sdHostVer := drop_bit 16 (v AND HOST_SPEC_NUM)\<rparr>)))
          (or_fail (sdGetBaseClock H) (or_fail (sdResetCard H C1_SRST_HC) (sd_identify H (sd_bring_up H (replicate 4 0))))))))))"
    by (rule ends_kthen[OF sound_quiet[OF quiet_gpio]])
  moreover have "sdInit H s = kthen (sdInitGPIO H) (kbind (bits_set H GPEDS1 (push_bit (47 - 32) 1)) (\<lambda>cardEjected. kthen (kmod (\<lambda>s. s\<lparr>sc_absent := 0\<rparr>))
      (kbind (kget sc_cid) (\<lambda>cid.
          kthen (kbind (load H EMMC_SLOTISR_VER) (\<lambda>v. kmod (\<lambda>s. s\<lparr>sdHostVer := drop_bit 16 (v AND HOST_SPEC_NUM)\<rparr>)))
          (or_fail (sdGetBaseClock H) (or_fail (sdResetCard H C1_SRST_HC) (sd_identify H (sd_bring_up H (replicate 4 0))))))))) s"
    using assms by (simp add: sdInit_def Let_def kthen_def kbind_def[of "kret ()"])
  ultimately show ?thesis using b by (simp add: ends_def kwp_def)
qed



section \<open>The clock\<close>

text \<open>One step of \<open>fls_long\<close>: the value is the argument, shifted so that its highest bit moves towards bit 31.\<close>

lemma top_bits:
  assumes "unat (y :: u64) < 2 ^ 32" "k \<le> 32"
  shows "y AND push_bit (32 - k) (mask k) = 0 \<longleftrightarrow> unat y < 2 ^ (32 - k)"
proof -
  have hi: "\<not> bit y n" if "32 \<le> n" for n using assms(1) that lt_bits[of y 32] by blast
  have "y AND push_bit (32 - k) (mask k) = 0 \<longleftrightarrow> (\<forall>n\<ge>32 - k. \<not> bit y n)"
  proof
    assume z: "y AND push_bit (32 - k) (mask k) = 0"
    show "\<forall>n\<ge>32 - k. \<not> bit y n"
    proof (intro allI impI)
      fix n assume n: "32 - k \<le> n"
      have "bit (y AND push_bit (32 - k) (mask k)) n \<longleftrightarrow> bit (0 :: u64) n" unfolding z ..
      then show "\<not> bit y n" using n hi[of n] bit_imp_le_length[of y n] assms(2)
        by (cases "n < 32") (auto simp: bit_and_iff bit_push_bit_iff bit_mask_iff)
    qed
  next
    assume h: "\<forall>n\<ge>32 - k. \<not> bit y n"
    show "y AND push_bit (32 - k) (mask k) = 0"
      by (rule bit_word_eqI) (use h in \<open>auto simp: bit_and_iff bit_push_bit_iff\<close>)
  qed
  then show ?thesis unfolding lt_bits .
qed

lemma fls_step:
  assumes y: "unat (y :: u64) = X * 2 ^ (32 - q)" "unat y < 2 ^ 32" "2 ^ lo \<le> unat y" "32 - k \<le> lo + k" "k \<le> q" "q \<le> 32" "lo < 32"
    and m: "m = push_bit (32 - k) (mask k)"
    and r: "(y', r') = (if y AND m = 0 then (push_bit k y, int q - int k) else (y, int q))"
  obtains q' where "r' = int q'" "q' \<le> 32" "q - k \<le> q'" "unat y' = X * 2 ^ (32 - q')" "unat y' < 2 ^ 32" "2 ^ (32 - k) \<le> unat y'"
proof (cases "y AND m = 0")
  case True
  then have lt: "unat y < 2 ^ (32 - k)" using top_bits[OF y(2), of k] m y(5,6) by simp
  have "unat y * 2 ^ k < 2 ^ (32 - k) * 2 ^ k" using lt by simp
  also have "\<dots> = 2 ^ 32" using y(5,6) by (simp add: power_add[symmetric])
  finally have l32: "unat y * 2 ^ k < 2 ^ 32" .
  have y': "y' = push_bit k y" "r' = int (q - k)" using r True y(5) by auto
  have l64: "unat y * 2 ^ k < 2 ^ LENGTH(64)" using l32 by simp
  have "unat y' = take_bit LENGTH(64) (unat y * 2 ^ k)" unfolding y' unsigned_push_bit_eq by (simp add: push_bit_eq_mult)
  then have u: "unat y' = unat y * 2 ^ k" using take_bit_nat_eq_self[OF l64] by simp
  have "2 ^ (32 - k) \<le> (2 :: nat) ^ (lo + k)" using y(4) by (intro power_increasing) auto
  also have "\<dots> \<le> unat y * 2 ^ k" using y(3) by (simp add: power_add)
  finally have "2 ^ (32 - k) \<le> unat y'" unfolding u .
  moreover have "(2 :: nat) ^ (32 - q) * 2 ^ k = 2 ^ (32 - (q - k))" using y(5,6) by (simp add: power_add[symmetric])
  then have "unat y' = X * 2 ^ (32 - (q - k))" unfolding u y(1) by (simp add: mult.assoc)
  ultimately show ?thesis using that[of "q - k"] y' l32 u y(6) by simp
next
  case False
  then have "\<not> unat y < 2 ^ (32 - k)" using top_bits[OF y(2), of k] m y(5,6) by simp
  then show ?thesis using that[of q] r False y by simp
qed


lemma fls_long_bits:
  assumes x: "x \<noteq> 0" "unat x < 2 ^ 32"
  obtains r where "fls_long x = int r" "0 < r" "r \<le> 32" "2 ^ (r - 1) \<le> unat x" "unat x < 2 ^ r"
proof -
  let ?x = "unat x"
  have pos: "0 < ?x" using x(1) by (simp add: unat_gt_0)
  have masks: "(0xffff0000 :: u64) = push_bit (32 - 16) (mask 16)" "(0xff000000 :: u64) = push_bit (32 - 8) (mask 8)"
    "(0xf0000000 :: u64) = push_bit (32 - 4) (mask 4)" "(0xc0000000 :: u64) = push_bit (32 - 2) (mask 2)" "(0x80000000 :: u64) = push_bit (32 - 1) (mask 1)"
    by (simp_all add: mask_eq_decr_exp)
  obtain y1 r1 where s1: "(y1, r1) = (if x AND 0xffff0000 = 0 then (push_bit 16 x, 32 - 16) else (x, 32 :: int))" by (metis surj_pair)
  obtain q1 where 1: "r1 = int q1" "q1 \<le> 32" "32 - 16 \<le> q1" "unat y1 = ?x * 2 ^ (32 - q1)" "unat y1 < 2 ^ 32" "2 ^ (32 - 16) \<le> unat y1"
    by (rule fls_step[of x ?x 32 0 16 _ y1 r1]) (use x pos masks(1) s1 in auto)
  obtain y2 r2 where s2: "(y2, r2) = (if y1 AND 0xff000000 = 0 then (push_bit 8 y1, r1 - 8) else (y1, r1))" by (metis surj_pair)
  obtain q2 where 2: "r2 = int q2" "q2 \<le> 32" "q1 - 8 \<le> q2" "unat y2 = ?x * 2 ^ (32 - q2)" "unat y2 < 2 ^ 32" "2 ^ (32 - 8) \<le> unat y2"
    by (rule fls_step[of y1 ?x q1 16 8 _ y2 r2]) (use 1 masks(2) s2 in auto)
  have q2: "8 \<le> q2" using 1(3) 2(3) by simp
  obtain y3 r3 where s3: "(y3, r3) = (if y2 AND 0xf0000000 = 0 then (push_bit 4 y2, r2 - 4) else (y2, r2))" by (metis surj_pair)
  obtain q3 where 3: "r3 = int q3" "q3 \<le> 32" "q2 - 4 \<le> q3" "unat y3 = ?x * 2 ^ (32 - q3)" "unat y3 < 2 ^ 32" "2 ^ (32 - 4) \<le> unat y3"
    by (rule fls_step[of y2 ?x q2 24 4 _ y3 r3]) (use 2 q2 masks(3) s3 in auto)
  have q3: "4 \<le> q3" using q2 3(3) by simp
  obtain y4 r4 where s4: "(y4, r4) = (if y3 AND 0xc0000000 = 0 then (push_bit 2 y3, r3 - 2) else (y3, r3))" by (metis surj_pair)
  obtain q4 where 4: "r4 = int q4" "q4 \<le> 32" "q3 - 2 \<le> q4" "unat y4 = ?x * 2 ^ (32 - q4)" "unat y4 < 2 ^ 32" "2 ^ (32 - 2) \<le> unat y4"
    by (rule fls_step[of y3 ?x q3 28 2 _ y4 r4]) (use 3 q3 masks(4) s4 in auto)
  have q4: "2 \<le> q4" using q3 4(3) by simp
  obtain y5 r5 where s5: "(y5, r5) = (if y4 AND 0x80000000 = 0 then (push_bit 1 y4, r4 - 1) else (y4, r4))" by (metis surj_pair)
  obtain q5 where 5: "r5 = int q5" "q5 \<le> 32" "q4 - 1 \<le> q5" "unat y5 = ?x * 2 ^ (32 - q5)" "unat y5 < 2 ^ 32" "2 ^ (32 - 1) \<le> unat y5"
    by (rule fls_step[of y4 ?x q4 30 1 _ y5 r5]) (use 4 q4 masks(5) s5 in auto)
  have "fls_long x = (case (if x AND 0xffff0000 = 0 then (push_bit 16 x, 32 - 16) else (x, 32 :: int)) of (x, r) \<Rightarrow>
      case (if x AND 0xff000000 = 0 then (push_bit 8 x, r - 8) else (x, r)) of (x, r) \<Rightarrow>
      case (if x AND 0xf0000000 = 0 then (push_bit 4 x, r - 4) else (x, r)) of (x, r) \<Rightarrow>
      case (if x AND 0xc0000000 = 0 then (push_bit 2 x, r - 2) else (x, r)) of (x, r) \<Rightarrow>
      if x AND 0x80000000 = 0 then r - 1 else r)" using x(1) by (simp only: fls_long_def if_False Let_def)
  then have f: "fls_long x = int q5" unfolding s1[symmetric] prod.case s2[symmetric] s3[symmetric] s4[symmetric]
    using s5 5(1) by (auto split: if_splits)
  have p: "?x * 2 ^ (32 - q5) < 2 ^ q5 * 2 ^ (32 - q5)" "2 ^ 31 \<le> ?x * 2 ^ (32 - q5)"
    using 5(2,4-6) by (simp_all add: power_add[symmetric])
  have lt: "?x < 2 ^ q5" using p(1) by simp
  then have q: "0 < q5" using pos by (cases q5) auto
  have "2 ^ (q5 - 1) * 2 ^ (32 - q5) \<le> ?x * 2 ^ (32 - q5)" using p(2) q 5(2) by (simp add: power_add[symmetric])
  then have "2 ^ (q5 - 1) \<le> ?x" by simp
  then show ?thesis using that f q 5(2) lt by blast
qed


text \<open>The divider: its field is the only part of the register that changes, and with a version 2 host it is the power of two next to the quotient.\<close>

lemma clock_field: "sdGetClockDivider v f AND 0xffff003f = 0"
proof -
  have f: "(push_bit 8 (d AND 0x0ff) + (if b then drop_bit 2 (d AND 0x300) else 0)) AND 0xffff003f = 0" for d :: u32 and b
  proof -
    have m: "(0x0ff :: u32) = mask 8" "(0x300 :: u32) = push_bit 8 (mask 2)" by (simp_all add: mask_eq_decr_exp)
    let ?hi = "if b then drop_bit 2 (d AND 0x300) else 0"
    have hi: "bit ?hi n \<Longrightarrow> n = 6 \<or> n = 7" for n unfolding m
      by (cases b) (auto simp: bit_drop_bit_eq bit_and_iff bit_push_bit_iff bit_mask_iff)
    have lo: "bit (push_bit 8 (d AND 0x0ff)) n \<Longrightarrow> 8 \<le> n \<and> n < 16" for n unfolding m
      by (auto simp: bit_and_iff bit_push_bit_iff bit_mask_iff)
    have s: "push_bit 8 (d AND 0x0ff) + ?hi = push_bit 8 (d AND 0x0ff) OR ?hi"
      by (rule disjunctive_add) (use hi lo in fastforce)
    have k: "(0xffff003f :: u32) = push_bit 16 (mask 16) OR mask 6" by (simp add: mask_eq_decr_exp)
    show ?thesis unfolding s k
    proof (rule bit_word_eqI)
      fix n show "bit ((push_bit 8 (d AND 0x0ff) OR ?hi) AND (push_bit 16 (mask 16) OR mask 6)) n = bit (0 :: u32) n"
        using hi[of n] lo[of n] unfolding bit_and_iff bit_or_iff by (auto simp: bit_push_bit_iff bit_mask_iff)
    qed
  qed
  show ?thesis unfolding sdGetClockDivider_def Let_def using f by simp
qed

lemma clock_power:
  assumes v: "v \<le> HOST_SPEC_V2" and c: "c = 41666666 div f" "0 < c"
  shows "\<exists>k. 1 \<le> k \<and> k \<le> 7 \<and> sdGetClockDivider v f = push_bit 8 (2 ^ k) \<and> (k = 7 \<or> unat c \<le> 2 * 2 ^ k) \<and> (k = 1 \<or> 2 ^ k < unat c)"
proof -
  define x :: u64 where "x = ucast (c - 1)"
  have cu: "unat (c - 1) = unat c - 1" using c(2) by (simp add: unat_minus_one word_neq_0_conv)
  have c32: "unat c < 2 ^ LENGTH(32)" by (rule unsigned_less)
  then have "unat c - 1 < 2 ^ LENGTH(64)" by simp
  from take_bit_nat_eq_self[OF this] have xu: "unat x = unat c - 1" by (simp add: x_def unsigned_ucast_eq cu)
  have pos: "0 < unat c" using c(2) by (simp add: unat_gt_0 word_neq_0_conv)
  define s where "s = (let s = fls_long x; s = (if s > 0 then s - 1 else s) in if s > 7 then 7 else s)"
  have d: "sdGetClockDivider v f = (let d = (if push_bit (nat s) 1 \<le> (2 :: u32) then 2 else push_bit (nat s) 1) in push_bit 8 (d AND 0x0ff))"
    unfolding sdGetClockDivider_def c(1)[symmetric] s_def x_def using leD[OF v] by (simp add: Let_def)
  have "unat c - 1 < 2 ^ 32" using c32 by simp
  then have cases: "unat x = 0 \<or> (\<exists>r. fls_long x = int r \<and> 0 < r \<and> 2 ^ (r - 1) \<le> unat x \<and> unat x < 2 ^ r)"
    using fls_long_bits[of x] xu by (cases "x = 0") auto
  obtain k where k: "nat s = k" "k \<le> 7" "k = 7 \<or> unat c \<le> 2 * 2 ^ k" "k \<le> 1 \<or> 2 ^ k < unat c"
  proof (cases "unat x = 0")
    case True
    then have "x = 0" by (simp add: unat_eq_0)
    then have "s = 0" by (simp add: s_def fls_long_def)
    then show ?thesis using that[of 0] True xu by simp
  next
    case False
    then obtain r where r: "fls_long x = int r" "0 < r" "2 ^ (r - 1) \<le> unat x" "unat x < 2 ^ r" using cases by (elim disjE exE conjE) simp_all
    have s: "s = int (min 7 (r - 1))" using r(1,2) by (auto simp: s_def Let_def)
    show ?thesis
    proof (cases "r - 1 \<le> 7")
      case True
      have "unat c \<le> 2 ^ r" using r(4) xu pos by linarith
      also have "(2 :: nat) ^ r = 2 * 2 ^ (r - 1)" using r(2) by (simp flip: power_Suc)
      finally have "unat c \<le> 2 * 2 ^ (r - 1)" .
      moreover have "2 ^ (r - 1) < unat c" using r(3) xu pos by linarith
      ultimately show ?thesis using that[of "r - 1"] s True by simp
    next
      case False
      have "(2 :: nat) ^ 7 \<le> 2 ^ (r - 1)" using False by (intro power_increasing) auto
      then have "2 ^ 7 < unat c" using r(3) xu pos by linarith
      then show ?thesis using that[of 7] s False by simp
    qed
  qed
  have "k \<in> {0, 1, 2, 3, 4, 5, 6, 7}" using k(2) by auto
  then show ?thesis using d k by (intro exI[of _ "max k 1"]) (auto simp: Let_def)
qed


section \<open>Waiting for an interrupt\<close>

text \<open>
  A device whose interrupt register \<open>reg\<close> has settled: reading it and waiting do not change it, and writing a bit to it
  clears the bit. On such a device the polling loop is the step of \<open>Sd_Queue\<close>.
\<close>

definition settled :: "'d hw \<Rightarrow> ('d \<Rightarrow> u32) \<Rightarrow> bool" where
  "settled H reg \<longleftrightarrow>
     (\<forall>d. fst (hw_load H EMMC_INTERRUPT d) = reg d \<and> reg (snd (hw_load H EMMC_INTERRUPT d)) = reg d) \<and>
     (\<forall>n d. reg (hw_delayus H n d) = reg d) \<and>
     (\<forall>x d. reg (hw_store H EMMC_INTERRUPT x d) = reg d AND NOT x)"

lemma settled_load:
  assumes "settled H reg"
  obtains d where "load H EMMC_INTERRUPT s = Ok (reg (dev s)) (s\<lparr>dev := d\<rparr>)" "reg d = reg (dev s)"
proof -
  obtain x d where "hw_load H EMMC_INTERRUPT (dev s) = (x, d)" by fastforce
  moreover have "fst (hw_load H EMMC_INTERRUPT (dev s)) = reg (dev s)" "reg (snd (hw_load H EMMC_INTERRUPT (dev s))) = reg (dev s)"
    using assms unfolding settled_def by blast+
  ultimately show ?thesis using that[of d] by (simp add: load_def)
qed

lemma settled_poll:
  assumes "settled H reg"
  obtains d where "reg d = reg (dev s)"
    "poll (bits_clear H EMMC_INTERRUPT m) (sd_delayus H 1) n s =
       Ok (if reg (dev s) AND m = 0 then -1 else int n) (s\<lparr>dev := d\<rparr>)"
proof (induction n arbitrary: s thesis)
  case 0
  obtain d where d: "load H EMMC_INTERRUPT s = Ok (reg (dev s)) (s\<lparr>dev := d\<rparr>)" "reg d = reg (dev s)" using settled_load[OF assms] .
  show ?case using 0[of d] d by (simp add: bits_clear_def kop_defs)
next
  case (Suc n)
  obtain d where d: "load H EMMC_INTERRUPT s = Ok (reg (dev s)) (s\<lparr>dev := d\<rparr>)" "reg d = reg (dev s)" using settled_load[OF assms] .
  show ?case
  proof (cases "reg (dev s) AND m = 0")
    case True
    let ?e = "hw_delayus H (1 * 3) d"
    have e: "reg ?e = reg d" using assms unfolding settled_def by blast
    obtain d' where d': "reg d' = reg ?e"
      "poll (bits_clear H EMMC_INTERRUPT m) (sd_delayus H 1) n (s\<lparr>dev := ?e\<rparr>) = Ok (if reg ?e AND m = 0 then -1 else int n) (s\<lparr>dev := ?e, dev := d'\<rparr>)"
      using Suc.IH[of "s\<lparr>dev := ?e\<rparr>"] by auto
    have "poll (bits_clear H EMMC_INTERRUPT m) (sd_delayus H 1) (Suc n) s = poll (bits_clear H EMMC_INTERRUPT m) (sd_delayus H 1) n (s\<lparr>dev := ?e\<rparr>)"
      using d(1) True by (simp add: bits_clear_def kop_defs sd_delayus_def)
    then show ?thesis using Suc.prems[of d'] d' e d(2) True by simp
  next
    case False
    then show ?thesis using Suc.prems[of d] d by (simp add: bits_clear_def kop_defs)
  qed
qed

lemma wait_for_settled:
  assumes h: "settled H reg" and t: "emmc_int t = reg (dev s)"
  shows "\<exists>r d. wait_for_interrupt H m s = Ok r (s\<lparr>dev := d\<rparr>) \<and> sdWaitForInterrupt m t = Ok r (t\<lparr>emmc_int := reg d\<rparr>)"
proof -
  let ?v = "reg (dev s)"
  obtain d where d: "reg d = ?v" "poll (bits_clear H EMMC_INTERRUPT (m OR INT_ERROR_MASK)) (sd_delayus H 1) 1000000 s =
       Ok (if ?v AND (m OR INT_ERROR_MASK) = 0 then -1 else int 1000000) (s\<lparr>dev := d\<rparr>)" using settled_poll[OF h] .
  obtain e where e: "load H EMMC_INTERRUPT (s\<lparr>dev := d\<rparr>) = Ok ?v (s\<lparr>dev := e\<rparr>)" "reg e = ?v"
    using settled_load[OF h, of "s\<lparr>dev := d\<rparr>"] d(1) by auto
  have w: "reg (hw_store H EMMC_INTERRUPT x e) = ?v AND NOT x" for x using h e(2) unfolding settled_def by auto
  let ?x = "if ?v AND (m OR INT_ERROR_MASK) = 0 \<or> ?v AND INT_CMD_TIMEOUT \<noteq> 0 \<or> ?v AND INT_DATA_TIMEOUT \<noteq> 0 \<or> ?v AND INT_ERROR_MASK \<noteq> 0 then ?v else m"
  let ?r = "if ?v AND (m OR INT_ERROR_MASK) = 0 \<or> ?v AND INT_CMD_TIMEOUT \<noteq> 0 \<or> ?v AND INT_DATA_TIMEOUT \<noteq> 0 then 2 else if ?v AND INT_ERROR_MASK \<noteq> 0 then 1 else 0 :: u32"
  have "wait_for_interrupt H m s = Ok ?r (s\<lparr>dev := hw_store H EMMC_INTERRUPT ?x e\<rparr>)"
    unfolding wait_for_interrupt_def kbind_def[of "poll _ _ _"] d(2) outcome.case
    by (simp add: kbind_def[of "load _ _"] e(1) kop_defs store_def SD_TIMEOUT_def SD_ERROR_def SD_OK_def)
  moreover have "sdWaitForInterrupt m t = Ok ?r (t\<lparr>emmc_int := ?v AND NOT ?x\<rparr>)"
    by (simp add: sdWaitForInterrupt_def kop_defs t)
  ultimately show ?thesis using w by metis
qed

end
