(* ===== verification/Sd_Csd.thy ===== *)
theory Sd_Csd
  imports Sd_Host
begin

text \<open>
  The capacity of the card against the layout of its CSD register: the masks and shifts of \<^verbatim>\<open>sdParseCSD\<close>
  (\<^verbatim>\<open>kern/sd.c\<close>) select the fields that the layout names, and its arithmetic does not overflow.
\<close>

text \<open>
  The register has 128 bits, of which the host keeps the upper 120, in four words with the highest first;
  \<open>csd_field hi lo\<close> is the field of the bits \<open>hi\<close> down to \<open>lo\<close> of the whole register.
\<close>

definition csd_register :: "u32 list \<Rightarrow> nat" where
  "csd_register csd = ((unat (csd ! 0) * 2 ^ 32 + unat (csd ! 1)) * 2 ^ 32 + unat (csd ! 2)) * 2 ^ 32 + unat (csd ! 3)"

definition csd_field :: "nat \<Rightarrow> nat \<Rightarrow> u32 list \<Rightarrow> nat" where
  "csd_field hi lo csd = csd_register csd div 2 ^ (lo - 8) mod 2 ^ (hi - lo + 1)"

lemma unat_field:
  assumes "k + n \<le> 32" "m = push_bit k (mask n)"
  shows "unat (drop_bit k ((w :: u32) AND m)) = unat w div 2 ^ k mod 2 ^ n"
proof -
  have "drop_bit k (w AND m) = take_bit n (drop_bit k w)" unfolding assms(2)
    by (rule bit_word_eqI) (use assms(1) in \<open>auto simp: bit_drop_bit_eq bit_and_iff bit_push_bit_iff bit_mask_iff bit_take_bit_iff dest: bit_imp_le_length\<close>)
  then show ?thesis by (simp add: unsigned_take_bit_eq unat_drop_bit_eq flip: take_bit_eq_mod drop_bit_eq_div)
qed

lemma low_word: "k + n \<le> 32 \<Longrightarrow> (a * 2 ^ 32 + b) div 2 ^ k mod 2 ^ n = b div 2 ^ k mod (2 ^ n :: nat)"
proof -
  assume k: "k + n \<le> 32"
  then obtain j where j: "32 = k + n + j" by (metis le_Suc_ex)
  have e: "a * 2 ^ 32 + b = b + 2 ^ k * (2 ^ n * (2 ^ j * a))" unfolding j by (simp only: power_add) simp
  have d: "(b + 2 ^ k * c) div 2 ^ k = c + b div 2 ^ k" for c :: nat by simp
  show ?thesis unfolding e d by simp
qed

lemma next_word: "(a * 2 ^ 32 + unat (b :: u32)) div 2 ^ (32 + k) = a div 2 ^ k"
proof -
  have "unat b < 2 ^ LENGTH(32)" by (rule unsigned_less)
  then have "(a * 2 ^ 32 + unat b) div 2 ^ 32 = a" by simp
  then show ?thesis by (simp only: power_add div_mult2_eq)
qed

lemma csd_fields:
  "csd_field 127 126 csd = unat (drop_bit 22 (csd ! 0 AND CSD0_VERSION))"
  "csd_field 83 80 csd = unat (drop_bit 8 (csd ! 1 AND CSD1VN_READ_BL_LEN))"
  "csd_field 49 47 csd = unat (drop_bit 7 (csd ! 2 AND CSD2V1_C_SIZE_MULT))"
  "csd_field 69 48 csd = unat (drop_bit 8 (csd ! 2 AND CSD2V2_C_SIZE))"
  "csd_field 73 62 csd = unat (csd ! 1 AND CSD1V1_C_SIZEH) * 2 ^ 10 + unat (drop_bit 22 (csd ! 2 AND CSD2V1_C_SIZEL))"
proof -
  have m: "CSD0_VERSION = push_bit 22 (mask 2)" "CSD1VN_READ_BL_LEN = push_bit 8 (mask 4)" "CSD2V1_C_SIZE_MULT = push_bit 7 (mask 3)"
    "CSD2V2_C_SIZE = push_bit 8 (mask 22)" "CSD2V1_C_SIZEL = push_bit 22 (mask 10)" "CSD1V1_C_SIZEH = push_bit 0 (mask 2)"
    by (simp_all add: CSD0_VERSION_def CSD1VN_READ_BL_LEN_def CSD2V1_C_SIZE_MULT_def CSD2V2_C_SIZE_def CSD2V1_C_SIZEL_def
        CSD1V1_C_SIZEH_def mask_eq_decr_exp)
  let ?a = "unat (csd ! 0)" let ?ab = "?a * 2 ^ 32 + unat (csd ! 1)" let ?abc = "?ab * 2 ^ 32 + unat (csd ! 2)"
  have w: "csd_register csd div 2 ^ (32 + k) = ?abc div 2 ^ k" "csd_register csd div 2 ^ (64 + k) = ?ab div 2 ^ k"
    "csd_register csd div 2 ^ (96 + k) = ?a div 2 ^ k" for k
    unfolding csd_register_def using next_word[of ?abc "csd ! 3" k] next_word[of ?abc "csd ! 3" "32 + k"] next_word[of ?abc "csd ! 3" "64 + k"]
      next_word[of ?ab "csd ! 2" k] next_word[of ?ab "csd ! 2" "32 + k"] next_word[of ?a "csd ! 1" k] by (simp_all only: add.assoc[symmetric]) simp_all
  show "csd_field 127 126 csd = unat (drop_bit 22 (csd ! 0 AND CSD0_VERSION))"
    using w(3)[of 22] unat_field[OF _ m(1), of "csd ! 0"] by (simp add: csd_field_def)
  show "csd_field 83 80 csd = unat (drop_bit 8 (csd ! 1 AND CSD1VN_READ_BL_LEN))"
    using w(2)[of 8] unat_field[OF _ m(2), of "csd ! 1"] low_word[of 8 4 ?a "unat (csd ! 1)"] by (simp add: csd_field_def)
  show "csd_field 49 47 csd = unat (drop_bit 7 (csd ! 2 AND CSD2V1_C_SIZE_MULT))"
    using w(1)[of 7] unat_field[OF _ m(3), of "csd ! 2"] low_word[of 7 3 ?ab "unat (csd ! 2)"] by (simp add: csd_field_def)
  show "csd_field 69 48 csd = unat (drop_bit 8 (csd ! 2 AND CSD2V2_C_SIZE))"
    using w(1)[of 8] unat_field[OF _ m(4), of "csd ! 2"] low_word[of 8 22 ?ab "unat (csd ! 2)"] by (simp add: csd_field_def)
  have c: "unat (csd ! 2) < 2 ^ LENGTH(32)" by (rule unsigned_less)
  have "csd_field 73 62 csd = ?abc div 2 ^ 22 mod 2 ^ 12" using w(1)[of 22] by (simp add: csd_field_def)
  also have "?abc div 2 ^ 22 = ?ab * 2 ^ 10 + unat (csd ! 2) div 2 ^ 22" by simp
  also have "\<dots> mod 2 ^ 12 = (unat (csd ! 1) mod 2 ^ 2) * 2 ^ 10 + unat (csd ! 2) div 2 ^ 22"
  proof -
    have e: "unat (csd ! 2) div 2 ^ 22 < 2 ^ 10" using c by (simp add: less_mult_imp_div_less)
    have "(?ab * 2 ^ 10 + unat (csd ! 2) div 2 ^ 22) mod (2 ^ 10 * 2 ^ 2) =
        2 ^ 10 * ((?ab * 2 ^ 10 + unat (csd ! 2) div 2 ^ 22) div 2 ^ 10 mod 2 ^ 2) + (?ab * 2 ^ 10 + unat (csd ! 2) div 2 ^ 22) mod 2 ^ 10"
      by (rule mod_mult2_eq)
    also have "(?ab * 2 ^ 10 + unat (csd ! 2) div 2 ^ 22) div 2 ^ 10 = ?ab" using e by simp
    also have "(?ab * 2 ^ 10 + unat (csd ! 2) div 2 ^ 22) mod 2 ^ 10 = unat (csd ! 2) div 2 ^ 22"
      unfolding mod_mult_self3 using e by (rule mod_less)
    also have "?ab mod 2 ^ 2 = unat (csd ! 1) mod 2 ^ 2" using low_word[of 0 2 ?a "unat (csd ! 1)"] by simp
    finally show ?thesis by simp
  qed
  also have "unat (csd ! 2) div 2 ^ 22 = unat (drop_bit 22 (csd ! 2 AND CSD2V1_C_SIZEL))"
    using unat_field[OF _ m(5), of "csd ! 2"] c by (simp add: less_mult_imp_div_less)
  also have "unat (csd ! 1) mod 2 ^ 2 = unat (csd ! 1 AND CSD1V1_C_SIZEH)" using unat_field[OF _ m(6), of "csd ! 1"] by simp
  finally show "csd_field 73 62 csd = unat (csd ! 1 AND CSD1V1_C_SIZEH) * 2 ^ 10 + unat (drop_bit 22 (csd ! 2 AND CSD2V1_C_SIZEL))" .
qed

text \<open>The capacity in bytes, by the fields: version 1 has a size, a multiplier and a block length, version 2 counts units of 512 KB.\<close>

definition csd_bytes :: "u32 list \<Rightarrow> nat" where
  "csd_bytes csd =
     (if csd_field 127 126 csd = 0 then (csd_field 73 62 csd + 1) * 2 ^ (csd_field 49 47 csd + 2) * 2 ^ csd_field 83 80 csd
      else (csd_field 69 48 csd + 1) * 2 ^ 19)"

lemma csd_field_less: "csd_field hi lo csd < 2 ^ (hi - lo + 1)"
  by (simp add: csd_field_def)

lemma scast_small:
  assumes "unat (x :: u32) < 2 ^ 31"
  shows "(scast x :: u64) = of_nat (unat x)"
proof -
  have "\<not> bit (unat x) 31" using assms by (simp add: bit_iff_odd)
  then have "\<not> bit x 31" by (simp add: bit_unsigned_iff)
  moreover have "int (unat x) < int (2 ^ 31)" using assms by (rule of_nat_less_iff[THEN iffD2])
  then have "take_bit 31 (int (unat x)) = int (unat x)" by (intro take_bit_int_eq_self) simp_all
  then have "take_bit 31 (uint x) = uint x" by (metis of_nat_unat)
  ultimately have "sint x = uint x" by (simp add: sint_uint signed_take_bit_eq_if_positive bit_uint_iff)
  then show ?thesis by (metis of_int_sint word_of_int_uint of_nat_unat scast_eq ucast_eq)
qed

lemma unat_power:
  assumes "n < 32"
  shows "unat (push_bit n (1 :: u32)) = 2 ^ n"
proof -
  have "(2 :: nat) ^ n < 2 ^ LENGTH(32)" using power_strict_increasing[OF assms, of "2 :: nat"] by simp
  from take_bit_nat_eq_self[OF this] show ?thesis unfolding unsigned_push_bit_eq by (simp add: push_bit_eq_mult)
qed

lemma unat_sum: "unat x + unat y < 2 ^ 32 \<Longrightarrow> unat (x + y :: u32) = unat x + unat y"
  using unat_add_lem[of x y] by simp

lemma unat_shift: "unat (x :: u32) * 2 ^ n < 2 ^ 32 \<Longrightarrow> unat (push_bit n x) = unat x * 2 ^ n"
  unfolding unsigned_push_bit_eq using take_bit_nat_eq_self[of "unat x * 2 ^ n" "LENGTH(32)"] by (simp add: push_bit_eq_mult)

lemma csd_version: "csd ! 0 AND CSD0_VERSION = CSD0_V1 \<longleftrightarrow> csd_field 127 126 csd = 0"
proof -
  have m: "CSD0_VERSION = push_bit 22 (mask 2)" by (simp add: CSD0_VERSION_def mask_eq_decr_exp)
  have "csd ! 0 AND CSD0_VERSION = push_bit 22 (drop_bit 22 (csd ! 0 AND CSD0_VERSION))" unfolding m
    by (rule bit_word_eqI) (auto simp: bit_push_bit_iff bit_drop_bit_eq bit_and_iff)
  then have "csd ! 0 AND CSD0_VERSION = 0 \<longleftrightarrow> drop_bit 22 (csd ! 0 AND CSD0_VERSION) = 0" by (metis drop_bit_of_0 push_bit_of_0)
  then show ?thesis by (simp add: csd_fields(1) CSD0_V1_def unat_eq_0)
qed

lemma csd_capacity_bytes: "csd_capacity csd = of_nat (csd_bytes csd)"
proof (cases "csd_field 127 126 csd = 0")
  case True
  let ?h = "csd ! 1 AND CSD1V1_C_SIZEH" and ?l = "drop_bit 22 (csd ! 2 AND CSD2V1_C_SIZEL)"
  have s: "csd_field 73 62 csd < 2 ^ 12" "csd_field 49 47 csd < 2 ^ 3" "csd_field 83 80 csd < 2 ^ 4"
    using csd_field_less[of 73 62 csd] csd_field_less[of 49 47 csd] csd_field_less[of 83 80 csd] by simp_all
  have h: "unat (push_bit 10 ?h) = unat ?h * 2 ^ 10" by (rule unat_shift) (use s(1) csd_fields(5) in simp)
  have c: "unat (push_bit 10 ?h + ?l) = csd_field 73 62 csd"
    using unat_sum[of "push_bit 10 ?h" ?l] s(1) unfolding h csd_fields(5) by simp
  have m: "unat (drop_bit 7 (csd ! 2 AND CSD2V1_C_SIZE_MULT) + 2) = csd_field 49 47 csd + 2"
    using unat_sum[of "drop_bit 7 (csd ! 2 AND CSD2V1_C_SIZE_MULT)" 2] s(2) by (simp add: csd_fields(3))
  have p: "unat (push_bit (csd_field 49 47 csd + 2) (1 :: u32)) = 2 ^ (csd_field 49 47 csd + 2)"
    "unat (push_bit (csd_field 83 80 csd) (1 :: u32)) = 2 ^ csd_field 83 80 csd"
    by (rule unat_power; use s in simp)+
  have b: "(2 :: nat) ^ (csd_field 49 47 csd + 2) < 2 ^ 31" "(2 :: nat) ^ csd_field 83 80 csd < 2 ^ 31"
    by (rule power_strict_increasing; use s in simp)+
  have "csd_capacity csd = (scast (push_bit 10 ?h + ?l) + 1) * scast (push_bit (csd_field 49 47 csd + 2) (1 :: u32))
      * scast (push_bit (csd_field 83 80 csd) (1 :: u32))"
    using True by (simp only: csd_capacity_def csd_version Let_def if_True simp_thms m csd_fields(2)[symmetric])
  also have "scast (push_bit 10 ?h + ?l) = (of_nat (csd_field 73 62 csd) :: u64)" using scast_small[of "push_bit 10 ?h + ?l"] s(1) unfolding c by simp
  also have "scast (push_bit (csd_field 49 47 csd + 2) (1 :: u32)) = (of_nat (2 ^ (csd_field 49 47 csd + 2)) :: u64)"
    by (rule scast_small[of "push_bit (csd_field 49 47 csd + 2) 1", unfolded p, OF b(1)])
  also have "scast (push_bit (csd_field 83 80 csd) (1 :: u32)) = (of_nat (2 ^ csd_field 83 80 csd) :: u64)"
    by (rule scast_small[of "push_bit (csd_field 83 80 csd) 1", unfolded p, OF b(2)])
  also have "(of_nat (csd_field 73 62 csd) + 1) * of_nat (2 ^ (csd_field 49 47 csd + 2)) * of_nat (2 ^ csd_field 83 80 csd) = (of_nat (csd_bytes csd) :: u64)"
    using True by (simp add: csd_bytes_def algebra_simps)
  finally show ?thesis .
next
  case False
  have "csd_capacity csd = (of_nat (csd_field 69 48 csd) + 1) * 512 * 1024"
    using False by (simp add: csd_capacity_def csd_version csd_fields(4))
  then show ?thesis using False by (simp add: csd_bytes_def)
qed

lemma csd_bytes_less: "csd_bytes csd < 2 ^ 42"
proof -
  have "(csd_field 73 62 csd + 1) * 2 ^ (csd_field 49 47 csd + 2) * 2 ^ csd_field 83 80 csd \<le> 2 ^ 12 * 2 ^ 9 * 2 ^ 15"
    using csd_field_less[of 73 62 csd] csd_field_less[of 49 47 csd] csd_field_less[of 83 80 csd]
    by (intro mult_mono power_increasing) auto
  moreover have "(csd_field 69 48 csd + 1) * 2 ^ 19 \<le> 2 ^ 22 * 2 ^ 19" using csd_field_less[of 69 48 csd] by (intro mult_mono) auto
  ultimately show ?thesis unfolding csd_bytes_def by auto
qed

lemma csd_capacity_unat: "unat (csd_capacity csd) = csd_bytes csd"
proof -
  have "csd_bytes csd < 2 ^ LENGTH(64)" using csd_bytes_less[of csd] by simp
  then show ?thesis by (simp add: csd_capacity_bytes unsigned_of_nat take_bit_nat_eq_self)
qed
end
