(* ===== verification/Devices.thy ===== *)
theory Devices
  imports Boot_Map Sd_Host_Ok Sd_Csd Machine
begin

text \<open>Properties of the page table of the kernel and of the lower half of the card driver.\<close>

section \<open>The kernel's page table\<close>







section \<open>The card\<close>


text \<open>A controller whose interrupt register is its whole state: reading shows the state, writing clears bits of the register.\<close>

definition example_hw :: "u32 hw" where
  "example_hw = \<lparr>hw_load = (\<lambda>_ d. (d, d)), hw_store = (\<lambda>_ x d. d AND NOT x), hw_delayus = (\<lambda>_ d. d), hw_delay = (\<lambda>_ d. d),
     vc_reply = (\<lambda>ws _. ws), stack_buf = 0x1000, stack_junk = 0, patience = 10\<rparr>"

definition example_emmc :: "u32 emmc" where
  "example_emmc = \<lparr>dev = 0x20, sc_capacity = 0, sc_cid = replicate 4 0, sc_csd = replicate 4 0, sc_scr = replicate 2 0, sc_ocr = 0,
     sc_support = 0, sc_fileFormat = 0, sc_type = 0, sc_uhsi = 0, sc_init = 0, sc_absent = 0, sc_rca = 0, sc_cardState = 0,
     sc_status = 0, sc_lastCmd = None, sc_lastArg = 0, sdHostVer = 0, sdBaseClock = 0, mbr_LBA = 0, mbr_LBAsize = 0\<rparr>"


text \<open>
  C29. Waiting for an interrupt, down to the registers: when the interrupt register has settled, the bounded polling loop ends, with
  the result and the register that the step of the queue's model gives.
\<close>

theorem wait_refines:
  assumes "settled H reg" "emmc_int t = reg (dev s)"
  shows "\<exists>r d. wait_for_interrupt H m s = Ok r (s\<lparr>dev := d\<rparr>) \<and> sdWaitForInterrupt m t = Ok r (t\<lparr>emmc_int := reg d\<rparr>)"
  by (rule wait_for_settled[OF assms])

theorem wait_refines_witness:
  "\<exists>r d. wait_for_interrupt example_hw INT_READ_RDY example_emmc = Ok r (example_emmc\<lparr>dev := d\<rparr>)
      \<and> sdWaitForInterrupt INT_READ_RDY (machine\<lparr>emmc_int := 0x20\<rparr>) = Ok r (machine\<lparr>emmc_int := d\<rparr>)"
proof -
  have "settled example_hw (\<lambda>d. d)" by (simp add: settled_def example_hw_def)
  moreover have "dev example_emmc = 0x20" by (simp add: example_emmc_def)
  ultimately show ?thesis
    using wait_refines[of example_hw "\<lambda>d. d" "machine\<lparr>emmc_int := 0x20\<rparr>" example_emmc INT_READ_RDY] by simp
qed

text \<open>
  C30. The divider of the card's clock: only its field of the control register is set, and with a host of version 2 it is the
  least power of two whose double, by which the controller divides the base clock, reaches the quotient of the base clock and the
  frequency asked for, between 2 and 128.
\<close>

theorem clock_divider:
  assumes "0 < 41666666 div f" "v \<le> HOST_SPEC_V2"
  shows "sdGetClockDivider v f AND 0xffff003f = 0 \<and>
    (\<exists>k. 1 \<le> k \<and> k \<le> 7 \<and> sdGetClockDivider v f = push_bit 8 (2 ^ k) \<and>
      (k = 7 \<or> unat (41666666 div f) \<le> 2 * 2 ^ k) \<and> (k = 1 \<or> 2 ^ k < unat (41666666 div f)))"
  using clock_field[of v f] clock_power[OF assms(2) refl assms(1)] by blast

theorem clock_divider_witness:
  "\<exists>k. 1 \<le> k \<and> k \<le> 7 \<and> sdGetClockDivider HOST_SPEC_V2 FREQ_SETUP = push_bit 8 (2 ^ k) \<and> (k = 7 \<or> (104 :: nat) \<le> 2 * 2 ^ k) \<and> (k = 1 \<or> 2 ^ k < (104 :: nat))"
  using clock_divider[of FREQ_SETUP HOST_SPEC_V2] by (simp add: FREQ_SETUP_def)

text \<open>
  C31. The capacity that the driver computes from the words of the CSD register is the one its fields give, in both versions of the
  register, without overflow.
\<close>

theorem csd_size: "unat (csd_capacity csd) = csd_bytes csd"
  by (rule csd_capacity_unat)

end
