(* ===== verification/Traps.thy ===== *)
theory Traps
  imports Syscall Kstep Console Sd_Host
begin

text \<open>
  Traps and interrupts: \<^verbatim>\<open>kern/trap.c\<close>, the timers \<^verbatim>\<open>kern/timer.c\<close> and \<^verbatim>\<open>kern/clock.c\<close>, and the serial line
  \<^verbatim>\<open>kern/uart.c\<close> above its registers. This is where the processes, the file system with the card driver, the console and the
  devices meet, so that the state holds them all.

  The peripherals are the parameter \<open>hw\<close> of \<open>Sd_Host\<close>, the system registers are the two fields that \<open>core\<close> adds to it.
  The request queue and \<open>uart_putchar\<close> are used in the form of \<open>Sd_Queue\<close> and \<open>Console\<close>. Diagnostic output is left out.
\<close>

section \<open>State\<close>

datatype sysreg = ESR_EL1 | CNTP_CTL_EL0 | CNTP_TVAL_EL0

record 'd core = "'d hw" +
  hw_mrs :: "sysreg \<Rightarrow> 'd \<Rightarrow> u64"
  hw_msr :: "sysreg \<Rightarrow> u64 \<Rightarrow> 'd \<Rightarrow> 'd"

text \<open>
  The console without the part of the state that it shares with the file system is the fragment \<open>kcons\<close>;
  \<open>input_r_at\<close> is the address of \<^verbatim>\<open>input.r\<close>, \<open>buf_at\<close> that of a buffer: the channels of \<^verbatim>\<open>wakeup\<close>.
\<close>

record 'd trap_sys = proc_sys +
  peri :: 'd
  kcons :: "unit cons_state_ext"
  input_r_at :: u64
  buf_at :: "nat \<Rightarrow> u64"
  irqinitlock :: spinlock
  irqinitcnt :: u32

type_synonym ('d, 'a) trp = "('d trap_sys, 'a) kop"

definition get32 :: "'d core \<Rightarrow> u64 \<Rightarrow> ('d, u32) trp" where
  "get32 H r = (\<lambda>s. case hw_load (hw.truncate H) r (peri s) of (x, d) \<Rightarrow> Ok x (s\<lparr>peri := d\<rparr>))"

definition put32 :: "'d core \<Rightarrow> u64 \<Rightarrow> u32 \<Rightarrow> ('d, unit) trp" where
  "put32 H r x = kmod (\<lambda>s. s\<lparr>peri := hw_store (hw.truncate H) r x (peri s)\<rparr>)"

definition wait_cycles :: "'d core \<Rightarrow> u32 \<Rightarrow> ('d, unit) trp" where
  "wait_cycles H n = kmod (\<lambda>s. s\<lparr>peri := hw_delay (hw.truncate H) n (peri s)\<rparr>)"

definition mrs :: "'d core \<Rightarrow> sysreg \<Rightarrow> ('d, u64) trp" where
  "mrs H r = kget (\<lambda>s. hw_mrs H r (peri s))"

definition msr :: "'d core \<Rightarrow> sysreg \<Rightarrow> u64 \<Rightarrow> ('d, unit) trp" where
  "msr H r x = kmod (\<lambda>s. s\<lparr>peri := hw_msr H r x (peri s)\<rparr>)"

definition on_cons :: "(cons_state, 'a) kop \<Rightarrow> ('d, 'a) trp" where
  "on_cons m = zoom (\<lambda>s. file_state.extend (fs_view s) (kcons s))
     (\<lambda>x s. s\<lparr>kfs := file_state.truncate x, kcons := file_state.more x\<rparr>) m"

definition on_irqlock :: "(nat \<Rightarrow> (spinlock, 'a) kop) \<Rightarrow> ('d, 'a) trp" where
  "on_irqlock m = kbind (kget p_cpu) (\<lambda>c. zoom irqinitlock (\<lambda>x s. s\<lparr>irqinitlock := x\<rparr>) (m c))"


section \<open>Registers\<close>

definition LOCAL_BASE :: u64 where "LOCAL_BASE = 0xFFFF000000000000 + 0x40000000"
definition IRQ_PENDING_1 :: u64 where "IRQ_PENDING_1 = MMIO_BASE + 0xB204"
definition IRQ_PENDING_2 :: u64 where "IRQ_PENDING_2 = MMIO_BASE + 0xB208"
definition ENABLE_IRQS_1 :: u64 where "ENABLE_IRQS_1 = MMIO_BASE + 0xB210"
definition ENABLE_IRQS_2 :: u64 where "ENABLE_IRQS_2 = MMIO_BASE + 0xB214"
definition AUX_INT :: u32 where "AUX_INT = push_bit 29 1"
definition VC_ARASANSDIO_INT :: u32 where "VC_ARASANSDIO_INT = push_bit 30 1"
definition GPU_INT_ROUTE :: u64 where "GPU_INT_ROUTE = LOCAL_BASE + 0xC"
definition GPU_IRQ2CORE :: "u32 \<Rightarrow> u32" where "GPU_IRQ2CORE i = i"
definition IRQ_SRC_CORE :: "nat \<Rightarrow> u64" where "IRQ_SRC_CORE i = LOCAL_BASE + 0x60 + 4 * of_nat i"
definition IRQ_TIMER :: u32 where "IRQ_TIMER = push_bit 11 1"
definition IRQ_GPU :: u32 where "IRQ_GPU = push_bit 8 1"
definition IRQ_CNTPNSIRQ :: u32 where "IRQ_CNTPNSIRQ = push_bit 1 1"
definition TIMER_ROUTE :: u64 where "TIMER_ROUTE = LOCAL_BASE + 0x24"
definition TIMER_IRQ2CORE :: "u32 \<Rightarrow> u32" where "TIMER_IRQ2CORE i = i"
definition TIMER_CTRL :: u64 where "TIMER_CTRL = LOCAL_BASE + 0x34"
definition TIMER_INTENA :: u32 where "TIMER_INTENA = push_bit 29 1"
definition TIMER_ENABLE :: u32 where "TIMER_ENABLE = push_bit 28 1"
definition TIMER_RELOAD_SEC :: u32 where "TIMER_RELOAD_SEC = 38400000"
definition TIMER_CLR :: u64 where "TIMER_CLR = LOCAL_BASE + 0x38"
definition TIMER_CLR_INT :: u32 where "TIMER_CLR_INT = push_bit 31 1"
definition TIMER_RELOAD :: u32 where "TIMER_RELOAD = push_bit 30 1"
definition CORE_TIMER_CTRL :: "nat \<Rightarrow> u64" where "CORE_TIMER_CTRL i = LOCAL_BASE + 0x40 + 4 * of_nat i"
definition CORE_TIMER_ENABLE :: u32 where "CORE_TIMER_ENABLE = push_bit 1 1"
definition EC_SHIFT :: nat where "EC_SHIFT = 26"
definition EC_UNKNOWN :: u32 where "EC_UNKNOWN = 0"
definition EC_SVC64 :: u32 where "EC_SVC64 = 0x15"
definition EC_DABORT :: u32 where "EC_DABORT = 0x24"
definition ISS_MASK :: u64 where "ISS_MASK = 0xFFFFFF"
definition AUX_ENABLES :: u64 where "AUX_ENABLES = MMIO_BASE + 0x00215004"
definition AUX_MU_IO_REG :: u64 where "AUX_MU_IO_REG = MMIO_BASE + 0x00215040"
definition AUX_MU_IER_REG :: u64 where "AUX_MU_IER_REG = MMIO_BASE + 0x00215044"
definition AUX_MU_IIR_REG :: u64 where "AUX_MU_IIR_REG = MMIO_BASE + 0x00215048"
definition AUX_MU_LCR_REG :: u64 where "AUX_MU_LCR_REG = MMIO_BASE + 0x0021504C"
definition AUX_MU_MCR_REG :: u64 where "AUX_MU_MCR_REG = MMIO_BASE + 0x00215050"
definition AUX_MU_CNTL_REG :: u64 where "AUX_MU_CNTL_REG = MMIO_BASE + 0x00215060"
definition AUX_MU_BAUD_REG :: u64 where "AUX_MU_BAUD_REG = MMIO_BASE + 0x00215068"
definition GPFSEL1 :: u64 where "GPFSEL1 = MMIO_BASE + 0x200000 + 0x04"
definition GPPUDCLK0 :: u64 where "GPPUDCLK0 = MMIO_BASE + 0x200000 + 0x98"


section \<open>Timers\<close>

definition dt :: u64 where "dt = 19200000"

definition timer_init :: "'d core \<Rightarrow> ('d, unit) trp" where
  "timer_init H =
     kthen (msr H CNTP_CTL_EL0 1)
     (kthen (msr H CNTP_TVAL_EL0 dt)
     (kbind (kget p_cpu) (\<lambda>c. put32 H (CORE_TIMER_CTRL c) CORE_TIMER_ENABLE)))"

definition timer_reset :: "'d core \<Rightarrow> ('d, unit) trp" where
  "timer_reset H = msr H CNTP_TVAL_EL0 dt"

definition timer :: "('d, unit) trp" where
  "timer = yield"

definition clock_init :: "'d core \<Rightarrow> ('d, unit) trp" where
  "clock_init H =
     kthen (put32 H TIMER_CTRL (TIMER_INTENA OR TIMER_ENABLE OR TIMER_RELOAD_SEC))
     (kthen (put32 H TIMER_ROUTE (TIMER_IRQ2CORE 0))
     (put32 H TIMER_CLR (TIMER_RELOAD OR TIMER_CLR_INT)))"

definition clock_reset :: "'d core \<Rightarrow> ('d, unit) trp" where
  "clock_reset H = put32 H TIMER_CLR TIMER_CLR_INT"

definition clock :: "('d, unit) trp" where
  "clock = yield"


section \<open>The serial line\<close>

text \<open>\<open>None\<close> is \<open>-1\<close>.\<close>

definition uart_getchar :: "'d core \<Rightarrow> ('d, u8 option) trp" where
  "uart_getchar H =
     kbind (get32 H AUX_MU_IIR_REG) (\<lambda>stat.
     if stat AND 1 \<noteq> 0 \<or> stat AND 6 \<noteq> 4 then kret None
     else kbind (get32 H AUX_MU_IO_REG) (\<lambda>c. kret (Some (ucast (c AND 0xFF)))))"

text \<open>
  The loop of \<^verbatim>\<open>console_intr\<close> with \<^verbatim>\<open>getc\<close> = \<^verbatim>\<open>uart_getchar\<close>: it ends when the line has no more characters, and takes at
  most \<open>patience\<close> of them. \<open>console_char\<close> counts its call of \<^verbatim>\<open>wakeup(&input.r)\<close>, the last thing it does for a
  character; here it is made.
\<close>

definition console_getc :: "u8 \<Rightarrow> ('d, bool) trp" where
  "console_getc c =
     kbind (on_cons (kget cons_wakeups)) (\<lambda>n0.
     kbind (on_cons (console_char c)) (\<lambda>d.
     kbind (on_cons (kget cons_wakeups)) (\<lambda>n1.
     kthen (kwhen (n1 \<noteq> n0) (kbind (kget input_r_at) wakeup))
     (kret d))))"

primrec uart_loop :: "'d core \<Rightarrow> nat \<Rightarrow> bool \<Rightarrow> ('d, bool) trp" where
  "uart_loop H 0 dump = kfault Spin"
| "uart_loop H (Suc n) dump =
     kbind (uart_getchar H) (\<lambda>r. case r of
       None \<Rightarrow> kret dump
     | Some c \<Rightarrow> kbind (console_getc c) (\<lambda>d. uart_loop H n (dump \<or> d)))"

definition uart_intr :: "'d core \<Rightarrow> ('d, unit) trp" where
  "uart_intr H =
     kthen (on_cons (on_conslock acquire))
     (kbind (on_cons (kget panicked)) (\<lambda>p.
      if p \<ge> 0 then kthen (on_cons (on_conslock release)) (kfault Spin)
      else
        kbind (uart_loop H (patience (hw.truncate H)) False) (\<lambda>dump.
        kthen (on_cons (on_conslock release))
        (kwhen dump procdump))))"

definition uart_init :: "'d core \<Rightarrow> ('d, unit) trp" where
  "uart_init H =
     kbind (get32 H AUX_ENABLES) (\<lambda>enables.
     kthen (put32 H AUX_ENABLES (enables OR 1))
     (kthen (put32 H AUX_MU_CNTL_REG 0)
     (kthen (put32 H AUX_MU_LCR_REG 3)
     (kthen (put32 H AUX_MU_MCR_REG 0)
     (kthen (put32 H AUX_MU_IER_REG (push_bit 2 3 OR 1))
     (kthen (put32 H AUX_MU_IIR_REG 0xc6)
     (kthen (put32 H AUX_MU_BAUD_REG 270)
     (kbind (get32 H GPFSEL1) (\<lambda>selector.
      kthen (put32 H GPFSEL1 ((selector AND NOT (push_bit 12 7 OR push_bit 15 7)) OR (push_bit 12 2 OR push_bit 15 2)))
      (kthen (put32 H GPPUD 0)
      (kthen (wait_cycles H 150)
      (kthen (put32 H GPPUDCLK0 (push_bit 14 1 OR push_bit 15 1))
      (kthen (wait_cycles H 150)
      (kthen (put32 H GPPUDCLK0 0)
      (put32 H AUX_MU_CNTL_REG 3)))))))))))))))"


section \<open>The card\<close>

text \<open>\<open>sd_intr\<close> with the call of \<^verbatim>\<open>wakeup(b)\<close> made for the buffer that it notes in \<open>sd_woken\<close>.\<close>

definition sd_interrupt :: "('d, unit) trp" where
  "sd_interrupt =
     kbind (on_fs (kget sd_woken)) (\<lambda>w0.
     kthen (on_fs (kmod (\<lambda>s. s\<lparr>sd_woken := {}\<rparr>)))
     (kthen (on_fs sd_intr)
     (kbind (on_fs (kget sd_woken)) (\<lambda>w1.
      kthen (on_fs (kmod (\<lambda>s. s\<lparr>sd_woken := w0 \<union> w1\<rparr>)))
      (kbind (kget buf_at) (\<lambda>at.
       kfor (filter (\<lambda>b. b \<in> w1) [0..<NBUF]) (\<lambda>b. wakeup (at b))))))))"


section \<open>Dispatch\<close>

definition irq_init :: "'d core \<Rightarrow> ('d, unit) trp" where
  "irq_init H =
     kthen (on_irqlock acquire)
     (kbind (kget irqinitcnt) (\<lambda>n.
      if n \<noteq> 0 then on_irqlock release
      else
        kthen (kmod (\<lambda>s. s\<lparr>irqinitcnt := 1\<rparr>))
        (kthen (clock_init H)
        (kthen (put32 H ENABLE_IRQS_1 AUX_INT)
        (kthen (put32 H ENABLE_IRQS_2 VC_ARASANSDIO_INT)
        (kthen (put32 H GPU_INT_ROUTE (GPU_IRQ2CORE 0))
        (on_irqlock release)))))))"

definition interrupt :: "'d core \<Rightarrow> ('d, unit) trp" where
  "interrupt H =
     kbind (kget p_cpu) (\<lambda>c.
     kbind (get32 H (IRQ_SRC_CORE c)) (\<lambda>src.
     if src AND IRQ_CNTPNSIRQ \<noteq> 0 then kthen (timer_reset H) timer
     else if src AND IRQ_TIMER \<noteq> 0 then kthen (clock_reset H) clock
     else if src AND IRQ_GPU \<noteq> 0 then
       kbind (get32 H IRQ_PENDING_1) (\<lambda>p1.
       kbind (get32 H IRQ_PENDING_2) (\<lambda>p2.
       if p1 AND AUX_INT \<noteq> 0 then uart_intr H
       else if p2 AND VC_ARASANSDIO_INT \<noteq> 0 then sd_interrupt
       else kret ()))
     else kret ()))"

definition trap :: "'d core \<Rightarrow> libc \<Rightarrow> u8 list \<Rightarrow> ('d, unit) trp" where
  "trap H lc junk =
     kbind (mrs H ESR_EL1) (\<lambda>e1.
     kbind (mrs H ESR_EL1) (\<lambda>e2.
     let ec = ucast (drop_bit EC_SHIFT e1) :: u32; iss = ucast (e2 AND ISS_MASK) :: u32 in
     kthen (msr H ESR_EL1 0)
     (if ec = EC_UNKNOWN then interrupt H
      else if ec = EC_SVC64 then
        (if iss = 0 then kbind (syscall lc junk) (\<lambda>_. kret ()) else kret ())
      else if ec = EC_DABORT then panic ''address above limit''
      else panic ''trap: unexpected irq.'')))"

definition irq_error :: "u64 \<Rightarrow> ('d, unit) trp" where
  "irq_error type = panic ''irq_error: irq of type %d unimplemented. ''"

end
