(* ===== verification/Traps_Ok.thy ===== *)
theory Traps_Ok
  imports Traps
begin

text \<open>
  Every trap keeps the invariant of the process table: each system call, whatever its arguments and the memory hold, and each
  interrupt, whatever the devices answer. Then the processors interleaved, each step of a busy one a whole trap.
\<close>

section \<open>System calls\<close>

lemma keeps_prod [keeps_intros]: "(\<And>a b. r = (a, b) \<Longrightarrow> keeps I (f a b)) \<Longrightarrow> keeps I (case r of (a, b) \<Rightarrow> f a b)"
  by (cases r) simp

lemma keeps_let [keeps_intros]: "(\<And>x. x = a \<Longrightarrow> keeps I (f x)) \<Longrightarrow> keeps I (let x = a in f x)"
  by simp

lemma keeps_thisproc [keeps_intros]: "keeps I thisproc"
  by (auto simp: keeps_def kwp_def thisproc_def kop_defs kidx_def split: outcome.split option.split)

lemma keeps_curproc [keeps_intros]: "keeps I curproc"
  unfolding curproc_def by (intro keeps_intros)

lemma keeps_argint [keeps_intros]: "keeps (outside me) (argint n)"
  unfolding argint_def by (intro keeps_intros)

lemma keeps_argptr [keeps_intros]: "keeps (outside me) (argptr n l)"
  unfolding argptr_def by (intro keeps_intros)

lemma keeps_fetchint [keeps_intros]: "keeps (outside me) (fetchint a)"
  unfolding fetchint_def by (intro keeps_intros)

lemma find_nul_keeps: "outside me t \<Longrightarrow> kwp (find_nul s ep n) (\<lambda>_. True) (\<lambda>_ u. outside me u) t"
proof (induction s ep n t rule: find_nul.induct)
  case (1 s ep n t)
  show ?case
  proof (cases "s < ep")
    case True
    have "kwp (kbind (on_mem (load_user8 s)) (\<lambda>b. if b = 0 then kret (Some n) else find_nul (s + 1) ep (Suc n))) (\<lambda>_. True) (\<lambda>_ u. outside me u) t"
    proof (rule kwp_bind_cases)
      show "kwp (on_mem (load_user8 s)) (\<lambda>_. True) (\<lambda>b u. on_mem (load_user8 s) t = Ok b u \<and> outside me u) t"
        using keepsD[OF keeps_parts(1) 1(2), of "load_user8 s"] by (simp add: kwp_def split: outcome.splits)
    next
      fix b u assume u: "on_mem (load_user8 s) t = Ok b u \<and> outside me u"
      show "kwp (if b = 0 then kret (Some n) else find_nul (s + 1) ep (Suc n)) (\<lambda>_. True) (\<lambda>_ u. outside me u) u"
        using u 1(1)[OF True, of b u] by (auto simp: wp_simps simp del: find_nul.simps)
    qed
    then show ?thesis using True by (subst kwp_def, subst find_nul.simps) (simp add: kwp_def)
  qed (use 1(2) in \<open>simp add: kwp_def find_nul.simps\<close>)
qed

lemma keeps_fetchstr [keeps_intros]: "keeps (outside me) (fetchstr a)"
  unfolding fetchstr_def by (intro keeps_intros keepsI find_nul_keeps)

lemma keeps_argstr [keeps_intros]: "keeps (outside me) (argstr n)"
  unfolding argstr_def by (intro keeps_intros)

lemma keeps_user_string [keeps_intros]: "keeps (outside me) (user_string a)"
  unfolding user_string_def by (intro keeps_intros)

lemma keeps_argfd [keeps_intros]: "keeps (outside me) (argfd n)"
  unfolding argfd_def by (intro keeps_intros)

lemma keeps_set_ofile [keeps_intros]: "keeps (outside me) (set_ofile fd r)"
  unfolding set_ofile_def by (intro keeps_intros) simp

lemma keeps_fdalloc [keeps_intros]: "keeps (outside me) (fdalloc f)"
  unfolding fdalloc_def by (intro keeps_intros)

lemma keeps_write_user [keeps_intros]: "keeps (outside me) (write_user f b n)"
  unfolding write_user_def by (intro keeps_intros)

lemma keeps_writev_loop [keeps_intros]: "keeps (outside me) (writev_loop k f p tot)"
  by (induction k arbitrary: p tot) (simp_all, (intro keeps_intros; assumption?)+)

lemma keeps_store_stat [keeps_intros]: "keeps (outside me) (store_stat lc a st)"
  unfolding store_stat_def by (intro keeps_intros)

lemma keeps_files [keeps_intros]:
  "keeps (outside me) sys_dup" "keeps (outside me) sys_read" "keeps (outside me) sys_write" "keeps (outside me) sys_writev"
  "keeps (outside me) sys_close" "keeps (outside me) (sys_fstat lc)" "keeps (outside me) (sys_fstatat lc junk)"
  unfolding sys_dup_def sys_read_def sys_write_def sys_writev_def sys_close_def sys_fstat_def sys_fstatat_def
  by (intro keeps_intros)+

lemma keeps_paths [keeps_intros]:
  "keeps (outside me) (sys_openat lc junk)" "keeps (outside me) (sys_mkdirat lc junk)" "keeps (outside me) (sys_mknodat lc junk)"
  "keeps (outside me) (sys_chdir junk)"
  unfolding sys_openat_def open_fail_def open_done_def sys_mkdirat_def sys_mknodat_def create_and_put_def sys_chdir_def
  by (intro keeps_intros; simp)+

lemma loadseg_turn:
  "i < sz \<Longrightarrow> loadseg_loop (Suc fuel) pgdir va ip off sz i =
      (let n = (if sz - i \<ge> 4096 then 4096 else sz - i) in
         kbind (on_mem (pgdir_iwalk pgdir (va + ucast i))) (\<lambda>pa.
         kbind (on_fs (readi ip (ucast (off + i)) (ucast n))) (\<lambda>(r, d).
         kthen (on_mem (store_bytes (P2V pa) d))
         (if r \<noteq> int (unat n) then kret (-1)
          else loadseg_loop fuel pgdir va ip off sz (i + 4096)))))"
  "\<not> i < sz \<Longrightarrow> loadseg_loop (Suc fuel) pgdir va ip off sz i = kret 0"
  by (intro ext, simp add: kret_def)+

lemma keeps_loadseg_loop [keeps_intros]: "keeps (outside me) (loadseg_loop fuel pgdir va ip off sz i)"
proof (induction fuel arbitrary: i)
  case (Suc fuel)
  show ?case
  proof (cases "i < sz")
    case True
    show ?thesis unfolding loadseg_turn(1)[OF True] by (intro keeps_intros Suc.IH)
  next
    case False
    show ?thesis unfolding loadseg_turn(2)[OF False] by (rule keeps_basic)
  qed
qed (simp add: keeps_def kwp_def)

lemma keeps_loadseg [keeps_intros]: "keeps (outside me) (loadseg pgdir va ip off sz)"
  unfolding loadseg_def by (intro keeps_intros)

lemma keeps_grow [keeps_intros]: "keeps (outside me) (grow pgdir sz n)"
  unfolding grow_def by (intro keeps_intros)

lemma keeps_load_segments [keeps_intros]: "keeps (outside me) (load_segments k lc pgdir ip off sz)"
  by (induction k arbitrary: off sz) (simp_all, (intro keeps_intros; assumption?)+)

lemma keeps_push_args [keeps_intros]: "keeps (outside me) (push_args as pgdir sp us)"
  by (induction as arbitrary: sp us) (simp_all, (intro keeps_intros; assumption?)+)

lemma keeps_push_ustack [keeps_intros]: "keeps (outside me) (push_ustack lc pgdir sp us)"
  unfolding push_ustack_def by (intro keeps_intros)

lemma keeps_exec_stack [keeps_intros]: "keeps (outside me) (exec_stack lc p path argv pgdir sz e)"
  unfolding exec_stack_def exec_commit_def by (intro keeps_intros) simp_all

lemma keeps_execve [keeps_intros]: "keeps (outside me) (execve lc junk path argv)"
  unfolding execve_def by (intro keeps_intros)

lemma keeps_fetch_argv [keeps_intros]: "keeps (outside me) (fetch_argv k u)"
  by (induction k arbitrary: u) (simp_all, (intro keeps_intros; assumption?)+)

lemma keeps_exec [keeps_intros]: "keeps (outside me) (sys_exec lc junk)"
  unfolding sys_exec_def by (intro keeps_intros)

lemma keeps_sysproc [keeps_intros]:
  "keeps (outside me) sys_brk" "keeps (outside me) (sys_test junk)" "keeps (outside me) sys_rt_sigprocmask"
  "keeps (outside me) sys_clone"
proof -
  have "keeps (outside me) fork" by (rule keepsI) (rule fork_keeps)
  then show "keeps (outside me) sys_clone" unfolding sys_clone_def by (intro keeps_intros)
qed (unfold sys_brk_def sys_test_def sys_rt_sigprocmask_def, (intro keeps_intros; simp)+)

lemma keeps_returns [keeps_intros]: "keeps I m \<Longrightarrow> keeps I (returns m)"
  unfolding returns_def by (intro keeps_intros)

text \<open>The calls in which the process may give up its processor end in the weaker \<open>pinv\<close>.\<close>

definition ends_pinv :: "nat \<Rightarrow> ('z proc_sys_scheme, 'a) kop \<Rightarrow> bool" where
  "ends_pinv me m \<longleftrightarrow> (\<forall>s. outside me s \<longrightarrow> maintains m (\<lambda>_ t. pinv t) s)"

lemma ends_pinvI: "(\<And>s. outside me s \<Longrightarrow> maintains m (\<lambda>_ t. pinv t) s) \<Longrightarrow> ends_pinv me m"
  by (simp add: ends_pinv_def)

lemma ends_pinvD: "ends_pinv me m \<Longrightarrow> outside me s \<Longrightarrow> maintains m (\<lambda>_ t. pinv t) s"
  by (simp add: ends_pinv_def)

lemma ends_keeps: "keeps (outside me) m \<Longrightarrow> ends_pinv me m"
  by (auto simp: keeps_def ends_pinv_def elim!: kwp_conseq intro: outside_pinv)

lemma ends_pinv_bind: "keeps (outside me) m \<Longrightarrow> (\<And>a. ends_pinv me (f a)) \<Longrightarrow> ends_pinv me (kbind m f)"
  by (auto simp: ends_pinv_def kwp_kbind keeps_def elim!: kwp_conseq)

lemma ends_then_pinv: "ends_pinv me m \<Longrightarrow> (\<And>a. keeps pinv (f a)) \<Longrightarrow> ends_pinv me (kbind m f)"
  by (auto simp: ends_pinv_def kwp_kbind keeps_def elim!: kwp_conseq)

lemma ends_pinv_if: "(b \<Longrightarrow> ends_pinv me m) \<Longrightarrow> (\<not> b \<Longrightarrow> ends_pinv me n) \<Longrightarrow> ends_pinv me (if b then m else n)"
  by simp

lemma pinv_parts: "pinv (s\<lparr>kmem := k\<rparr>) = pinv s" "pinv (s\<lparr>kfs := f\<rparr>) = pinv s"
  by (simp_all add: pinv_def sched_inv_parts)

lemma keeps_pinv_mem [keeps_intros]: "keeps pinv (on_mem m)"
  by (rule keeps_mem) (simp add: pinv_parts)

lemma sys_yield_ends: "ends_pinv me sys_yield"
  unfolding sys_yield_def kthen_def
  by (intro ends_then_pinv keeps_intros ends_pinvI kok_true[OF yield_pinv])

lemma sys_exit_ends: "ends_pinv me sys_exit"
  unfolding sys_exit_def kthen_def by (intro ends_then_pinv keeps_intros ends_pinvI exit_pinv)

lemma sys_wait4_ends: "ends_pinv me sys_wait4"
  unfolding sys_wait4_def by (intro ends_pinv_bind keeps_intros ends_pinv_if ends_keeps ends_pinvI wait_pinv)

lemma handler_ends: "ends_pinv me (handler lc junk sysno)"
  unfolding handler_def
  by (intro ends_pinv_if sys_yield_ends sys_exit_ends sys_wait4_ends) (rule ends_keeps, intro keeps_intros)+

lemma syscall_ends: "ends_pinv me (syscall lc junk)"
  unfolding syscall_def syscall_return_def
  by (intro ends_pinv_bind keeps_intros ends_then_pinv handler_ends)


section \<open>Interrupts\<close>

lemma trap_parts:
  fixes s :: "'d trap_sys"
  shows "outside me (s\<lparr>peri := d\<rparr>) = outside me s" "pinv (s\<lparr>peri := d\<rparr>) = pinv s"
    "outside me (s\<lparr>kfs := f, kcons := c\<rparr>) = outside me s" "outside me (s\<lparr>irqinitlock := l\<rparr>) = outside me s"
    "outside me (s\<lparr>irqinitcnt := n\<rparr>) = outside me s"
  by (simp_all add: outside_def pinv_def running_def sched_inv_def)

lemma keeps_registers [keeps_intros]:
  "keeps (outside me) (get32 H r)" "keeps (outside me) (put32 H r x)" "keeps (outside me) (mrs H g)" "keeps (outside me) (msr H g y)"
  by (auto simp: keeps_def kwp_def get32_def put32_def mrs_def msr_def kop_defs trap_parts split: prod.split)

lemma keeps_cons [keeps_intros]: "keeps (outside me) (on_cons m)"
  unfolding on_cons_def by (rule keepsI, rule zoom_true) (simp add: trap_parts)

lemma keeps_wakeup [keeps_intros]: "keeps (outside me) (wakeup chan)"
  by (rule keepsI) (rule kok_true[OF wakeup_outside])

lemma keeps_getc [keeps_intros]: "keeps (outside me) (console_getc c)"
  unfolding console_getc_def by (intro keeps_intros)

lemma keeps_uart_loop [keeps_intros]: "keeps (outside me) (uart_loop H n dump)"
  by (induction n arbitrary: dump) (simp_all add: uart_getchar_def, (intro keeps_intros; assumption?)+)

lemma keeps_uart [keeps_intros]: "keeps (outside me) (uart_intr H)"
  unfolding uart_intr_def procdump_def by (intro keeps_intros)

lemma keeps_sd [keeps_intros]: "keeps (outside me) sd_interrupt"
  unfolding sd_interrupt_def by (intro keeps_intros)

lemma ends_pinv_then: "keeps (outside me) m \<Longrightarrow> ends_pinv me n \<Longrightarrow> ends_pinv me (kthen m n)"
  unfolding kthen_def by (rule ends_pinv_bind)

lemma ends_yield: "ends_pinv me yield"
  by (intro ends_pinvI kok_true[OF yield_pinv])

lemma interrupt_ends: "ends_pinv me (interrupt H)"
  unfolding interrupt_def timer_def clock_def timer_reset_def clock_reset_def
  by (intro ends_pinv_bind keeps_intros ends_pinv_if ends_pinv_then ends_yield) (rule ends_keeps, intro keeps_intros)+

lemma trap_ends: "ends_pinv me (trap H lc junk)"
  unfolding trap_def Let_def
  by (intro ends_pinv_bind keeps_intros ends_pinv_then ends_pinv_if interrupt_ends ends_then_pinv syscall_ends) (rule ends_keeps, intro keeps_intros)+


section \<open>Reachable states\<close>

text \<open>
  A step of the machine: an idle processor runs its scheduler and what the chosen process resumes in; a busy one takes a trap; or
  user code and the devices run, which may change any memory and any device.
\<close>

inductive tstep :: "'d core \<Rightarrow> libc \<Rightarrow> 'd trap_sys \<Rightarrow> 'd trap_sys \<Rightarrow> bool" for H lc where
  idle: "c < NCPU \<Longrightarrow> cpus s ! c = None \<Longrightarrow> dispatch (s\<lparr>p_cpu := c\<rparr>) = Ok r t \<Longrightarrow> tstep H lc s t"
| busy: "c < NCPU \<Longrightarrow> cpus s ! c = Some p \<Longrightarrow> trap H lc junk (s\<lparr>p_cpu := c\<rparr>) = Ok () t \<Longrightarrow> tstep H lc s t"
| outer: "tstep H lc s (s\<lparr>kmem := m, peri := d\<rparr>)"

inductive treach :: "'d core \<Rightarrow> libc \<Rightarrow> 'd trap_sys \<Rightarrow> 'd trap_sys \<Rightarrow> bool" for H lc s where
  start: "treach H lc s s"
| more: "treach H lc s t \<Longrightarrow> tstep H lc t u \<Longrightarrow> treach H lc s u"

inductive_cases tstepE: "tstep H lc s t"

lemma tstep_pinv: "tstep H lc s t \<Longrightarrow> pinv s \<Longrightarrow> pinv t"
proof (induction rule: tstep.induct)
  case (idle c s r t)
  have "maintains dispatch (\<lambda>_ t. pinv t) (s\<lparr>p_cpu := c\<rparr>)"
    by (rule dispatch_pinv[OF pinv_cpu]) (use idle in simp_all)
  then show ?case using idle(3) by (simp add: kwp_def)
next
  case (busy c s p junk t)
  have "running (s\<lparr>p_cpu := c\<rparr>) p" using busy(2) by (simp add: running_def)
  then have "maintains (trap H lc junk) (\<lambda>_ t. pinv t) (s\<lparr>p_cpu := c\<rparr>)"
    by (intro ends_pinvD[OF trap_ends] pinv_outside pinv_cpu busy.prems busy.hyps(1))
  then show ?case using busy(3) by (simp add: kwp_def)
next
  case outer
  then show ?case by (simp add: trap_parts pinv_parts)
qed

lemma treach_pinv: "treach H lc s t \<Longrightarrow> pinv s \<Longrightarrow> pinv t"
  by (induction rule: treach.induct) (auto intro: tstep_pinv)


section \<open>Preemption\<close>

text \<open>Giving up the processor does not touch the devices.\<close>

lemma keeps_zoom: "(\<And>s x. I s \<Longrightarrow> I (p x s)) \<Longrightarrow> keeps I (zoom g p m)"
  by (auto simp: keeps_def kwp_def zoom_def split: outcome.split)

lemma keeps_kmod: "(\<And>s. I s \<Longrightarrow> I (f s)) \<Longrightarrow> keeps I (kmod f)"
  by (simp add: keeps_def kwp_def kmod_def)

lemma yield_peri: "keeps (\<lambda>s :: 'd trap_sys. peri s = d) yield"
proof -
  have parts: "keeps (\<lambda>s :: 'd trap_sys. peri s = d) (on_ptable m)" "keeps (\<lambda>s :: 'd trap_sys. peri s = d) (on_lists l)"
    "keeps (\<lambda>s :: 'd trap_sys. peri s = d) (on_mem v)" for m :: "nat \<Rightarrow> (spinlock, 'a) kop" and l :: "(pnode lheap, 'b) kop" and v :: "(vm_state, 'c) kop"
    unfolding on_ptable_def on_lists_def on_mem_def by (intro keeps_bind keeps_basic keeps_zoom; simp)+
  have arrays: "keeps (\<lambda>s :: 'd trap_sys. peri s = d) (upd_proc p f)" "keeps (\<lambda>s :: 'd trap_sys. peri s = d) (set_cpu r)" for p f r
    by (auto simp: keeps_def kwp_def upd_proc_def set_cpu_def kupd_def kop_defs)
  show ?thesis unfolding yield_def sched_def scheduler_leave_def push_runnable_def
    by (intro keeps_intros parts arrays keeps_kmod; simp)
qed

text \<open>The core timer interrupts the process \<open>p\<close>: the class of the exception is 0, and the source register has the timer's bit.\<close>

definition after_esr :: "'d core \<Rightarrow> 'd trap_sys \<Rightarrow> 'd" where
  "after_esr H s = hw_msr H ESR_EL1 0 (peri s)"

definition timer_fires :: "'d core \<Rightarrow> 'd trap_sys \<Rightarrow> bool" where
  "timer_fires H s \<longleftrightarrow> ucast (drop_bit EC_SHIFT (hw_mrs H ESR_EL1 (peri s))) = EC_UNKNOWN
     \<and> fst (hw_load (hw.truncate H) (IRQ_SRC_CORE (p_cpu s)) (after_esr H s)) AND IRQ_CNTPNSIRQ \<noteq> 0"

definition after_timer :: "'d core \<Rightarrow> 'd trap_sys \<Rightarrow> 'd" where
  "after_timer H s = hw_msr H CNTP_TVAL_EL0 dt (snd (hw_load (hw.truncate H) (IRQ_SRC_CORE (p_cpu s)) (after_esr H s)))"

lemma trap_timer:
  assumes "timer_fires H s"
  shows "trap H lc junk s = yield (s\<lparr>peri := after_timer H s\<rparr>)"
proof -
  obtain x d where l: "hw_load (hw.truncate H) (IRQ_SRC_CORE (p_cpu s)) (after_esr H s) = (x, d)" by fastforce
  note l' = l[unfolded after_esr_def]
  show ?thesis using assms l'
    by (simp add: timer_fires_def after_timer_def l trap_def interrupt_def timer_def timer_reset_def mrs_def msr_def get32_def kop_defs Let_def)
qed

lemma preempted:
  assumes "sched_inv s C" "running s p" "spin_free (ptablelock s)" "timer_fires H s"
  shows "kok (trap H lc junk) (\<lambda>_ t.
    sched_inv t (C(Prio (p_prio (ptable s ! p)) := C (Prio (p_prio (ptable s ! p))) @ [Plist p]))
    \<and> ptable t = (ptable s)[p := (ptable s ! p)\<lparr>p_state := RUNNABLE\<rparr>] \<and> cpus t = (cpus s)[p_cpu s := None]
    \<and> spin_free (ptablelock t) \<and> peri t = after_timer H s) s"
proof -
  let ?s = "s\<lparr>peri := after_timer H s\<rparr>"
  have "sched_inv ?s C" "running ?s p" "spin_free (ptablelock ?s)"
    using assms by (simp_all add: sched_inv_def running_def)
  note y = yield_ok[OF this]
  obtain t where t: "yield ?s = Ok () t" using y by (auto simp: kwp_def split: outcome.splits)
  have "peri t = after_timer H s" using keepsD[OF yield_peri, of ?s "after_timer H s"] t by (simp add: kwp_def)
  then show ?thesis using y t assms(3) unfolding kwp_def trap_timer[OF assms(4)] by simp
qed

end
