(* ===== verification/Kernel.thy ===== *)
theory Kernel
  imports Traps_Ok Processes
begin

text \<open>Properties of the whole kernel: traps on all processors, over the process table of \<open>Processes\<close>.\<close>

section \<open>An example\<close>

text \<open>
  The processes of \<open>Processes\<close> with a controller that always reports the core timer; the state of the peripherals is the value
  last written to the timer.
\<close>

definition timer_core :: "u64 core" where
  "timer_core = \<lparr>hw_load = (\<lambda>_ d. (IRQ_CNTPNSIRQ, d)), hw_store = (\<lambda>_ _ d. d), hw_delayus = (\<lambda>_ d. d), hw_delay = (\<lambda>_ d. d),
     vc_reply = (\<lambda>ws _. ws), stack_buf = 0, stack_junk = 0, patience = 1,
     hw_mrs = (\<lambda>_ _. 0), hw_msr = (\<lambda>r x d. if r = CNTP_TVAL_EL0 then x else d)\<rparr>"

definition kern_state :: "u64 trap_sys" where
  "kern_state = proc_sys.extend processes
     (trap_sys.fields 0 (cons_state.fields free_lock (-1) (replicate INPUT_BUF 0) 0 0 0 [] 0) 0xFFFF000000090000
        (\<lambda>b. 0xFFFF0000000a0000 + 0x280 * of_nat b) free_lock 0)"

lemma kernel_simps: "p_cpu kern_state = p_cpu processes" "ptable kern_state = ptable processes" "plists kern_state = plists processes"
  "ptablelock kern_state = ptablelock processes" "cpus kern_state = cpus processes"
  by (simp_all add: kern_state_def proc_sys.defs trap_sys.defs)

lemma kernel_inv: "sched_inv kern_state example_queue" "pinv kern_state" "running kern_state 1"
  using processes_inv processes_pinv processes_running by (auto simp: sched_inv_def pinv_def running_def kernel_simps)

lemma kernel_timer: "timer_fires timer_core kern_state"
  by (simp add: timer_fires_def timer_core_def hw.defs EC_UNKNOWN_def IRQ_CNTPNSIRQ_def)


section \<open>The process table\<close>





section \<open>Preemption\<close>

text \<open>
  C7. When the core timer interrupts a running process, the trap returns: the timer is set for the next period, and the process is
  runnable, at the end of the run queue of its priority; its processor is free for the scheduler and nothing else has changed in the table.
\<close>

theorem timer_preempts:
  assumes "sched_inv s C" "running s p" "spin_free (ptablelock s)" "timer_fires H s"
  shows "kok (trap H lc junk) (\<lambda>_ t.
    sched_inv t (C(Prio (p_prio (ptable s ! p)) := C (Prio (p_prio (ptable s ! p))) @ [Plist p]))
    \<and> ptable t = (ptable s)[p := (ptable s ! p)\<lparr>p_state := RUNNABLE\<rparr>] \<and> cpus t = (cpus s)[p_cpu s := None]
    \<and> spin_free (ptablelock t) \<and> peri t = after_timer H s) s"
  by (rule preempted[OF assms])

theorem timer_preempts_witness:
  "\<forall>lc. kok (trap timer_core lc []) (\<lambda>_ t. cpus t ! 0 = None \<and> p_state (ptable t ! 1) = RUNNABLE \<and> peri t = 19200000) kern_state"
proof
  fix lc
  have "spin_free (ptablelock kern_state)" by (simp add: kernel_simps processes_def)
  moreover have "after_timer timer_core kern_state = 19200000" by (simp add: after_timer_def timer_core_def dt_def)
  ultimately show "kok (trap timer_core lc []) (\<lambda>_ t. cpus t ! 0 = None \<and> p_state (ptable t ! 1) = RUNNABLE \<and> peri t = 19200000) kern_state"
    using timer_preempts[OF kernel_inv(1,3) _ kernel_timer, of lc "[]"]
    by (auto elim!: kwp_conseq simp: kernel_simps processes_def NPROC_def)
qed

end
