(* ===== verification/Spec2Isabelle.thy ===== *)
theory Spec2Isabelle
  imports Foundations Storage Filesystem Processes Services Programs Devices Kernel
begin

text \<open>
  A verification development of xv6 on ARMv8: a small Unix-like kernel for the Raspberry Pi 3 with
  four processors, a journalling file system on an SD card and a serial console.

  \<^bold>\<open>The program.\<close> User programs enter the kernel by a trap; \<^verbatim>\<open>syscall\<close> (\<^verbatim>\<open>kern/syscall.c\<close>) reads the number
  of the call from the trap frame and calls a handler of \<^verbatim>\<open>kern/sysfile.c\<close> or \<^verbatim>\<open>kern/sysproc.c\<close>, which
  fetch their arguments from the frame and from user memory. The handlers for files work on the open
  files of \<^verbatim>\<open>kern/file.c\<close>, those on the inodes, directories and path names of \<^verbatim>\<open>kern/fs.c\<close>, those on disk
  blocks through the write-ahead log (\<^verbatim>\<open>kern/log.c\<close>), the buffer cache (\<^verbatim>\<open>kern/bio.c\<close>) and the request queue of
  the card driver (\<^verbatim>\<open>kern/sd.c\<close>). The handlers for processes work on the process table and scheduler of
  \<^verbatim>\<open>kern/proc.c\<close>; user memory is the page tables of \<^verbatim>\<open>kern/vm.c\<close> over the page allocator \<^verbatim>\<open>kern/kalloc.c\<close>;
  \<^verbatim>\<open>kern/exec.c\<close> fills it from a program file. Characters from the serial line go through the line
  discipline of \<^verbatim>\<open>kern/console.c\<close> to processes that read the console. Everything uses the lists of
  \<^verbatim>\<open>kern/list.c\<close>, the locks of \<^verbatim>\<open>kern/spinlock.c\<close> and \<^verbatim>\<open>kern/sleeplock.c\<close>, and the routines of \<^verbatim>\<open>inc/string.h\<close>.
  The disk image comes from the host program \<^verbatim>\<open>user/src/mkfs/main.c\<close>, and the shell \<^verbatim>\<open>user/src/sh/main.c\<close> is the
  main client of the system calls.

  \<^bold>\<open>How code is modelled.\<close> \<open>Prelude\<close> holds the outcome monad: a routine is a function from the state to
  \<open>Ok value state\<close> or to a \<open>Fault\<close>, and the faults are the ways in which the C code does not return
  (\<open>Panic\<close>, \<open>Spin\<close>, \<open>Block\<close>, \<open>Undef\<close>). \<open>kwp\<close> is its weakest precondition and \<open>kok\<close> the total form, which
  also says that the routine returns. Machine integers are words of their width. Every \<^verbatim>\<open>struct\<close> is a
  record; the state of a component is a record that extends the states of the components it calls
  (\<open>sd_state\<close>, \<open>bio_state\<close>, \<open>log_state\<close>, \<open>fs_state\<close>, \<open>file_state\<close>, \<open>cons_state\<close> on the side of files; \<open>mem_state\<close>,
  \<open>vm_state\<close> on the side of memory; \<open>proc_sys\<close> holds both and the process table). Pointers to table
  entries are indices; the intrusive lists are an explicit heap of nodes.

  \<^bold>\<open>Theories.\<close>
  \<^item> \<open>Linked_List\<close>: \<^verbatim>\<open>kern/list.c\<close>, \<^verbatim>\<open>inc/list.h\<close>. The routines on a heap of nodes; \<open>dlist\<close> relates a circular chain
    to a list; the locale \<open>deque\<close> is the contract, interpreted as \<open>lh\<close> on the routines.
  \<^item> \<open>Locks\<close>: \<^verbatim>\<open>kern/spinlock.c\<close>, \<^verbatim>\<open>kern/sleeplock.c\<close>. Operations on one lock, and the interleaving of the
    processors' atomic steps as an inductive relation with its mutual exclusion invariant.
  \<^item> \<open>Sd_Queue\<close>, \<open>Bio\<close>, \<open>Log\<close>: \<^verbatim>\<open>sd_start\<close>, \<^verbatim>\<open>sd_intr\<close>, \<^verbatim>\<open>sdrw\<close> of \<^verbatim>\<open>kern/sd.c\<close>, all of \<^verbatim>\<open>kern/bio.c\<close> and \<^verbatim>\<open>kern/log.c\<close>. The
    locale \<open>block_cache\<close> states what a client of the cache relies on, over the view \<open>blk\<close> of the disk;
    \<open>bc\<close> interprets it on the cache and \<open>lg\<close> on the cache below an idle log.
  \<^item> \<open>CString\<close>: \<^verbatim>\<open>inc/string.h\<close>.
  \<^item> \<open>Fs\<close>, \<open>Inode\<close>, \<open>Dirs\<close>: \<^verbatim>\<open>kern/fs.c\<close> with the formats of \<^verbatim>\<open>inc/fs.h\<close>: the operations in \<open>Fs\<close> and \<open>Dirs\<close>, the
    correctness of the inode layer in \<open>Inode\<close> over the view of a file as its list of bytes.
  \<^item> \<open>File\<close>: \<^verbatim>\<open>kern/file.c\<close>.
  \<^item> \<open>Kalloc\<close>, \<open>Vm\<close>: \<^verbatim>\<open>kern/kalloc.c\<close> and \<^verbatim>\<open>kern/vm.c\<close>. The locale \<open>page_pool\<close> is the contract of the allocator,
    interpreted as \<open>kp\<close>; \<open>pte\<close> is the abstract translation of a page table.
  \<^item> \<open>Proc\<close>, \<open>Sched\<close>, \<open>Kstep\<close>: \<^verbatim>\<open>kern/proc.c\<close>. The operations; the invariant of states and queues with the effect
    of every operation on them; the interleaving of kernel calls on all processors and the proof that
    the invariant holds in every reachable state.
  \<^item> \<open>Args\<close>, \<open>Sysfile\<close>, \<open>Exec\<close>, \<open>Syscall\<close>: \<^verbatim>\<open>kern/syscall.c\<close>, \<^verbatim>\<open>kern/sysfile.c\<close>, \<^verbatim>\<open>kern/exec.c\<close>, \<^verbatim>\<open>kern/sysproc.c\<close>.
  \<^item> \<open>Console\<close>: \<^verbatim>\<open>kern/console.c\<close>; \<open>line_step\<close> is the specification of line editing on lists.
  \<^item> \<open>Shell\<close>, \<open>Shell_Parse\<close>, \<open>Shell_Run\<close>: \<^verbatim>\<open>user/src/sh/main.c\<close>. The program, with the structures of the parser in an explicit
    heap and the system calls of \<^verbatim>\<open>runcmd\<close> as a tree (\<open>act\<close>) over their results; tokens and commands (\<open>ast\<close>) as the specification of
    the parser, with a simulation between the two; the programs that a command starts and how they are connected.
  \<^item> \<open>Mkfs\<close>, \<open>Mkfs_Files\<close>, \<open>Mkfs_Image\<close>: \<^verbatim>\<open>user/src/mkfs/main.c\<close>. The program; the view \<open>fsys\<close> of the image as the contents of
    its inodes, on which \<^verbatim>\<open>iappend\<close> appends; the finished image, read with the decoders of \<open>Fs\<close> and \<open>Dirs\<close>.
  \<^item> \<open>Sd_Host\<close>, \<open>Sd_Host_Ok\<close>, \<open>Sd_Csd\<close>: the lower half of \<^verbatim>\<open>kern/sd.c\<close> (commands, reset, clock, \<^verbatim>\<open>sdInit\<close>, the registers of the card, the
    partition table) and \<^verbatim>\<open>kern/mbox.c\<close>, over the loads, stores and delays of an arbitrary device; the calculus of what its routines
    change and return; the polling loop as the step of \<open>Sd_Queue\<close>; the arithmetic of the clock divider and of the capacity.
  \<^item> \<open>Traps\<close>, \<open>Traps_Ok\<close>: \<^verbatim>\<open>kern/trap.c\<close>, \<^verbatim>\<open>kern/timer.c\<close>, \<^verbatim>\<open>kern/clock.c\<close> and \<^verbatim>\<open>kern/uart.c\<close>. The state \<open>trap_sys\<close> joins processes, files, console and
    devices, so that a trap runs the handlers of the other theories, and the wakeups that the console and the card only note there are made; the
    invariant of the process table under every trap.
  \<^item> \<open>Boot_Map\<close>: \<^verbatim>\<open>kern/kpgdir.c\<close>, with the walk of the processor through its tables.
  \<^item> \<open>Machine\<close>: a concrete machine with a small disk image, used by the examples.
  \<^item> \<open>Foundations\<close>, \<open>Storage\<close>, \<open>Filesystem\<close>, \<open>Processes\<close>, \<open>Services\<close>, \<open>Programs\<close>, \<open>Devices\<close>, \<open>Kernel\<close>: the properties, with an example for each
    property that has hypotheses.

  \<^bold>\<open>What is shown.\<close>
  \<^item> Storage: a request queue that reads and writes the card; a cache with one buffer per block that always
    returns the current contents; commit makes every recorded block durable and recovery replays it;
    \<^verbatim>\<open>log_write\<close>, however, never records a block.
  \<^item> Files: \<^verbatim>\<open>balloc\<close> and \<^verbatim>\<open>bfree\<close> on the bitmap; reading what was written; the inode and header encodings;
    directory lookup; the decomposition of paths; references of inodes and files.
  \<^item> Memory: the allocator hands out each page once; \<^verbatim>\<open>map_region\<close> changes the translation of exactly its range.
  \<^item> Processes: states, queues and processors agree in every reachable state; the scheduler picks the longest
    waiting process of the highest priority; processes of one priority take turns; no wakeup is lost.
  \<^item> Services: the console's ring implements the line discipline; argument checks of system calls and
    what they miss; descriptor allocation.
  \<^item> Programs: the shell parses what it should and ends on every line, and runs the programs of a command with its
    redirections and pipes; an image of \<^verbatim>\<open>mkfs\<close> has all files, and the kernel's lookup finds them.
  \<^item> Kernel: no sequence of traps, whatever the arguments, the memory and the devices hold, breaks the agreement of process states, queues and
    processors; the core timer preempts the running process.
  \<^item> Devices: the boot tables translate both halves of the address space as \<^verbatim>\<open>V2P\<close> says; the initialisation of the card ends with a
    result that tells whether it succeeded, on any device; waiting on the registers refines the model of the queue; the clock divider and
    the capacity of the card are what the documents of the registers say.

  \<^bold>\<open>Context switches.\<close> \<^verbatim>\<open>swtch\<close> is assembly code. \<open>sched\<close> runs the scheduler's side of a switch on the same
  processor; the process that is switched to later continues in \<open>resumed\<close>, which the ghost field
  \<open>resumes\<close> selects (the return address on its kernel stack). A routine that sleeps while it holds disk
  structures is the fault \<open>Block\<close> in the storage components, which are modelled for one process at a time.

  \<^bold>\<open>Loops.\<close> Loops over a bounded range are structural or carry a termination proof; loops of \<^verbatim>\<open>inc/string.h\<close> that
  end at a zero byte are partial functions, with lemmas that they return when there is one. The others
  have fuel, and running out of it is the fault \<open>Spin\<close>: \<open>free_range_loop\<close>, \<open>map_region_loop\<close>, \<open>uvm_alloc_loop\<close>,
  \<open>uvm_dealloc_loop\<close> and \<open>loadseg_loop\<close> get the pages of the range and a turn or two for its ends;
  \<open>copyout_loop\<close> and \<open>filewrite_loop\<close> get one turn more than bytes, and advance by at least one byte per turn;
  the functions of the shell's parser get four turns per character and four more; \<open>nulterminate\<close> and \<open>runcmd\<close> get one more than the
  bytes for structures, as a child of a structure has a smaller address; \<open>open_console\<close> gets four turns, as the first three fill the descriptors 0 to 2;
  \<open>wakeup1_loop\<close> gets one turn more than there are processes, as a queue holds each process at most once. The
  properties about them are total: they say that the loop returns.
  The polling loops of \<^verbatim>\<open>kern/sd.c\<close> have the counters of the code. The two loops of \<^verbatim>\<open>kern/mbox.c\<close> have no bound and end in \<open>Spin\<close> after
  \<open>patience\<close> turns, a parameter, and so does the loop of \<^verbatim>\<open>console_intr\<close> over the characters of the serial line; no property says that they return.

  \<^bold>\<open>Parameters.\<close> The C library is a git submodule: the flags of \<^verbatim>\<open>fcntl.h\<close>, the layout of \<^verbatim>\<open>struct stat\<close> and of the ELF
  headers are the record \<open>libc\<close>, an argument of the handlers that use them. The answers of the SD card
  are inputs of the state. The hardware below \<open>Sd_Host\<close> is the record \<open>hw\<close>: what a load, a store or a delay does to the device is
  arbitrary. The addresses of the tables in \<open>Boot_Map\<close> are chosen by the linker.

  \<^bold>\<open>Not modelled.\<close> \<^verbatim>\<open>kern/main.c\<close> (the order of the initialisations, and clearing of the memory behind the
  typed states), the assembly code, and the transmit register of the serial line, of which \<open>uart_putchar\<close> is the bytes sent. The benchmark \<^verbatim>\<open>sd_test\<close> and diagnostic output. \<^verbatim>\<open>kern/buddy_kalloc.c\<close>: commented out.
  \<^verbatim>\<open>kern/fs_test.c\<close>: a test that calls a function which no file defines. The user programs \<^verbatim>\<open>cat\<close>, \<^verbatim>\<open>init\<close> and \<^verbatim>\<open>ls\<close>: short clients of the C library. Weak memory ordering:
  memory is sequentially consistent and the critical sections of a spin lock are atomic steps.
\<close>

end
